(* ===== verification/Fshell_Prelude.thy ===== *)
theory Fshell_Prelude
  imports Main "HOL-Library.List_Lexorder" "HOL-Library.Char_ord" "HOL-Library.Sublist"
begin

text \<open>
  Shared material of the development.

  \<^item> strict linear orders on a carrier set (\<open>slo\<close>), with the constructions the comparators
    of the program are built from: pull-back along an injection, reversal, lexicographic
    comparison of component lists;
  \<^item> the interface \<open>std_order\<close>: what a C++ ordered container requires of its comparator.
    The operations of \<open>std::set\<close> and the sorted-range algorithms
    (\<open>set_intersection\<close>, \<open>set_difference\<close>) are modelled on ordered lists and their
    set-level meaning is proved once inside the locale.
\<close>

named_theorems std_simps "set-level meaning of the ordered containers"

section \<open>Errors\<close>

text \<open>
  The exceptions of \<open>src/fshell2/exception\<close> that reach the user, and the exception of the
  argument checks at debug level.
\<close>

datatype fshell_error =
  Query_Processing_Error | Command_Processing_Error | Macro_Processing_Error
| Instrumentation_Error | FShell2_Error | Invalid_Argument

fun rbind :: "'e + 'a \<Rightarrow> ('a \<Rightarrow> 'e + 'b) \<Rightarrow> 'e + 'b" where
  "rbind (Inl e) f = Inl e"
| "rbind (Inr x) f = f x"

lemma rbind_Inr [simp]: "rbind m f = Inr y \<longleftrightarrow> (\<exists>x. m = Inr x \<and> f x = Inr y)"
  by (cases m) auto

text \<open>
  Computations that may fail and that may also not return: \<open>None\<close> stands for a loop that
  does not end (or for exhausted fuel).
\<close>

type_synonym 'a out = "(fshell_error + 'a) option"

fun obind :: "'a out \<Rightarrow> ('a \<Rightarrow> 'b out) \<Rightarrow> 'b out" where
  "obind None f = None"
| "obind (Some (Inl e)) f = Some (Inl e)"
| "obind (Some (Inr x)) f = f x"

lemma obind_Inr [simp]: "obind m f = Some (Inr y) \<longleftrightarrow> (\<exists>x. m = Some (Inr x) \<and> f x = Some (Inr y))"
  by (cases m; cases "the m") auto

text \<open>
  Total correctness of such a computation: it returns, the only exception is a
  \<open>Query_Processing_Error\<close>, and a regular result satisfies \<open>R\<close>.
\<close>

fun returns :: "('a \<Rightarrow> bool) \<Rightarrow> 'a out \<Rightarrow> bool" where
  "returns R None \<longleftrightarrow> False"
| "returns R (Some (Inl e)) \<longleftrightarrow> e = Query_Processing_Error"
| "returns R (Some (Inr x)) \<longleftrightarrow> R x"

lemma returns_bind: "returns R m \<Longrightarrow> (\<And>x. R x \<Longrightarrow> returns S (f x)) \<Longrightarrow> returns S (obind m f)"
  by (cases m; cases "the m") auto

lemma returns_mono: "returns R m \<Longrightarrow> (\<And>x. R x \<Longrightarrow> S x) \<Longrightarrow> returns S m"
  by (cases m; cases "the m") auto

section \<open>Strict linear orders on a carrier\<close>

definition slo :: "('a \<Rightarrow> 'a \<Rightarrow> bool) \<Rightarrow> 'a set \<Rightarrow> bool" where
  "slo lt A \<longleftrightarrow> (\<forall>a\<in>A. \<not> lt a a)
     \<and> (\<forall>a\<in>A. \<forall>b\<in>A. \<forall>c\<in>A. lt a b \<longrightarrow> lt b c \<longrightarrow> lt a c)
     \<and> (\<forall>a\<in>A. \<forall>b\<in>A. a \<noteq> b \<longrightarrow> lt a b \<or> lt b a)"

lemma sloI:
  assumes "\<And>a. a \<in> A \<Longrightarrow> \<not> lt a a"
    and "\<And>a b c. \<lbrakk>a \<in> A; b \<in> A; c \<in> A; lt a b; lt b c\<rbrakk> \<Longrightarrow> lt a c"
    and "\<And>a b. \<lbrakk>a \<in> A; b \<in> A; a \<noteq> b\<rbrakk> \<Longrightarrow> lt a b \<or> lt b a"
  shows "slo lt A"
  unfolding slo_def using assms by blast

lemma slo_irrefl: "slo lt A \<Longrightarrow> a \<in> A \<Longrightarrow> \<not> lt a a"
  by (simp add: slo_def)

lemma slo_trans: "\<lbrakk>slo lt A; lt a b; lt b c; a \<in> A; b \<in> A; c \<in> A\<rbrakk> \<Longrightarrow> lt a c"
  unfolding slo_def by blast

lemma slo_total: "\<lbrakk>slo lt A; a \<in> A; b \<in> A; a \<noteq> b\<rbrakk> \<Longrightarrow> lt a b \<or> lt b a"
  unfolding slo_def by blast

lemma slo_asym: "\<lbrakk>slo lt A; lt a b; a \<in> A; b \<in> A\<rbrakk> \<Longrightarrow> \<not> lt b a"
  by (metis slo_irrefl slo_trans)

lemma slo_subset: "slo lt A \<Longrightarrow> B \<subseteq> A \<Longrightarrow> slo lt B"
  unfolding slo_def by (meson subsetD)

lemma slo_eq_iff: "\<lbrakk>slo lt A; a \<in> A; b \<in> A\<rbrakk> \<Longrightarrow> a = b \<longleftrightarrow> \<not> lt a b \<and> \<not> lt b a"
  using slo_irrefl [of lt A a] slo_total [of lt A a b] by auto

lemma slo_not_lt: "\<lbrakk>slo lt A; a \<in> A; b \<in> A\<rbrakk> \<Longrightarrow> \<not> lt a b \<longleftrightarrow> a = b \<or> lt b a"
  using slo_irrefl [of lt A a] slo_total [of lt A a b] slo_asym [of lt A a b] by auto

lemma slo_trichotomy:
  assumes "slo lt T" "x \<in> T" "y \<in> T"
  shows "lt x y \<and> \<not> lt y x \<and> x \<noteq> y \<or> lt y x \<and> \<not> lt x y \<and> x \<noteq> y \<or> x = y \<and> \<not> lt x x"
  using slo_total [OF assms] slo_irrefl [OF assms(1,2)]
    slo_asym [OF assms(1) _ assms(2,3)] slo_asym [OF assms(1) _ assms(3,2)] by argo

lemma slo_linorder: "slo (\<lambda>a b. a < b) (A :: 'a::linorder set)"
  by (rule sloI) auto

text \<open>The order of a carrier that is injectively described by keys of an ordered carrier.\<close>

lemma slo_pullback:
  assumes "slo r (f ` A)" and inj: "inj_on f A"
    and irr: "\<And>a. a \<in> A \<Longrightarrow> \<not> lt a a"
    and eq: "\<And>a b. \<lbrakk>a \<in> A; b \<in> A; a \<noteq> b\<rbrakk> \<Longrightarrow> lt a b \<longleftrightarrow> r (f a) (f b)"
  shows "slo lt A"
proof (rule sloI)
  fix a b assume ab: "a \<in> A" "b \<in> A" "a \<noteq> b"
  then have "f a \<noteq> f b" using inj by (auto dest: inj_onD)
  then show "lt a b \<or> lt b a" using ab eq slo_total [OF assms(1), of "f a" "f b"] by auto
next
  fix a b c assume abc: "a \<in> A" "b \<in> A" "c \<in> A" "lt a b" "lt b c"
  then have ne: "a \<noteq> b" "b \<noteq> c" using irr by auto
  then have r: "r (f a) (f b)" "r (f b) (f c)" using abc eq by auto
  have "r (f a) (f c)" by (rule slo_trans [OF assms(1) r]) (use abc in auto)
  moreover have "a \<noteq> c"
    using r abc slo_asym [OF assms(1), of "f a" "f b"] by auto
  ultimately show "lt a c" using abc eq by auto
qed (rule irr)

lemma slo_converse: "slo lt A \<Longrightarrow> slo (\<lambda>a b. lt b a) A"
  unfolding slo_def by meson

text \<open>
  Lexicographic comparison in the shape the comparators of the program have: the first
  component decides if it is smaller in one direction or the other.
\<close>

fun lex_lt :: "('a \<Rightarrow> 'a \<Rightarrow> bool) \<Rightarrow> 'a list \<Rightarrow> 'a list \<Rightarrow> bool" where
  "lex_lt lt (x # xs) (y # ys) =
     (if lt x y then True else if lt y x then False else lex_lt lt xs ys)"
| "lex_lt lt [] (y # ys) = True"
| "lex_lt lt xs [] = False"

lemma lex_lt_irrefl: "(\<And>x. x \<in> set xs \<Longrightarrow> \<not> lt x x) \<Longrightarrow> \<not> lex_lt lt xs xs"
  by (induction xs) auto

lemma lex_lt_total:
  assumes "slo lt A"
  shows "\<lbrakk>set xs \<subseteq> A; set ys \<subseteq> A; xs \<noteq> ys\<rbrakk> \<Longrightarrow> lex_lt lt xs ys \<or> lex_lt lt ys xs"
proof (induction xs arbitrary: ys)
  case Nil
  then show ?case by (cases ys) auto
next
  case (Cons x xs)
  then show ?case
    using slo_eq_iff [OF assms] by (cases ys) auto
qed

lemma lex_lt_trans:
  assumes "slo lt A"
  shows "\<lbrakk>lex_lt lt xs ys; lex_lt lt ys zs; set xs \<subseteq> A; set ys \<subseteq> A; set zs \<subseteq> A\<rbrakk>
    \<Longrightarrow> lex_lt lt xs zs"
proof (induction xs arbitrary: ys zs)
  case Nil
  then show ?case by (cases zs; cases ys) auto
next
  case (Cons x xs)
  then obtain y ys' where ys: "ys = y # ys'" by (cases ys) auto
  with Cons.prems obtain z zs' where zs: "zs = z # zs'" by (cases zs) auto
  have A: "x \<in> A" "y \<in> A" "z \<in> A" using Cons.prems ys zs by auto
  have IH: "lex_lt lt xs ys' \<Longrightarrow> lex_lt lt ys' zs' \<Longrightarrow> lex_lt lt xs zs'"
    using Cons.IH Cons.prems(3-5) ys zs by auto
  consider "lt x y" | "x = y" "lex_lt lt xs ys'"
    using Cons.prems(1) ys slo_eq_iff [OF assms A(1,2)] by (auto split: if_splits)
  then show ?case
  proof cases
    case 1
    consider "lt y z" | "y = z"
      using Cons.prems(2) ys zs slo_eq_iff [OF assms A(2,3)] by (auto split: if_splits)
    then have "lt x z" using 1 slo_trans [OF assms _ _ A] by cases auto
    then show ?thesis by (simp add: zs)
  next
    case 2
    consider "lt y z" | "y = z" "lex_lt lt ys' zs'"
      using Cons.prems(2) ys zs slo_eq_iff [OF assms A(2,3)] by (auto split: if_splits)
    then show ?thesis using 2 IH by cases (auto simp: zs)
  qed
qed

lemma slo_lex:
  assumes "slo lt A"
  shows "slo (lex_lt lt) {xs. set xs \<subseteq> A}"
proof (rule sloI)
  fix xs assume "xs \<in> {xs. set xs \<subseteq> A}"
  then show "\<not> lex_lt lt xs xs" using slo_irrefl [OF assms] by (intro lex_lt_irrefl) auto
next
  fix xs ys zs assume "xs \<in> {xs. set xs \<subseteq> A}" "ys \<in> {xs. set xs \<subseteq> A}" "zs \<in> {xs. set xs \<subseteq> A}"
    and "lex_lt lt xs ys" "lex_lt lt ys zs"
  then show "lex_lt lt xs zs" using lex_lt_trans [OF assms] by simp
next
  fix xs ys assume "xs \<in> {xs. set xs \<subseteq> A}" "ys \<in> {xs. set xs \<subseteq> A}" "xs \<noteq> ys"
  then show "lex_lt lt xs ys \<or> lex_lt lt ys xs" using lex_lt_total [OF assms] by simp
qed

section \<open>The ordered containers of the standard library\<close>

text \<open>
  A \<open>std::set\<close> is the list of its elements in iteration order. All access goes through the
  comparator: \<open>insert\<close> and \<open>find\<close> locate the first element that is not less than
  the key and test whether the key is less than it; the two sorted-range algorithms are the
  merges the standard prescribes.
\<close>

fun std_insert :: "('a \<Rightarrow> 'a \<Rightarrow> bool) \<Rightarrow> 'a \<Rightarrow> 'a list \<Rightarrow> 'a list" where
  "std_insert lt x [] = [x]"
| "std_insert lt x (y # ys) =
     (if lt y x then y # std_insert lt x ys
      else if lt x y then x # y # ys else y # ys)"

fun std_find :: "('a \<Rightarrow> 'a \<Rightarrow> bool) \<Rightarrow> 'a \<Rightarrow> 'a list \<Rightarrow> 'a option" where
  "std_find lt x [] = None"
| "std_find lt x (y # ys) =
     (if lt y x then std_find lt x ys else if lt x y then None else Some y)"

fun std_erase :: "('a \<Rightarrow> 'a \<Rightarrow> bool) \<Rightarrow> 'a \<Rightarrow> 'a list \<Rightarrow> 'a list" where
  "std_erase lt x [] = []"
| "std_erase lt x (y # ys) =
     (if lt y x then y # std_erase lt x ys else if lt x y then y # ys else ys)"

fun std_set_intersection :: "('a \<Rightarrow> 'a \<Rightarrow> bool) \<Rightarrow> 'a list \<Rightarrow> 'a list \<Rightarrow> 'a list" where
  "std_set_intersection lt (x # xs) (y # ys) =
     (if lt x y then std_set_intersection lt xs (y # ys)
      else if lt y x then std_set_intersection lt (x # xs) ys
      else x # std_set_intersection lt xs ys)"
| "std_set_intersection lt xs ys = []"

fun std_set_difference :: "('a \<Rightarrow> 'a \<Rightarrow> bool) \<Rightarrow> 'a list \<Rightarrow> 'a list \<Rightarrow> 'a list" where
  "std_set_difference lt (x # xs) (y # ys) =
     (if lt x y then x # std_set_difference lt xs (y # ys)
      else if lt y x then std_set_difference lt (x # xs) ys
      else std_set_difference lt xs ys)"
| "std_set_difference lt [] ys = []"
| "std_set_difference lt xs [] = xs"

abbreviation std_insert_range :: "('a \<Rightarrow> 'a \<Rightarrow> bool) \<Rightarrow> 'a list \<Rightarrow> 'a list \<Rightarrow> 'a list" where
  "std_insert_range lt xs ys \<equiv> fold (std_insert lt) xs ys"

text \<open>
  What the containers require of a comparator and keep as their own invariant: all keys lie
  in a carrier on which the comparator is a strict linear order, and the iteration order is
  strictly increasing.
\<close>

locale std_order =
  fixes lt :: "'a \<Rightarrow> 'a \<Rightarrow> bool" and A :: "'a set"
  assumes slo: "slo lt A"
begin

definition ordered :: "'a list \<Rightarrow> bool" where
  "ordered xs \<longleftrightarrow> set xs \<subseteq> A \<and> sorted_wrt lt xs"

lemma ordered_Nil [simp]: "ordered []"
  by (simp add: ordered_def)

lemma ordered_Cons: "ordered (x # xs) \<longleftrightarrow> x \<in> A \<and> ordered xs \<and> (\<forall>y\<in>set xs. lt x y)"
  by (auto simp: ordered_def)

lemma ordered_carrier: "ordered xs \<Longrightarrow> x \<in> set xs \<Longrightarrow> x \<in> A"
  by (auto simp: ordered_def)

lemma ordered_distinct: "ordered xs \<Longrightarrow> distinct xs"
  by (induction xs) (use slo_irrefl [OF slo] in \<open>auto simp: ordered_Cons\<close>)

lemma less_head: "\<lbrakk>lt x y; ordered (y # ys); x \<in> A\<rbrakk> \<Longrightarrow> x \<notin> set (y # ys)"
  using slo_irrefl [OF slo] slo_asym [OF slo] by (auto simp: ordered_Cons)

lemma ordered_unique: "\<lbrakk>ordered xs; ordered ys; set xs = set ys\<rbrakk> \<Longrightarrow> xs = ys"
proof (induction xs arbitrary: ys)
  case Nil
  then show ?case by simp
next
  case (Cons x xs)
  then obtain y ys' where ys: "ys = y # ys'" by (cases ys) auto
  have A: "x \<in> A" "y \<in> A" using Cons.prems ys by (auto simp: ordered_Cons)
  have "x = y"
  proof (rule ccontr)
    assume "x \<noteq> y"
    then have "lt x y" "lt y x" using Cons.prems ys by (auto simp: ordered_Cons)
    then show False using slo_asym [OF slo] A by blast
  qed
  moreover have "set xs = set ys'"
    using Cons.prems ys \<open>x = y\<close> ordered_distinct by (metis distinct.simps(2) insert_ident list.simps(15))
  ultimately show ?case using Cons ys by (auto simp: ordered_Cons)
qed

lemma set_std_insert [std_simps]:
  "\<lbrakk>ordered ys; x \<in> A\<rbrakk> \<Longrightarrow> set (std_insert lt x ys) = insert x (set ys)"
  by (induction ys) (use slo_eq_iff [OF slo] in \<open>auto simp: ordered_Cons\<close>)

lemma ordered_std_insert [std_simps]:
  "\<lbrakk>ordered ys; x \<in> A\<rbrakk> \<Longrightarrow> ordered (std_insert lt x ys)"
proof (induction ys)
  case (Cons y ys)
  have "lt y x \<or> lt x y \<or> x = y" using Cons.prems slo_total [OF slo] by (auto simp: ordered_Cons)
  then show ?case
  proof (elim disjE)
    assume "lt x y"
    moreover have "lt x z" if "z \<in> set ys" for z
      using that Cons.prems \<open>lt x y\<close>
      by (intro slo_trans [OF slo \<open>lt x y\<close>]) (auto simp: ordered_Cons intro: ordered_carrier)
    moreover have "\<not> lt y x"
      using Cons.prems \<open>lt x y\<close> by (intro slo_asym [OF slo]) (auto simp: ordered_Cons)
    ultimately show ?thesis using Cons.prems by (simp add: ordered_Cons)
  qed (use Cons in \<open>auto simp: ordered_Cons set_std_insert\<close>)
qed (simp add: ordered_Cons)

lemma ordered_insert_range [std_simps]:
  "\<lbrakk>ordered ys; set xs \<subseteq> A\<rbrakk> \<Longrightarrow> ordered (std_insert_range lt xs ys)"
  by (induction xs arbitrary: ys) (auto simp: std_simps)

lemma set_insert_range [std_simps]:
  "\<lbrakk>ordered ys; set xs \<subseteq> A\<rbrakk> \<Longrightarrow> set (std_insert_range lt xs ys) = set xs \<union> set ys"
  by (induction xs arbitrary: ys) (auto simp: std_simps)

lemma std_find_Some [std_simps]:
  "\<lbrakk>ordered ys; x \<in> A\<rbrakk> \<Longrightarrow> std_find lt x ys = (if x \<in> set ys then Some x else None)"
proof (induction ys)
  case (Cons y ys)
  then show ?case
    using slo_eq_iff [OF slo, of x y] slo_asym [OF slo, of x y]
    by (auto simp: ordered_Cons dest: slo_asym [OF slo])
qed simp

lemma std_insert_mem:
  "\<lbrakk>ordered ys; x \<in> set ys\<rbrakk> \<Longrightarrow> std_insert lt x ys = ys"
  by (rule ordered_unique) (auto simp: std_simps ordered_carrier)

lemma set_std_erase [std_simps]:
  "\<lbrakk>ordered ys; x \<in> A\<rbrakk> \<Longrightarrow> set (std_erase lt x ys) = set ys - {x}"
proof (induction ys)
  case (Cons y ys)
  then show ?case
    using slo_eq_iff [OF slo, of x y] slo_irrefl [OF slo]
    by (auto simp: ordered_Cons dest: slo_asym [OF slo])
qed simp

lemma ordered_std_erase [std_simps]:
  "\<lbrakk>ordered ys; x \<in> A\<rbrakk> \<Longrightarrow> ordered (std_erase lt x ys)"
  by (induction ys) (auto simp: ordered_Cons set_std_erase)

lemma set_std_intersection [std_simps]:
  "\<lbrakk>ordered xs; ordered ys\<rbrakk> \<Longrightarrow> set (std_set_intersection lt xs ys) = set xs \<inter> set ys"
proof (induction xs arbitrary: ys)
  case (Cons x xs)
  note outer = Cons.IH
  show ?case using Cons.prems(2)
  proof (induction ys)
    case (Cons y ys)
    have xs: "x \<in> A" "ordered xs" "\<And>z. z \<in> set xs \<Longrightarrow> lt x z"
      using \<open>ordered (x # xs)\<close> by (auto simp: ordered_Cons)
    have ys: "y \<in> A" "ordered ys" "\<And>z. z \<in> set ys \<Longrightarrow> lt y z"
      using Cons.prems by (auto simp: ordered_Cons)
    consider "lt x y" | "lt y x" | "x = y" using slo_total [OF slo] xs ys by blast
    then show ?case
    proof cases
      case 1
      then have "x \<notin> set (y # ys)" using Cons.prems xs(1) by (rule less_head)
      then show ?thesis using 1 outer [OF xs(2) Cons.prems] by simp
    next
      case 2
      then have "y \<notin> set (x # xs)" "\<not> lt x y"
        using 2 less_head [OF 2 \<open>ordered (x # xs)\<close> ys(1)] slo_asym [OF slo 2 ys(1) xs(1)] by auto
      then show ?thesis using 2 Cons.IH [OF ys(2)] by simp
    next
      case 3
      then have "x \<notin> set xs" "x \<notin> set ys" "\<not> lt x x"
        using xs ys slo_irrefl [OF slo] by auto
      then show ?thesis using 3 outer [OF xs(2) ys(2)] by auto
    qed
  qed simp
qed simp

lemma set_std_difference [std_simps]:
  "\<lbrakk>ordered xs; ordered ys\<rbrakk> \<Longrightarrow> set (std_set_difference lt xs ys) = set xs - set ys"
proof (induction xs arbitrary: ys)
  case (Cons x xs)
  note outer = Cons.IH
  show ?case using Cons.prems(2)
  proof (induction ys)
    case (Cons y ys)
    have xs: "x \<in> A" "ordered xs" "\<And>z. z \<in> set xs \<Longrightarrow> lt x z"
      using \<open>ordered (x # xs)\<close> by (auto simp: ordered_Cons)
    have ys: "y \<in> A" "ordered ys" "\<And>z. z \<in> set ys \<Longrightarrow> lt y z"
      using Cons.prems by (auto simp: ordered_Cons)
    consider "lt x y" | "lt y x" | "x = y" using slo_total [OF slo] xs ys by blast
    then show ?case
    proof cases
      case 1
      then have "x \<notin> set (y # ys)" using Cons.prems xs(1) by (rule less_head)
      then show ?thesis using 1 outer [OF xs(2) Cons.prems] by auto
    next
      case 2
      then have "y \<notin> set (x # xs)" "\<not> lt x y"
        using 2 less_head [OF 2 \<open>ordered (x # xs)\<close> ys(1)] slo_asym [OF slo 2 ys(1) xs(1)] by auto
      then show ?thesis using 2 Cons.IH [OF ys(2)] by auto
    next
      case 3
      then have "x \<notin> set xs" "x \<notin> set ys" "\<not> lt x x"
        using xs ys slo_irrefl [OF slo] by auto
      then show ?thesis using 3 outer [OF xs(2) ys(2)] by auto
    qed
  qed simp
qed simp

lemma ordered_subseq: "subseq xs ys \<Longrightarrow> ordered ys \<Longrightarrow> ordered xs"
  by (induction rule: list_emb.induct) (auto simp: ordered_Cons dest: list_emb_set)

lemma subseq_std_intersection: "subseq (std_set_intersection lt xs ys) xs"
  by (induction xs arbitrary: ys) (simp, induct_tac ys, auto)

lemma ordered_std_intersection [std_simps]:
  "ordered xs \<Longrightarrow> ordered (std_set_intersection lt xs ys)"
  using ordered_subseq subseq_std_intersection by blast

lemma subseq_std_difference: "subseq (std_set_difference lt xs ys) xs"
  by (induction xs arbitrary: ys) (simp, induct_tac ys, auto)

lemma ordered_std_difference [std_simps]:
  "ordered xs \<Longrightarrow> ordered (std_set_difference lt xs ys)"
  using ordered_subseq subseq_std_difference by blast

end

text \<open>Insertion of several elements into an ordered set.\<close>

lemma set_fold_insort_insert: "set (fold insort_insert xs ys) = set xs \<union> set ys"
  by (induction xs arbitrary: ys) (auto simp: set_insort_insert)

lemma distinct_fold_insort_insert: "distinct ys \<Longrightarrow> distinct (fold insort_insert xs ys)"
  by (induction xs arbitrary: ys) (auto simp: distinct_insort_insert)

end
