(* ===== verification/Fql_Ast.thy ===== *)
theory Fql_Ast
  imports Fshell_Prelude
begin

text \<open>
  The abstract syntax of FQL (\<open>src/fshell2/fql/ast\<close>).

  The seventeen concrete node classes are the constructors of one datatype; the abstract
  classes \<open>Filter_Expr\<close>, \<open>Path_Pattern_Expr\<close>, \<open>Coverage_Pattern_Expr\<close> and
  \<open>ECP_Atom\<close> are predicates on it and \<open>well_typed\<close> is the static typing of the member
  pointers. Every node carries its address: a node is immutable from the moment its factory
  hands it out, so the tree below a pointer can be stored by value, while comparisons of
  pointers stay visible as comparisons of addresses.

  The expression of a \<open>Predicate\<close> is CBMC's \<open>exprt\<close>, here a type variable of class
  \<open>linorder\<close>: the code relies on its \<open>==\<close> and \<open><\<close> only.
\<close>

type_synonym addr = nat

datatype filter_function_t =
  F_IDENTITY | F_FILE | F_LINE | F_COLUMN | F_FUNC | F_LABEL | F_CALL | F_CALLS | F_ENTRY
| F_EXIT | F_EXPR | F_REGEXP | F_BASICBLOCKENTRY | F_CONDITIONEDGE | F_DECISIONEDGE
| F_CONDITIONGRAPH | F_DEF | F_USE | F_STMTTYPE

text \<open>The numeric values of the enumerators, on which \<open><\<close> of the enumeration works.\<close>

primrec filter_function_val :: "filter_function_t \<Rightarrow> int" where
  "filter_function_val F_IDENTITY = 0"
| "filter_function_val F_FILE = 1"
| "filter_function_val F_LINE = 2"
| "filter_function_val F_COLUMN = 3"
| "filter_function_val F_FUNC = 4"
| "filter_function_val F_LABEL = 5"
| "filter_function_val F_CALL = 6"
| "filter_function_val F_CALLS = 7"
| "filter_function_val F_ENTRY = 8"
| "filter_function_val F_EXIT = 9"
| "filter_function_val F_EXPR = 10"
| "filter_function_val F_REGEXP = 11"
| "filter_function_val F_BASICBLOCKENTRY = 12"
| "filter_function_val F_CONDITIONEDGE = 13"
| "filter_function_val F_DECISIONEDGE = 14"
| "filter_function_val F_CONDITIONGRAPH = 15"
| "filter_function_val F_DEF = 16"
| "filter_function_val F_USE = 17"
| "filter_function_val F_STMTTYPE = 18"

lemma filter_function_val_inject [simp]:
  "filter_function_val f = filter_function_val g \<longleftrightarrow> f = g"
  by (cases f; cases g) simp_all

instantiation filter_function_t :: linorder
begin

definition less_eq_filter_function_t :: "filter_function_t \<Rightarrow> filter_function_t \<Rightarrow> bool" where
  "f \<le> g \<longleftrightarrow> filter_function_val f \<le> filter_function_val g"

definition less_filter_function_t :: "filter_function_t \<Rightarrow> filter_function_t \<Rightarrow> bool" where
  "f < g \<longleftrightarrow> filter_function_val f < filter_function_val g"

instance
  by standard (auto simp: less_eq_filter_function_t_def less_filter_function_t_def)

end

datatype 'e fql_node =
  CP_Alternative addr "'e fql_node" "'e fql_node"
| CP_Concat addr "'e fql_node" "'e fql_node"
| Depcov addr "'e fql_node" "'e fql_node" "'e fql_node"
| Edgecov addr "'e fql_node"
| Filter_Compose addr "'e fql_node" "'e fql_node"
| Filter_Function addr filter_function_t int string
| Filter_Intersection addr "'e fql_node" "'e fql_node"
| Filter_Setminus addr "'e fql_node" "'e fql_node"
| Filter_Union addr "'e fql_node" "'e fql_node"
| Nodecov addr "'e fql_node"
| PP_Alternative addr "'e fql_node" "'e fql_node"
| PP_Concat addr "'e fql_node" "'e fql_node"
| Pathcov addr "'e fql_node" int
| Predicate addr "'e option"
| Quote addr "'e fql_node"
| Query addr "'e fql_node option" "'e fql_node" "'e fql_node option"
| Repeat addr "'e fql_node" int int

text \<open>The concrete classes, in the lexicographic order of their names.\<close>

datatype fql_class =
  C_CP_Alternative | C_CP_Concat | C_Depcov | C_Edgecov | C_Filter_Compose
| C_Filter_Function | C_Filter_Intersection | C_Filter_Setminus | C_Filter_Union
| C_Nodecov | C_PP_Alternative | C_PP_Concat | C_Pathcov | C_Predicate | C_Quote
| C_Query | C_Repeat

definition fql_classes :: "fql_class list" where
  "fql_classes = [C_CP_Alternative, C_CP_Concat, C_Depcov, C_Edgecov, C_Filter_Compose,
     C_Filter_Function, C_Filter_Intersection, C_Filter_Setminus, C_Filter_Union, C_Nodecov,
     C_PP_Alternative, C_PP_Concat, C_Pathcov, C_Predicate, C_Quote, C_Query, C_Repeat]"

primrec class_rank :: "fql_class \<Rightarrow> int" where
  "class_rank C_CP_Alternative = 0"
| "class_rank C_CP_Concat = 1"
| "class_rank C_Depcov = 2"
| "class_rank C_Edgecov = 3"
| "class_rank C_Filter_Compose = 4"
| "class_rank C_Filter_Function = 5"
| "class_rank C_Filter_Intersection = 6"
| "class_rank C_Filter_Setminus = 7"
| "class_rank C_Filter_Union = 8"
| "class_rank C_Nodecov = 9"
| "class_rank C_PP_Alternative = 10"
| "class_rank C_PP_Concat = 11"
| "class_rank C_Pathcov = 12"
| "class_rank C_Predicate = 13"
| "class_rank C_Quote = 14"
| "class_rank C_Query = 15"
| "class_rank C_Repeat = 16"

lemma class_rank_inject [simp]: "class_rank c = class_rank d \<longleftrightarrow> c = d"
  by (cases c; cases d) simp_all

instantiation fql_class :: linorder
begin

definition less_eq_fql_class :: "fql_class \<Rightarrow> fql_class \<Rightarrow> bool" where
  "c \<le> d \<longleftrightarrow> class_rank c \<le> class_rank d"

definition less_fql_class :: "fql_class \<Rightarrow> fql_class \<Rightarrow> bool" where
  "c < d \<longleftrightarrow> class_rank c < class_rank d"

instance
  by standard (auto simp: less_eq_fql_class_def less_fql_class_def)

end

primrec node_class :: "'e fql_node \<Rightarrow> fql_class" where
  "node_class (CP_Alternative p a b) = C_CP_Alternative"
| "node_class (CP_Concat p a b) = C_CP_Concat"
| "node_class (Depcov p a b c) = C_Depcov"
| "node_class (Edgecov p f) = C_Edgecov"
| "node_class (Filter_Compose p a b) = C_Filter_Compose"
| "node_class (Filter_Function p t i s) = C_Filter_Function"
| "node_class (Filter_Intersection p a b) = C_Filter_Intersection"
| "node_class (Filter_Setminus p a b) = C_Filter_Setminus"
| "node_class (Filter_Union p a b) = C_Filter_Union"
| "node_class (Nodecov p f) = C_Nodecov"
| "node_class (PP_Alternative p a b) = C_PP_Alternative"
| "node_class (PP_Concat p a b) = C_PP_Concat"
| "node_class (Pathcov p f k) = C_Pathcov"
| "node_class (Predicate p e) = C_Predicate"
| "node_class (Quote p q) = C_Quote"
| "node_class (Query p x c y) = C_Query"
| "node_class (Repeat p q l u) = C_Repeat"

primrec node_addr :: "'e fql_node \<Rightarrow> addr" where
  "node_addr (CP_Alternative p a b) = p"
| "node_addr (CP_Concat p a b) = p"
| "node_addr (Depcov p a b c) = p"
| "node_addr (Edgecov p f) = p"
| "node_addr (Filter_Compose p a b) = p"
| "node_addr (Filter_Function p t i s) = p"
| "node_addr (Filter_Intersection p a b) = p"
| "node_addr (Filter_Setminus p a b) = p"
| "node_addr (Filter_Union p a b) = p"
| "node_addr (Nodecov p f) = p"
| "node_addr (PP_Alternative p a b) = p"
| "node_addr (PP_Concat p a b) = p"
| "node_addr (Pathcov p f k) = p"
| "node_addr (Predicate p e) = p"
| "node_addr (Quote p q) = p"
| "node_addr (Query p x c y) = p"
| "node_addr (Repeat p q l u) = p"

text \<open>The non-null member pointers of a node, in declaration order.\<close>

fun option_list :: "'a option \<Rightarrow> 'a list" where
  "option_list None = []"
| "option_list (Some x) = [x]"

lemma set_option_list [simp]: "set (option_list x) = set_option x"
  by (cases x) auto

primrec children :: "'e fql_node \<Rightarrow> 'e fql_node list" where
  "children (CP_Alternative p a b) = [a, b]"
| "children (CP_Concat p a b) = [a, b]"
| "children (Depcov p a b c) = [a, b, c]"
| "children (Edgecov p f) = [f]"
| "children (Filter_Compose p a b) = [a, b]"
| "children (Filter_Function p t i s) = []"
| "children (Filter_Intersection p a b) = [a, b]"
| "children (Filter_Setminus p a b) = [a, b]"
| "children (Filter_Union p a b) = [a, b]"
| "children (Nodecov p f) = [f]"
| "children (PP_Alternative p a b) = [a, b]"
| "children (PP_Concat p a b) = [a, b]"
| "children (Pathcov p f k) = [f]"
| "children (Predicate p e) = []"
| "children (Quote p q) = [q]"
| "children (Query p x c y) = option_list x @ [c] @ option_list y"
| "children (Repeat p q l u) = [q]"

lemma size_children: "c \<in> set (children n) \<Longrightarrow> size c < size n"
  by (cases n) (auto simp: elem_set)

section \<open>Static types\<close>

definition is_filter :: "'e fql_node \<Rightarrow> bool" where
  "is_filter n \<longleftrightarrow> node_class n \<in> {C_Filter_Compose, C_Filter_Function, C_Filter_Intersection,
     C_Filter_Setminus, C_Filter_Union}"

definition is_atom :: "'e fql_node \<Rightarrow> bool" where
  "is_atom n \<longleftrightarrow> node_class n \<in> {C_Depcov, C_Edgecov, C_Nodecov, C_Pathcov, C_Predicate}"

definition is_pp :: "'e fql_node \<Rightarrow> bool" where
  "is_pp n \<longleftrightarrow> is_atom n \<or> node_class n \<in> {C_PP_Alternative, C_PP_Concat, C_Repeat}"

definition is_cp :: "'e fql_node \<Rightarrow> bool" where
  "is_cp n \<longleftrightarrow> is_atom n \<or> node_class n \<in> {C_CP_Alternative, C_CP_Concat, C_Quote}"

lemmas is_defs = is_filter_def is_atom_def is_pp_def is_cp_def

fun well_typed :: "'e fql_node \<Rightarrow> bool" where
  "well_typed (CP_Alternative p a b) \<longleftrightarrow> is_cp a \<and> is_cp b \<and> well_typed a \<and> well_typed b"
| "well_typed (CP_Concat p a b) \<longleftrightarrow> is_cp a \<and> is_cp b \<and> well_typed a \<and> well_typed b"
| "well_typed (Depcov p a b c) \<longleftrightarrow> is_filter a \<and> is_filter b \<and> is_filter c
     \<and> well_typed a \<and> well_typed b \<and> well_typed c"
| "well_typed (Edgecov p f) \<longleftrightarrow> is_filter f \<and> well_typed f"
| "well_typed (Filter_Compose p a b) \<longleftrightarrow> is_filter a \<and> is_filter b \<and> well_typed a \<and> well_typed b"
| "well_typed (Filter_Function p t i s) \<longleftrightarrow> True"
| "well_typed (Filter_Intersection p a b) \<longleftrightarrow> is_filter a \<and> is_filter b \<and> well_typed a \<and> well_typed b"
| "well_typed (Filter_Setminus p a b) \<longleftrightarrow> is_filter a \<and> is_filter b \<and> well_typed a \<and> well_typed b"
| "well_typed (Filter_Union p a b) \<longleftrightarrow> is_filter a \<and> is_filter b \<and> well_typed a \<and> well_typed b"
| "well_typed (Nodecov p f) \<longleftrightarrow> is_filter f \<and> well_typed f"
| "well_typed (PP_Alternative p a b) \<longleftrightarrow> is_pp a \<and> is_pp b \<and> well_typed a \<and> well_typed b"
| "well_typed (PP_Concat p a b) \<longleftrightarrow> is_pp a \<and> is_pp b \<and> well_typed a \<and> well_typed b"
| "well_typed (Pathcov p f k) \<longleftrightarrow> is_filter f \<and> well_typed f"
| "well_typed (Predicate p e) \<longleftrightarrow> True"
| "well_typed (Quote p q) \<longleftrightarrow> is_pp q \<and> well_typed q"
| "well_typed (Query p None c None) \<longleftrightarrow> is_cp c \<and> well_typed c"
| "well_typed (Query p None c (Some y)) \<longleftrightarrow> is_cp c \<and> well_typed c \<and> is_pp y \<and> well_typed y"
| "well_typed (Query p (Some x) c None) \<longleftrightarrow> is_filter x \<and> well_typed x \<and> is_cp c \<and> well_typed c"
| "well_typed (Query p (Some x) c (Some y)) \<longleftrightarrow> is_filter x \<and> well_typed x \<and> is_cp c \<and> well_typed c
     \<and> is_pp y \<and> well_typed y"
| "well_typed (Repeat p q l u) \<longleftrightarrow> is_pp q \<and> well_typed q"

end
