(* ===== verification/Fql_Node_Lt.thy ===== *)
theory Fql_Node_Lt
  imports Fql_Ast
begin

text \<open>
  The order of FQL nodes (\<open>src/fshell2/fql/ast/fql_node_lt_visitor.hpp\<close>), used by the
  \<open>std::set\<close> inside every node factory.

  One definition per node class \<open>X\<close>: \<open>cmp_lt_X\<close> takes the fields of the left node
  and the right node and holds the comparison of two \<open>X\<close> nodes together with the row of
  \<open>LT_COMPARISON_TRUE\<close> and \<open>LT_COMPARISON_FALSE\<close> instances of \<open>X\<close>. The recursive
  comparisons of member pointers go through the parameter \<open>lt\<close>, which the recursive
  visitor \<open>cmp_lt\<close> instantiates by itself.

  The theory shows that \<open>cmp_lt\<close> is a strict linear order on every canonical set of nodes
  (closed under children, one address per node, one node per structure), and what goes wrong
  outside of those sets.
\<close>

section \<open>The comparators\<close>

text \<open>
  The optional member pointers of a \<open>Query\<close>: equal pointers and equivalent nodes leave the
  decision open; a present pointer is less than an absent one.
\<close>

definition lt_optional ::
  "('e fql_node \<Rightarrow> 'e fql_node \<Rightarrow> bool) \<Rightarrow> 'e fql_node option \<Rightarrow> 'e fql_node option \<Rightarrow> bool option" where
  "lt_optional lt x y = (case (x, y) of
      (None, None) \<Rightarrow> None
    | (Some a, None) \<Rightarrow> Some True
    | (None, Some b) \<Rightarrow> Some False
    | (Some a, Some b) \<Rightarrow>
        (if node_addr a = node_addr b then None
         else if lt a b then Some True else if lt b a then Some False else None))"

definition cmp_lt_CP_Alternative ::
  "('e::linorder fql_node \<Rightarrow> 'e fql_node \<Rightarrow> bool) \<Rightarrow> 'e fql_node \<Rightarrow> 'e fql_node \<Rightarrow> 'e fql_node \<Rightarrow> bool" where
  "cmp_lt_CP_Alternative lt xa ya b = (case b of
      CP_Alternative _ xb yb \<Rightarrow>
       (if lt xa xb then True else if lt xb xa then False else lt ya yb)
    | _ \<Rightarrow> node_class b \<in> {C_CP_Concat, C_Depcov, C_Edgecov, C_Filter_Compose, C_Filter_Function,
        C_Filter_Intersection, C_Filter_Setminus, C_Filter_Union, C_Nodecov,
        C_PP_Alternative, C_PP_Concat, C_Pathcov, C_Predicate, C_Quote, C_Query,
        C_Repeat})"

lemma cmp_lt_CP_Alternative_cong [fundef_cong]:
  assumes "\<And>v w. v \<in> set ([xa, ya]) \<Longrightarrow> w \<in> set (children b) \<Longrightarrow> lt v w = lt' v w"
    and "\<And>v w. v \<in> set ([xa, ya]) \<Longrightarrow> w \<in> set (children b) \<Longrightarrow> lt w v = lt' w v"
  shows "cmp_lt_CP_Alternative lt xa ya b = cmp_lt_CP_Alternative lt' xa ya b"
  using assms by (cases b) (simp_all add: cmp_lt_CP_Alternative_def)

definition cmp_lt_CP_Concat ::
  "('e::linorder fql_node \<Rightarrow> 'e fql_node \<Rightarrow> bool) \<Rightarrow> 'e fql_node \<Rightarrow> 'e fql_node \<Rightarrow> 'e fql_node \<Rightarrow> bool" where
  "cmp_lt_CP_Concat lt xa ya b = (case b of
      CP_Concat _ xb yb \<Rightarrow>
       (if lt xa xb then True else if lt xb xa then False else lt ya yb)
    | _ \<Rightarrow> node_class b \<in> {C_Depcov, C_Edgecov, C_Filter_Compose, C_Filter_Function, C_Filter_Intersection,
        C_Filter_Setminus, C_Filter_Union, C_Nodecov, C_PP_Alternative, C_PP_Concat,
        C_Pathcov, C_Predicate, C_Quote, C_Query, C_Repeat})"

lemma cmp_lt_CP_Concat_cong [fundef_cong]:
  assumes "\<And>v w. v \<in> set ([xa, ya]) \<Longrightarrow> w \<in> set (children b) \<Longrightarrow> lt v w = lt' v w"
    and "\<And>v w. v \<in> set ([xa, ya]) \<Longrightarrow> w \<in> set (children b) \<Longrightarrow> lt w v = lt' w v"
  shows "cmp_lt_CP_Concat lt xa ya b = cmp_lt_CP_Concat lt' xa ya b"
  using assms by (cases b) (simp_all add: cmp_lt_CP_Concat_def)

definition cmp_lt_Depcov ::
  "('e::linorder fql_node \<Rightarrow> 'e fql_node \<Rightarrow> bool) \<Rightarrow> 'e fql_node \<Rightarrow> 'e fql_node \<Rightarrow> 'e fql_node \<Rightarrow> 'e fql_node \<Rightarrow> bool" where
  "cmp_lt_Depcov lt xa ya za b = (case b of
      Depcov _ xb yb zb \<Rightarrow>
       (if lt xa xb then True else if lt xb xa then False
        else if lt ya yb then True else if lt yb ya then False
        else \<not> lt za zb)
    | _ \<Rightarrow> node_class b \<in> {C_Edgecov, C_Filter_Compose, C_Filter_Function, C_Filter_Intersection,
        C_Filter_Setminus, C_Filter_Union, C_Nodecov, C_PP_Alternative, C_PP_Concat,
        C_Pathcov, C_Predicate, C_Quote, C_Query, C_Repeat})"

lemma cmp_lt_Depcov_cong [fundef_cong]:
  assumes "\<And>v w. v \<in> set ([xa, ya, za]) \<Longrightarrow> w \<in> set (children b) \<Longrightarrow> lt v w = lt' v w"
    and "\<And>v w. v \<in> set ([xa, ya, za]) \<Longrightarrow> w \<in> set (children b) \<Longrightarrow> lt w v = lt' w v"
  shows "cmp_lt_Depcov lt xa ya za b = cmp_lt_Depcov lt' xa ya za b"
  using assms by (cases b) (simp_all add: cmp_lt_Depcov_def)

definition cmp_lt_Edgecov ::
  "('e::linorder fql_node \<Rightarrow> 'e fql_node \<Rightarrow> bool) \<Rightarrow> 'e fql_node \<Rightarrow> 'e fql_node \<Rightarrow> bool" where
  "cmp_lt_Edgecov lt xa b = (case b of
      Edgecov _ xb \<Rightarrow>
       lt xa xb
    | _ \<Rightarrow> node_class b \<in> {C_Filter_Compose, C_Filter_Function, C_Filter_Intersection, C_Filter_Setminus,
        C_Filter_Union, C_Nodecov, C_PP_Alternative, C_PP_Concat, C_Pathcov, C_Predicate,
        C_Quote, C_Query, C_Repeat})"

lemma cmp_lt_Edgecov_cong [fundef_cong]:
  assumes "\<And>v w. v \<in> set ([xa]) \<Longrightarrow> w \<in> set (children b) \<Longrightarrow> lt v w = lt' v w"
    and "\<And>v w. v \<in> set ([xa]) \<Longrightarrow> w \<in> set (children b) \<Longrightarrow> lt w v = lt' w v"
  shows "cmp_lt_Edgecov lt xa b = cmp_lt_Edgecov lt' xa b"
  using assms by (cases b) (simp_all add: cmp_lt_Edgecov_def)

definition cmp_lt_Filter_Compose ::
  "('e::linorder fql_node \<Rightarrow> 'e fql_node \<Rightarrow> bool) \<Rightarrow> 'e fql_node \<Rightarrow> 'e fql_node \<Rightarrow> 'e fql_node \<Rightarrow> bool" where
  "cmp_lt_Filter_Compose lt xa ya b = (case b of
      Filter_Compose _ xb yb \<Rightarrow>
       (if lt xa xb then True else if lt xb xa then False else \<not> lt ya yb)
    | _ \<Rightarrow> node_class b \<in> {C_Filter_Function, C_Filter_Intersection, C_Filter_Setminus, C_Filter_Union,
        C_Nodecov, C_PP_Alternative, C_PP_Concat, C_Pathcov, C_Predicate, C_Quote,
        C_Query, C_Repeat})"

lemma cmp_lt_Filter_Compose_cong [fundef_cong]:
  assumes "\<And>v w. v \<in> set ([xa, ya]) \<Longrightarrow> w \<in> set (children b) \<Longrightarrow> lt v w = lt' v w"
    and "\<And>v w. v \<in> set ([xa, ya]) \<Longrightarrow> w \<in> set (children b) \<Longrightarrow> lt w v = lt' w v"
  shows "cmp_lt_Filter_Compose lt xa ya b = cmp_lt_Filter_Compose lt' xa ya b"
  using assms by (cases b) (simp_all add: cmp_lt_Filter_Compose_def)

definition cmp_lt_Filter_Function ::
  "filter_function_t \<Rightarrow> int \<Rightarrow> string \<Rightarrow> 'e fql_node \<Rightarrow> bool" where
  "cmp_lt_Filter_Function ta ia sa b = (case b of
      Filter_Function _ tb ib sb \<Rightarrow>
       (if ta \<noteq> tb then ta < tb
        else case ta of
          F_IDENTITY \<Rightarrow> False
        | F_CALLS \<Rightarrow> False
        | F_BASICBLOCKENTRY \<Rightarrow> False
        | F_CONDITIONEDGE \<Rightarrow> False
        | F_DECISIONEDGE \<Rightarrow> False
        | F_CONDITIONGRAPH \<Rightarrow> False
        | F_LINE \<Rightarrow> ia < ib
        | F_COLUMN \<Rightarrow> ia < ib
        | F_FILE \<Rightarrow> sa < sb
        | F_FUNC \<Rightarrow> sa < sb
        | F_LABEL \<Rightarrow> sa < sb
        | F_CALL \<Rightarrow> sa < sb
        | F_ENTRY \<Rightarrow> sa < sb
        | F_EXIT \<Rightarrow> sa < sb
        | F_EXPR \<Rightarrow> sa < sb
        | F_REGEXP \<Rightarrow> sa < sb
        | F_DEF \<Rightarrow> sa < sb
        | F_USE \<Rightarrow> sa < sb
        | F_STMTTYPE \<Rightarrow> ia < ib)
    | _ \<Rightarrow> node_class b \<in> {C_Filter_Intersection, C_Filter_Setminus, C_Filter_Union, C_Nodecov,
        C_PP_Alternative, C_PP_Concat, C_Pathcov, C_Predicate, C_Quote, C_Query,
        C_Repeat})"

definition cmp_lt_Filter_Intersection ::
  "('e::linorder fql_node \<Rightarrow> 'e fql_node \<Rightarrow> bool) \<Rightarrow> 'e fql_node \<Rightarrow> 'e fql_node \<Rightarrow> 'e fql_node \<Rightarrow> bool" where
  "cmp_lt_Filter_Intersection lt xa ya b = (case b of
      Filter_Intersection _ xb yb \<Rightarrow>
       (if lt xa xb then True else if lt xb xa then False else lt ya yb)
    | _ \<Rightarrow> node_class b \<in> {C_Filter_Setminus, C_Filter_Union, C_Nodecov, C_PP_Alternative, C_PP_Concat,
        C_Pathcov, C_Predicate, C_Quote, C_Query, C_Repeat})"

lemma cmp_lt_Filter_Intersection_cong [fundef_cong]:
  assumes "\<And>v w. v \<in> set ([xa, ya]) \<Longrightarrow> w \<in> set (children b) \<Longrightarrow> lt v w = lt' v w"
    and "\<And>v w. v \<in> set ([xa, ya]) \<Longrightarrow> w \<in> set (children b) \<Longrightarrow> lt w v = lt' w v"
  shows "cmp_lt_Filter_Intersection lt xa ya b = cmp_lt_Filter_Intersection lt' xa ya b"
  using assms by (cases b) (simp_all add: cmp_lt_Filter_Intersection_def)

definition cmp_lt_Filter_Setminus ::
  "('e::linorder fql_node \<Rightarrow> 'e fql_node \<Rightarrow> bool) \<Rightarrow> 'e fql_node \<Rightarrow> 'e fql_node \<Rightarrow> 'e fql_node \<Rightarrow> bool" where
  "cmp_lt_Filter_Setminus lt xa ya b = (case b of
      Filter_Setminus _ xb yb \<Rightarrow>
       (if lt xa xb then True else if lt xb xa then False else \<not> lt ya yb)
    | _ \<Rightarrow> node_class b \<in> {C_Filter_Union, C_Nodecov, C_PP_Alternative, C_PP_Concat, C_Pathcov, C_Predicate,
        C_Quote, C_Query, C_Repeat})"

lemma cmp_lt_Filter_Setminus_cong [fundef_cong]:
  assumes "\<And>v w. v \<in> set ([xa, ya]) \<Longrightarrow> w \<in> set (children b) \<Longrightarrow> lt v w = lt' v w"
    and "\<And>v w. v \<in> set ([xa, ya]) \<Longrightarrow> w \<in> set (children b) \<Longrightarrow> lt w v = lt' w v"
  shows "cmp_lt_Filter_Setminus lt xa ya b = cmp_lt_Filter_Setminus lt' xa ya b"
  using assms by (cases b) (simp_all add: cmp_lt_Filter_Setminus_def)

definition cmp_lt_Filter_Union ::
  "('e::linorder fql_node \<Rightarrow> 'e fql_node \<Rightarrow> bool) \<Rightarrow> 'e fql_node \<Rightarrow> 'e fql_node \<Rightarrow> 'e fql_node \<Rightarrow> bool" where
  "cmp_lt_Filter_Union lt xa ya b = (case b of
      Filter_Union _ xb yb \<Rightarrow>
       (if lt xa xb then True else if lt xb xa then False else lt ya yb)
    | _ \<Rightarrow> node_class b \<in> {C_Nodecov, C_PP_Alternative, C_PP_Concat, C_Pathcov, C_Predicate, C_Quote,
        C_Query, C_Repeat})"

lemma cmp_lt_Filter_Union_cong [fundef_cong]:
  assumes "\<And>v w. v \<in> set ([xa, ya]) \<Longrightarrow> w \<in> set (children b) \<Longrightarrow> lt v w = lt' v w"
    and "\<And>v w. v \<in> set ([xa, ya]) \<Longrightarrow> w \<in> set (children b) \<Longrightarrow> lt w v = lt' w v"
  shows "cmp_lt_Filter_Union lt xa ya b = cmp_lt_Filter_Union lt' xa ya b"
  using assms by (cases b) (simp_all add: cmp_lt_Filter_Union_def)

definition cmp_lt_Nodecov ::
  "('e::linorder fql_node \<Rightarrow> 'e fql_node \<Rightarrow> bool) \<Rightarrow> 'e fql_node \<Rightarrow> 'e fql_node \<Rightarrow> bool" where
  "cmp_lt_Nodecov lt xa b = (case b of
      Nodecov _ xb \<Rightarrow>
       lt xa xb
    | _ \<Rightarrow> node_class b \<in> {C_PP_Alternative, C_PP_Concat, C_Pathcov, C_Predicate, C_Quote, C_Query,
        C_Repeat})"

lemma cmp_lt_Nodecov_cong [fundef_cong]:
  assumes "\<And>v w. v \<in> set ([xa]) \<Longrightarrow> w \<in> set (children b) \<Longrightarrow> lt v w = lt' v w"
    and "\<And>v w. v \<in> set ([xa]) \<Longrightarrow> w \<in> set (children b) \<Longrightarrow> lt w v = lt' w v"
  shows "cmp_lt_Nodecov lt xa b = cmp_lt_Nodecov lt' xa b"
  using assms by (cases b) (simp_all add: cmp_lt_Nodecov_def)

definition cmp_lt_PP_Alternative ::
  "('e::linorder fql_node \<Rightarrow> 'e fql_node \<Rightarrow> bool) \<Rightarrow> 'e fql_node \<Rightarrow> 'e fql_node \<Rightarrow> 'e fql_node \<Rightarrow> bool" where
  "cmp_lt_PP_Alternative lt xa ya b = (case b of
      PP_Alternative _ xb yb \<Rightarrow>
       (if lt xa xb then True else if lt xb xa then False else lt ya yb)
    | _ \<Rightarrow> node_class b \<in> {C_PP_Concat, C_Pathcov, C_Predicate, C_Quote, C_Query, C_Repeat})"

lemma cmp_lt_PP_Alternative_cong [fundef_cong]:
  assumes "\<And>v w. v \<in> set ([xa, ya]) \<Longrightarrow> w \<in> set (children b) \<Longrightarrow> lt v w = lt' v w"
    and "\<And>v w. v \<in> set ([xa, ya]) \<Longrightarrow> w \<in> set (children b) \<Longrightarrow> lt w v = lt' w v"
  shows "cmp_lt_PP_Alternative lt xa ya b = cmp_lt_PP_Alternative lt' xa ya b"
  using assms by (cases b) (simp_all add: cmp_lt_PP_Alternative_def)

definition cmp_lt_PP_Concat ::
  "('e::linorder fql_node \<Rightarrow> 'e fql_node \<Rightarrow> bool) \<Rightarrow> 'e fql_node \<Rightarrow> 'e fql_node \<Rightarrow> 'e fql_node \<Rightarrow> bool" where
  "cmp_lt_PP_Concat lt xa ya b = (case b of
      PP_Concat _ xb yb \<Rightarrow>
       (if lt xa xb then True else if lt xb xa then False else lt ya yb)
    | _ \<Rightarrow> node_class b \<in> {C_Pathcov, C_Predicate, C_Quote, C_Query, C_Repeat})"

lemma cmp_lt_PP_Concat_cong [fundef_cong]:
  assumes "\<And>v w. v \<in> set ([xa, ya]) \<Longrightarrow> w \<in> set (children b) \<Longrightarrow> lt v w = lt' v w"
    and "\<And>v w. v \<in> set ([xa, ya]) \<Longrightarrow> w \<in> set (children b) \<Longrightarrow> lt w v = lt' w v"
  shows "cmp_lt_PP_Concat lt xa ya b = cmp_lt_PP_Concat lt' xa ya b"
  using assms by (cases b) (simp_all add: cmp_lt_PP_Concat_def)

definition cmp_lt_Pathcov ::
  "('e::linorder fql_node \<Rightarrow> 'e fql_node \<Rightarrow> bool) \<Rightarrow> 'e fql_node \<Rightarrow> int \<Rightarrow> 'e fql_node \<Rightarrow> bool" where
  "cmp_lt_Pathcov lt xa ka b = (case b of
      Pathcov _ xb kb \<Rightarrow>
       (if lt xa xb then True else if lt xb xa then False else ka < kb)
    | _ \<Rightarrow> node_class b \<in> {C_Predicate, C_Quote, C_Query, C_Repeat})"

lemma cmp_lt_Pathcov_cong [fundef_cong]:
  assumes "\<And>v w. v \<in> set ([xa]) \<Longrightarrow> w \<in> set (children b) \<Longrightarrow> lt v w = lt' v w"
    and "\<And>v w. v \<in> set ([xa]) \<Longrightarrow> w \<in> set (children b) \<Longrightarrow> lt w v = lt' w v"
  shows "cmp_lt_Pathcov lt xa ka b = cmp_lt_Pathcov lt' xa ka b"
  using assms by (cases b) (simp_all add: cmp_lt_Pathcov_def)

definition cmp_lt_Predicate ::
  "'e::linorder option \<Rightarrow> 'e fql_node \<Rightarrow> bool" where
  "cmp_lt_Predicate ea b = (case b of
      Predicate _ eb \<Rightarrow>
       (case ea of None \<Rightarrow> eb \<noteq> None
        | Some ea' \<Rightarrow> (case eb of None \<Rightarrow> False
            | Some eb' \<Rightarrow> (if ea' = eb' then False else ea' < eb')))
    | _ \<Rightarrow> node_class b \<in> {C_Quote, C_Query, C_Repeat})"

definition cmp_lt_Quote ::
  "('e::linorder fql_node \<Rightarrow> 'e fql_node \<Rightarrow> bool) \<Rightarrow> 'e fql_node \<Rightarrow> 'e fql_node \<Rightarrow> bool" where
  "cmp_lt_Quote lt xa b = (case b of
      Quote _ xb \<Rightarrow>
       lt xb xa
    | _ \<Rightarrow> node_class b \<in> {C_Query, C_Repeat})"

lemma cmp_lt_Quote_cong [fundef_cong]:
  assumes "\<And>v w. v \<in> set ([xa]) \<Longrightarrow> w \<in> set (children b) \<Longrightarrow> lt v w = lt' v w"
    and "\<And>v w. v \<in> set ([xa]) \<Longrightarrow> w \<in> set (children b) \<Longrightarrow> lt w v = lt' w v"
  shows "cmp_lt_Quote lt xa b = cmp_lt_Quote lt' xa b"
  using assms by (cases b) (simp_all add: cmp_lt_Quote_def)

definition cmp_lt_Query ::
  "('e::linorder fql_node \<Rightarrow> 'e fql_node \<Rightarrow> bool) \<Rightarrow> 'e fql_node option \<Rightarrow> 'e fql_node \<Rightarrow> 'e fql_node option \<Rightarrow> 'e fql_node \<Rightarrow> bool" where
  "cmp_lt_Query lt xa ca ya b = (case b of
      Query _ xb cb yb \<Rightarrow>
       (case lt_optional lt xa xb of Some r \<Rightarrow> r
        | None \<Rightarrow>
            (if lt ca cb then True else if lt cb ca then False
             else case lt_optional lt ya yb of Some r \<Rightarrow> r | None \<Rightarrow> False))
    | _ \<Rightarrow> node_class b \<in> {C_Repeat})"

lemma cmp_lt_Query_cong [fundef_cong]:
  assumes "\<And>v w. v \<in> set (option_list xa @ [ca] @ option_list ya) \<Longrightarrow> w \<in> set (children b) \<Longrightarrow> lt v w = lt' v w"
    and "\<And>v w. v \<in> set (option_list xa @ [ca] @ option_list ya) \<Longrightarrow> w \<in> set (children b) \<Longrightarrow> lt w v = lt' w v"
  shows "cmp_lt_Query lt xa ca ya b = cmp_lt_Query lt' xa ca ya b"
  using assms by (cases b) (simp_all add: cmp_lt_Query_def lt_optional_def split: option.splits)

definition cmp_lt_Repeat ::
  "('e::linorder fql_node \<Rightarrow> 'e fql_node \<Rightarrow> bool) \<Rightarrow> 'e fql_node \<Rightarrow> int \<Rightarrow> int \<Rightarrow> 'e fql_node \<Rightarrow> bool" where
  "cmp_lt_Repeat lt xa la ua b = (case b of
      Repeat _ xb lb ub \<Rightarrow>
       (if lt xa xb then True else if lt xb xa then False
        else if la \<noteq> lb then la < lb
        else if ua = - 1 then False
        else if ub = - 1 then True
        else ua < ub)
    | _ \<Rightarrow> False)"

lemma cmp_lt_Repeat_cong [fundef_cong]:
  assumes "\<And>v w. v \<in> set ([xa]) \<Longrightarrow> w \<in> set (children b) \<Longrightarrow> lt v w = lt' v w"
    and "\<And>v w. v \<in> set ([xa]) \<Longrightarrow> w \<in> set (children b) \<Longrightarrow> lt w v = lt' w v"
  shows "cmp_lt_Repeat lt xa la ua b = cmp_lt_Repeat lt' xa la ua b"
  using assms by (cases b) (simp_all add: cmp_lt_Repeat_def)

text \<open>
  \<open>cmp_lt\<close> on the abstract classes: pointer equality decides first; otherwise the visitor
  dispatches on the class of the left node and then, through \<open>Compare_To_Visitor\<close>, on
  that of the right one.
\<close>

function cmp_lt :: "'e::linorder fql_node \<Rightarrow> 'e fql_node \<Rightarrow> bool" where
  "cmp_lt a b = (if node_addr a = node_addr b then False else case a of
     CP_Alternative p xa ya \<Rightarrow> cmp_lt_CP_Alternative cmp_lt xa ya b
   | CP_Concat p xa ya \<Rightarrow> cmp_lt_CP_Concat cmp_lt xa ya b
   | Depcov p xa ya za \<Rightarrow> cmp_lt_Depcov cmp_lt xa ya za b
   | Edgecov p xa \<Rightarrow> cmp_lt_Edgecov cmp_lt xa b
   | Filter_Compose p xa ya \<Rightarrow> cmp_lt_Filter_Compose cmp_lt xa ya b
   | Filter_Function p ta ia sa \<Rightarrow> cmp_lt_Filter_Function ta ia sa b
   | Filter_Intersection p xa ya \<Rightarrow> cmp_lt_Filter_Intersection cmp_lt xa ya b
   | Filter_Setminus p xa ya \<Rightarrow> cmp_lt_Filter_Setminus cmp_lt xa ya b
   | Filter_Union p xa ya \<Rightarrow> cmp_lt_Filter_Union cmp_lt xa ya b
   | Nodecov p xa \<Rightarrow> cmp_lt_Nodecov cmp_lt xa b
   | PP_Alternative p xa ya \<Rightarrow> cmp_lt_PP_Alternative cmp_lt xa ya b
   | PP_Concat p xa ya \<Rightarrow> cmp_lt_PP_Concat cmp_lt xa ya b
   | Pathcov p xa ka \<Rightarrow> cmp_lt_Pathcov cmp_lt xa ka b
   | Predicate p ea \<Rightarrow> cmp_lt_Predicate ea b
   | Quote p xa \<Rightarrow> cmp_lt_Quote cmp_lt xa b
   | Query p xa ca ya \<Rightarrow> cmp_lt_Query cmp_lt xa ca ya b
   | Repeat p xa la ua \<Rightarrow> cmp_lt_Repeat cmp_lt xa la ua b)"
  by pat_completeness auto
termination
  by (relation "measure (\<lambda>(a, b). size a + size b)")
    (auto dest!: size_children)

declare cmp_lt.simps [simp del]

section \<open>Keys: the components a comparison looks at\<close>

text \<open>
  Every comparator is a lexicographic comparison of a list of components. The kinds differ in
  direction: the operand of a \<open>Quote\<close> and the last operand of \<open>Filter_Compose\<close>,
  \<open>Filter_Setminus\<close> and \<open>Depcov\<close> are compared in descending order.
\<close>

datatype 'e comp =
  K_node "'e fql_node" | K_desc "'e fql_node" | K_opt "'e fql_node option"
| K_int int | K_bound int | K_str string | K_expr "'e option"

primrec kind :: "'e comp \<Rightarrow> nat" where
  "kind (K_node n) = 0"
| "kind (K_desc n) = 1"
| "kind (K_opt n) = 2"
| "kind (K_int i) = 3"
| "kind (K_bound i) = 4"
| "kind (K_str s) = 5"
| "kind (K_expr e) = 6"

definition same_kind_lt ::
  "('e::linorder fql_node \<Rightarrow> 'e fql_node \<Rightarrow> bool) \<Rightarrow> 'e comp \<Rightarrow> 'e comp \<Rightarrow> bool" where
  "same_kind_lt lt c d = (case c of
      K_node a \<Rightarrow> (case d of K_node b \<Rightarrow> lt a b | _ \<Rightarrow> False)
    | K_desc a \<Rightarrow> (case d of K_desc b \<Rightarrow> lt b a | _ \<Rightarrow> False)
    | K_opt x \<Rightarrow> (case d of K_opt y \<Rightarrow>
          (case x of None \<Rightarrow> False | Some a \<Rightarrow> (case y of None \<Rightarrow> True | Some b \<Rightarrow> lt a b))
        | _ \<Rightarrow> False)
    | K_int i \<Rightarrow> (case d of K_int j \<Rightarrow> i < j | _ \<Rightarrow> False)
    | K_bound i \<Rightarrow> (case d of K_bound j \<Rightarrow> i \<noteq> - 1 \<and> (j = - 1 \<or> i < j) | _ \<Rightarrow> False)
    | K_str s \<Rightarrow> (case d of K_str t \<Rightarrow> s < t | _ \<Rightarrow> False)
    | K_expr x \<Rightarrow> (case d of K_expr y \<Rightarrow>
          (case y of None \<Rightarrow> False | Some f \<Rightarrow> (case x of None \<Rightarrow> True | Some e \<Rightarrow> e < f))
        | _ \<Rightarrow> False))"

definition comp_lt ::
  "('e::linorder fql_node \<Rightarrow> 'e fql_node \<Rightarrow> bool) \<Rightarrow> 'e comp \<Rightarrow> 'e comp \<Rightarrow> bool" where
  "comp_lt lt c d \<longleftrightarrow> kind c < kind d \<or> kind c = kind d \<and> same_kind_lt lt c d"

primrec comp_nodes :: "'e comp \<Rightarrow> 'e fql_node set" where
  "comp_nodes (K_node n) = {n}"
| "comp_nodes (K_desc n) = {n}"
| "comp_nodes (K_opt n) = set_option n"
| "comp_nodes (K_int i) = {}"
| "comp_nodes (K_bound i) = {}"
| "comp_nodes (K_str s) = {}"
| "comp_nodes (K_expr e) = {}"

lemma comp_cases:
  obtains (node) n where "c = K_node n" | (desc) n where "c = K_desc n"
  | (none) "c = K_opt None" | (some) n where "c = K_opt (Some n)"
  | (int) i where "c = K_int i" | (bound) i where "c = K_bound i"
  | (str) s where "c = K_str s"
  | (noexpr) "c = K_expr None" | (expr) e where "c = K_expr (Some e)"
  by (cases c) (metis option.exhaust)+

lemma same_kind_irrefl: "slo lt T \<Longrightarrow> comp_nodes c \<subseteq> T \<Longrightarrow> \<not> same_kind_lt lt c c"
  by (cases c rule: comp_cases) (simp_all add: same_kind_lt_def slo_irrefl)

lemma same_kind_total:
  "\<lbrakk>slo lt T; comp_nodes c \<subseteq> T; comp_nodes d \<subseteq> T; kind c = kind d; c \<noteq> d\<rbrakk>
    \<Longrightarrow> same_kind_lt lt c d \<or> same_kind_lt lt d c"
  by (cases c rule: comp_cases; cases d rule: comp_cases) (auto simp: same_kind_lt_def slo_total neq_iff)

lemma same_kind_trans:
  "\<lbrakk>slo lt T; comp_nodes c \<subseteq> T; comp_nodes d \<subseteq> T; comp_nodes e \<subseteq> T;
    same_kind_lt lt c d; same_kind_lt lt d e\<rbrakk> \<Longrightarrow> same_kind_lt lt c e"
  by (cases c rule: comp_cases; cases d rule: comp_cases; simp add: same_kind_lt_def;
      cases e rule: comp_cases; auto dest: slo_trans)

lemma slo_comp_lt:
  assumes "slo lt T"
  shows "slo (comp_lt lt) {c. comp_nodes c \<subseteq> T}"
proof (rule sloI)
  fix c assume "c \<in> {c. comp_nodes c \<subseteq> T}"
  then show "\<not> comp_lt lt c c" using same_kind_irrefl [OF assms] by (simp add: comp_lt_def)
next
  fix c d assume "c \<in> {c. comp_nodes c \<subseteq> T}" "d \<in> {c. comp_nodes c \<subseteq> T}" "c \<noteq> d"
  then show "comp_lt lt c d \<or> comp_lt lt d c"
    using same_kind_total [OF assms, of c d] by (auto simp: comp_lt_def)
next
  fix c d e assume "c \<in> {c. comp_nodes c \<subseteq> T}" "d \<in> {c. comp_nodes c \<subseteq> T}" "e \<in> {c. comp_nodes c \<subseteq> T}"
    and "comp_lt lt c d" "comp_lt lt d e"
  then show "comp_lt lt c e"
    using same_kind_trans [OF assms, of c d e] by (auto simp: comp_lt_def)
qed

primrec comps :: "'e fql_node \<Rightarrow> 'e comp list" where
  "comps (CP_Alternative p a b) = [K_node a, K_node b]"
| "comps (CP_Concat p a b) = [K_node a, K_node b]"
| "comps (Depcov p a b c) = [K_node a, K_node b, K_desc c]"
| "comps (Edgecov p f) = [K_node f]"
| "comps (Filter_Compose p a b) = [K_node a, K_desc b]"
| "comps (Filter_Function p t i s) = K_int (filter_function_val t) #
     (if t \<in> {F_LINE, F_COLUMN, F_STMTTYPE} then [K_int i]
      else if t \<in> {F_IDENTITY, F_CALLS, F_BASICBLOCKENTRY, F_CONDITIONEDGE, F_DECISIONEDGE,
        F_CONDITIONGRAPH} then [] else [K_str s])"
| "comps (Filter_Intersection p a b) = [K_node a, K_node b]"
| "comps (Filter_Setminus p a b) = [K_node a, K_desc b]"
| "comps (Filter_Union p a b) = [K_node a, K_node b]"
| "comps (Nodecov p f) = [K_node f]"
| "comps (PP_Alternative p a b) = [K_node a, K_node b]"
| "comps (PP_Concat p a b) = [K_node a, K_node b]"
| "comps (Pathcov p f k) = [K_node f, K_int k]"
| "comps (Predicate p e) = [K_expr e]"
| "comps (Quote p q) = [K_desc q]"
| "comps (Query p x c y) = [K_opt x, K_node c, K_opt y]"
| "comps (Repeat p q l u) = [K_node q, K_int l, K_bound u]"

definition key :: "'e fql_node \<Rightarrow> 'e comp list" where
  "key n = K_int (class_rank (node_class n)) # comps n"

lemma key_nodes: "\<Union> (comp_nodes ` set (key n)) = set (children n)"
  by (cases n) (auto simp: key_def)

lemma cmp_lt_irrefl [simp]: "\<not> cmp_lt n n"
  by (simp add: cmp_lt.simps)

text \<open>The table of \<open>LT_COMPARISON\<close> instances is the order of the class names.\<close>

lemmas cmp_lt_class_defs =
  cmp_lt_CP_Alternative_def cmp_lt_CP_Concat_def cmp_lt_Depcov_def
  cmp_lt_Edgecov_def cmp_lt_Filter_Compose_def cmp_lt_Filter_Function_def
  cmp_lt_Filter_Intersection_def cmp_lt_Filter_Setminus_def cmp_lt_Filter_Union_def
  cmp_lt_Nodecov_def cmp_lt_PP_Alternative_def cmp_lt_PP_Concat_def
  cmp_lt_Pathcov_def cmp_lt_Predicate_def cmp_lt_Quote_def
  cmp_lt_Query_def cmp_lt_Repeat_def

lemma cmp_lt_classes:
  "\<lbrakk>node_addr a \<noteq> node_addr b; node_class a \<noteq> node_class b\<rbrakk>
    \<Longrightarrow> cmp_lt a b \<longleftrightarrow> node_class a < node_class b"
  by (subst cmp_lt.simps, cases a; cases b)
    (simp_all add: cmp_lt_class_defs less_fql_class_def)

text \<open>
  Within one class a comparator is the lexicographic comparison of the components: for most
  classes without further ado, for the others provided the operands are ordered linearly and
  the two nodes differ in some component.
\<close>

lemmas comp_lt_defs = comp_lt_def same_kind_lt_def

lemma cmp_lt_same_plain:
  "\<lbrakk>node_class a = node_class b; node_addr a \<noteq> node_addr b;
    node_class a \<notin> {C_Depcov, C_Filter_Compose, C_Filter_Function, C_Filter_Setminus, C_Query}\<rbrakk>
    \<Longrightarrow> cmp_lt a b \<longleftrightarrow> lex_lt (comp_lt cmp_lt) (comps a) (comps b)"
  by (subst cmp_lt.simps, cases a; cases b)
    (auto simp: cmp_lt_class_defs comp_lt_defs split: option.splits)

lemma cmp_lt_same_Filter_Function:
  assumes "p \<noteq> q"
  shows "cmp_lt (Filter_Function p t i s) (Filter_Function q t' i' s') \<longleftrightarrow>
    lex_lt (comp_lt cmp_lt) (comps (Filter_Function p t i s)) (comps (Filter_Function q t' i' s'))"
proof (cases "t = t'")
  case True
  then show ?thesis using assms
    by (cases t') (simp_all add: cmp_lt.simps [of "Filter_Function _ _ _ _"]
      cmp_lt_Filter_Function_def comp_lt_defs)
next
  case False
  then have "filter_function_val t < filter_function_val t' \<or> filter_function_val t' < filter_function_val t"
    by (metis filter_function_val_inject linorder_neqE)
  then show ?thesis using assms False
    by (simp add: cmp_lt.simps [of "Filter_Function _ _ _ _"] less_filter_function_t_def
      cmp_lt_Filter_Function_def comp_lt_defs)
qed

lemma lt_optional_comp:
  assumes "slo cmp_lt T" "inj_on node_addr T" "set_option v \<subseteq> T" "set_option w \<subseteq> T"
  shows "(case lt_optional cmp_lt v w of None \<Rightarrow> R | Some r \<Rightarrow> r) \<longleftrightarrow>
    comp_lt cmp_lt (K_opt v) (K_opt w) \<or> \<not> comp_lt cmp_lt (K_opt w) (K_opt v) \<and> R"
proof (cases "\<exists>x y. v = Some x \<and> w = Some y")
  case True
  then obtain x y where vw: "v = Some x" "w = Some y" "x \<in> T" "y \<in> T" using assms by auto
  then have "node_addr x = node_addr y \<longleftrightarrow> x = y" using assms(2) by (auto dest: inj_onD)
  then show ?thesis using vw slo_trichotomy [OF assms(1), of x y]
    by (auto simp: lt_optional_def comp_lt_defs)
next
  case False
  then show ?thesis by (cases v; cases w) (auto simp: lt_optional_def comp_lt_defs)
qed

lemma cmp_lt_same_Query:
  assumes "slo cmp_lt T" "inj_on node_addr T" "p \<noteq> q"
    "set (children (Query p x c y)) \<subseteq> T" "set (children (Query q x' c' y')) \<subseteq> T"
  shows "cmp_lt (Query p x c y) (Query q x' c' y') \<longleftrightarrow>
    lex_lt (comp_lt cmp_lt) (comps (Query p x c y)) (comps (Query q x' c' y'))"
  using assms
  by (simp add: cmp_lt.simps [of "Query _ _ _ _"] cmp_lt_Query_def lt_optional_comp [of T])
    (simp add: comp_lt_def [of _ "K_node _"] same_kind_lt_def [of _ "K_node _"])

lemma cmp_lt_same_class:
  assumes T: "slo cmp_lt T" "set (children a) \<subseteq> T" "set (children b) \<subseteq> T" "inj_on node_addr T"
    and ne: "node_addr a \<noteq> node_addr b" "comps a \<noteq> comps b"
    and cl: "node_class a = node_class b"
  shows "cmp_lt a b \<longleftrightarrow> lex_lt (comp_lt cmp_lt) (comps a) (comps b)"
proof -
  note tri = slo_trichotomy [OF T(1)]
  consider (plain) "node_class a \<notin> {C_Depcov, C_Filter_Compose, C_Filter_Function, C_Filter_Setminus, C_Query}"
    | (depcov) p x y z q x' y' z' where "a = Depcov p x y z" "b = Depcov q x' y' z'"
    | (compose) p x y q x' y' where "a = Filter_Compose p x y" "b = Filter_Compose q x' y'"
    | (setminus) p x y q x' y' where "a = Filter_Setminus p x y" "b = Filter_Setminus q x' y'"
    | (ff) p t i s q t' i' s' where "a = Filter_Function p t i s" "b = Filter_Function q t' i' s'"
    | (query) p x c y q x' c' y' where "a = Query p x c y" "b = Query q x' c' y'"
    using cl by (cases a; cases b) auto
  then show ?thesis
  proof cases
    case plain
    then show ?thesis using cl ne by (intro cmp_lt_same_plain) auto
  next
    case depcov
    then show ?thesis using ne T(2,3) tri [of x x'] tri [of y y'] tri [of z z']
      by (auto simp: cmp_lt.simps [of "Depcov _ _ _ _"] cmp_lt_Depcov_def comp_lt_defs)
  next
    case compose
    then show ?thesis using ne T(2,3) tri [of x x'] tri [of y y']
      by (auto simp: cmp_lt.simps [of "Filter_Compose _ _ _"] cmp_lt_Filter_Compose_def comp_lt_defs)
  next
    case setminus
    then show ?thesis using ne T(2,3) tri [of x x'] tri [of y y']
      by (auto simp: cmp_lt.simps [of "Filter_Setminus _ _ _"] cmp_lt_Filter_Setminus_def comp_lt_defs)
  next
    case ff
    then show ?thesis using ne by (simp add: cmp_lt_same_Filter_Function del: comps.simps)
  next
    case query
    then show ?thesis using ne T by (simp add: cmp_lt_same_Query [of T] del: comps.simps)
  qed
qed

section \<open>The order on canonical sets\<close>

text \<open>
  A set of nodes is canonical if it is closed under member pointers, no two nodes share an
  address and no two nodes have the same class and components: the node sets a hash-consing
  factory is meant to maintain.
\<close>

definition canonical :: "'e fql_node set \<Rightarrow> bool" where
  "canonical S \<longleftrightarrow> (\<forall>n\<in>S. set (children n) \<subseteq> S) \<and> inj_on node_addr S \<and> inj_on key S"

lemma canonicalD:
  assumes "canonical S"
  shows "n \<in> S \<Longrightarrow> set (children n) \<subseteq> S" "inj_on node_addr S" "inj_on key S"
  using assms by (auto simp: canonical_def)

lemma cmp_lt_key:
  assumes S: "canonical S" "slo cmp_lt T" "T \<subseteq> S"
    and ab: "a \<in> S" "b \<in> S" "a \<noteq> b" "set (children a) \<subseteq> T" "set (children b) \<subseteq> T"
  shows "cmp_lt a b \<longleftrightarrow> lex_lt (comp_lt cmp_lt) (key a) (key b)"
proof -
  have addr: "node_addr a \<noteq> node_addr b" and key: "key a \<noteq> key b"
    using canonicalD(2,3) [OF S(1)] ab(1-3) by (auto dest: inj_onD)
  show ?thesis
  proof (cases "node_class a = node_class b")
    case True
    then have "cmp_lt a b \<longleftrightarrow> lex_lt (comp_lt cmp_lt) (comps a) (comps b)"
      using S addr key ab canonicalD(2) [OF S(1)]
      by (intro cmp_lt_same_class [of T]) (auto simp: key_def intro: inj_on_subset)
    then show ?thesis using True by (simp add: key_def comp_lt_defs)
  next
    case False
    then have "class_rank (node_class a) \<noteq> class_rank (node_class b)" by simp
    then show ?thesis
      unfolding cmp_lt_classes [OF addr False] less_fql_class_def
      by (auto simp: key_def comp_lt_defs)
  qed
qed

lemma slo_cmp_lt_size:
  assumes "canonical S"
  shows "slo cmp_lt {n \<in> S. size n < k}"
proof (induction k)
  case 0
  then show ?case by (simp add: slo_def)
next
  case (Suc k)
  let ?T = "{n \<in> S. size n < k}" and ?A = "{n \<in> S. size n < Suc k}"
  have kids: "set (children n) \<subseteq> ?T" if "n \<in> ?A" for n
    using that canonicalD(1) [OF assms, of n] size_children [of _ n] by fastforce
  have "slo (lex_lt (comp_lt cmp_lt)) {ks. set ks \<subseteq> {c. comp_nodes c \<subseteq> ?T}}"
    by (rule slo_lex [OF slo_comp_lt [OF Suc]])
  moreover have "key ` ?A \<subseteq> {ks. set ks \<subseteq> {c. comp_nodes c \<subseteq> ?T}}"
    using kids key_nodes by blast
  ultimately have "slo (lex_lt (comp_lt cmp_lt)) (key ` ?A)" by (rule slo_subset)
  then show ?case
  proof (rule slo_pullback)
    show "inj_on key ?A" using canonicalD(3) [OF assms] by (rule inj_on_subset) auto
    show "cmp_lt a b \<longleftrightarrow> lex_lt (comp_lt cmp_lt) (key a) (key b)"
      if "a \<in> ?A" "b \<in> ?A" "a \<noteq> b" for a b
      using that kids by (intro cmp_lt_key [OF assms Suc]) auto
  qed simp
qed

lemma slo_cmp_lt:
  assumes "canonical S"
  shows "slo cmp_lt S"
proof -
  have *: "slo cmp_lt {n \<in> S. size n < Suc (size a + size b + size c)}" for a b c :: "'a fql_node"
    using assms by (rule slo_cmp_lt_size)
  show ?thesis
  proof (rule sloI)
    fix a b c assume "a \<in> S" "b \<in> S" "c \<in> S" "cmp_lt a b" "cmp_lt b c"
    then show "cmp_lt a c" by (intro slo_trans [OF * [of a b c], of a b c]) auto
  next
    fix a b assume "a \<in> S" "b \<in> S" "a \<noteq> b"
    then show "cmp_lt a b \<or> cmp_lt b a" by (intro slo_total [OF * [of a b b]]) auto
  qed simp
qed

section \<open>Properties\<close>

text \<open>
  C18. The node order is what \<open>std::set\<close> requires on the node sets the factories are meant
  to hold: on every canonical set of nodes (all member pointers inside the set, one address
  per node, one node per class and component list) \<open>cmp_lt\<close> is irreflexive, transitive
  and total, so two nodes are equivalent exactly if they are the same node. This includes the
  three classes that compare their last operand with a negated recursive call.
\<close>

theorem cmp_lt_strict_total_order:
  assumes "canonical S"
  shows "(\<forall>a\<in>S. \<not> cmp_lt a a)
    \<and> (\<forall>a\<in>S. \<forall>b\<in>S. \<forall>c\<in>S. cmp_lt a b \<longrightarrow> cmp_lt b c \<longrightarrow> cmp_lt a c)
    \<and> (\<forall>a\<in>S. \<forall>b\<in>S. a = b \<longleftrightarrow> \<not> cmp_lt a b \<and> \<not> cmp_lt b a)"
  using slo_cmp_lt [OF assms] slo_eq_iff [OF slo_cmp_lt [OF assms]]
  unfolding slo_def by blast

definition sample_identity :: "int fql_node" where
  "sample_identity = Filter_Function 0 F_IDENTITY 0 []"

definition sample_line :: "int fql_node" where
  "sample_line = Filter_Function 1 F_LINE 7 []"

lemma sample_canonical:
  "canonical {sample_identity, sample_line, Filter_Compose 2 sample_identity sample_line,
     Filter_Compose 3 sample_identity sample_identity}"
  by (auto simp: canonical_def sample_identity_def sample_line_def key_def)

theorem cmp_lt_strict_total_order_witness:
  "canonical {sample_identity, sample_line, Filter_Compose 2 sample_identity sample_line,
     Filter_Compose 3 sample_identity sample_identity}
   \<and> \<not> (cmp_lt (Filter_Compose 2 sample_identity sample_line) sample_identity
     \<and> cmp_lt sample_identity (Filter_Compose 2 sample_identity sample_line))"
  using sample_canonical cmp_lt_strict_total_order [OF sample_canonical] by blast

text \<open>
  C21. Outside canonical sets the order breaks: two \<open>Filter_Compose\<close>,
  \<open>Filter_Setminus\<close> or \<open>Depcov\<close> nodes with the same operands but different
  addresses are each less than the other, because the last comparison is negated.
  (\<open>Filter_Union\<close> with the same operands is equivalent in both directions, as intended.)
\<close>

theorem cmp_lt_negated_last_operand:
  assumes "p \<noteq> q"
  shows "cmp_lt (Filter_Compose p a b) (Filter_Compose q a b)
    \<and> cmp_lt (Filter_Compose q a b) (Filter_Compose p a b)
    \<and> cmp_lt (Filter_Setminus p a b) (Filter_Setminus q a b)
    \<and> cmp_lt (Filter_Setminus q a b) (Filter_Setminus p a b)
    \<and> cmp_lt (Depcov p a b c) (Depcov q a b c) \<and> cmp_lt (Depcov q a b c) (Depcov p a b c)
    \<and> \<not> cmp_lt (Filter_Union p a b) (Filter_Union q a b)
    \<and> \<not> cmp_lt (Filter_Union q a b) (Filter_Union p a b)"
  using assms
  by (simp add: cmp_lt.simps [of "Filter_Compose _ _ _"] cmp_lt.simps [of "Filter_Setminus _ _ _"]
    cmp_lt.simps [of "Depcov _ _ _ _"] cmp_lt.simps [of "Filter_Union _ _ _"]
    cmp_lt_Filter_Compose_def cmp_lt_Filter_Setminus_def cmp_lt_Depcov_def cmp_lt_Filter_Union_def)

theorem cmp_lt_negated_last_operand_witness:
  "(2::addr) \<noteq> 3 \<and> cmp_lt (Filter_Compose 2 sample_identity sample_line) (Filter_Compose 3 sample_identity sample_line)
   \<and> cmp_lt (Filter_Compose 3 sample_identity sample_line) (Filter_Compose 2 sample_identity sample_line)"
  using cmp_lt_negated_last_operand [of 2 3 sample_identity sample_line] by simp

end
