(* ===== verification/Fql_Node_Factory.thy ===== *)
theory Fql_Node_Factory
  imports Fql_Node_Lt
begin

text \<open>
  The node factories (\<open>src/fshell2/fql/ast/fql_node_factory.hpp\<close> and its specialisations
  in the headers of the node classes): hash-consing of FQL nodes with reference counts.

  \<open>ast_heap\<close> holds one factory per class, the reference counters and the allocator.
  \<open>create_X\<close> is \<open>FQL_Node_Factory<X>::create\<close> and \<open>destroy\<close> the virtual
  \<open>destroy\<close> method. The invariant \<open>heap_inv P\<close> says that the nodes in use are
  canonical, that every factory keeps its nodes in order, that pooled objects are disjoint from
  nodes in use, and that a reference counter is the number of member pointers to the node plus
  the number \<open>P\<close> of references held by clients.

  The ordered-list reading of \<open>std::set\<close> is the standard's meaning whenever the comparator
  is a strict weak ordering on the elements and the key.
\<close>

section \<open>State\<close>

record 'e factory =
  m_used :: "'e fql_node list"
  m_available :: "'e fql_node list"  \<comment> \<open>the vector, \<open>back()\<close> first\<close>

record 'e ast_heap =
  factory_of :: "fql_class \<Rightarrow> 'e factory"
  ref_count :: "addr \<Rightarrow> int"
  next_addr :: addr

definition update_factory ::
  "fql_class \<Rightarrow> ('e factory \<Rightarrow> 'e factory) \<Rightarrow> 'e ast_heap \<Rightarrow> 'e ast_heap" where
  "update_factory c f st = st\<lparr>factory_of := (factory_of st)(c := f (factory_of st c))\<rparr>"

text \<open>\<open>if (m_available.empty()) m_available.push_back(new X(...))\<close>\<close>

definition alloc_if_empty ::
  "fql_class \<Rightarrow> (addr \<Rightarrow> 'e fql_node) \<Rightarrow> 'e ast_heap \<Rightarrow> 'e ast_heap" where
  "alloc_if_empty c mk st =
    (if m_available (factory_of st c) = [] then
       update_factory c (\<lambda>f. f\<lparr>m_available := [mk (next_addr st)]\<rparr>)
         (st\<lparr>next_addr := Suc (next_addr st), ref_count := (ref_count st)(next_addr st := 0)\<rparr>)
     else st)"

text \<open>The assignments to the fields of \<open>*m_available.back()\<close>.\<close>

definition update_back ::
  "fql_class \<Rightarrow> ('e fql_node \<Rightarrow> 'e fql_node) \<Rightarrow> 'e ast_heap \<Rightarrow> 'e ast_heap" where
  "update_back c g st =
    update_factory c (\<lambda>f. f\<lparr>m_available := g (hd (m_available f)) # tl (m_available f)\<rparr>) st"

text \<open>\<open>m_used.insert(m_available.back())\<close>: the iterator and the flag.\<close>

definition insert_back ::
  "fql_class \<Rightarrow> 'e::linorder ast_heap \<Rightarrow> 'e fql_node \<times> bool \<times> 'e ast_heap" where
  "insert_back c st =
    (let n = hd (m_available (factory_of st c)) in
     case std_find cmp_lt n (m_used (factory_of st c)) of
       Some m \<Rightarrow> (m, False, st)
     | None \<Rightarrow> (n, True, update_factory c (\<lambda>f. f\<lparr>m_used := std_insert cmp_lt n (m_used f)\<rparr>) st))"

definition pop_back :: "fql_class \<Rightarrow> 'e ast_heap \<Rightarrow> 'e ast_heap" where
  "pop_back c st = update_factory c (\<lambda>f. f\<lparr>m_available := tl (m_available f)\<rparr>) st"

definition incr_ref_count :: "'e fql_node \<Rightarrow> 'e ast_heap \<Rightarrow> 'e ast_heap" where
  "incr_ref_count n st =
    st\<lparr>ref_count := (ref_count st)(node_addr n := ref_count st (node_addr n) + 1)\<rparr>"

definition decr_ref_count :: "'e fql_node \<Rightarrow> 'e ast_heap \<Rightarrow> 'e ast_heap" where
  "decr_ref_count n st =
    st\<lparr>ref_count := (ref_count st)(node_addr n := ref_count st (node_addr n) - 1)\<rparr>"

definition incr_optional :: "'e fql_node option \<Rightarrow> 'e ast_heap \<Rightarrow> 'e ast_heap" where
  "incr_optional x st = (case x of None \<Rightarrow> st | Some n \<Rightarrow> incr_ref_count n st)"

section \<open>Creation\<close>

definition create_CP_Alternative ::
  "'e::linorder fql_node \<Rightarrow> 'e fql_node \<Rightarrow> 'e ast_heap \<Rightarrow> 'e fql_node \<times> 'e ast_heap" where
  "create_CP_Alternative a b st =
    (let st = alloc_if_empty C_CP_Alternative (\<lambda>p. CP_Alternative p a b) st;
         st = update_back C_CP_Alternative (\<lambda>n. CP_Alternative (node_addr n) a b) st;
         (n, inserted, st) = insert_back C_CP_Alternative st
     in (n, if inserted then incr_ref_count b (incr_ref_count a (pop_back C_CP_Alternative st)) else st))"

definition create_CP_Concat ::
  "'e::linorder fql_node \<Rightarrow> 'e fql_node \<Rightarrow> 'e ast_heap \<Rightarrow> 'e fql_node \<times> 'e ast_heap" where
  "create_CP_Concat a b st =
    (let st = alloc_if_empty C_CP_Concat (\<lambda>p. CP_Concat p a b) st;
         st = update_back C_CP_Concat (\<lambda>n. CP_Concat (node_addr n) a b) st;
         (n, inserted, st) = insert_back C_CP_Concat st
     in (n, if inserted then incr_ref_count b (incr_ref_count a (pop_back C_CP_Concat st)) else st))"

definition create_Depcov ::
  "'e::linorder fql_node \<Rightarrow> 'e fql_node \<Rightarrow> 'e fql_node \<Rightarrow> 'e ast_heap \<Rightarrow> 'e fql_node \<times> 'e ast_heap" where
  "create_Depcov a b c st =
    (let st = alloc_if_empty C_Depcov (\<lambda>p. Depcov p a b c) st;
         st = update_back C_Depcov (\<lambda>n. Depcov (node_addr n) a b c) st;
         (n, inserted, st) = insert_back C_Depcov st
     in (n, if inserted then incr_ref_count c (incr_ref_count b (incr_ref_count a (pop_back C_Depcov st))) else st))"

definition create_Edgecov ::
  "'e::linorder fql_node \<Rightarrow> 'e ast_heap \<Rightarrow> 'e fql_node \<times> 'e ast_heap" where
  "create_Edgecov f st =
    (let st = alloc_if_empty C_Edgecov (\<lambda>p. Edgecov p f) st;
         st = update_back C_Edgecov (\<lambda>n. Edgecov (node_addr n) f) st;
         (n, inserted, st) = insert_back C_Edgecov st
     in (n, if inserted then incr_ref_count f (pop_back C_Edgecov st) else st))"

definition create_Filter_Compose ::
  "'e::linorder fql_node \<Rightarrow> 'e fql_node \<Rightarrow> 'e ast_heap \<Rightarrow> 'e fql_node \<times> 'e ast_heap" where
  "create_Filter_Compose a b st =
    (let st = alloc_if_empty C_Filter_Compose (\<lambda>p. Filter_Compose p a b) st;
         st = update_back C_Filter_Compose (\<lambda>n. Filter_Compose (node_addr n) a b) st;
         (n, inserted, st) = insert_back C_Filter_Compose st
     in (n, if inserted then incr_ref_count b (incr_ref_count a (pop_back C_Filter_Compose st)) else st))"

definition create_Filter_Intersection ::
  "'e::linorder fql_node \<Rightarrow> 'e fql_node \<Rightarrow> 'e ast_heap \<Rightarrow> 'e fql_node \<times> 'e ast_heap" where
  "create_Filter_Intersection a b st =
    (let st = alloc_if_empty C_Filter_Intersection (\<lambda>p. Filter_Intersection p a b) st;
         st = update_back C_Filter_Intersection (\<lambda>n. Filter_Intersection (node_addr n) a b) st;
         (n, inserted, st) = insert_back C_Filter_Intersection st
     in (n, if inserted then incr_ref_count b (incr_ref_count a (pop_back C_Filter_Intersection st)) else st))"

definition create_Filter_Setminus ::
  "'e::linorder fql_node \<Rightarrow> 'e fql_node \<Rightarrow> 'e ast_heap \<Rightarrow> 'e fql_node \<times> 'e ast_heap" where
  "create_Filter_Setminus a b st =
    (let st = alloc_if_empty C_Filter_Setminus (\<lambda>p. Filter_Setminus p a b) st;
         st = update_back C_Filter_Setminus (\<lambda>n. Filter_Setminus (node_addr n) a b) st;
         (n, inserted, st) = insert_back C_Filter_Setminus st
     in (n, if inserted then incr_ref_count b (incr_ref_count a (pop_back C_Filter_Setminus st)) else st))"

definition create_Filter_Union ::
  "'e::linorder fql_node \<Rightarrow> 'e fql_node \<Rightarrow> 'e ast_heap \<Rightarrow> 'e fql_node \<times> 'e ast_heap" where
  "create_Filter_Union a b st =
    (let st = alloc_if_empty C_Filter_Union (\<lambda>p. Filter_Union p a b) st;
         st = update_back C_Filter_Union (\<lambda>n. Filter_Union (node_addr n) a b) st;
         (n, inserted, st) = insert_back C_Filter_Union st
     in (n, if inserted then incr_ref_count b (incr_ref_count a (pop_back C_Filter_Union st)) else st))"

definition create_Nodecov ::
  "'e::linorder fql_node \<Rightarrow> 'e ast_heap \<Rightarrow> 'e fql_node \<times> 'e ast_heap" where
  "create_Nodecov f st =
    (let st = alloc_if_empty C_Nodecov (\<lambda>p. Nodecov p f) st;
         st = update_back C_Nodecov (\<lambda>n. Nodecov (node_addr n) f) st;
         (n, inserted, st) = insert_back C_Nodecov st
     in (n, if inserted then incr_ref_count f (pop_back C_Nodecov st) else st))"

definition create_PP_Alternative ::
  "'e::linorder fql_node \<Rightarrow> 'e fql_node \<Rightarrow> 'e ast_heap \<Rightarrow> 'e fql_node \<times> 'e ast_heap" where
  "create_PP_Alternative a b st =
    (let st = alloc_if_empty C_PP_Alternative (\<lambda>p. PP_Alternative p a b) st;
         st = update_back C_PP_Alternative (\<lambda>n. PP_Alternative (node_addr n) a b) st;
         (n, inserted, st) = insert_back C_PP_Alternative st
     in (n, if inserted then incr_ref_count b (incr_ref_count a (pop_back C_PP_Alternative st)) else st))"

definition create_PP_Concat ::
  "'e::linorder fql_node \<Rightarrow> 'e fql_node \<Rightarrow> 'e ast_heap \<Rightarrow> 'e fql_node \<times> 'e ast_heap" where
  "create_PP_Concat a b st =
    (let st = alloc_if_empty C_PP_Concat (\<lambda>p. PP_Concat p a b) st;
         st = update_back C_PP_Concat (\<lambda>n. PP_Concat (node_addr n) a b) st;
         (n, inserted, st) = insert_back C_PP_Concat st
     in (n, if inserted then incr_ref_count b (incr_ref_count a (pop_back C_PP_Concat st)) else st))"

definition create_Pathcov ::
  "'e::linorder fql_node \<Rightarrow> int \<Rightarrow> 'e ast_heap \<Rightarrow> 'e fql_node \<times> 'e ast_heap" where
  "create_Pathcov f k st =
    (let st = alloc_if_empty C_Pathcov (\<lambda>p. Pathcov p f k) st;
         st = update_back C_Pathcov (\<lambda>n. Pathcov (node_addr n) f k) st;
         (n, inserted, st) = insert_back C_Pathcov st
     in (n, if inserted then incr_ref_count f (pop_back C_Pathcov st) else st))"

definition create_Quote ::
  "'e::linorder fql_node \<Rightarrow> 'e ast_heap \<Rightarrow> 'e fql_node \<times> 'e ast_heap" where
  "create_Quote q st =
    (let st = alloc_if_empty C_Quote (\<lambda>p. Quote p q) st;
         st = update_back C_Quote (\<lambda>n. Quote (node_addr n) q) st;
         (n, inserted, st) = insert_back C_Quote st
     in (n, if inserted then incr_ref_count q (pop_back C_Quote st) else st))"

definition create_Query ::
  "'e::linorder fql_node option \<Rightarrow> 'e fql_node \<Rightarrow> 'e fql_node option \<Rightarrow> 'e ast_heap \<Rightarrow> 'e fql_node \<times> 'e ast_heap" where
  "create_Query x c y st =
    (let st = alloc_if_empty C_Query (\<lambda>p. Query p x c y) st;
         st = update_back C_Query (\<lambda>n. Query (node_addr n) x c y) st;
         (n, inserted, st) = insert_back C_Query st
     in (n, if inserted then incr_optional y (incr_ref_count c (incr_optional x (pop_back C_Query st))) else st))"

definition create_Repeat ::
  "'e::linorder fql_node \<Rightarrow> int \<Rightarrow> int \<Rightarrow> 'e ast_heap \<Rightarrow> 'e fql_node \<times> 'e ast_heap" where
  "create_Repeat q l u st =
    (let st = alloc_if_empty C_Repeat (\<lambda>p. Repeat p q l u) st;
         st = update_back C_Repeat (\<lambda>n. Repeat (node_addr n) q l u) st;
         (n, inserted, st) = insert_back C_Repeat st
     in (n, if inserted then incr_ref_count q (pop_back C_Repeat st) else st))"

definition create_Predicate ::
  "'e::linorder option \<Rightarrow> 'e ast_heap \<Rightarrow> 'e fql_node \<times> 'e ast_heap" where
  "create_Predicate e st =
    (let st = alloc_if_empty C_Predicate (\<lambda>p. Predicate p e) st;
         st = update_back C_Predicate (\<lambda>n. Predicate (node_addr n) e) st;
         (n, inserted, st) = insert_back C_Predicate st
     in (n, if inserted then pop_back C_Predicate st
            else update_back C_Predicate (\<lambda>n. Predicate (node_addr n) None) st))"

text \<open>
  The three macros of \<open>filter_function.hpp\<close>. An object taken from the pool keeps the value
  of the fields the macro does not assign.
\<close>

fun ff_int :: "'e fql_node \<Rightarrow> int" where
  "ff_int (Filter_Function p t i s) = i"
| "ff_int _ = - 1"

fun ff_string :: "'e fql_node \<Rightarrow> string" where
  "ff_string (Filter_Function p t i s) = s"
| "ff_string _ = []"

definition create_Filter_No_Arg ::
  "filter_function_t \<Rightarrow> 'e::linorder ast_heap \<Rightarrow> 'e fql_node \<times> 'e ast_heap" where
  "create_Filter_No_Arg t st =
    (let st = alloc_if_empty C_Filter_Function (\<lambda>p. Filter_Function p t (- 1) []) st;
         st = update_back C_Filter_Function
           (\<lambda>n. Filter_Function (node_addr n) t (ff_int n) (ff_string n)) st;
         (n, inserted, st) = insert_back C_Filter_Function st
     in (n, if inserted then pop_back C_Filter_Function st else st))"

definition create_Filter_Int_Arg ::
  "filter_function_t \<Rightarrow> int \<Rightarrow> 'e::linorder ast_heap \<Rightarrow> 'e fql_node \<times> 'e ast_heap" where
  "create_Filter_Int_Arg t v st =
    (let st = alloc_if_empty C_Filter_Function (\<lambda>p. Filter_Function p t v []) st;
         st = update_back C_Filter_Function
           (\<lambda>n. Filter_Function (node_addr n) t v (ff_string n)) st;
         (n, inserted, st) = insert_back C_Filter_Function st
     in (n, if inserted then pop_back C_Filter_Function st else st))"

definition create_Filter_String_Arg ::
  "filter_function_t \<Rightarrow> string \<Rightarrow> 'e::linorder ast_heap \<Rightarrow> 'e fql_node \<times> 'e ast_heap" where
  "create_Filter_String_Arg t v st =
    (let st = alloc_if_empty C_Filter_Function (\<lambda>p. Filter_Function p t (- 1) v) st;
         st = update_back C_Filter_Function
           (\<lambda>n. Filter_Function (node_addr n) t (ff_int n) v) st;
         (n, inserted, st) = insert_back C_Filter_Function st
     in (n, if inserted then pop_back C_Filter_Function st else st))"

section \<open>Destruction\<close>

text \<open>\<open>FQL_Node_Factory<Element>::destroy\<close>: back into the pool.\<close>

definition factory_destroy :: "'e::linorder fql_node \<Rightarrow> 'e ast_heap \<Rightarrow> 'e ast_heap" where
  "factory_destroy n st = update_factory (node_class n)
     (\<lambda>f. f\<lparr>m_used := std_erase cmp_lt n (m_used f), m_available := n # m_available f\<rparr>) st"

text \<open>
  The virtual \<open>destroy\<close>: every class releases its non-null member pointers in declaration
  order, each by \<open>decr_ref_count\<close> followed by \<open>destroy\<close>.
\<close>

lemma fold_destroy_cong [fundef_cong]:
  "\<lbrakk>xs = ys; st = st'; \<And>x s. x \<in> set ys \<Longrightarrow> f x s = g x s\<rbrakk> \<Longrightarrow> fold f xs st = fold g ys st'"
  by (rule fold_cong) auto

function destroy :: "'e::linorder fql_node \<Rightarrow> 'e ast_heap \<Rightarrow> bool \<times> 'e ast_heap" where
  "destroy n st =
    (if ref_count st (node_addr n) \<noteq> 0 then (False, st)
     else (True, fold (\<lambda>c st. snd (destroy c (decr_ref_count c st))) (children n)
            (factory_destroy n st)))"
  by pat_completeness auto
termination
  by (relation "measure (\<lambda>(n, st). size n)") (auto dest: size_children)

declare destroy.simps [simp del]

section \<open>Invariant\<close>

definition live :: "'e ast_heap \<Rightarrow> 'e fql_node set" where
  "live st = (\<Union>c. set (m_used (factory_of st c)))"

definition pool :: "'e ast_heap \<Rightarrow> 'e fql_node set" where
  "pool st = (\<Union>c. set (m_available (factory_of st c)))"

text \<open>The number of member pointers to a node.\<close>

definition parents :: "'e ast_heap \<Rightarrow> 'e fql_node \<Rightarrow> nat" where
  "parents st n = (\<Sum>m\<in>live st. count_list (children m) n)"

definition factory_inv :: "'e::linorder ast_heap \<Rightarrow> fql_class \<Rightarrow> bool" where
  "factory_inv st c \<longleftrightarrow>
     (\<forall>n \<in> set (m_used (factory_of st c)) \<union> set (m_available (factory_of st c)). node_class n = c)
     \<and> sorted_wrt cmp_lt (m_used (factory_of st c))
     \<and> distinct (map node_addr (m_available (factory_of st c)))"

definition heap_inv :: "('e fql_node \<Rightarrow> nat) \<Rightarrow> 'e::linorder ast_heap \<Rightarrow> bool" where
  "heap_inv P st \<longleftrightarrow> (\<forall>c. factory_inv st c)
     \<and> canonical (live st)
     \<and> inj_on node_addr (pool st)
     \<and> node_addr ` live st \<inter> node_addr ` pool st = {}
     \<and> (\<forall>n \<in> live st \<union> pool st. node_addr n < next_addr st)
     \<and> (\<forall>n \<in> live st. ref_count st (node_addr n) = int (parents st n + P n))
     \<and> (\<forall>n \<in> pool st. ref_count st (node_addr n) = 0)
     \<and> (\<forall>n. P n \<noteq> 0 \<longrightarrow> n \<in> live st)"

lemma heap_invD:
  assumes "heap_inv P st"
  shows "factory_inv st c" "canonical (live st)" "inj_on node_addr (pool st)"
    "node_addr ` live st \<inter> node_addr ` pool st = {}"
    "n \<in> live st \<union> pool st \<Longrightarrow> node_addr n < next_addr st"
    "n \<in> live st \<Longrightarrow> ref_count st (node_addr n) = int (parents st n + P n)"
    "n \<in> pool st \<Longrightarrow> ref_count st (node_addr n) = 0"
    "P n \<noteq> 0 \<Longrightarrow> n \<in> live st"
  using assms by (auto simp: heap_inv_def)

lemma UNIV_fql_class: "UNIV = set fql_classes"
proof -
  have "c \<in> set fql_classes" for c by (cases c) (simp_all add: fql_classes_def)
  then show ?thesis by auto
qed

lemma finite_live [simp]: "finite (live st)"
  unfolding live_def UNIV_fql_class by simp

lemma live_class: "\<lbrakk>heap_inv P st; n \<in> live st\<rbrakk> \<Longrightarrow> n \<in> set (m_used (factory_of st (node_class n)))"
  using heap_invD(1) [of P st] by (force simp: live_def factory_inv_def)

lemma used_live: "n \<in> set (m_used (factory_of st c)) \<Longrightarrow> n \<in> live st"
  by (auto simp: live_def)

lemma canonical_std_order: "canonical S \<Longrightarrow> std_order cmp_lt S"
  by (simp add: std_order.intro slo_cmp_lt)

lemma used_ordered:
  assumes "heap_inv P st" "canonical S" "live st \<subseteq> S"
  shows "std_order.ordered cmp_lt S (m_used (factory_of st c))"
  unfolding std_order.ordered_def [OF canonical_std_order [OF assms(2)]]
  using heap_invD(1) [OF assms(1), of c] assms(3) used_live [of _ st c] by (auto simp: factory_inv_def)

lemma live_update_factory:
  "live (update_factory c f st) =
    set (m_used (f (factory_of st c))) \<union> (\<Union>d\<in>- {c}. set (m_used (factory_of st d)))"
  by (auto simp: live_def update_factory_def split: if_splits)

lemma pool_update_factory:
  "pool (update_factory c f st) =
    set (m_available (f (factory_of st c))) \<union> (\<Union>d\<in>- {c}. set (m_available (factory_of st d)))"
  by (auto simp: pool_def update_factory_def split: if_splits)

lemma live_split: "live st = set (m_used (factory_of st c)) \<union> (\<Union>d\<in>- {c}. set (m_used (factory_of st d)))"
  by (auto simp: live_def)

lemma pool_split:
  "pool st = set (m_available (factory_of st c)) \<union> (\<Union>d\<in>- {c}. set (m_available (factory_of st d)))"
  by (auto simp: pool_def)

lemma live_update_same:
  "m_used (f (factory_of st c)) = m_used (factory_of st c) \<Longrightarrow> live (update_factory c f st) = live st"
  by (simp add: live_update_factory live_split [of st c])

lemma update_factory_simps [simp]:
  "factory_of (update_factory c f st) d = (if d = c then f (factory_of st c) else factory_of st d)"
  "ref_count (update_factory c f st) = ref_count st"
  "next_addr (update_factory c f st) = next_addr st"
  by (auto simp: update_factory_def)

text \<open>The operations on the pool leave the nodes in use alone.\<close>

lemma alloc_if_empty_inv:
  assumes inv: "heap_inv P st" and mk: "\<And>p. node_class (mk p) = c" "\<And>p. node_addr (mk p) = p"
  shows "heap_inv P (alloc_if_empty c mk st)" "live (alloc_if_empty c mk st) = live st"
    "m_available (factory_of (alloc_if_empty c mk st) c) \<noteq> []"
    "n \<in> live st \<Longrightarrow> ref_count (alloc_if_empty c mk st) (node_addr n) = ref_count st (node_addr n)"
proof -
  have live: "live (alloc_if_empty c mk st) = live st"
    by (simp add: alloc_if_empty_def live_update_same) (simp add: live_def)
  show "heap_inv P (alloc_if_empty c mk st)"
  proof (cases "m_available (factory_of st c) = []")
    case True
    let ?st = "alloc_if_empty c mk st"
    have pool: "pool ?st = insert (mk (next_addr st)) (pool st)"
      using True pool_split [of st c]
      by (auto simp: alloc_if_empty_def pool_update_factory)
    have lt: "node_addr n < next_addr st" if "n \<in> live st \<union> pool st" for n
      using heap_invD(5) [OF inv that] .
    have fresh: "node_addr n \<noteq> next_addr st" if "n \<in> live st \<union> pool st" for n
      using lt [OF that] by simp
    have "next_addr st \<notin> node_addr ` pool st" by (metis UnI2 fresh imageE)
    then have "inj_on node_addr (pool ?st)"
      using heap_invD(3) [OF inv] mk(2) by (auto simp: pool)
    moreover have "parents ?st n = parents st n" for n by (simp add: parents_def live)
    moreover have "factory_inv ?st d" for d
      using heap_invD(1) [OF inv, of d] True mk
      by (auto simp: factory_inv_def alloc_if_empty_def)
    moreover have "ref_count ?st = (ref_count st)(next_addr st := 0)" "next_addr ?st = Suc (next_addr st)"
      using True by (auto simp: alloc_if_empty_def)
    ultimately show ?thesis
      using inv fresh mk unfolding heap_inv_def live pool by (auto simp: less_Suc_eq)
  qed (use inv in \<open>simp add: alloc_if_empty_def\<close>)
  show "n \<in> live st \<Longrightarrow> ref_count (alloc_if_empty c mk st) (node_addr n) = ref_count st (node_addr n)"
    using heap_invD(5) [OF inv, of n] by (auto simp: alloc_if_empty_def)
qed (simp_all add: alloc_if_empty_def live_update_same, simp add: live_def)

text \<open>The object at the back of a pool and the rest of all pools.\<close>

definition pool_rest :: "'e ast_heap \<Rightarrow> fql_class \<Rightarrow> 'e fql_node set" where
  "pool_rest st c =
    set (tl (m_available (factory_of st c))) \<union> (\<Union>d\<in>- {c}. set (m_available (factory_of st d)))"

lemma pool_back:
  assumes inv: "heap_inv P st" and av: "m_available (factory_of st c) = x # xs"
  shows "pool st = insert x (pool_rest st c)" "x \<notin> pool_rest st c" "node_class x = c"
    "node_addr x \<notin> node_addr ` pool_rest st c"
proof -
  show cx: "node_class x = c" using heap_invD(1) [OF inv, of c] av by (auto simp: factory_inv_def)
  show pool: "pool st = insert x (pool_rest st c)"
    using av pool_split [of st c] by (auto simp: pool_rest_def)
  have "node_class n \<noteq> c" if "n \<in> set (m_available (factory_of st d))" "d \<noteq> c" for n d
    using that heap_invD(1) [OF inv, of d] by (auto simp: factory_inv_def)
  then show x: "x \<notin> pool_rest st c"
    using cx heap_invD(1) [OF inv, of c] av by (auto simp: factory_inv_def pool_rest_def)
  show "node_addr x \<notin> node_addr ` pool_rest st c"
    using heap_invD(3) [OF inv] x by (simp add: pool)
qed

lemma update_back_inv:
  assumes inv: "heap_inv P st" and ne: "m_available (factory_of st c) \<noteq> []"
    and upd: "\<And>n. node_class n = c \<Longrightarrow> node_class (upd n) = c \<and> node_addr (upd n) = node_addr n"
  shows "heap_inv P (update_back c upd st)" "live (update_back c upd st) = live st"
proof -
  obtain x xs where av: "m_available (factory_of st c) = x # xs" using ne by (cases "m_available (factory_of st c)") auto
  note bk = pool_back [OF inv av] and x = pool_back(3) [OF inv av]
  let ?st = "update_back c upd st"
  have pool: "pool ?st = insert (upd x) (pool_rest st c)"
    using av unfolding update_back_def pool_update_factory pool_rest_def by auto
  have inj: "inj_on node_addr (pool ?st)"
    using heap_invD(3) [OF inv] upd [OF x] bk unfolding pool bk(1) by auto
  show live: "live ?st = live st"
    by (simp add: update_back_def live_update_same)
  have "\<forall>d. factory_inv ?st d"
  proof
    fix d show "factory_inv ?st d"
      using heap_invD(1) [OF inv, of d] upd [OF x] av
      by (cases "d = c") (simp_all add: factory_inv_def update_back_def)
  qed
  moreover have "parents ?st n = parents st n" for n by (simp add: parents_def live)
  moreover have "ref_count ?st = ref_count st" "next_addr ?st = next_addr st"
    by (auto simp: update_back_def)
  ultimately show "heap_inv P ?st"
    using inv upd [OF x] inj unfolding heap_inv_def live by (simp add: pool bk(1) del: inj_on_insert)
qed


section \<open>Creation keeps the heap canonical\<close>

text \<open>The common body of the \<open>create\<close> functions.\<close>

definition factory_create ::
  "fql_class \<Rightarrow> (addr \<Rightarrow> 'e fql_node) \<Rightarrow> ('e fql_node \<Rightarrow> 'e fql_node) \<Rightarrow> 'e fql_node list
    \<Rightarrow> 'e::linorder ast_heap \<Rightarrow> 'e fql_node \<times> 'e ast_heap" where
  "factory_create c mk upd kids st =
    (let (n, inserted, st) = insert_back c (update_back c upd (alloc_if_empty c mk st))
     in (n, if inserted then fold incr_ref_count kids (pop_back c st) else st))"

lemma fold_incr_ref_count:
  "fold incr_ref_count ks st =
    st\<lparr>ref_count := \<lambda>p. ref_count st p + int (count_list (map node_addr ks) p)\<rparr>"
  by (induction ks arbitrary: st) (auto simp: incr_ref_count_def fun_eq_iff)

lemma count_list_addr:
  assumes "inj_on node_addr S" "set ks \<subseteq> S" "n \<in> S"
  shows "count_list (map node_addr ks) (node_addr n) = count_list ks n"
  using assms(2) by (induction ks) (use assms(1,3) in \<open>auto dest: inj_onD\<close>)

lemma sum_insert_parents:
  assumes "live st' = insert x (live st)" "x \<notin> live st"
  shows "parents st' n = parents st n + count_list (children x) n"
  using assms by (simp add: parents_def)

lemma canonical_insert:
  assumes "canonical S" "set (children x) \<subseteq> S" "node_addr x \<notin> node_addr ` S" "key x \<notin> key ` S"
  shows "canonical (insert x S)"
  using assms unfolding canonical_def by (auto simp: inj_on_insert)

text \<open>Inserting the object at the back of the pool as a node of its own.\<close>

lemma insert_back_new:
  assumes inv: "heap_inv P st" and av: "m_available (factory_of st c) = x # xs"
    and kids: "set (children x) \<subseteq> live st" and key: "key x \<notin> key ` live st"
    and st': "st' = fold incr_ref_count (children x)
      (pop_back c (update_factory c (\<lambda>f. f\<lparr>m_used := std_insert cmp_lt x (m_used f)\<rparr>) st))"
  shows "std_find cmp_lt x (m_used (factory_of st c)) = None"
    "heap_inv P st'" "live st' = insert x (live st)"
proof -
  note bk = pool_back [OF inv av]
  have addr: "node_addr x \<notin> node_addr ` live st" using heap_invD(4) [OF inv] bk(1) by blast
  then have xl: "x \<notin> live st" by blast
  have can: "canonical (insert x (live st))"
    using heap_invD(2) [OF inv] kids addr key by (rule canonical_insert)
  note slo = canonical_std_order [OF can]
  have ord: "std_order.ordered cmp_lt (insert x (live st)) (m_used (factory_of st c))"
    using inv can by (rule used_ordered) auto
  show "std_find cmp_lt x (m_used (factory_of st c)) = None"
    using std_order.std_find_Some [OF slo ord] xl used_live by auto
  have set_ins: "set (std_insert cmp_lt x (m_used (factory_of st c))) = insert x (set (m_used (factory_of st c)))"
    using std_order.set_std_insert [OF slo ord] by simp
  have sorted_ins: "sorted_wrt cmp_lt (std_insert cmp_lt x (m_used (factory_of st c)))"
    using std_order.ordered_std_insert [OF slo ord] by (simp add: std_order.ordered_def [OF slo])
  have fac: "factory_of st' d = (if d = c then (factory_of st c)\<lparr>m_used := std_insert cmp_lt x
      (m_used (factory_of st c)), m_available := xs\<rparr> else factory_of st d)" for d
    unfolding st' fold_incr_ref_count pop_back_def by (simp add: av)
  show live: "live st' = insert x (live st)"
    using set_ins unfolding live_split [of st' c] live_split [of st c] fac by auto
  have pool: "pool st' = pool_rest st c"
    unfolding pool_split [of st' c] pool_rest_def fac by (auto simp: av)
  have ref: "ref_count st' p = ref_count st p + int (count_list (map node_addr (children x)) p)"
    "next_addr st' = next_addr st" for p
    unfolding st' fold_incr_ref_count pop_back_def by simp_all
  have "\<forall>d. factory_inv st' d"
  proof
    fix d show "factory_inv st' d"
      using heap_invD(1) [OF inv, of d] av set_ins sorted_ins bk(3)
      by (cases "d = c") (simp_all add: factory_inv_def fac)
  qed
  moreover have "node_addr ` live st' \<inter> node_addr ` pool st' = {}"
    using heap_invD(4) [OF inv] bk unfolding live pool by auto
  moreover have "ref_count st' (node_addr n) = int (parents st' n + P n)" if n: "n \<in> live st'" for n
  proof (cases "n = x")
    case True
    have "parents st x = 0" "count_list (children x) x = 0"
      using canonicalD(1) [OF heap_invD(2) [OF inv]] xl kids
      by (auto simp: parents_def count_list_0_iff)
    moreover have "P x = 0" using heap_invD(8) [OF inv, of x] xl by blast
    ultimately show ?thesis
      using True heap_invD(7) [OF inv, of x] bk(1)
        count_list_addr [OF canonicalD(2) [OF can] subset_insertI2 [OF kids], of x]
      by (simp add: ref sum_insert_parents [OF live xl])
  next
    case False
    then show ?thesis
      using n live heap_invD(6) [OF inv, of n] count_list_addr [OF canonicalD(2) [OF heap_invD(2) [OF inv]] kids, of n]
      by (simp add: ref sum_insert_parents [OF live xl])
  qed
  moreover have "ref_count st' (node_addr n) = 0" if "n \<in> pool st'" for n
  proof -
    have "set (map node_addr (children x)) \<subseteq> node_addr ` live st" using kids by auto
    then have "node_addr n \<notin> set (map node_addr (children x))"
      using that heap_invD(4) [OF inv] bk(1) unfolding pool by blast
    then show ?thesis
      using that heap_invD(7) [OF inv, of n] bk(1) by (simp add: ref pool count_list_0_iff)
  qed
  ultimately show "heap_inv P st'"
    using can inv bk unfolding heap_inv_def live pool by (simp add: ref)
qed

text \<open>
  An object with the class and components of a node in use is found again, except in the three
  classes whose comparator negates its last comparison.
\<close>

definition negated_class :: "fql_class \<Rightarrow> bool" where
  "negated_class c \<longleftrightarrow> c \<in> {C_Depcov, C_Filter_Compose, C_Filter_Setminus}"

lemma cmp_lt_same_good:
  assumes "slo cmp_lt T" "set (children a) \<subseteq> T" "set (children b) \<subseteq> T" "inj_on node_addr T"
    and ne: "node_addr a \<noteq> node_addr b" and cl: "node_class a = node_class b" "\<not> negated_class (node_class a)"
  shows "cmp_lt a b \<longleftrightarrow> lex_lt (comp_lt cmp_lt) (comps a) (comps b)"
proof -
  consider (plain) "node_class a \<notin> {C_Depcov, C_Filter_Compose, C_Filter_Function, C_Filter_Setminus, C_Query}"
    | (ff) p t i s q t' i' s' where "a = Filter_Function p t i s" "b = Filter_Function q t' i' s'"
    | (query) p x c y q x' c' y' where "a = Query p x c y" "b = Query q x' c' y'"
    using cl by (cases a; cases b) (auto simp: negated_class_def)
  then show ?thesis
  proof cases
    case plain
    then show ?thesis using cl ne by (intro cmp_lt_same_plain) auto
  next
    case ff
    then show ?thesis using ne by (simp add: cmp_lt_same_Filter_Function del: comps.simps)
  next
    case query
    then show ?thesis using assms by (simp add: cmp_lt_same_Query [of T] del: comps.simps)
  qed
qed

lemma std_find_cong:
  "(\<And>y. y \<in> set ys \<Longrightarrow> lt y x = lt y m \<and> lt x y = lt m y) \<Longrightarrow> std_find lt x ys = std_find lt m ys"
  by (induction ys) auto

lemma insert_back_found:
  assumes inv: "heap_inv P st" and cx: "node_class x = c" "\<not> negated_class c"
    and kids: "set (children x) \<subseteq> live st" and addr: "node_addr x \<notin> node_addr ` live st"
    and m: "m \<in> live st" "key m = key x"
  shows "std_find cmp_lt x (m_used (factory_of st c)) = Some m"
proof -
  have can: "canonical (live st)" using heap_invD(2) [OF inv] .
  have cm: "node_class m = c" "comps m = comps x" using m(2) cx by (auto simp: key_def)
  have m_used: "m \<in> set (m_used (factory_of st c))" using live_class [OF inv m(1)] cm by simp
  note good = cmp_lt_same_good [OF slo_cmp_lt [OF can] _ _ canonicalD(2) [OF can]]
  have eq: "cmp_lt y x = cmp_lt y m \<and> cmp_lt x y = cmp_lt m y" if y: "y \<in> set (m_used (factory_of st c))" for y
  proof (cases "y = m")
    case True
    have "\<not> lex_lt (comp_lt cmp_lt) (comps x) (comps x)"
    proof (rule lex_lt_irrefl)
      fix k assume "k \<in> set (comps x)"
      then have "comp_nodes k \<subseteq> live st" using kids key_nodes [of x] by (auto simp: key_def)
      then show "\<not> comp_lt cmp_lt k k"
        using slo_irrefl [OF slo_comp_lt [OF slo_cmp_lt [OF can]]] by simp
    qed
    moreover have "node_addr m \<noteq> node_addr x" using m(1) addr by (metis imageI)
    ultimately show ?thesis
      using True cm cx kids m(1) canonicalD(1) [OF can] good [of m x] good [of x m] by simp
  next
    case False
    have cy: "node_class y = c" "y \<in> live st"
      using y heap_invD(1) [OF inv, of c] used_live by (auto simp: factory_inv_def)
    then have "node_addr y \<noteq> node_addr m" "node_addr y \<noteq> node_addr x"
      using False m(1) addr canonicalD(2) [OF can] by (metis inj_onD, metis imageI)
    then show ?thesis
      using cy cm cx kids m(1) canonicalD(1) [OF can] good [of y x] good [of y m] good [of x y] good [of m y] by auto
  qed
  have "std_find cmp_lt m (m_used (factory_of st c)) = Some m"
    using std_order.std_find_Some [OF canonical_std_order [OF can] used_ordered [OF inv can] m(1)] m_used by simp
  then show ?thesis using std_find_cong [of "m_used (factory_of st c)" cmp_lt x m] eq by simp
qed

text \<open>
  Creation, for all classes at once. \<open>K\<close> is the key (class and components) of the requested
  node.
\<close>

lemma factory_create_correct:
  assumes inv: "heap_inv P st"
    and mk: "\<And>p. node_class (mk p) = c" "\<And>p. node_addr (mk p) = p"
    and upd: "\<And>n. node_class n = c \<Longrightarrow> node_class (upd n) = c \<and> node_addr (upd n) = node_addr n
      \<and> children (upd n) = kids \<and> key (upd n) = K"
    and kids: "set kids \<subseteq> live st"
    and neg: "negated_class c \<Longrightarrow> K \<notin> key ` live st"
    and create: "factory_create c mk upd kids st = (n, st')"
  shows "heap_inv P st'" "n \<in> live st'" "key n = K" "live st' = insert n (live st)"
    "\<And>m. m \<in> live st \<Longrightarrow> key m = K \<Longrightarrow> n = m \<and> ref_count st' (node_addr m) = ref_count st (node_addr m)"
proof -
  let ?s = "update_back c upd (alloc_if_empty c mk st)"
  note al = alloc_if_empty_inv [OF inv mk]
  have s: "heap_inv P ?s" "live ?s = live st"
    using update_back_inv [OF al(1,3), of upd] upd al(2) by auto
  obtain a as where a: "m_available (factory_of (alloc_if_empty c mk st) c) = a # as"
    using al(3) by (cases "m_available (factory_of (alloc_if_empty c mk st) c)") auto
  then have av: "m_available (factory_of ?s c) = upd a # as" by (simp add: update_back_def)
  have u: "node_class (upd a) = c" "children (upd a) = kids" "key (upd a) = K"
    using upd [of a] pool_back(3) [OF al(1) a] by auto
  have addr: "node_addr (upd a) \<notin> node_addr ` live ?s"
    using heap_invD(4) [OF s(1)] pool_back(1) [OF s(1) av] by auto
  have kids': "set (children (upd a)) \<subseteq> live ?s" using kids u s by simp
  have ref: "ref_count ?s (node_addr m) = ref_count st (node_addr m)" if "m \<in> live st" for m
    using al(4) [OF that] by (simp add: update_back_def)
  note c = create [unfolded factory_create_def insert_back_def Let_def]
  have "heap_inv P st' \<and> n \<in> live st' \<and> key n = K \<and> live st' = insert n (live st)
    \<and> (\<forall>m. m \<in> live st \<longrightarrow> key m = K \<longrightarrow> n = m \<and> ref_count st' (node_addr m) = ref_count st (node_addr m))"
  proof (cases "K \<in> key ` live st")
    case True
    then obtain m where m: "m \<in> live st" "key m = K" by auto
    have "\<not> negated_class c" using neg True by blast
    then have "std_find cmp_lt (upd a) (m_used (factory_of ?s c)) = Some m"
      using m by (intro insert_back_found [OF s(1) u(1) _ kids' addr]) (simp_all add: s u)
    then have "n = m" "st' = ?s" using c av by simp_all
    moreover have "m = m'" if "m' \<in> live st" "key m' = K" for m'
      using that m canonicalD(3) [OF heap_invD(2) [OF inv]] by (auto dest: inj_onD)
    ultimately show ?thesis using s m ref by (metis insert_absorb)
  next
    case False
    then have "key (upd a) \<notin> key ` live ?s" by (simp add: u s)
    note new = insert_back_new [OF s(1) av kids' this refl, unfolded u(2)]
    have n: "n = upd a" and st': "st' = fold incr_ref_count kids
      (pop_back c (update_factory c (\<lambda>f. f\<lparr>m_used := std_insert cmp_lt (upd a) (m_used f)\<rparr>) ?s))"
      using c av new(1) by auto
    have "m \<in> live st \<Longrightarrow> key m \<noteq> K" for m using False by blast
    then show ?thesis unfolding n st' using new(2,3) u(3) s(2) by simp
  qed
  then show "heap_inv P st'" "n \<in> live st'" "key n = K" "live st' = insert n (live st)"
    "\<And>m. m \<in> live st \<Longrightarrow> key m = K \<Longrightarrow> n = m \<and> ref_count st' (node_addr m) = ref_count st (node_addr m)"
    by auto
qed

section \<open>Destruction\<close>

lemma incr_ref_count_inv:
  assumes inv: "heap_inv P st" and n: "n \<in> live st"
  shows "heap_inv (\<lambda>m. P m + count_list [n] m) (incr_ref_count n st)"
proof -
  have can: "inj_on node_addr (live st)" using canonicalD(2) [OF heap_invD(2) [OF inv]] .
  have st': "live (incr_ref_count n st) = live st" "pool (incr_ref_count n st) = pool st"
    "factory_inv (incr_ref_count n st) c = factory_inv st c" "next_addr (incr_ref_count n st) = next_addr st"
    "parents (incr_ref_count n st) m = parents st m" for c m
    by (simp_all add: incr_ref_count_def live_def pool_def factory_inv_def parents_def)
  have "ref_count (incr_ref_count n st) (node_addr m) = int (parents st m + (P m + count_list [n] m))"
    if "m \<in> live st" for m
    using heap_invD(6) [OF inv that] that n inj_onD [OF can, of m n] by (auto simp: incr_ref_count_def)
  moreover have "ref_count (incr_ref_count n st) (node_addr m) = 0" if "m \<in> pool st" for m
  proof -
    have "node_addr m \<noteq> node_addr n" using heap_invD(4) [OF inv] that n by blast
    then show ?thesis using heap_invD(7) [OF inv that] by (simp add: incr_ref_count_def)
  qed
  ultimately show ?thesis
    using inv n unfolding heap_inv_def st' by auto
qed

lemma decr_ref_count_inv:
  assumes inv: "heap_inv (\<lambda>m. P m + count_list (c # cs) m) st"
  shows "heap_inv (\<lambda>m. P m + count_list cs m) (decr_ref_count c st)"
    "live (decr_ref_count c st) = live st" "c \<in> live st"
proof -
  show c: "c \<in> live st" using heap_invD(8) [OF inv, of c] by simp
  have can: "inj_on node_addr (live st)" using canonicalD(2) [OF heap_invD(2) [OF inv]] .
  show st1: "live (decr_ref_count c st) = live st"
    by (simp add: decr_ref_count_def live_def)
  have st': "pool (decr_ref_count c st) = pool st" "next_addr (decr_ref_count c st) = next_addr st"
    "factory_inv (decr_ref_count c st) d = factory_inv st d"
    "parents (decr_ref_count c st) m = parents st m" for d m
    by (simp_all add: decr_ref_count_def live_def pool_def factory_inv_def parents_def)
  have "ref_count (decr_ref_count c st) (node_addr m) = int (parents st m + (P m + count_list cs m))"
    if "m \<in> live st" for m
    using heap_invD(6) [OF inv that] that c inj_onD [OF can, of m c] by (auto simp: decr_ref_count_def)
  moreover have "ref_count (decr_ref_count c st) (node_addr m) = 0" if "m \<in> pool st" for m
  proof -
    have "node_addr m \<noteq> node_addr c" using heap_invD(4) [OF inv] that c by blast
    then show ?thesis using heap_invD(7) [OF inv that] by (simp add: decr_ref_count_def)
  qed
  ultimately show "heap_inv (\<lambda>m. P m + count_list cs m) (decr_ref_count c st)"
    using inv unfolding heap_inv_def st1 st' by auto
qed

lemma canonical_remove:
  assumes "canonical S" "\<And>m. m \<in> S \<Longrightarrow> n \<notin> set (children m)"
  shows "canonical (S - {n})"
  using assms unfolding canonical_def by (auto intro: inj_on_diff)

text \<open>A node without references goes back to its pool; its operands keep one reference each.\<close>

lemma factory_destroy_inv:
  assumes inv: "heap_inv P st" and n: "n \<in> live st" and zero: "ref_count st (node_addr n) = 0"
  shows "heap_inv (\<lambda>m. P m + count_list (children n) m) (factory_destroy n st)"
    "live (factory_destroy n st) = live st - {n}"
proof -
  let ?st = "factory_destroy n st"
  obtain c where c: "node_class n = c" by blast
  note fd = factory_destroy_def [of n st, unfolded c]
  have par: "parents st n = 0" and Pn: "P n = 0" using heap_invD(6) [OF inv n] zero by auto
  have no: "n \<notin> set (children m)" if "m \<in> live st" for m
    using par that by (simp add: parents_def count_list_0_iff)
  have can: "canonical (live st)" using heap_invD(2) [OF inv] .
  note slo = canonical_std_order [OF can]
  have ord: "std_order.ordered cmp_lt (live st) (m_used (factory_of st c))"
    using inv can by (rule used_ordered) simp
  have set_er: "set (std_erase cmp_lt n (m_used (factory_of st c))) = set (m_used (factory_of st c)) - {n}"
    using std_order.set_std_erase [OF slo ord n] .
  have sorted_er: "sorted_wrt cmp_lt (std_erase cmp_lt n (m_used (factory_of st c)))"
    using std_order.ordered_std_erase [OF slo ord n] by (simp add: std_order.ordered_def [OF slo])
  have other: "n \<notin> set (m_used (factory_of st d))" if "d \<noteq> c" for d
    using heap_invD(1) [OF inv, of d] that c by (auto simp: factory_inv_def)
  show live: "live ?st = live st - {n}"
    using other unfolding fd live_update_factory live_split [of st c]
    by (simp add: set_er Un_Diff)
  have pool: "pool ?st = insert n (pool st)"
    unfolding fd pool_update_factory pool_split [of st c] by auto
  have fresh: "node_addr n \<notin> node_addr ` pool st" using heap_invD(4) [OF inv] n by blast
  have "factory_inv ?st d" for d
  proof (cases "d = c")
    case True
    have "set (m_available (factory_of st c)) \<subseteq> pool st" by (auto simp: pool_def)
    then have "node_addr n \<notin> node_addr ` set (m_available (factory_of st c))" using fresh by blast
    then show ?thesis
      using True heap_invD(1) [OF inv, of d] sorted_er
      by (simp add: factory_inv_def fd set_er c) blast
  next
    case False
    then show ?thesis using heap_invD(1) [OF inv, of d] by (simp add: factory_inv_def fd)
  qed
  moreover have "canonical (live ?st)" unfolding live using can no by (rule canonical_remove)
  moreover have "inj_on node_addr (pool ?st)" using heap_invD(3) [OF inv] fresh by (auto simp: pool)
  moreover have "node_addr ` live ?st \<inter> node_addr ` pool ?st = {}"
    using heap_invD(4) [OF inv] n canonicalD(2) [OF can] unfolding live pool
    by (auto dest: inj_onD)
  moreover have par': "parents st m = parents ?st m + count_list (children n) m" for m
    unfolding parents_def live using n by (simp add: sum.remove)
  moreover have "ref_count ?st = ref_count st" "next_addr ?st = next_addr st" by (simp_all add: fd)
  moreover have "m \<in> live ?st" if "P m + count_list (children n) m \<noteq> 0" for m
  proof -
    have "P m \<noteq> 0 \<or> m \<in> set (children n)" using that by (cases "P m = 0") (auto simp: count_list_0_iff)
    then show ?thesis
      using heap_invD(8) [OF inv, of m] canonicalD(1) [OF can n] no [OF n] Pn by (auto simp: live)
  qed
  ultimately show "heap_inv (\<lambda>m. P m + count_list (children n) m) ?st"
    using inv zero n unfolding heap_inv_def live pool by auto
qed

text \<open>Destroying a node releases its operands, recursively, and nothing else.\<close>

lemma destroy_inv_aux:
  "\<lbrakk>heap_inv P st; n \<in> live st\<rbrakk> \<Longrightarrow> heap_inv P (snd (destroy n st))
    \<and> live (snd (destroy n st)) \<subseteq> live st - (if ref_count st (node_addr n) = 0 then {n} else {})
    \<and> (ref_count st (node_addr n) \<noteq> 0 \<longrightarrow> snd (destroy n st) = st)"
proof (induction n arbitrary: P st rule: measure_induct_rule [of size])
  case (less n)
  have loop: "\<lbrakk>set cs \<subseteq> set (children n); heap_inv (\<lambda>m. P m + count_list cs m) st\<rbrakk> \<Longrightarrow>
      heap_inv P (fold (\<lambda>c st. snd (destroy c (decr_ref_count c st))) cs st)
      \<and> live (fold (\<lambda>c st. snd (destroy c (decr_ref_count c st))) cs st) \<subseteq> live st" for cs st P
  proof (induction cs arbitrary: st)
    case (Cons c cs)
    note d = decr_ref_count_inv [OF Cons.prems(2)]
    have "size c < size n" using Cons.prems(1) size_children by auto
    from less.IH [OF this d(1)] d(2,3)
    have "heap_inv (\<lambda>m. P m + count_list cs m) (snd (destroy c (decr_ref_count c st)))"
      "live (snd (destroy c (decr_ref_count c st))) \<subseteq> live st" by auto
    with Cons.IH [of "snd (destroy c (decr_ref_count c st))"] Cons.prems(1) show ?case by auto
  qed simp
  show ?case
  proof (cases "ref_count st (node_addr n) = 0")
    case True
    note f = factory_destroy_inv [OF less.prems True]
    show ?thesis using loop [OF subset_refl f(1)] f(2) True by (simp add: destroy.simps)
  qed (use less.prems in \<open>simp add: destroy.simps\<close>)
qed

section \<open>The factories, class by class\<close>

lemma create_eq_factory_create:
  "create_CP_Alternative a b = factory_create C_CP_Alternative (\<lambda>p. CP_Alternative p a b) (\<lambda>n. CP_Alternative (node_addr n) a b) [a, b]"
  "create_CP_Concat a b = factory_create C_CP_Concat (\<lambda>p. CP_Concat p a b) (\<lambda>n. CP_Concat (node_addr n) a b) [a, b]"
  "create_Filter_Intersection a b = factory_create C_Filter_Intersection (\<lambda>p. Filter_Intersection p a b) (\<lambda>n. Filter_Intersection (node_addr n) a b) [a, b]"
  "create_Filter_Union a b = factory_create C_Filter_Union (\<lambda>p. Filter_Union p a b) (\<lambda>n. Filter_Union (node_addr n) a b) [a, b]"
  "create_PP_Alternative a b = factory_create C_PP_Alternative (\<lambda>p. PP_Alternative p a b) (\<lambda>n. PP_Alternative (node_addr n) a b) [a, b]"
  "create_PP_Concat a b = factory_create C_PP_Concat (\<lambda>p. PP_Concat p a b) (\<lambda>n. PP_Concat (node_addr n) a b) [a, b]"
  "create_Edgecov f = factory_create C_Edgecov (\<lambda>p. Edgecov p f) (\<lambda>n. Edgecov (node_addr n) f) [f]"
  "create_Nodecov f = factory_create C_Nodecov (\<lambda>p. Nodecov p f) (\<lambda>n. Nodecov (node_addr n) f) [f]"
  "create_Pathcov f k = factory_create C_Pathcov (\<lambda>p. Pathcov p f k) (\<lambda>n. Pathcov (node_addr n) f k) [f]"
  "create_Quote q = factory_create C_Quote (\<lambda>p. Quote p q) (\<lambda>n. Quote (node_addr n) q) [q]"
  "create_Repeat q l u = factory_create C_Repeat (\<lambda>p. Repeat p q l u) (\<lambda>n. Repeat (node_addr n) q l u) [q]"
  "create_Depcov a b c = factory_create C_Depcov (\<lambda>p. Depcov p a b c) (\<lambda>n. Depcov (node_addr n) a b c) [a, b, c]"
  "create_Filter_Compose a b = factory_create C_Filter_Compose (\<lambda>p. Filter_Compose p a b) (\<lambda>n. Filter_Compose (node_addr n) a b) [a, b]"
  "create_Filter_Setminus a b = factory_create C_Filter_Setminus (\<lambda>p. Filter_Setminus p a b) (\<lambda>n. Filter_Setminus (node_addr n) a b) [a, b]"
  "create_Query x c y = factory_create C_Query (\<lambda>p. Query p x c y) (\<lambda>n. Query (node_addr n) x c y)
    (option_list x @ [c] @ option_list y)"
  "create_Filter_No_Arg t = factory_create C_Filter_Function (\<lambda>p. Filter_Function p t (- 1) [])
    (\<lambda>n. Filter_Function (node_addr n) t (ff_int n) (ff_string n)) []"
  "create_Filter_Int_Arg t v = factory_create C_Filter_Function (\<lambda>p. Filter_Function p t v [])
    (\<lambda>n. Filter_Function (node_addr n) t v (ff_string n)) []"
  "create_Filter_String_Arg t w = factory_create C_Filter_Function (\<lambda>p. Filter_Function p t (- 1) w)
    (\<lambda>n. Filter_Function (node_addr n) t (ff_int n) w) []"
  by (simp_all add: fun_eq_iff factory_create_def Let_def create_CP_Alternative_def create_CP_Concat_def
    create_Filter_Intersection_def create_Filter_Union_def create_PP_Alternative_def
    create_PP_Concat_def create_Edgecov_def create_Nodecov_def create_Pathcov_def create_Quote_def
    create_Repeat_def create_Depcov_def create_Filter_Compose_def create_Filter_Setminus_def
    create_Query_def create_Filter_No_Arg_def create_Filter_Int_Arg_def create_Filter_String_Arg_def
    incr_optional_def split: option.splits prod.splits)

text \<open>
  The creation requests as one interface: the class and the fields of the requested node are
  those of the argument, its address is irrelevant (the \<open>FQL_CREATE\<close> macros).
\<close>

definition create_Filter_Function ::
  "filter_function_t \<Rightarrow> int \<Rightarrow> string \<Rightarrow> 'e::linorder ast_heap \<Rightarrow> 'e fql_node \<times> 'e ast_heap" where
  "create_Filter_Function t i s st = (case t of
      F_IDENTITY \<Rightarrow> create_Filter_No_Arg t st
    | F_FILE \<Rightarrow> create_Filter_String_Arg t s st
    | F_LINE \<Rightarrow> create_Filter_Int_Arg t i st
    | F_COLUMN \<Rightarrow> create_Filter_Int_Arg t i st
    | F_FUNC \<Rightarrow> create_Filter_String_Arg t s st
    | F_LABEL \<Rightarrow> create_Filter_String_Arg t s st
    | F_CALL \<Rightarrow> create_Filter_String_Arg t s st
    | F_CALLS \<Rightarrow> create_Filter_No_Arg t st
    | F_ENTRY \<Rightarrow> create_Filter_String_Arg t s st
    | F_EXIT \<Rightarrow> create_Filter_String_Arg t s st
    | F_EXPR \<Rightarrow> create_Filter_String_Arg t s st
    | F_REGEXP \<Rightarrow> create_Filter_String_Arg t s st
    | F_BASICBLOCKENTRY \<Rightarrow> create_Filter_No_Arg t st
    | F_CONDITIONEDGE \<Rightarrow> create_Filter_No_Arg t st
    | F_DECISIONEDGE \<Rightarrow> create_Filter_No_Arg t st
    | F_CONDITIONGRAPH \<Rightarrow> create_Filter_No_Arg t st
    | F_DEF \<Rightarrow> create_Filter_String_Arg t s st
    | F_USE \<Rightarrow> create_Filter_String_Arg t s st
    | F_STMTTYPE \<Rightarrow> create_Filter_Int_Arg t i st)"

definition create_like :: "'e::linorder fql_node \<Rightarrow> 'e ast_heap \<Rightarrow> 'e fql_node \<times> 'e ast_heap" where
  "create_like n st = (case n of
      CP_Alternative _ a b \<Rightarrow> create_CP_Alternative a b st
    | CP_Concat _ a b \<Rightarrow> create_CP_Concat a b st
    | Depcov _ a b c \<Rightarrow> create_Depcov a b c st
    | Edgecov _ f \<Rightarrow> create_Edgecov f st
    | Filter_Compose _ a b \<Rightarrow> create_Filter_Compose a b st
    | Filter_Function _ t i s \<Rightarrow> create_Filter_Function t i s st
    | Filter_Intersection _ a b \<Rightarrow> create_Filter_Intersection a b st
    | Filter_Setminus _ a b \<Rightarrow> create_Filter_Setminus a b st
    | Filter_Union _ a b \<Rightarrow> create_Filter_Union a b st
    | Nodecov _ f \<Rightarrow> create_Nodecov f st
    | PP_Alternative _ a b \<Rightarrow> create_PP_Alternative a b st
    | PP_Concat _ a b \<Rightarrow> create_PP_Concat a b st
    | Pathcov _ f k \<Rightarrow> create_Pathcov f k st
    | Predicate _ e \<Rightarrow> create_Predicate e st
    | Quote _ q \<Rightarrow> create_Quote q st
    | Query _ x c y \<Rightarrow> create_Query x c y st
    | Repeat _ q l u \<Rightarrow> create_Repeat q l u st)"

text \<open>What a client may rely on after a creation request.\<close>

definition created ::
  "('e fql_node \<Rightarrow> nat) \<Rightarrow> 'e::linorder ast_heap \<Rightarrow> 'e fql_node \<Rightarrow> 'e fql_node \<Rightarrow> 'e ast_heap \<Rightarrow> bool" where
  "created P st n m st' \<longleftrightarrow> heap_inv P st' \<and> key m = key n \<and> live st' = insert m (live st)
     \<and> (\<forall>m' \<in> live st. key m' = key n \<longrightarrow> m = m')"

lemma factory_create_created:
  assumes "heap_inv P st" and n: "node_class n = c" "children n = kids" "set kids \<subseteq> live st"
    and mk: "\<And>p. node_class (mk p) = c" "\<And>p. node_addr (mk p) = p"
    and upd: "\<And>m. node_class m = c \<Longrightarrow> node_class (upd m) = c \<and> node_addr (upd m) = node_addr m
      \<and> children (upd m) = kids \<and> key (upd m) = key n"
    and neg: "negated_class (node_class n) \<longrightarrow> key n \<notin> key ` live st"
    and "factory_create c mk upd kids st = (m, st')"
  shows "created P st n m st'"
  using factory_create_correct [OF assms(1) mk upd n(3) _ assms(9)] neg n(1) by (auto simp: created_def)


lemma create_Predicate_created:
  assumes inv: "heap_inv P st" and create: "create_Predicate e st = (m, st')"
  shows "created P st (Predicate p e) m st'"
proof -
  obtain m1 s1 where f: "factory_create C_Predicate (\<lambda>p. Predicate p e) (\<lambda>n. Predicate (node_addr n) e) [] st = (m1, s1)"
    by fastforce
  have 1: "created P st (Predicate p e) m1 s1"
    using inv f by (intro factory_create_created [where n = "Predicate p e", OF inv _ _ _ _ _ _ _ f])
      (auto simp: key_def negated_class_def)
  have "m = m1 \<and> (st' = s1 \<or> st' = update_back C_Predicate (\<lambda>n. Predicate (node_addr n) None) s1
      \<and> m_available (factory_of s1 C_Predicate) \<noteq> [])"
    using f create by (auto simp: create_Predicate_def factory_create_def Let_def update_back_def insert_back_def
      split: prod.splits option.splits if_splits)
  then show ?thesis
    using 1 update_back_inv [of P s1 C_Predicate "\<lambda>n. Predicate (node_addr n) None"]
    by (auto simp: created_def)
qed

lemma create_Filter_Function_created:
  assumes inv: "heap_inv P st" and create: "create_Filter_Function t i s st = (m, st')"
  shows "created P st (Filter_Function p t i s) m st'"
proof -
  consider (none) "create_Filter_No_Arg t st = (m, st')" "t \<in> {F_IDENTITY, F_CALLS, F_BASICBLOCKENTRY,
      F_CONDITIONEDGE, F_DECISIONEDGE, F_CONDITIONGRAPH}"
    | (int) "create_Filter_Int_Arg t i st = (m, st')" "t \<in> {F_LINE, F_COLUMN, F_STMTTYPE}"
    | (str) "create_Filter_String_Arg t s st = (m, st')" "t \<in> {F_FILE, F_FUNC, F_LABEL, F_CALL, F_ENTRY,
      F_EXIT, F_EXPR, F_REGEXP, F_DEF, F_USE}"
    using create by (cases t) (auto simp: create_Filter_Function_def)
  then show ?thesis
    by cases (rule factory_create_created [OF inv, where n = "Filter_Function p t i s"];
      force simp: create_eq_factory_create key_def negated_class_def)+
qed

primrec with_addr :: "addr \<Rightarrow> 'e fql_node \<Rightarrow> 'e fql_node" where
  "with_addr r (CP_Alternative p a b) = CP_Alternative r a b"
| "with_addr r (CP_Concat p a b) = CP_Concat r a b"
| "with_addr r (Depcov p a b c) = Depcov r a b c"
| "with_addr r (Edgecov p f) = Edgecov r f"
| "with_addr r (Filter_Compose p a b) = Filter_Compose r a b"
| "with_addr r (Filter_Function p t i s) = Filter_Function r t i s"
| "with_addr r (Filter_Intersection p a b) = Filter_Intersection r a b"
| "with_addr r (Filter_Setminus p a b) = Filter_Setminus r a b"
| "with_addr r (Filter_Union p a b) = Filter_Union r a b"
| "with_addr r (Nodecov p f) = Nodecov r f"
| "with_addr r (PP_Alternative p a b) = PP_Alternative r a b"
| "with_addr r (PP_Concat p a b) = PP_Concat r a b"
| "with_addr r (Pathcov p f k) = Pathcov r f k"
| "with_addr r (Predicate p e) = Predicate r e"
| "with_addr r (Quote p q) = Quote r q"
| "with_addr r (Query p x c y) = Query r x c y"
| "with_addr r (Repeat p q l u) = Repeat r q l u"

lemma with_addr_simps [simp]:
  "node_addr (with_addr r n) = r" "node_class (with_addr r n) = node_class n"
  "children (with_addr r n) = children n" "key (with_addr r n) = key n"
  by (cases n; simp add: key_def)+

lemma create_like_eq:
  "node_class n \<notin> {C_Predicate, C_Filter_Function} \<Longrightarrow> create_like n st =
    factory_create (node_class n) (\<lambda>p. with_addr p n) (\<lambda>m. with_addr (node_addr m) n) (children n) st"
  by (cases n) (simp_all add: create_like_def create_eq_factory_create)

lemma create_like_created:
  assumes inv: "heap_inv P st" and kids: "set (children n) \<subseteq> live st"
    and neg: "negated_class (node_class n) \<longrightarrow> key n \<notin> key ` live st"
    and create: "create_like n st = (m, st')"
  shows "created P st n m st'"
proof -
  consider (pred) p e where "n = Predicate p e" | (ff) p t i s where "n = Filter_Function p t i s"
    | (other) "node_class n \<notin> {C_Predicate, C_Filter_Function}" by (cases n) auto
  then show ?thesis
  proof cases
    case pred
    then show ?thesis using create_Predicate_created [OF inv] create by (simp add: create_like_def)
  next
    case ff
    then show ?thesis using create_Filter_Function_created [OF inv] create by (simp add: create_like_def)
  next
    case other
    show ?thesis
      using create unfolding create_like_eq [OF other]
      by (rule factory_create_created [OF inv refl refl kids _ _ _ neg, rotated 3]) simp_all
  qed
qed

section \<open>Properties\<close>


definition empty_heap :: "int ast_heap" where
  "empty_heap = \<lparr>factory_of = \<lambda>_. \<lparr>m_used = [], m_available = []\<rparr>, ref_count = \<lambda>_. 0, next_addr = 0\<rparr>"

lemma empty_heap_inv: "live empty_heap = {}" "heap_inv (\<lambda>_. 0) empty_heap"
  by (auto simp: empty_heap_def live_def pool_def heap_inv_def factory_inv_def canonical_def)


text \<open>
  C22. A second request for the same \<open>Filter_Compose\<close> is not answered with the existing node:
  starting from an empty factory the code creates two nodes with the same operands and both
  stay in use.
\<close>

theorem create_Filter_Compose_duplicates:
  assumes "m_used (factory_of st C_Filter_Compose) = []" "m_available (factory_of st C_Filter_Compose) = []"
    and "create_Filter_Compose a b st = (m1, st1)" "create_Filter_Compose a b st1 = (m2, st2)"
  shows "m1 \<noteq> m2 \<and> key m1 = key m2
    \<and> set (m_used (factory_of st2 C_Filter_Compose)) = {m1, m2}"
  using assms
  by (auto simp: create_Filter_Compose_def alloc_if_empty_def update_back_def insert_back_def pop_back_def
    incr_ref_count_def update_factory_def Let_def key_def
    cmp_lt.simps [of "Filter_Compose _ _ _"] cmp_lt_Filter_Compose_def split: if_splits)

theorem create_Filter_Compose_duplicates_witness:
  "m_used (factory_of empty_heap C_Filter_Compose) = []
   \<and> fst (create_Filter_Compose sample_identity sample_line empty_heap) \<noteq>
     fst (create_Filter_Compose sample_identity sample_line (snd (create_Filter_Compose sample_identity sample_line empty_heap)))"
  using create_Filter_Compose_duplicates [of empty_heap, OF _ _ prod.collapse [symmetric] prod.collapse [symmetric]]
  by (simp add: empty_heap_def)

text \<open>
  C14. Destruction is safe: destroying a node in use keeps the heap consistent (in particular no
  node in use points to a pooled object and every reference counter is exact, so nodes with
  client references survive), removes the node exactly if its counter was zero, and never adds
  a node.
\<close>

theorem destroy_safe:
  assumes "heap_inv P st" "n \<in> live st" "destroy n st = (r, st')"
  shows "heap_inv P st' \<and> live st' \<subseteq> live st \<and> r = (ref_count st (node_addr n) = 0)
    \<and> (n \<in> live st' \<longleftrightarrow> ref_count st (node_addr n) \<noteq> 0) \<and> (\<forall>m. P m \<noteq> 0 \<longrightarrow> m \<in> live st')"
proof -
  have "r = (ref_count st (node_addr n) = 0)" using assms(3) by (auto simp: destroy.simps split: if_splits)
  then show ?thesis
    using destroy_inv_aux [OF assms(1,2)] assms(2,3) by (auto simp: heap_inv_def split: if_splits)
qed

theorem destroy_safe_witness:
  "\<exists>(n :: int fql_node) st. heap_inv (\<lambda>_. 0) st \<and> n \<in> live st \<and> ref_count st (node_addr n) = 0
    \<and> (case destroy n st of (r, st') \<Rightarrow> r \<and> n \<notin> live st' \<and> heap_inv (\<lambda>_. 0) st')"
proof -
  obtain n st where c: "create_like (Filter_Function 9 F_LINE 3 []) empty_heap = (n, st)" by fastforce
  then have st: "heap_inv (\<lambda>_. 0) st" "live st = {n}" "key n = key (Filter_Function 9 F_LINE 3 [] :: int fql_node)"
    using create_like_created [OF empty_heap_inv(2) _ _ c]
    by (auto simp: created_def negated_class_def empty_heap_inv(1))
  have "parents st n = 0" using st(3) by (cases n) (auto simp: parents_def st(2) key_def)
  then have "ref_count st (node_addr n) = 0" using heap_invD(6) [OF st(1), of n] st(2) by simp
  then show ?thesis
    using st destroy_safe [OF st(1), of n, OF _ prod.collapse [symmetric]] by (intro exI [of _ n] exI [of _ st]) auto
qed

end
