(* ===== verification/Cfa.thy ===== *)
theory Cfa
  imports Fshell_Prelude
begin

text \<open>
  Control flow automata (\<open>src/fshell2/fql/concepts/cfa.cpp\<close>, \<open>cfa.hpp\<close>) and the order
  on GOTO instructions they are built on (\<open>src/fshell2/instrumentation/goto_lt_compare.cpp\<close>).

  An instruction pointer is the pair of its function and its location number, which CBMC keeps
  unique; a program pointer is the name of the function it belongs to. Node and edge sets are
  ordered lists with the comparators of the code. The class invariant is the one of
  \<open>CFA::m_class_invariance\<close>, together with the order the containers maintain.
\<close>

section \<open>Instructions, nodes and edges\<close>

record targett =
  t_function :: string
  location_number :: nat

type_synonym cfa_node = "string \<times> targett"
type_synonym cfa_edge = "cfa_node \<times> cfa_node"

definition goto_lt :: "targett \<Rightarrow> targett \<Rightarrow> bool" where
  "goto_lt a b =
    (if t_function a < t_function b then True
     else if t_function b < t_function a then False
     else location_number a < location_number b)"

definition node_lt :: "cfa_node \<Rightarrow> cfa_node \<Rightarrow> bool" where
  "node_lt a b =
    (if goto_lt (snd a) (snd b) then True
     else if goto_lt (snd b) (snd a) then False
     else False)"

definition edge_lt :: "cfa_edge \<Rightarrow> cfa_edge \<Rightarrow> bool" where
  "edge_lt a b =
    (if goto_lt (snd (fst a)) (snd (fst b)) then True
     else if goto_lt (snd (fst b)) (snd (fst a)) then False
     else node_lt (snd a) (snd b))"

text \<open>A program pointer is determined by the instruction.\<close>

definition cfa_nodes :: "cfa_node set" where
  "cfa_nodes = {n. fst n = t_function (snd n)}"

definition cfa_edges :: "cfa_edge set" where
  "cfa_edges = cfa_nodes \<times> cfa_nodes"

lemma targett_eqI: "t_function (a :: targett) = t_function b \<Longrightarrow> location_number a = location_number b \<Longrightarrow> a = b"
  by simp

lemma slo_goto_lt: "slo goto_lt UNIV"
  by (rule sloI) (auto simp: goto_lt_def split: if_splits intro: targett_eqI)

lemma slo_node_lt: "slo node_lt cfa_nodes"
proof (rule slo_pullback [of goto_lt snd])
  show "slo goto_lt (snd ` cfa_nodes)" using slo_goto_lt by (rule slo_subset) auto
  show "inj_on snd cfa_nodes" by (auto simp: cfa_nodes_def intro!: inj_onI prod_eqI)
qed (use slo_irrefl [OF slo_goto_lt] in \<open>auto simp: node_lt_def\<close>)

lemma slo_edge_lt: "slo edge_lt cfa_edges"
proof -
  let ?f = "\<lambda>e :: cfa_edge. [snd (fst e), snd (snd e)]"
  have *: "edge_lt a b \<longleftrightarrow> lex_lt goto_lt (?f a) (?f b)" for a b
    by (auto simp: edge_lt_def node_lt_def)
  show ?thesis
  proof (rule slo_pullback [of "lex_lt goto_lt" ?f])
    show "slo (lex_lt goto_lt) (?f ` cfa_edges)" using slo_lex [OF slo_goto_lt] by (rule slo_subset) auto
    show "inj_on ?f cfa_edges"
      by (auto simp: cfa_edges_def cfa_nodes_def intro!: inj_onI prod_eqI)
    show "\<not> edge_lt a a" for a
      using slo_irrefl [OF slo_goto_lt] by (simp add: *)
  qed (rule *)
qed

interpretation node_set: std_order node_lt cfa_nodes
  by standard (rule slo_node_lt)

interpretation edge_set: std_order edge_lt cfa_edges
  by standard (rule slo_edge_lt)

section \<open>Operations\<close>

record cfa =
  m_disconnected_nodes :: "cfa_node list"
  m_edges :: "cfa_edge list"
  m_initial :: "cfa_node list"

definition cfa_empty :: cfa where
  "cfa_empty = \<lparr>m_disconnected_nodes = [], m_edges = [], m_initial = []\<rparr>"

text \<open>
  The class invariant: no disconnected node is an end point of an edge, and every initial node
  is a disconnected node or an end point.
\<close>

definition cfa_class_invariance :: "cfa \<Rightarrow> bool" where
  "cfa_class_invariance g \<longleftrightarrow>
     list_all (\<lambda>e. std_find node_lt (fst e) (m_disconnected_nodes g) = None
       \<and> std_find node_lt (snd e) (m_disconnected_nodes g) = None) (m_edges g)
     \<and> list_all (\<lambda>n. std_find node_lt n (m_disconnected_nodes g) \<noteq> None
       \<or> list_ex (\<lambda>e. fst e = n \<or> snd e = n) (m_edges g)) (m_initial g)"

definition get_L :: "cfa \<Rightarrow> cfa_node list" where
  "get_L g = fold (\<lambda>e L. std_insert node_lt (snd e) (std_insert node_lt (fst e) L)) (m_edges g)
     (m_disconnected_nodes g)"

text \<open>The loop that drops end points of edges from the disconnected nodes.\<close>

definition erase_if_found :: "cfa_node \<Rightarrow> cfa_node list \<Rightarrow> cfa_node list" where
  "erase_if_found n ns = (if std_find node_lt n ns \<noteq> None then std_erase node_lt n ns else ns)"

definition remove_connected :: "cfa_edge list \<Rightarrow> cfa_node list \<Rightarrow> cfa_node list" where
  "remove_connected es ns = fold (\<lambda>e ns. erase_if_found (snd e) (erase_if_found (fst e) ns)) es ns"

definition setunion :: "cfa \<Rightarrow> cfa \<Rightarrow> cfa" where
  "setunion g other =
    (let ns = std_insert_range node_lt (m_disconnected_nodes other) (m_disconnected_nodes g);
         es = std_insert_range edge_lt (m_edges other) (m_edges g);
         is = std_insert_range node_lt (m_initial other) (m_initial g)
     in \<lparr>m_disconnected_nodes = remove_connected es ns, m_edges = es, m_initial = is\<rparr>)"

definition setintersection :: "cfa \<Rightarrow> cfa \<Rightarrow> cfa" where
  "setintersection g other =
    (let L = get_L g; other_L = get_L other;
         ns = std_insert_range node_lt (std_set_intersection node_lt L other_L) [];
         es = std_insert_range edge_lt (std_set_intersection edge_lt (m_edges g) (m_edges other)) [];
         is = std_insert_range node_lt (std_set_intersection node_lt (m_initial g) (m_initial other)) []
     in \<lparr>m_disconnected_nodes = remove_connected es ns, m_edges = es, m_initial = is\<rparr>)"

definition setsubtract :: "cfa \<Rightarrow> cfa \<Rightarrow> cfa" where
  "setsubtract g other =
    (let L = get_L g; other_L = get_L other;
         ns = std_insert_range node_lt (std_set_difference node_lt L other_L) [];
         es = std_insert_range edge_lt (std_set_difference edge_lt (m_edges g) (m_edges other)) [];
         is = std_insert_range node_lt (std_set_intersection node_lt ns (m_initial g)) []
     in \<lparr>m_disconnected_nodes = remove_connected es ns, m_edges = es, m_initial = is\<rparr>)"

section \<open>Meaning\<close>

text \<open>
  The abstract view: a graph of edges, a set of nodes that contains the end points, and the
  initial nodes among them.
\<close>

abbreviation endpoints :: "cfa_edge set \<Rightarrow> cfa_node set" where
  "endpoints E \<equiv> fst ` E \<union> snd ` E"

definition cfa_L :: "cfa \<Rightarrow> cfa_node set" where
  "cfa_L g = set (m_disconnected_nodes g) \<union> endpoints (set (m_edges g))"

definition cfa_inv :: "cfa \<Rightarrow> bool" where
  "cfa_inv g \<longleftrightarrow> node_set.ordered (m_disconnected_nodes g) \<and> edge_set.ordered (m_edges g)
     \<and> node_set.ordered (m_initial g)
     \<and> set (m_disconnected_nodes g) \<inter> endpoints (set (m_edges g)) = {}
     \<and> set (m_initial g) \<subseteq> cfa_L g"

lemma ordered_edges_nodes:
  "edge_set.ordered es \<Longrightarrow> e \<in> set es \<Longrightarrow> fst e \<in> cfa_nodes \<and> snd e \<in> cfa_nodes"
  using edge_set.ordered_carrier [of es e] by (simp add: cfa_edges_def mem_Times_iff)

lemma list_ex_endpoint: "list_ex (\<lambda>e. fst e = n \<or> snd e = n) es \<longleftrightarrow> n \<in> endpoints (set es)"
  by (force simp: list_ex_iff)

lemma cfa_inv_class_invariance:
  assumes "cfa_inv g"
  shows "cfa_class_invariance g"
proof -
  note inv = assms [unfolded cfa_inv_def]
  have find: "std_find node_lt n (m_disconnected_nodes g) = None \<longleftrightarrow> n \<notin> set (m_disconnected_nodes g)"
    if "n \<in> cfa_nodes" for n
    using inv that by (simp add: node_set.std_find_Some)
  have "std_find node_lt (fst e) (m_disconnected_nodes g) = None
      \<and> std_find node_lt (snd e) (m_disconnected_nodes g) = None" if e: "e \<in> set (m_edges g)" for e
  proof -
    have "fst e \<notin> set (m_disconnected_nodes g)" "snd e \<notin> set (m_disconnected_nodes g)" using inv e by blast+
    then show ?thesis using ordered_edges_nodes [OF _ e] find inv by blast
  qed
  moreover have "std_find node_lt n (m_disconnected_nodes g) \<noteq> None \<or> n \<in> endpoints (set (m_edges g))"
    if n: "n \<in> set (m_initial g)" for n
  proof -
    have "n \<in> cfa_nodes" using inv node_set.ordered_carrier n by blast
    moreover have "n \<in> cfa_L g" using inv n by blast
    ultimately show ?thesis using find [of n] by (simp add: cfa_L_def)
  qed
  ultimately show ?thesis
    unfolding cfa_class_invariance_def list_all_iff list_ex_endpoint by blast
qed

lemma get_L_aux:
  "\<lbrakk>node_set.ordered L; set es \<subseteq> cfa_edges\<rbrakk> \<Longrightarrow>
    node_set.ordered (fold (\<lambda>e L. std_insert node_lt (snd e) (std_insert node_lt (fst e) L)) es L)
    \<and> set (fold (\<lambda>e L. std_insert node_lt (snd e) (std_insert node_lt (fst e) L)) es L)
      = set L \<union> endpoints (set es)"
proof (induction es arbitrary: L)
  case (Cons e es)
  have e: "fst e \<in> cfa_nodes" "snd e \<in> cfa_nodes" using Cons.prems by (simp_all add: cfa_edges_def mem_Times_iff)
  let ?L = "std_insert node_lt (snd e) (std_insert node_lt (fst e) L)"
  have "node_set.ordered ?L" "set ?L = insert (snd e) (insert (fst e) (set L))"
    using Cons.prems e by (simp_all add: node_set.ordered_std_insert node_set.set_std_insert)
  then show ?case using Cons.IH [of ?L] Cons.prems by (simp add: insert_commute)
qed simp

lemma get_L_correct:
  assumes "cfa_inv g"
  shows "node_set.ordered (get_L g)" "set (get_L g) = cfa_L g"
  using assms get_L_aux [of "m_disconnected_nodes g" "m_edges g"]
  by (auto simp: cfa_inv_def get_L_def cfa_L_def edge_set.ordered_def)

lemma erase_if_found_correct:
  "\<lbrakk>node_set.ordered ns; n \<in> cfa_nodes\<rbrakk> \<Longrightarrow>
    node_set.ordered (erase_if_found n ns) \<and> set (erase_if_found n ns) = set ns - {n}"
  by (auto simp: erase_if_found_def node_set.std_find_Some node_set.set_std_erase node_set.ordered_std_erase)

lemma remove_connected_correct:
  "\<lbrakk>node_set.ordered ns; set es \<subseteq> cfa_edges\<rbrakk> \<Longrightarrow>
    node_set.ordered (remove_connected es ns)
    \<and> set (remove_connected es ns) = set ns - endpoints (set es)"
proof (induction es arbitrary: ns)
  case (Cons e es)
  have e: "fst e \<in> cfa_nodes" "snd e \<in> cfa_nodes" using Cons.prems by (simp_all add: cfa_edges_def mem_Times_iff)
  let ?ns = "erase_if_found (snd e) (erase_if_found (fst e) ns)"
  have "node_set.ordered ?ns" "set ?ns = set ns - {fst e} - {snd e}"
    using Cons.prems e by (simp_all add: erase_if_found_correct)
  moreover have "remove_connected (e # es) ns = remove_connected es ?ns" by (simp add: remove_connected_def)
  ultimately show ?case using Cons.IH [of ?ns] Cons.prems by (simp add: set_diff_eq) blast
qed (simp add: remove_connected_def)

text \<open>The common last step: nodes, edges and initial nodes are put together.\<close>

lemma assemble:
  assumes "node_set.ordered ns" "edge_set.ordered es" "node_set.ordered is"
    "set is \<subseteq> set ns \<union> endpoints (set es)"
    and g: "g = \<lparr>m_disconnected_nodes = remove_connected es ns, m_edges = es, m_initial = is\<rparr>"
  shows "cfa_inv g" "cfa_L g = set ns \<union> endpoints (set es)"
proof -
  have "node_set.ordered (remove_connected es ns)"
    "set (remove_connected es ns) = set ns - endpoints (set es)"
    using remove_connected_correct [OF assms(1)] assms(2) by (auto simp: edge_set.ordered_def)
  then show "cfa_L g = set ns \<union> endpoints (set es)" "cfa_inv g"
    using assms by (auto simp: cfa_inv_def cfa_L_def)
qed

lemmas ordered_carriers = node_set.ordered_def edge_set.ordered_def

lemma rebuild_nodes:
  "node_set.ordered xs \<Longrightarrow> node_set.ordered (std_insert_range node_lt xs [])
    \<and> set (std_insert_range node_lt xs []) = set xs"
  using node_set.ordered_insert_range [of "[]" xs] node_set.set_insert_range [of "[]" xs]
  by (simp add: node_set.ordered_def)

lemma rebuild_edges:
  "edge_set.ordered xs \<Longrightarrow> edge_set.ordered (std_insert_range edge_lt xs [])
    \<and> set (std_insert_range edge_lt xs []) = set xs"
  using edge_set.ordered_insert_range [of "[]" xs] edge_set.set_insert_range [of "[]" xs]
  by (simp add: edge_set.ordered_def)

lemma setunion_correct:
  assumes "cfa_inv g" "cfa_inv h"
  shows "cfa_inv (setunion g h) \<and> cfa_L (setunion g h) = cfa_L g \<union> cfa_L h
    \<and> set (m_edges (setunion g h)) = set (m_edges g) \<union> set (m_edges h)
    \<and> set (m_initial (setunion g h)) = set (m_initial g) \<union> set (m_initial h)"
proof -
  define ns where "ns = std_insert_range node_lt (m_disconnected_nodes h) (m_disconnected_nodes g)"
  define es where "es = std_insert_range edge_lt (m_edges h) (m_edges g)"
  define js where "js = std_insert_range node_lt (m_initial h) (m_initial g)"
  have car: "set (m_disconnected_nodes h) \<subseteq> cfa_nodes" "set (m_edges h) \<subseteq> cfa_edges" "set (m_initial h) \<subseteq> cfa_nodes"
    using assms(2) by (auto simp: cfa_inv_def ordered_carriers)
  have ns: "node_set.ordered ns" "set ns = set (m_disconnected_nodes h) \<union> set (m_disconnected_nodes g)"
    and es: "edge_set.ordered es" "set es = set (m_edges h) \<union> set (m_edges g)"
    and js: "node_set.ordered js" "set js = set (m_initial h) \<union> set (m_initial g)"
    using assms car by (simp_all add: ns_def es_def js_def cfa_inv_def node_set.ordered_insert_range
      node_set.set_insert_range edge_set.ordered_insert_range edge_set.set_insert_range)
  have g: "setunion g h = \<lparr>m_disconnected_nodes = remove_connected es ns, m_edges = es, m_initial = js\<rparr>"
    by (simp add: setunion_def ns_def es_def js_def Let_def)
  have "set js \<subseteq> set ns \<union> endpoints (set es)"
    using assms unfolding js ns es cfa_inv_def cfa_L_def by auto
  from assemble [OF ns(1) es(1) js(1) this g] show ?thesis
    using ns es js by (auto simp: g cfa_L_def)
qed

lemma setintersection_correct:
  assumes "cfa_inv g" "cfa_inv h"
  shows "cfa_inv (setintersection g h) \<and> cfa_L (setintersection g h) = cfa_L g \<inter> cfa_L h
    \<and> set (m_edges (setintersection g h)) = set (m_edges g) \<inter> set (m_edges h)
    \<and> set (m_initial (setintersection g h)) = set (m_initial g) \<inter> set (m_initial h)"
proof -
  note L = get_L_correct [OF assms(1)] get_L_correct [OF assms(2)]
  define ns where "ns = std_insert_range node_lt (std_set_intersection node_lt (get_L g) (get_L h)) []"
  define es where "es = std_insert_range edge_lt (std_set_intersection edge_lt (m_edges g) (m_edges h)) []"
  define js where "js = std_insert_range node_lt (std_set_intersection node_lt (m_initial g) (m_initial h)) []"
  have ns: "node_set.ordered ns" "set ns = cfa_L g \<inter> cfa_L h"
    using rebuild_nodes [OF node_set.ordered_std_intersection [OF L(1)]] L
    by (simp_all add: ns_def node_set.set_std_intersection)
  have es: "edge_set.ordered es" "set es = set (m_edges g) \<inter> set (m_edges h)"
    using rebuild_edges [OF edge_set.ordered_std_intersection] assms
    by (simp_all add: es_def cfa_inv_def edge_set.set_std_intersection)
  have js: "node_set.ordered js" "set js = set (m_initial g) \<inter> set (m_initial h)"
    using rebuild_nodes [OF node_set.ordered_std_intersection] assms
    by (simp_all add: js_def cfa_inv_def node_set.set_std_intersection)
  have g: "setintersection g h = \<lparr>m_disconnected_nodes = remove_connected es ns, m_edges = es, m_initial = js\<rparr>"
    by (simp add: setintersection_def ns_def es_def js_def Let_def)
  have "set (m_initial g) \<subseteq> cfa_L g" "set (m_initial h) \<subseteq> cfa_L h" using assms by (simp_all add: cfa_inv_def)
  then have "set js \<subseteq> set ns \<union> endpoints (set es)" unfolding js ns by blast
  moreover have "endpoints (set es) \<subseteq> set ns" unfolding ns es cfa_L_def by blast
  ultimately have "set js \<subseteq> set ns \<union> endpoints (set es)" "endpoints (set es) \<subseteq> set ns" .
  with assemble [OF ns(1) es(1) js(1) _ g] show ?thesis
    using ns es js by (simp add: g Un_absorb2)
qed

lemma setsubtract_correct:
  assumes "cfa_inv g" "cfa_inv h"
  shows "cfa_inv (setsubtract g h)
    \<and> cfa_L (setsubtract g h) = (cfa_L g - cfa_L h) \<union> endpoints (set (m_edges g) - set (m_edges h))
    \<and> set (m_edges (setsubtract g h)) = set (m_edges g) - set (m_edges h)
    \<and> set (m_initial (setsubtract g h)) = set (m_initial g) - cfa_L h"
proof -
  note L = get_L_correct [OF assms(1)] get_L_correct [OF assms(2)]
  define ns where "ns = std_insert_range node_lt (std_set_difference node_lt (get_L g) (get_L h)) []"
  define es where "es = std_insert_range edge_lt (std_set_difference edge_lt (m_edges g) (m_edges h)) []"
  define js where "js = std_insert_range node_lt (std_set_intersection node_lt ns (m_initial g)) []"
  have ns: "node_set.ordered ns" "set ns = cfa_L g - cfa_L h"
    using rebuild_nodes [OF node_set.ordered_std_difference [OF L(1)]] L
    by (simp_all add: ns_def node_set.set_std_difference)
  have es: "edge_set.ordered es" "set es = set (m_edges g) - set (m_edges h)"
    using rebuild_edges [OF edge_set.ordered_std_difference] assms
    by (simp_all add: es_def cfa_inv_def edge_set.set_std_difference)
  have js: "node_set.ordered js" "set js = (cfa_L g - cfa_L h) \<inter> set (m_initial g)"
    using rebuild_nodes [OF node_set.ordered_std_intersection [OF ns(1)]] assms ns
    by (simp_all add: js_def cfa_inv_def node_set.set_std_intersection)
  have g: "setsubtract g h = \<lparr>m_disconnected_nodes = remove_connected es ns, m_edges = es, m_initial = js\<rparr>"
    by (simp add: setsubtract_def ns_def es_def js_def Let_def)
  have "set js \<subseteq> set ns \<union> endpoints (set es)" unfolding js ns by blast
  with assemble [OF ns(1) es(1) js(1) _ g] show ?thesis
    using ns es js assms by (auto simp: g cfa_inv_def)
qed

section \<open>Properties\<close>

text \<open>
  C19. The set operations on control flow automata: union and intersection act as union and
  intersection on locations, edges and initial locations; subtraction removes the edges of the
  other automaton, keeps all locations that are left or are still an end point, and limits the
  initial locations to those outside the other automaton. Each operation maintains the class
  invariant.
\<close>

theorem cfa_set_operations:
  assumes "cfa_inv g" "cfa_inv h"
  shows "cfa_inv (setunion g h) \<and> cfa_inv (setintersection g h) \<and> cfa_inv (setsubtract g h)
    \<and> cfa_L (setunion g h) = cfa_L g \<union> cfa_L h
    \<and> cfa_L (setintersection g h) = cfa_L g \<inter> cfa_L h
    \<and> cfa_L (setsubtract g h) = (cfa_L g - cfa_L h) \<union> endpoints (set (m_edges g) - set (m_edges h))
    \<and> set (m_edges (setunion g h)) = set (m_edges g) \<union> set (m_edges h)
    \<and> set (m_edges (setintersection g h)) = set (m_edges g) \<inter> set (m_edges h)
    \<and> set (m_edges (setsubtract g h)) = set (m_edges g) - set (m_edges h)
    \<and> set (m_initial (setunion g h)) = set (m_initial g) \<union> set (m_initial h)
    \<and> set (m_initial (setintersection g h)) = set (m_initial g) \<inter> set (m_initial h)
    \<and> set (m_initial (setsubtract g h)) = set (m_initial g) - cfa_L h"
  using setunion_correct [OF assms] setintersection_correct [OF assms] setsubtract_correct [OF assms]
  by simp

definition sample_node :: "nat \<Rightarrow> cfa_node" where
  "sample_node k = (''main'', \<lparr>t_function = ''main'', location_number = k\<rparr>)"

definition sample_cfa :: cfa where
  "sample_cfa = \<lparr>m_disconnected_nodes = [sample_node 3],
     m_edges = [(sample_node 0, sample_node 1), (sample_node 1, sample_node 2)], m_initial = [sample_node 0]\<rparr>"

lemma sample_cfa_inv: "cfa_inv sample_cfa"
proof -
  have "sample_node k \<in> cfa_nodes" "(sample_node k, sample_node l) \<in> cfa_edges" "node_lt (sample_node k) (sample_node l) \<longleftrightarrow> k < l"
    "edge_lt (sample_node k, a) (sample_node l, b) \<longleftrightarrow> k < l \<or> k = l \<and> node_lt a b"
    "sample_node k = sample_node l \<longleftrightarrow> k = l" for k l a b
    by (auto simp: sample_node_def cfa_nodes_def cfa_edges_def node_lt_def goto_lt_def edge_lt_def)
  then show ?thesis
    by (simp add: cfa_inv_def sample_cfa_def node_set.ordered_Cons edge_set.ordered_Cons cfa_L_def)
qed

theorem cfa_set_operations_witness:
  "cfa_inv sample_cfa \<and> cfa_inv (setsubtract sample_cfa sample_cfa)
   \<and> set (m_edges (setsubtract sample_cfa sample_cfa)) = {}"
  using sample_cfa_inv cfa_set_operations [OF sample_cfa_inv sample_cfa_inv] by simp

text \<open>
  The checks of \<open>CFA::m_class_invariance\<close> succeed on every automaton that satisfies the
  invariant the operations maintain, and \<open>get_L\<close> returns all locations, in order and
  without repetition.
\<close>

theorem cfa_class_invariance_holds:
  assumes "cfa_inv g"
  shows "cfa_class_invariance g \<and> set (get_L g) = cfa_L g \<and> distinct (get_L g) \<and> sorted_wrt node_lt (get_L g)"
  using cfa_inv_class_invariance [OF assms] get_L_correct [OF assms] node_set.ordered_distinct
  by (simp add: node_set.ordered_def)

theorem cfa_class_invariance_holds_witness:
  "cfa_inv sample_cfa \<and> cfa_class_invariance sample_cfa \<and> distinct (get_L sample_cfa)"
  using sample_cfa_inv cfa_class_invariance_holds [OF sample_cfa_inv] by simp

end
