(* ===== verification/Trace_Automaton.thy ===== *)
theory Trace_Automaton
  imports Fshell_Prelude
begin

text \<open>
  Trace automata (\<open>src/fshell2/fql/concepts/trace_automaton.cpp\<close>).

  The container \<open>NFA_mmap_backedge\<close> is part of the ASTL library: its operations are the
  record \<open>astl\<close> every definition takes as an argument, and what the code relies on is
  the locale \<open>astl_nfa\<close>. A transition relation is a set: adding a transition that exists
  has no effect and deleting removes it. Labels are the integers of
  \<open>Target_Graph_Index\<close>, with \<open>-1\<close> for the empty word.

  Shown here: \<open>simplify_automaton\<close> terminates, preserves the language and removes all
  epsilon transitions; \<open>copy_automaton\<close> adds an isomorphic copy and nothing else;
  \<open>compact_state_numbers\<close> is a bijection; \<open>Target_Graph_Index\<close> is a pair of
  inverse maps. A list-based automaton shows that the laws can be met.
\<close>

section \<open>Automata with epsilon transitions\<close>

type_synonym state = nat
type_synonym trans = "(state \<times> int \<times> state) set"

abbreviation epsilon :: int where
  "epsilon \<equiv> - 1"

inductive run :: "trans \<Rightarrow> state \<Rightarrow> int list \<Rightarrow> state \<Rightarrow> bool" for T where
  run_refl: "run T p [] p"
| run_eps: "(p, epsilon, q) \<in> T \<Longrightarrow> run T q w r \<Longrightarrow> run T p w r"
| run_step: "(p, a, q) \<in> T \<Longrightarrow> a \<noteq> epsilon \<Longrightarrow> run T q w r \<Longrightarrow> run T p (a # w) r"

lemma run_append: "run T p v q \<Longrightarrow> run T q w r \<Longrightarrow> run T p (v @ w) r"
  by (induction rule: run.induct) (auto intro: run.intros)

lemma run_mono: "run T p w q \<Longrightarrow> T \<subseteq> U \<Longrightarrow> run U p w q"
  by (induction rule: run.induct) (auto intro: run.intros)

lemma run_no_eps: "run T p w q \<Longrightarrow> epsilon \<notin> set w"
  by (induction rule: run.induct) auto

text \<open>Runs with their length, for inductions that shorten a run.\<close>

inductive runn :: "trans \<Rightarrow> nat \<Rightarrow> state \<Rightarrow> int list \<Rightarrow> state \<Rightarrow> bool" for T where
  runn_refl: "runn T 0 p [] p"
| runn_eps: "(p, epsilon, q) \<in> T \<Longrightarrow> runn T n q w r \<Longrightarrow> runn T (Suc n) p w r"
| runn_step: "(p, a, q) \<in> T \<Longrightarrow> a \<noteq> epsilon \<Longrightarrow> runn T n q w r \<Longrightarrow> runn T (Suc n) p (a # w) r"

inductive_cases runn_SucE: "runn T (Suc n) p w r"
inductive_cases runn_0E: "runn T 0 p w r"

lemma run_runn: "run T p w q \<longleftrightarrow> (\<exists>n. runn T n p w q)"
proof
  show "run T p w q \<Longrightarrow> \<exists>n. runn T n p w q"
    by (induction rule: run.induct) (auto intro: runn.intros)
  have "runn T n p w q \<Longrightarrow> run T p w q" for n
    by (induction rule: runn.induct) (auto intro: run.intros)
  then show "\<exists>n. runn T n p w q \<Longrightarrow> run T p w q" by blast
qed

text \<open>One transition with a label that may be epsilon, followed by a run.\<close>

definition label_word :: "int \<Rightarrow> int list" where
  "label_word a = (if a = epsilon then [] else [a])"

lemma run_trans: "(p, a, q) \<in> T \<Longrightarrow> run T q w r \<Longrightarrow> run T p (label_word a @ w) r"
  by (auto simp: label_word_def intro: run.intros)

lemma runn_Suc_iff:
  "runn T (Suc n) p w r \<longleftrightarrow> (\<exists>a q v. (p, a, q) \<in> T \<and> w = label_word a @ v \<and> runn T n q v r)"
  by (auto simp: label_word_def elim!: runn_SucE intro: runn.intros split: if_splits)

definition accepts :: "trans \<Rightarrow> state set \<Rightarrow> state set \<Rightarrow> int list set" where
  "accepts T I F = {w. \<exists>i\<in>I. \<exists>f\<in>F. run T i w f}"

section \<open>The automaton library\<close>

record 'a astl =
  a_empty :: 'a
  a_states :: "'a \<Rightarrow> state list"
  a_delta2 :: "'a \<Rightarrow> state \<Rightarrow> (int \<times> state) list"
  a_delta2_backwards :: "'a \<Rightarrow> state \<Rightarrow> (int \<times> state) list"
  a_initial :: "'a \<Rightarrow> state set"
  a_set_initial :: "state set \<Rightarrow> 'a \<Rightarrow> 'a"
  a_final :: "'a \<Rightarrow> state \<Rightarrow> bool"
  a_set_final :: "state \<Rightarrow> bool \<Rightarrow> 'a \<Rightarrow> 'a"
  a_new_state :: "'a \<Rightarrow> state \<times> 'a"
  a_set_trans :: "state \<Rightarrow> int \<Rightarrow> state \<Rightarrow> 'a \<Rightarrow> 'a"
  a_del_trans :: "state \<Rightarrow> int \<Rightarrow> state \<Rightarrow> 'a \<Rightarrow> 'a"
  a_del_state :: "state \<Rightarrow> 'a \<Rightarrow> 'a"

definition a_finals :: "'a astl \<Rightarrow> 'a \<Rightarrow> state set" where
  "a_finals N A = {q \<in> set (a_states N A). a_final N A q}"

text \<open>The loop over a \<open>std::set\<close> of states.\<close>

abbreviation for_states :: "(state \<Rightarrow> 'a \<Rightarrow> 'a) \<Rightarrow> state set \<Rightarrow> 'a \<Rightarrow> 'a" where
  "for_states f S \<equiv> fold f (sorted_list_of_set S)"

section \<open>Target graph index\<close>

record 'g tg_index =
  m_initialized :: bool
  m_next_index :: int
  m_target_graph_to_int :: "'g \<rightharpoonup> int"
  m_int_to_target_graph :: "int \<rightharpoonup> 'g"

definition int_max :: int where
  "int_max = 2147483647"

definition tg_new :: "'g tg_index" where
  "tg_new = \<lparr>m_initialized = False, m_next_index = 0, m_target_graph_to_int = Map.empty,
     m_int_to_target_graph = Map.empty\<rparr>"

definition tg_clear :: "'g tg_index \<Rightarrow> 'g tg_index" where
  "tg_clear ix = ix\<lparr>m_initialized := False, m_next_index := 0,
     m_target_graph_to_int := Map.empty, m_int_to_target_graph := Map.empty\<rparr>"

definition to_index :: "'g \<Rightarrow> 'g tg_index \<Rightarrow> fshell_error + int \<times> 'g tg_index" where
  "to_index f ix = (case m_target_graph_to_int ix f of
      Some i \<Rightarrow> Inr (i, ix)
    | None \<Rightarrow>
        (if m_next_index ix < int_max then
           Inr (m_next_index ix, ix\<lparr>m_next_index := m_next_index ix + 1,
             m_target_graph_to_int := (m_target_graph_to_int ix)(f \<mapsto> m_next_index ix),
             m_int_to_target_graph := (m_int_to_target_graph ix)(m_next_index ix \<mapsto> f)\<rparr>)
         else Inl Query_Processing_Error))"

definition tg_init :: "'g \<Rightarrow> 'g tg_index \<Rightarrow> fshell_error + 'g tg_index" where
  "tg_init id_tgg ix = map_sum id snd (to_index id_tgg (ix\<lparr>m_initialized := True\<rparr>))"

definition lookup_index :: "int \<Rightarrow> 'g tg_index \<Rightarrow> 'g option" where
  "lookup_index i ix = m_int_to_target_graph ix i"

definition lookup_target_graph :: "'g \<Rightarrow> 'g tg_index \<Rightarrow> int option" where
  "lookup_target_graph f ix = m_target_graph_to_int ix f"

section \<open>Operations on automata\<close>

text \<open>The image of a state, created on first use.\<close>

definition copy_state ::
  "'a astl \<Rightarrow> state \<Rightarrow> (state \<rightharpoonup> state) \<times> 'a \<Rightarrow> state \<times> (state \<rightharpoonup> state) \<times> 'a" where
  "copy_state N q md = (case md of (new_states, dest) \<Rightarrow> (case new_states q of
      Some s \<Rightarrow> (s, new_states, dest)
    | None \<Rightarrow> (case a_new_state N dest of (s, dest') \<Rightarrow> (s, new_states(q \<mapsto> s), dest'))))"

definition copy_edge ::
  "'a astl \<Rightarrow> state \<Rightarrow> int \<times> state \<Rightarrow> (state \<rightharpoonup> state) \<times> 'a \<Rightarrow> (state \<rightharpoonup> state) \<times> 'a" where
  "copy_edge N s1 e md = (case copy_state N (snd e) md of
      (s2, new_states, dest) \<Rightarrow> (new_states, a_set_trans N s1 (fst e) s2 dest))"

definition copy_one ::
  "'a astl \<Rightarrow> 'a \<Rightarrow> state \<Rightarrow> state set \<times> state set \<times> (state \<rightharpoonup> state) \<times> 'a
    \<Rightarrow> state set \<times> state set \<times> (state \<rightharpoonup> state) \<times> 'a" where
  "copy_one N src q acc = (case acc of (ini, fin, md) \<Rightarrow>
     (case copy_state N q md of (s1, md') \<Rightarrow>
       (if q \<in> a_initial N src then insert s1 ini else ini,
        if a_final N src q then insert s1 fin else fin,
        fold (copy_edge N s1) (a_delta2 N src q) md')))"

definition copy_automaton :: "'a astl \<Rightarrow> 'a \<Rightarrow> 'a \<Rightarrow> (state set \<times> state set) \<times> 'a" where
  "copy_automaton N src dest =
    (case fold (copy_one N src) (a_states N src) ({}, {}, Map.empty, dest) of
       (ini, fin, new_states, dest') \<Rightarrow> ((ini, fin), dest'))"

text \<open>The three passes of \<open>simplify_automaton\<close> and the compaction.\<close>

definition eps_edge :: "'a astl \<Rightarrow> state \<Rightarrow> (int \<times> state) list \<Rightarrow> int \<times> state \<Rightarrow> 'a \<Rightarrow> 'a" where
  "eps_edge N s out_edges i_edge aut =
    (if fst i_edge = epsilon then
       (let p = snd i_edge;
            aut = (if p \<noteq> s then fold (\<lambda>o_edge. a_set_trans N p (fst o_edge) (snd o_edge)) out_edges aut else aut);
            aut = (if a_final N aut s then a_set_final N p True aut else aut)
        in a_del_trans N p (fst i_edge) s aut)
     else aut)"

definition eps_state :: "'a astl \<Rightarrow> state \<Rightarrow> 'a \<Rightarrow> 'a" where
  "eps_state N s aut = fold (eps_edge N s (a_delta2 N aut s)) (a_delta2_backwards N aut s) aut"

definition eps_elim :: "'a astl \<Rightarrow> 'a \<Rightarrow> 'a" where
  "eps_elim N aut = fold (eps_state N) (a_states N aut) aut"

partial_function (option) remove_dead ::
  "'a astl \<Rightarrow> state list \<Rightarrow> state set \<Rightarrow> 'a \<Rightarrow> 'a option" where
  "remove_dead N queue dead_states aut = (case queue of
      [] \<Rightarrow> Some aut
    | s # queue \<Rightarrow>
        (if s \<in> dead_states then remove_dead N queue dead_states aut
         else
           let in_edges = a_delta2_backwards N aut s; out_edges = a_delta2 N aut s in
           if s \<in> a_initial N aut then remove_dead N queue dead_states aut
           else if in_edges = [] then
             remove_dead N (queue @ map snd out_edges) (insert s dead_states)
               (a_del_state N s (fold (\<lambda>e. a_del_trans N s (fst e) (snd e)) out_edges aut))
           else if out_edges = [] then
             (if a_final N aut s then remove_dead N queue dead_states aut
              else remove_dead N (queue @ map snd in_edges) (insert s dead_states)
                (a_del_state N s (fold (\<lambda>e. a_del_trans N (snd e) (fst e) s) in_edges aut)))
           else remove_dead N queue dead_states aut))"

definition dedup_edge ::
  "'a astl \<Rightarrow> state \<Rightarrow> int \<times> state \<Rightarrow> (int \<times> state) set \<times> 'a \<Rightarrow> (int \<times> state) set \<times> 'a" where
  "dedup_edge N s e sa = (case sa of (seen, aut) \<Rightarrow>
     (if e \<in> seen then (seen, a_del_trans N s (fst e) (snd e) aut) else (insert e seen, aut)))"

definition dedup :: "'a astl \<Rightarrow> 'a \<Rightarrow> 'a" where
  "dedup N aut = fold (\<lambda>s aut. snd (fold (dedup_edge N s) (a_delta2 N aut s) ({}, aut))) (a_states N aut) aut"

definition compact_automaton :: "'a astl \<Rightarrow> 'a \<Rightarrow> 'a" where
  "compact_automaton N aut =
    (case copy_automaton N aut (a_empty N) of ((ini, fin), clone) \<Rightarrow>
       let clone = for_states (\<lambda>q. a_set_final N q True) fin (a_set_initial N ini clone);
           aut = fold (a_del_state N) (a_states N aut) aut
       in case copy_automaton N clone aut of ((ini2, fin2), aut) \<Rightarrow>
         for_states (\<lambda>q. a_set_final N q True) fin2 (a_set_initial N ini2 aut))"

definition simplify_automaton :: "'a astl \<Rightarrow> bool \<Rightarrow> 'a \<Rightarrow> 'a option" where
  "simplify_automaton N compact aut =
    (let aut = eps_elim N aut in
     case remove_dead N (a_states N aut) {} aut of
       None \<Rightarrow> None
     | Some aut \<Rightarrow>
         (let aut = dedup N aut in Some (if compact then compact_automaton N aut else aut)))"

fun compact_from ::
  "'a astl \<Rightarrow> 'a \<Rightarrow> state list \<Rightarrow> nat \<Rightarrow> (state \<rightharpoonup> nat) \<times> (nat \<rightharpoonup> state) \<times> nat set
    \<Rightarrow> (state \<rightharpoonup> nat) \<times> (nat \<rightharpoonup> state) \<times> nat set" where
  "compact_from N aut [] idx acc = acc"
| "compact_from N aut (q # qs) idx (s_map, reverse_s_map, finals) =
     compact_from N aut qs (idx + 1)
       (s_map(q \<mapsto> idx), reverse_s_map(idx \<mapsto> q), if a_final N aut q then insert idx finals else finals)"

definition compact_state_numbers ::
  "'a astl \<Rightarrow> 'a \<Rightarrow> (state \<rightharpoonup> nat) \<times> (nat \<rightharpoonup> state) \<times> nat set" where
  "compact_state_numbers N aut = compact_from N aut (a_states N aut) 0 (Map.empty, Map.empty, {})"

section \<open>Elimination of epsilon transitions, on transition relations\<close>

definition eps_T :: "trans \<Rightarrow> state \<Rightarrow> trans" where
  "eps_T T s = {(p, l, t). (p, l, t) \<in> T \<and> \<not> (l = epsilon \<and> t = s)
     \<or> (p, epsilon, s) \<in> T \<and> p \<noteq> s \<and> (s, l, t) \<in> T \<and> \<not> (l = epsilon \<and> t = s)}"

definition eps_F :: "trans \<Rightarrow> state set \<Rightarrow> state \<Rightarrow> state set" where
  "eps_F T F s = F \<union> {p. s \<in> F \<and> (p, epsilon, s) \<in> T}"

lemma run_eps_T_sound: "run (eps_T T s) p w q \<Longrightarrow> run T p w q"
proof (induction rule: run.induct)
  case (run_eps p q w r)
  then consider "(p, epsilon, q) \<in> T" | "(p, epsilon, s) \<in> T" "(s, epsilon, q) \<in> T" by (auto simp: eps_T_def)
  then show ?case using run_eps.IH by cases (auto intro: run.intros)
next
  case (run_step p a q w r)
  then consider "(p, a, q) \<in> T" | "(p, epsilon, s) \<in> T" "(s, a, q) \<in> T" by (auto simp: eps_T_def)
  then show ?case using run_step.IH run_step.hyps(2) by cases (auto intro: run.intros)
qed (rule run.run_refl)

lemma runn_eps_T_complete:
  "runn T n p w f \<Longrightarrow> f \<in> F \<Longrightarrow> \<exists>f' \<in> eps_F T F s. run (eps_T T s) p w f'"
proof (induction n arbitrary: p w rule: less_induct)
  case (less n)
  show ?case
  proof (cases n)
    case 0
    then show ?thesis using less.prems by (auto elim!: runn_0E simp: eps_F_def intro: run.run_refl)
  next
    case (Suc m)
    then obtain a q v where step: "(p, a, q) \<in> T" "w = label_word a @ v" "runn T m q v f"
      using less.prems(1) by (auto simp: runn_Suc_iff)
    show ?thesis
    proof (cases "a = epsilon \<and> q = s")
      case False
      then have "(p, a, q) \<in> eps_T T s" using step(1) by (auto simp: eps_T_def)
      then show ?thesis using less.IH [OF _ step(3) less.prems(2)] Suc step(2) run_trans by fastforce
    next
      case True
      then have e: "(p, epsilon, s) \<in> T" "w = v" "runn T m s v f"
        using step by (auto simp: label_word_def)
      show ?thesis
      proof (cases m)
        case 0
        then have "f = s" "v = []" using e(3) by (auto elim: runn_0E)
        then show ?thesis using e less.prems(2) by (auto simp: eps_F_def intro: run.run_refl)
      next
        case (Suc k)
        then obtain b r u where st2: "(s, b, r) \<in> T" "v = label_word b @ u" "runn T k r u f"
          using e(3) by (auto simp: runn_Suc_iff)
        consider (self) "b = epsilon" "r = s" | (ps) "p = s" | (new) "p \<noteq> s" "\<not> (b = epsilon \<and> r = s)" by blast
        then show ?thesis
        proof cases
          case self
          then have "runn T (Suc k) p w f" using e st2 by (auto simp: label_word_def intro: runn.intros)
          then show ?thesis using less.IH [of "Suc k"] less.prems(2) \<open>n = Suc m\<close> Suc by auto
        next
          case ps
          then show ?thesis using less.IH [of m p w] e less.prems(2) \<open>n = Suc m\<close> by auto
        next
          case new
          then have "(p, b, r) \<in> eps_T T s" using e st2 by (auto simp: eps_T_def)
          then show ?thesis
            using less.IH [OF _ st2(3) less.prems(2)] \<open>n = Suc m\<close> Suc e(2) st2(2) run_trans by fastforce
        qed
      qed
    qed
  qed
qed

lemma accepts_eps: "accepts (eps_T T s) I (eps_F T F s) = accepts T I F"
proof -
  have "run T i w s" if "run T i w p" "(p, epsilon, s) \<in> T" for i w p
    using run_append [OF that(1) run.run_eps [OF that(2) run.run_refl]] by simp
  then have "accepts (eps_T T s) I (eps_F T F s) \<subseteq> accepts T I F"
    by (fastforce simp: accepts_def eps_F_def dest: run_eps_T_sound)
  moreover have "accepts T I F \<subseteq> accepts (eps_T T s) I (eps_F T F s)"
    unfolding accepts_def using runn_eps_T_complete by (fastforce simp: run_runn)
  ultimately show ?thesis by blast
qed

section \<open>Removal of dead states, on transition relations\<close>

definition without_state :: "trans \<Rightarrow> state \<Rightarrow> trans" where
  "without_state T s = {(p, a, q) \<in> T. p \<noteq> s \<and> q \<noteq> s}"

lemma run_no_incoming:
  "run T p w q \<Longrightarrow> (\<And>r a. (r, a, s) \<notin> T) \<Longrightarrow> p \<noteq> s \<Longrightarrow> run (without_state T s) p w q \<and> q \<noteq> s"
proof (induction rule: run.induct)
  case (run_eps p q w r)
  then have "(p, epsilon, q) \<in> without_state T s" "q \<noteq> s" by (auto simp: without_state_def)
  then show ?case using run_eps by (auto intro: run.run_eps)
next
  case (run_step p a q w r)
  then have "(p, a, q) \<in> without_state T s" "q \<noteq> s" by (auto simp: without_state_def)
  then show ?case using run_step by (auto intro: run.run_step)
qed (auto intro: run.run_refl)

lemma run_no_outgoing:
  "run T p w q \<Longrightarrow> (\<And>r a. (s, a, r) \<notin> T) \<Longrightarrow> q \<noteq> s \<Longrightarrow> run (without_state T s) p w q \<and> p \<noteq> s"
proof (induction rule: run.induct)
  case (run_eps p q w r)
  then have "(p, epsilon, q) \<in> without_state T s" "p \<noteq> s" by (auto simp: without_state_def)
  then show ?case using run_eps by (auto intro: run.run_eps)
next
  case (run_step p a q w r)
  then have "(p, a, q) \<in> without_state T s" "p \<noteq> s" by (auto simp: without_state_def)
  then show ?case using run_step by (auto intro: run.run_step)
qed (auto intro: run.run_refl)

lemma accepts_without_state:
  assumes "s \<notin> I" "(\<forall>r a. (r, a, s) \<notin> T) \<or> s \<notin> F \<and> (\<forall>r a. (s, a, r) \<notin> T)"
  shows "accepts (without_state T s) I (F - {s}) = accepts T I F"
proof -
  have "without_state T s \<subseteq> T" by (auto simp: without_state_def)
  then have "accepts (without_state T s) I (F - {s}) \<subseteq> accepts T I F"
    unfolding accepts_def using run_mono by blast
  moreover have "run (without_state T s) i w f \<and> f \<noteq> s" if "i \<in> I" "f \<in> F" "run T i w f" for i f w
    using assms(2)
  proof
    assume "\<forall>r a. (r, a, s) \<notin> T"
    then show ?thesis using run_no_incoming [OF that(3)] that assms(1) by blast
  next
    assume "s \<notin> F \<and> (\<forall>r a. (s, a, r) \<notin> T)"
    then show ?thesis using run_no_outgoing [OF that(3)] that by blast
  qed
  ultimately show ?thesis unfolding accepts_def by blast
qed

section \<open>Images and disjoint unions of transition relations\<close>

definition image_T :: "(state \<Rightarrow> state) \<Rightarrow> trans \<Rightarrow> trans" where
  "image_T f U = (\<lambda>(p, a, q). (f p, a, f q)) ` U"

lemma image_T_cong:
  "(\<And>p a q. (p, a, q) \<in> U \<Longrightarrow> f p = g p \<and> f q = g q) \<Longrightarrow> image_T f U = image_T g U"
  unfolding image_T_def by (rule image_cong) auto

definition from_states :: "trans \<Rightarrow> state set \<Rightarrow> trans" where
  "from_states T R = {t \<in> T. fst t \<in> R}"

text \<open>\<open>within T S\<close>: all end points lie in \<open>S\<close>.\<close>

definition within :: "trans \<Rightarrow> state set \<Rightarrow> bool" where
  "within T S \<longleftrightarrow> (\<forall>(p, a, q) \<in> T. p \<in> S \<and> q \<in> S)"

lemma withinD: "within T S \<Longrightarrow> (p, a, q) \<in> T \<Longrightarrow> p \<in> S \<and> q \<in> S"
  by (auto simp: within_def)

lemma within_image: "within T S \<Longrightarrow> within (image_T f T) (f ` S)"
  by (auto simp: within_def image_T_def)

lemma run_image: "run T p w q \<Longrightarrow> run (image_T f T) (f p) w (f q)"
proof (induction rule: run.induct)
  case (run_eps p q w r)
  then have "(f p, epsilon, f q) \<in> image_T f T" by (force simp: image_T_def)
  then show ?case using run_eps.IH by (rule run.run_eps)
next
  case (run_step p a q w r)
  then have "(f p, a, f q) \<in> image_T f T" by (force simp: image_T_def)
  then show ?case using run_step by (auto intro: run.run_step)
qed (rule run.run_refl)

lemma run_image_back:
  assumes "run (image_T f T) p' w q'" "within T S" "inj_on f S" "p \<in> S" "p' = f p"
  shows "\<exists>q \<in> S. q' = f q \<and> run T p w q"
  using assms(1,4,5)
proof (induction arbitrary: p rule: run.induct)
  case (run_refl x)
  then show ?case by (auto intro: run.run_refl)
next
  case (run_eps x y w r)
  then obtain p1 q1 where "f p1 = f p" "y = f q1" "(p1, epsilon, q1) \<in> T" by (auto simp: image_T_def)
  moreover then have "p1 = p" "q1 \<in> S" using withinD [OF assms(2)] run_eps.prems assms(3) by (auto dest: inj_onD)
  ultimately show ?case using run_eps.IH [of q1] by (auto intro: run.run_eps)
next
  case (run_step x a y w r)
  then obtain p1 q1 where "f p1 = f p" "y = f q1" "(p1, a, q1) \<in> T" by (auto simp: image_T_def)
  moreover then have "p1 = p" "q1 \<in> S" using withinD [OF assms(2)] run_step.prems assms(3) by (auto dest: inj_onD)
  ultimately show ?case using run_step.IH [of q1] run_step.hyps(2) by (auto intro: run.run_step)
qed

lemma accepts_image:
  assumes "within T S" "inj_on f S" "I \<subseteq> S" "F \<subseteq> S"
  shows "accepts (image_T f T) (f ` I) (f ` F) = accepts T I F"
proof -
  have "run (image_T f T) (f i) w (f q) \<longleftrightarrow> run T i w q" if "i \<in> I" "q \<in> F" for i q w
    using run_image [of T i w q f] run_image_back [OF _ assms(1,2), of "f i" w "f q" i] that assms(2-4)
    by (auto dest: inj_onD)
  then show ?thesis unfolding accepts_def by auto
qed

lemma run_disjoint:
  assumes "run (T \<union> U) p w q" "within T S" "within U R" "S \<inter> R = {}" "p \<in> S"
  shows "run T p w q \<and> q \<in> S"
  using assms(1,5)
proof (induction rule: run.induct)
  case (run_eps p q w r)
  then have "(p, epsilon, q) \<in> T" "q \<in> S" using withinD [OF assms(2)] withinD [OF assms(3)] assms(4) by auto
  then show ?case using run_eps.IH by (auto intro: run.run_eps)
next
  case (run_step p a q w r)
  then have "(p, a, q) \<in> T" "q \<in> S" using withinD [OF assms(2)] withinD [OF assms(3)] assms(4) by auto
  then show ?case using run_step by (auto intro: run.run_step)
qed (auto intro: run.run_refl)

section \<open>What the code relies on\<close>

text \<open>The language of an automaton, by its transition relation \<open>T\<close>.\<close>

definition ta_lang :: "'a astl \<Rightarrow> ('a \<Rightarrow> trans) \<Rightarrow> 'a \<Rightarrow> int list set" where
  "ta_lang N T A = accepts (T A) (a_initial N A \<inter> set (a_states N A)) (a_finals N A)"

locale astl_nfa =
  fixes N :: "'a astl" and inv :: "'a \<Rightarrow> bool" and T :: "'a \<Rightarrow> trans"
  assumes empty_ok: "inv (a_empty N)" "a_states N (a_empty N) = []" "a_initial N (a_empty N) = {}"
    and states_distinct: "inv A \<Longrightarrow> distinct (a_states N A)"
    and trans_states: "inv A \<Longrightarrow> (p, a, q) \<in> T A \<Longrightarrow> p \<in> set (a_states N A) \<and> q \<in> set (a_states N A)"
    and delta2: "inv A \<Longrightarrow> q \<in> set (a_states N A) \<Longrightarrow> set (a_delta2 N A q) = {(a, r). (q, a, r) \<in> T A}"
      "inv A \<Longrightarrow> q \<in> set (a_states N A) \<Longrightarrow> distinct (a_delta2 N A q)"
    and delta2_backwards:
      "inv A \<Longrightarrow> q \<in> set (a_states N A) \<Longrightarrow> set (a_delta2_backwards N A q) = {(a, p). (p, a, q) \<in> T A}"
      "inv A \<Longrightarrow> q \<in> set (a_states N A) \<Longrightarrow> distinct (a_delta2_backwards N A q)"
    and set_initial: "inv A \<Longrightarrow> inv (a_set_initial N I A)"
      "a_states N (a_set_initial N I A) = a_states N A" "T (a_set_initial N I A) = T A"
      "a_initial N (a_set_initial N I A) = I" "a_final N (a_set_initial N I A) = a_final N A"
    and set_final: "inv A \<Longrightarrow> inv (a_set_final N q b A)"
      "a_states N (a_set_final N q b A) = a_states N A" "T (a_set_final N q b A) = T A"
      "a_initial N (a_set_final N q b A) = a_initial N A"
      "a_final N (a_set_final N q b A) = (a_final N A)(q := b)"
    and new_state: "inv A \<Longrightarrow> a_new_state N A = (s, A') \<Longrightarrow> inv A'"
      "inv A \<Longrightarrow> a_new_state N A = (s, A') \<Longrightarrow> s \<notin> set (a_states N A)"
      "inv A \<Longrightarrow> a_new_state N A = (s, A') \<Longrightarrow> set (a_states N A') = insert s (set (a_states N A))"
      "inv A \<Longrightarrow> a_new_state N A = (s, A') \<Longrightarrow> T A' = T A"
      "inv A \<Longrightarrow> a_new_state N A = (s, A') \<Longrightarrow> a_initial N A' = a_initial N A"
      "inv A \<Longrightarrow> a_new_state N A = (s, A') \<Longrightarrow> a_final N A' q = (q \<noteq> s \<and> a_final N A q)"
    and set_trans: "inv A \<Longrightarrow> {p, q} \<subseteq> set (a_states N A) \<Longrightarrow> inv (a_set_trans N p a q A)"
      "inv A \<Longrightarrow> {p, q} \<subseteq> set (a_states N A) \<Longrightarrow> a_states N (a_set_trans N p a q A) = a_states N A"
      "inv A \<Longrightarrow> {p, q} \<subseteq> set (a_states N A) \<Longrightarrow> T (a_set_trans N p a q A) = insert (p, a, q) (T A)"
      "inv A \<Longrightarrow> {p, q} \<subseteq> set (a_states N A) \<Longrightarrow> a_initial N (a_set_trans N p a q A) = a_initial N A"
      "inv A \<Longrightarrow> {p, q} \<subseteq> set (a_states N A) \<Longrightarrow> a_final N (a_set_trans N p a q A) = a_final N A"
    and del_trans: "inv A \<Longrightarrow> (p, a, q) \<in> T A \<Longrightarrow> inv (a_del_trans N p a q A)"
      "inv A \<Longrightarrow> (p, a, q) \<in> T A \<Longrightarrow> a_states N (a_del_trans N p a q A) = a_states N A"
      "inv A \<Longrightarrow> (p, a, q) \<in> T A \<Longrightarrow> T (a_del_trans N p a q A) = T A - {(p, a, q)}"
      "inv A \<Longrightarrow> (p, a, q) \<in> T A \<Longrightarrow> a_initial N (a_del_trans N p a q A) = a_initial N A"
      "inv A \<Longrightarrow> (p, a, q) \<in> T A \<Longrightarrow> a_final N (a_del_trans N p a q A) = a_final N A"
    and del_state: "inv A \<Longrightarrow> s \<in> set (a_states N A) \<Longrightarrow> inv (a_del_state N s A)"
      "inv A \<Longrightarrow> s \<in> set (a_states N A) \<Longrightarrow> set (a_states N (a_del_state N s A)) = set (a_states N A) - {s}"
      "inv A \<Longrightarrow> s \<in> set (a_states N A) \<Longrightarrow> T (a_del_state N s A) = {(p, a, q) \<in> T A. p \<noteq> s \<and> q \<noteq> s}"
      "inv A \<Longrightarrow> s \<in> set (a_states N A) \<Longrightarrow> q \<noteq> s \<Longrightarrow> q \<in> a_initial N (a_del_state N s A) \<longleftrightarrow> q \<in> a_initial N A"
      "inv A \<Longrightarrow> s \<in> set (a_states N A) \<Longrightarrow> q \<noteq> s \<Longrightarrow> a_final N (a_del_state N s A) q = a_final N A q"
      "inv A \<Longrightarrow> s \<in> set (a_states N A) \<Longrightarrow> a_initial N (a_del_state N s A) \<subseteq> a_initial N A"
begin

abbreviation lang :: "'a \<Rightarrow> int list set" where
  "lang A \<equiv> ta_lang N T A"

lemma finite_T: "inv A \<Longrightarrow> finite (T A)"
proof (rule finite_subset)
  show "inv A \<Longrightarrow> T A \<subseteq> (\<Union>p \<in> set (a_states N A). (\<lambda>(a, r). (p, a, r)) ` set (a_delta2 N A p))"
    using trans_states delta2(1) by fastforce
qed auto

lemma set_trans_fold:
  assumes "inv A" "p \<in> set (a_states N A)" "snd ` set es \<subseteq> set (a_states N A)"
  defines "A' \<equiv> fold (\<lambda>e. a_set_trans N p (fst e) (snd e)) es A"
  shows "inv A' \<and> a_states N A' = a_states N A \<and> a_initial N A' = a_initial N A
    \<and> a_final N A' = a_final N A \<and> T A' = T A \<union> {(p, l, t) |l t. (l, t) \<in> set es}"
  using assms(1-3) unfolding A'_def
proof (induction es arbitrary: A)
  case (Cons e es)
  let ?B = "a_set_trans N p (fst e) (snd e) A"
  have sub: "{p, snd e} \<subseteq> set (a_states N A)" using Cons.prems by auto
  note B = set_trans [OF Cons.prems(1) sub, of "fst e"]
  have "inv (fold (\<lambda>e. a_set_trans N p (fst e) (snd e)) es ?B)
    \<and> a_states N (fold (\<lambda>e. a_set_trans N p (fst e) (snd e)) es ?B) = a_states N ?B
    \<and> a_initial N (fold (\<lambda>e. a_set_trans N p (fst e) (snd e)) es ?B) = a_initial N ?B
    \<and> a_final N (fold (\<lambda>e. a_set_trans N p (fst e) (snd e)) es ?B) = a_final N ?B
    \<and> T (fold (\<lambda>e. a_set_trans N p (fst e) (snd e)) es ?B) = T ?B \<union> {(p, l, t) |l t. (l, t) \<in> set es}"
    using Cons.prems B by (intro Cons.IH) auto
  then show ?case using B by (cases e) auto
qed simp

text \<open>One incoming epsilon edge.\<close>

definition rerouted :: "state \<Rightarrow> (int \<times> state) set \<Rightarrow> state \<Rightarrow> trans" where
  "rerouted s outs p = {(p, l, t) |l t. p \<noteq> s \<and> (l, t) \<in> outs \<and> \<not> (l = epsilon \<and> t = s)}"

lemma eps_edge_correct:
  assumes A: "inv A" "s \<in> set (a_states N A)" "(p, epsilon, s) \<in> T A"
    and outs: "snd ` set outs \<subseteq> set (a_states N A)"
  defines "A' \<equiv> eps_edge N s outs (epsilon, p) A"
  shows "inv A'" "a_states N A' = a_states N A" "a_initial N A' = a_initial N A"
    "a_final N A' = (if a_final N A s then (a_final N A)(p := True) else a_final N A)"
    "T A' = (T A - {(p, epsilon, s)}) \<union> rerouted s (set outs) p"
proof -
  let ?B = "if p \<noteq> s then fold (\<lambda>e. a_set_trans N p (fst e) (snd e)) outs A else A"
  have p: "p \<in> set (a_states N A)" using trans_states [OF A(1,3)] by simp
  have B: "inv ?B" "a_states N ?B = a_states N A" "a_initial N ?B = a_initial N A"
    "a_final N ?B = a_final N A" "T ?B = T A \<union> {(p, l, t) |l t. p \<noteq> s \<and> (l, t) \<in> set outs}"
    using set_trans_fold [OF A(1) p outs] A(1) by auto
  let ?C = "if a_final N ?B s then a_set_final N p True ?B else ?B"
  have C: "inv ?C" "a_states N ?C = a_states N A" "a_initial N ?C = a_initial N A" "T ?C = T ?B"
    "a_final N ?C = (if a_final N A s then (a_final N A)(p := True) else a_final N A)"
    using B by (auto simp: set_final)
  have "(p, epsilon, s) \<in> T ?C" using A(3) B(5) C(4) by auto
  note D = del_trans [OF C(1) this]
  have A': "A' = a_del_trans N p epsilon s ?C" by (simp add: A'_def eps_edge_def Let_def)
  show "inv A'" "a_states N A' = a_states N A" "a_initial N A' = a_initial N A"
    "a_final N A' = (if a_final N A s then (a_final N A)(p := True) else a_final N A)"
    using D C unfolding A' by auto
  show "T A' = (T A - {(p, epsilon, s)}) \<union> rerouted s (set outs) p"
    using D(3) C(4) B(5) unfolding A' by (auto simp: rerouted_def)
qed

text \<open>All incoming epsilon edges of one state.\<close>

lemma eps_edges_correct:
  assumes "inv A" "s \<in> set (a_states N A)" "snd ` set outs \<subseteq> set (a_states N A)"
    and "distinct ins" "\<And>l p. (l, p) \<in> set ins \<Longrightarrow> (p, l, s) \<in> T A"
  defines "A' \<equiv> fold (eps_edge N s outs) ins A"
  shows "inv A' \<and> a_states N A' = a_states N A \<and> a_initial N A' = a_initial N A
    \<and> (\<forall>q. a_final N A' q \<longleftrightarrow> a_final N A q \<or> a_final N A s \<and> (epsilon, q) \<in> set ins)
    \<and> T A' = (T A - {(p, epsilon, s) |p. (epsilon, p) \<in> set ins})
        \<union> (\<Union>p \<in> {p. (epsilon, p) \<in> set ins}. rerouted s (set outs) p)"
  using assms(1-5) unfolding A'_def
proof (induction ins arbitrary: A)
  case (Cons e ins)
  obtain l p where e: "e = (l, p)" by (cases e)
  show ?case
  proof (cases "l = epsilon")
    case False
    then have "eps_edge N s outs e A = A" by (simp add: e eps_edge_def)
    then show ?thesis using Cons False by (simp add: e)
  next
    case True
    have pT: "(p, epsilon, s) \<in> T A" using Cons.prems(5) [of epsilon p] True e by simp
    let ?B = "eps_edge N s outs (epsilon, p) A"
    note B = eps_edge_correct [OF Cons.prems(1,2) pT Cons.prems(3)]
    have "(r, k, s) \<in> T ?B" if "(k, r) \<in> set ins" for k r
      using that Cons.prems(4) Cons.prems(5) [of k r] True unfolding B(5) e by auto
    then have IH: "inv (fold (eps_edge N s outs) ins ?B)"
      "a_states N (fold (eps_edge N s outs) ins ?B) = a_states N A"
      "a_initial N (fold (eps_edge N s outs) ins ?B) = a_initial N A"
      "\<And>q. a_final N (fold (eps_edge N s outs) ins ?B) q \<longleftrightarrow>
        a_final N ?B q \<or> a_final N ?B s \<and> (epsilon, q) \<in> set ins"
      "T (fold (eps_edge N s outs) ins ?B) = (T ?B - {(p, epsilon, s) |p. (epsilon, p) \<in> set ins})
        \<union> (\<Union>p \<in> {p. (epsilon, p) \<in> set ins}. rerouted s (set outs) p)"
      using Cons.IH [of ?B] Cons.prems B by auto
    have fin: "(a_final N ?B q \<or> a_final N ?B s \<and> (epsilon, q) \<in> set ins) \<longleftrightarrow>
        a_final N A q \<or> a_final N A s \<and> (epsilon, q) \<in> set (e # ins)" for q
      unfolding B(4) using e True by auto
    have "(p, epsilon, s) \<notin> rerouted s (set outs) r" for p r by (auto simp: rerouted_def)
    then have "(T ?B - {(p, epsilon, s) |p. (epsilon, p) \<in> set ins})
        \<union> (\<Union>p \<in> {p. (epsilon, p) \<in> set ins}. rerouted s (set outs) p)
      = (T A - {(p, epsilon, s) |p. (epsilon, p) \<in> set (e # ins)})
        \<union> (\<Union>p \<in> {p. (epsilon, p) \<in> set (e # ins)}. rerouted s (set outs) p)"
      unfolding B(5) e True by auto
    then show ?thesis using IH fin True e by simp
  qed
qed simp

lemma eps_state_correct:
  assumes A: "inv A" "s \<in> set (a_states N A)"
  defines "A' \<equiv> eps_state N s A"
  shows "inv A'" "a_states N A' = a_states N A" "a_initial N A' = a_initial N A"
    "T A' = eps_T (T A) s" "a_finals N A' = eps_F (T A) (a_finals N A) s"
proof -
  have out: "snd ` set (a_delta2 N A s) \<subseteq> set (a_states N A)"
    unfolding delta2(1) [OF A] using trans_states [OF A(1)] by auto
  have ins: "(l, p) \<in> set (a_delta2_backwards N A s) \<longleftrightarrow> (p, l, s) \<in> T A" for l p
    unfolding delta2_backwards(1) [OF A] by simp
  have outs: "(l, p) \<in> set (a_delta2 N A s) \<longleftrightarrow> (s, l, p) \<in> T A" for l p
    unfolding delta2(1) [OF A] by simp
  note E = eps_edges_correct [OF A out delta2_backwards(2) [OF A], unfolded ins, simplified, folded A'_def [unfolded eps_state_def]]
  show "inv A'" "a_states N A' = a_states N A" "a_initial N A' = a_initial N A"
    using E by auto
  show "T A' = eps_T (T A) s"
    using E by (auto simp: eps_T_def rerouted_def outs)
  show "a_finals N A' = eps_F (T A) (a_finals N A) s"
    using E A(2) trans_states [OF A(1)] by (auto simp: a_finals_def eps_F_def)
qed

lemma lang_eps_state: "inv A \<Longrightarrow> s \<in> set (a_states N A) \<Longrightarrow> lang (eps_state N s A) = lang A"
  using eps_state_correct [of A s] by (simp add: ta_lang_def accepts_eps)

text \<open>
  The pass over all states: a state that has been visited never gets an incoming epsilon
  transition again.
\<close>

lemma eps_elim_aux:
  assumes "inv A" "set qs \<subseteq> set (a_states N A)" "\<And>p s. s \<in> D \<Longrightarrow> (p, epsilon, s) \<notin> T A"
  defines "A' \<equiv> fold (eps_state N) qs A"
  shows "inv A' \<and> a_states N A' = a_states N A \<and> a_initial N A' = a_initial N A \<and> lang A' = lang A
    \<and> (\<forall>p s. s \<in> D \<union> set qs \<longrightarrow> (p, epsilon, s) \<notin> T A')"
  using assms(1-3) unfolding A'_def
proof (induction qs arbitrary: A D)
  case (Cons s qs)
  have s: "s \<in> set (a_states N A)" using Cons.prems by simp
  note E = eps_state_correct [OF Cons.prems(1) s] and L = lang_eps_state [OF Cons.prems(1) s]
  have "(p, epsilon, q) \<notin> T (eps_state N s A)" if "q \<in> insert s D" for p q
    using that Cons.prems(3) unfolding E(4) eps_T_def by auto
  then have "inv (fold (eps_state N) qs (eps_state N s A))
    \<and> a_states N (fold (eps_state N) qs (eps_state N s A)) = a_states N (eps_state N s A)
    \<and> a_initial N (fold (eps_state N) qs (eps_state N s A)) = a_initial N (eps_state N s A)
    \<and> lang (fold (eps_state N) qs (eps_state N s A)) = lang (eps_state N s A)
    \<and> (\<forall>p t. t \<in> insert s D \<union> set qs \<longrightarrow> (p, epsilon, t) \<notin> T (fold (eps_state N) qs (eps_state N s A)))"
    using Cons.prems E by (intro Cons.IH) auto
  then show ?case using E L by simp
qed simp

lemma eps_elim_correct:
  assumes "inv A"
  shows "inv (eps_elim N A)" "a_states N (eps_elim N A) = a_states N A"
    "a_initial N (eps_elim N A) = a_initial N A" "lang (eps_elim N A) = lang A"
    "(p, epsilon, q) \<notin> T (eps_elim N A)"
  using eps_elim_aux [OF assms subset_refl, of "{}"] trans_states [of "eps_elim N A" p epsilon q]
  by (auto simp: eps_elim_def)

text \<open>With epsilon transitions into a single state, only that state is eliminated.\<close>

lemma eps_state_none:
  assumes A: "inv A" "s \<in> set (a_states N A)" and "\<And>p. (p, epsilon, s) \<notin> T A"
  shows "eps_state N s A = A"
proof -
  have "\<forall>e \<in> set (a_delta2_backwards N A s). fst e \<noteq> epsilon"
    using assms(3) unfolding delta2_backwards(1) [OF A] by auto
  then have "fold (eps_edge N s outs) es A = A" if "set es \<subseteq> set (a_delta2_backwards N A s)" for es outs
    using that by (induction es) (auto simp: eps_edge_def)
  then show ?thesis by (simp add: eps_state_def)
qed

lemma eps_elim_single:
  assumes A: "inv A" "i \<in> set (a_states N A)" and eps: "\<And>p q. (p, epsilon, q) \<in> T A \<Longrightarrow> q = i"
  shows "eps_elim N A = eps_state N i A"
proof -
  have "fold (eps_state N) qs B = B" if "inv B" "set qs \<subseteq> set (a_states N B)" "\<And>p q. q \<in> set qs \<Longrightarrow> (p, epsilon, q) \<notin> T B" for qs B
    using that eps_state_none [of B] by (induction qs) auto
  note none = this
  obtain xs ys where qs: "a_states N A = xs @ i # ys" using A(2) by (auto simp: in_set_conv_decomp)
  have d: "i \<notin> set xs" "i \<notin> set ys" using states_distinct [OF A(1)] unfolding qs by auto
  note E = eps_state_correct [OF A]
  have 1: "fold (eps_state N) xs A = A" using A(1) eps d(1) by (intro none) (auto simp: qs)
  have "fold (eps_state N) ys (eps_state N i A) = eps_state N i A"
  proof (rule none)
    show "(p, epsilon, q) \<notin> T (eps_state N i A)" for p q unfolding E(4) using eps by (auto simp: eps_T_def)
  qed (use E(1,2) qs in auto)
  then show ?thesis unfolding eps_elim_def qs using 1 by simp
qed

text \<open>Removing a state together with the transitions that have been deleted before.\<close>

lemma del_trans_fold:
  assumes "inv A" "distinct es" "\<And>e. e \<in> set es \<Longrightarrow> f e \<in> T A" "inj_on f (set es)"
  defines "A' \<equiv> fold (\<lambda>e. case f e of (p, a, q) \<Rightarrow> a_del_trans N p a q) es A"
  shows "inv A' \<and> a_states N A' = a_states N A \<and> a_initial N A' = a_initial N A
    \<and> a_final N A' = a_final N A \<and> T A' = T A - f ` set es"
  using assms(1-4) unfolding A'_def
proof (induction es arbitrary: A)
  case (Cons e es)
  obtain p a q where f: "f e = (p, a, q)" by (cases "f e")
  have t: "(p, a, q) \<in> T A" using Cons.prems(3) [of e] f by simp
  note B = del_trans [OF Cons.prems(1) t]
  have "f x \<in> T (a_del_trans N p a q A)" if "x \<in> set es" for x
  proof -
    have "x \<noteq> e" using that Cons.prems(2) by auto
    then have "f x \<noteq> f e" using that inj_onD [OF Cons.prems(4), of x e] by auto
    then show ?thesis using Cons.prems(3) [of x] that unfolding B(3) f by auto
  qed
  then show ?case using Cons.IH [OF B(1)] Cons.prems B f by auto
qed simp

text \<open>The effect of a deletion: \<open>es\<close> are the remaining edges of the state.\<close>

lemma remove_state_correct:
  assumes A: "inv A" "s \<in> set (a_states N A)" "s \<notin> a_initial N A"
    and dead: "(\<forall>r a. (r, a, s) \<notin> T A) \<or> \<not> a_final N A s \<and> (\<forall>r a. (s, a, r) \<notin> T A)"
    and es: "distinct es" "inj_on f (set es)" "f ` set es = {(p, a, q) \<in> T A. p = s \<or> q = s}"
  defines "A' \<equiv> a_del_state N s (fold (\<lambda>e. case f e of (p, a, q) \<Rightarrow> a_del_trans N p a q) es A)"
  shows "inv A'" "set (a_states N A') = set (a_states N A) - {s}" "lang A' = lang A"
    "T A' = without_state (T A) s" "card (T A') + length es = card (T A)"
    "a_initial N A' = a_initial N A"
    "q \<noteq> s \<Longrightarrow> a_final N A' q = a_final N A q"
proof -
  let ?B = "fold (\<lambda>e. case f e of (p, a, q) \<Rightarrow> a_del_trans N p a q) es A"
  have "f e \<in> T A" if "e \<in> set es" for e
    using imageI [OF that, of f] unfolding es(3) by auto
  then have B: "inv ?B" "a_states N ?B = a_states N A" "a_initial N ?B = a_initial N A"
    "a_final N ?B = a_final N A" "T ?B = without_state (T A) s"
    using del_trans_fold [OF A(1) es(1) _ es(2)] unfolding es(3) by (auto simp: without_state_def)
  have s: "s \<in> set (a_states N ?B)" using A(2) B(2) by simp
  note D = del_state [OF B(1) s, folded A'_def]
  show "inv A'" "set (a_states N A') = set (a_states N A) - {s}" using D B by auto
  show T': "T A' = without_state (T A) s"
    using D(3) unfolding B(5) by (auto simp: without_state_def)
  show ini: "a_initial N A' = a_initial N A"
  proof (rule set_eqI)
    show "q \<in> a_initial N A' \<longleftrightarrow> q \<in> a_initial N A" for q using D(4) [of q] D(6) A(3) B(3) by (cases "q = s") auto
  qed
  show "a_final N A' q = a_final N A q" if "q \<noteq> s" for q using D(5) that B(4) by simp
  have "a_finals N A' = a_finals N A - {s}" using D(2,5) B by (auto simp: a_finals_def)
  moreover have "a_initial N A' \<inter> set (a_states N A') = a_initial N A \<inter> set (a_states N A)"
    using D(2) B(2) A(3) unfolding ini by auto
  ultimately show "lang A' = lang A"
    unfolding ta_lang_def T' using A dead by (simp add: accepts_without_state a_finals_def)
  have "T A = without_state (T A) s \<union> f ` set es" "without_state (T A) s \<inter> f ` set es = {}"
    unfolding es(3) by (auto simp: without_state_def)
  then have "card (T A) = card (without_state (T A) s) + card (f ` set es)"
    using finite_T [OF A(1)] by (metis card_Un_disjoint finite_Un)
  then show "card (T A') + length es = card (T A)"
    using es(1,2) by (simp add: T' card_image distinct_card)
qed

lemma remove_dead_correct:
  "\<lbrakk>inv A; \<And>s. s \<in> set queue \<Longrightarrow> s \<in> dead \<or> s \<in> set (a_states N A)\<rbrakk> \<Longrightarrow>
    \<exists>A'. remove_dead N queue dead A = Some A' \<and> inv A' \<and> lang A' = lang A \<and> T A' \<subseteq> T A
      \<and> set (a_states N A') \<subseteq> set (a_states N A)"
proof (induction "card (T A) + length queue" arbitrary: queue dead A rule: less_induct)
  case less
  show ?case
  proof (cases queue)
    case Nil
    then show ?thesis using less.prems by (simp add: remove_dead.simps)
  next
    case (Cons s rest)
    have skip: ?thesis if "remove_dead N queue dead A = remove_dead N rest dead A"
      using less.hyps [of A rest dead] less.prems that Cons by auto
    have step: ?thesis
      if eq: "remove_dead N queue dead A = remove_dead N (rest @ new) (insert s dead) B"
        and B: "inv B" "set (a_states N B) = set (a_states N A) - {s}" "lang B = lang A" "T B \<subseteq> T A"
          "card (T B) + length new = card (T A)" "set new \<subseteq> set (a_states N A) - {s}" for B new
    proof -
      have "card (T B) + length (rest @ new) < card (T A) + length queue" using B(5) Cons by simp
      from less.hyps [OF this B(1), of "insert s dead"] less.prems(2) Cons B(2,6)
      obtain A' where "remove_dead N (rest @ new) (insert s dead) B = Some A'" "inv A'" "lang A' = lang B"
        "T A' \<subseteq> T B" "set (a_states N A') \<subseteq> set (a_states N B)" by auto
      then show ?thesis using eq B by auto
    qed
    show ?thesis
    proof (cases "s \<in> dead \<or> s \<in> a_initial N A \<or> (a_delta2_backwards N A s \<noteq> []
        \<and> (a_delta2 N A s \<noteq> [] \<or> a_final N A s))")
      case True
      then have "remove_dead N queue dead A = remove_dead N rest dead A"
        by (subst remove_dead.simps) (auto simp: Cons Let_def)
      then show ?thesis by (rule skip)
    next
      case False
      then have s: "s \<in> set (a_states N A)" "s \<notin> a_initial N A" "s \<notin> dead" using less.prems(2) [of s] Cons by auto
      have ins: "(l, p) \<in> set (a_delta2_backwards N A s) \<longleftrightarrow> (p, l, s) \<in> T A"
        and outs: "(l, p) \<in> set (a_delta2 N A s) \<longleftrightarrow> (s, l, p) \<in> T A" for l p
        using delta2_backwards(1) delta2(1) less.prems(1) s(1) by auto
      show ?thesis
      proof (cases "a_delta2_backwards N A s = []")
        case True
        let ?f = "\<lambda>e :: int \<times> state. (s, fst e, snd e)"
        have none: "(r, a, s) \<notin> T A" for r a using ins [of a r] True by simp
        have img: "?f ` set (a_delta2 N A s) = {(p, a, q) \<in> T A. p = s \<or> q = s}"
          using none outs by (auto simp: image_iff)
        have inj: "inj_on ?f (set (a_delta2 N A s))" by (auto simp: inj_on_def prod_eq_iff)
        have dead: "(\<forall>r a. (r, a, s) \<notin> T A) \<or> \<not> a_final N A s \<and> (\<forall>r a. (s, a, r) \<notin> T A)"
          using none by blast
        note R = remove_state_correct [OF less.prems(1) s(1,2) dead delta2(2) [OF less.prems(1) s(1)] inj img,
            unfolded prod.case]
        show ?thesis
        proof (rule step)
          show "remove_dead N queue dead A = remove_dead N (rest @ map snd (a_delta2 N A s)) (insert s dead)
            (a_del_state N s (fold (\<lambda>e. a_del_trans N s (fst e) (snd e)) (a_delta2 N A s) A))"
            using s True by (subst remove_dead.simps) (simp add: Cons Let_def)
          show "set (map snd (a_delta2 N A s)) \<subseteq> set (a_states N A) - {s}"
            using outs none trans_states [OF less.prems(1)] by auto
          show "T (a_del_state N s (fold (\<lambda>e. a_del_trans N s (fst e) (snd e)) (a_delta2 N A s) A)) \<subseteq> T A"
            unfolding R(4) by (auto simp: without_state_def)
        qed (use R(5) in \<open>simp_all add: R(1-3)\<close>)
      next
        case False
        then have out: "a_delta2 N A s = []" and fin: "\<not> a_final N A s"
          using \<open>\<not> (s \<in> dead \<or> _)\<close> by auto
        let ?f = "\<lambda>e :: int \<times> state. (snd e, fst e, s)"
        have none: "(s, a, r) \<notin> T A" for r a using outs [of a r] out by simp
        have img: "?f ` set (a_delta2_backwards N A s) = {(p, a, q) \<in> T A. p = s \<or> q = s}"
          using none ins by (auto simp: image_iff) (metis fst_conv snd_conv)
        have inj: "inj_on ?f (set (a_delta2_backwards N A s))" by (auto simp: inj_on_def prod_eq_iff)
        have dead: "(\<forall>r a. (r, a, s) \<notin> T A) \<or> \<not> a_final N A s \<and> (\<forall>r a. (s, a, r) \<notin> T A)"
          using none fin by blast
        note R = remove_state_correct [OF less.prems(1) s(1,2) dead
            delta2_backwards(2) [OF less.prems(1) s(1)] inj img, unfolded prod.case]
        show ?thesis
        proof (rule step)
          show "remove_dead N queue dead A = remove_dead N (rest @ map snd (a_delta2_backwards N A s)) (insert s dead)
            (a_del_state N s (fold (\<lambda>e. a_del_trans N (snd e) (fst e) s) (a_delta2_backwards N A s) A))"
            using s False out fin by (subst remove_dead.simps) (simp add: Cons Let_def)
          show "set (map snd (a_delta2_backwards N A s)) \<subseteq> set (a_states N A) - {s}"
            using ins none trans_states [OF less.prems(1)] by auto
          show "T (a_del_state N s (fold (\<lambda>e. a_del_trans N (snd e) (fst e) s) (a_delta2_backwards N A s) A)) \<subseteq> T A"
            unfolding R(4) by (auto simp: without_state_def)
        qed (use R(5) in \<open>simp_all add: R(1-3)\<close>)
      qed
    qed
  qed
qed

text \<open>Deduplication has nothing to do on a transition relation that is a set.\<close>

lemma dedup_edge_fold: "distinct es \<Longrightarrow> set es \<inter> seen = {} \<Longrightarrow> snd (fold (dedup_edge N s) es (seen, A)) = A"
  by (induction es arbitrary: seen) (auto simp: dedup_edge_def)

lemma dedup_id:
  assumes "inv A"
  shows "dedup N A = A"
proof -
  have "fold (\<lambda>s aut. snd (fold (dedup_edge N s) (a_delta2 N aut s) ({}, aut))) qs A = A"
    if "set qs \<subseteq> set (a_states N A)" for qs
    using that delta2(2) [OF assms] by (induction qs) (auto simp: dedup_edge_fold)
  then show ?thesis by (simp add: dedup_def)
qed

section \<open>Copies\<close>

text \<open>
  The invariant of \<open>copy_automaton\<close>: \<open>m\<close> maps the states reached so far to fresh
  states of the destination \<open>D\<close>, which has grown from \<open>dest\<close> by the image of the
  transitions \<open>U\<close>.
\<close>

definition copying :: "'a \<Rightarrow> 'a \<Rightarrow> (state \<rightharpoonup> state) \<Rightarrow> trans \<Rightarrow> 'a \<Rightarrow> bool" where
  "copying src dest m U D \<longleftrightarrow> inv D \<and> dom m \<subseteq> set (a_states N src) \<and> inj_on m (dom m)
     \<and> ran m \<inter> set (a_states N dest) = {} \<and> set (a_states N D) = set (a_states N dest) \<union> ran m
     \<and> (\<forall>p a q. (p, a, q) \<in> U \<longrightarrow> p \<in> dom m \<and> q \<in> dom m)
     \<and> T D = T dest \<union> image_T (\<lambda>q. the (m q)) U \<and> a_initial N D = a_initial N dest
     \<and> (\<forall>q. a_final N D q \<longleftrightarrow> q \<notin> ran m \<and> a_final N dest q)"

lemma copy_state_correct:
  assumes c: "copying src dest m U D" and q: "q \<in> set (a_states N src)"
    and st: "copy_state N q (m, D) = (s, m', D')"
  shows "copying src dest m' U D'" "m' q = Some s" "m \<subseteq>\<^sub>m m'"
proof -
  have "copying src dest m' U D' \<and> m' q = Some s \<and> m \<subseteq>\<^sub>m m'"
  proof (cases "m q")
    case (Some s')
    then show ?thesis using st c by (simp add: copy_state_def)
  next
    case None
    obtain t E where new: "a_new_state N D = (t, E)" by (cases "a_new_state N D")
    have m': "m' = m(q \<mapsto> t)" "s = t" "D' = E" using st None new by (auto simp: copy_state_def)
    note c' = c [unfolded copying_def]
    have D: "inv D" using c' by simp
    note n = new_state [OF D new]
    have ran: "ran m' = insert t (ran m)" using None m' by simp
    have t: "t \<notin> ran m" "t \<notin> set (a_states N dest)" using n(2) c' by auto
    have "inj_on m' (dom m')" using c' t(1) None unfolding m' by (auto simp: inj_on_def ran_def)
    moreover have "p \<noteq> q \<and> r \<noteq> q" if "(p, a, r) \<in> U" for p a r using c' None that by (metis domIff)
    then have "image_T (\<lambda>q. the (m' q)) U = image_T (\<lambda>q. the (m q)) U"
      unfolding m' by (intro image_T_cong) auto
    moreover have "dom m' \<subseteq> set (a_states N src)" using c' q unfolding m' by auto
    moreover have "\<forall>p a q. (p, a, q) \<in> U \<longrightarrow> p \<in> dom m' \<and> q \<in> dom m'" using c' unfolding m' by fastforce
    ultimately have "copying src dest m' U D'"
      using c' n t unfolding copying_def m'(3) ran by auto
    then show ?thesis using None m' by (auto simp: map_le_def)
  qed
  then show "copying src dest m' U D'" "m' q = Some s" "m \<subseteq>\<^sub>m m'" by auto
qed

lemma copy_edges_correct:
  assumes "copying src dest m U D" "m p = Some s1" "snd ` set es \<subseteq> set (a_states N src)"
    and "fold (copy_edge N s1) es (m, D) = (m', D')"
  shows "copying src dest m' (U \<union> {(p, a, q) |a q. (a, q) \<in> set es}) D' \<and> m \<subseteq>\<^sub>m m'"
  using assms
proof (induction es arbitrary: m U D)
  case (Cons e es)
  obtain a q where e: "e = (a, q)" by (cases e)
  obtain s2 m2 D2 where st: "copy_state N q (m, D) = (s2, m2, D2)" by (metis prod_cases3)
  have q: "q \<in> set (a_states N src)" using Cons.prems(3) e by simp
  note c = copy_state_correct [OF Cons.prems(1) q st]
  have p: "m2 p = Some s1" using c(3) Cons.prems(2) by (force simp: map_le_def)
  note c2 = c(1) [unfolded copying_def]
  have sub: "{s1, s2} \<subseteq> set (a_states N D2)" using c2 p c(2) by (auto intro: ranI)
  note t = set_trans [OF conjunct1 [OF c2] sub, of a]
  have "copying src dest m2 (insert (p, a, q) U) (a_set_trans N s1 a s2 D2)"
    using c2 t p c(2) unfolding copying_def by (auto simp: image_T_def)
  moreover have "fold (copy_edge N s1) es (m2, a_set_trans N s1 a s2 D2) = (m', D')"
    using Cons.prems(4) copy_edge_def [of N s1 "(a, q)" "(m, D)"] by (simp add: e st)
  ultimately have "copying src dest m' (insert (p, a, q) U \<union> {(p, a, q) |a q. (a, q) \<in> set es}) D' \<and> m2 \<subseteq>\<^sub>m m'"
    using Cons.IH [of m2 "insert (p, a, q) U"] p Cons.prems(3) by auto
  moreover have "insert (p, a, q) U \<union> {(p, a, q) |a q. (a, q) \<in> set es} = U \<union> {(p, a, q) |a q. (a, q) \<in> set (e # es)}"
    by (auto simp: e)
  ultimately show ?case using c(3) map_le_trans by auto
qed simp

lemma copy_states_correct:
  assumes src: "inv src" and "set qs \<subseteq> set (a_states N src)" "copying src dest m (from_states (T src) R) D"
    and "R \<subseteq> dom m" "R \<subseteq> set (a_states N src)"
    and "fold (copy_one N src) qs ((\<lambda>q. the (m q)) ` (a_initial N src \<inter> R), (\<lambda>q. the (m q)) ` (a_finals N src \<inter> R), m, D)
      = (ini, fin, m', D')"
  shows "copying src dest m' (from_states (T src) (R \<union> set qs)) D' \<and> R \<union> set qs \<subseteq> dom m'
    \<and> ini = (\<lambda>q. the (m' q)) ` (a_initial N src \<inter> (R \<union> set qs))
    \<and> fin = (\<lambda>q. the (m' q)) ` (a_finals N src \<inter> (R \<union> set qs))"
  using assms(2-)
proof (induction qs arbitrary: R m D)
  case (Cons q qs)
  have q: "q \<in> set (a_states N src)" using Cons.prems(1) by simp
  obtain s1 m1 D1 where st: "copy_state N q (m, D) = (s1, m1, D1)" by (metis prod_cases3)
  note c = copy_state_correct [OF Cons.prems(2) q st]
  obtain m2 D2 where ed: "fold (copy_edge N s1) (a_delta2 N src q) (m1, D1) = (m2, D2)" by fastforce
  have tgt: "snd ` set (a_delta2 N src q) \<subseteq> set (a_states N src)"
    using delta2(1) [OF src q] trans_states [OF src] by auto
  note e = conjunct1 [OF copy_edges_correct [OF c(1,2) tgt ed]] conjunct2 [OF copy_edges_correct [OF c(1,2) tgt ed]]
  have eq: "from_states (T src) R \<union> {(q, a, r) |a r. (a, r) \<in> set (a_delta2 N src q)}
      = from_states (T src) (insert q R)"
    using delta2(1) [OF src q] by (auto simp: from_states_def)
  have le: "m \<subseteq>\<^sub>m m2" using c(3) e(2) by (rule map_le_trans)
  then have same: "the (m2 r) = the (m r)" if "r \<in> R" for r
    using that Cons.prems(3) by (metis map_le_def subsetD)
  have q2: "m2 q = Some s1" using e(2) c(2) by (force simp: map_le_def)
  have dom: "insert q R \<subseteq> dom m2" using le Cons.prems(3) q2 map_le_implies_dom_le by fastforce
  have fin: "a_final N src q \<longleftrightarrow> q \<in> a_finals N src" using q by (simp add: a_finals_def)
  have acc: "(\<lambda>q. the (m2 q)) ` (X \<inter> insert q R) = (if q \<in> X then insert s1 ((\<lambda>q. the (m q)) ` (X \<inter> R)) else (\<lambda>q. the (m q)) ` (X \<inter> R))" for X
    using same q2 by (auto simp: image_iff)
  have "fold (copy_one N src) qs ((\<lambda>q. the (m2 q)) ` (a_initial N src \<inter> insert q R),
      (\<lambda>q. the (m2 q)) ` (a_finals N src \<inter> insert q R), m2, D2) = (ini, fin, m', D')"
    using Cons.prems(5) copy_one_def [of N src q "(_, _, m, D)"] unfolding acc by (simp add: st ed fin)
  then show ?case
    using Cons.IH [of m2 "insert q R" D2] Cons.prems(1,4) e(1) dom q unfolding eq by auto
qed simp

lemma within_T: "inv A \<Longrightarrow> within (T A) (set (a_states N A))"
  using trans_states by (auto simp: within_def)

definition is_copy :: "'a \<Rightarrow> 'a \<Rightarrow> state set \<Rightarrow> state set \<Rightarrow> 'a \<Rightarrow> (state \<Rightarrow> state) \<Rightarrow> bool" where
  "is_copy src dest ini fin D f \<longleftrightarrow> inv D \<and> inj_on f (set (a_states N src))
     \<and> f ` set (a_states N src) \<inter> set (a_states N dest) = {}
     \<and> set (a_states N D) = set (a_states N dest) \<union> f ` set (a_states N src)
     \<and> T D = T dest \<union> image_T f (T src)
     \<and> ini = f ` (a_initial N src \<inter> set (a_states N src)) \<and> fin = f ` a_finals N src
     \<and> a_initial N D = a_initial N dest
     \<and> (\<forall>q. a_final N D q \<longleftrightarrow> q \<notin> f ` set (a_states N src) \<and> a_final N dest q)"

lemma copy_automaton_correct:
  assumes "inv src" "inv dest" "copy_automaton N src dest = ((ini, fin), D)"
  shows "\<exists>f. is_copy src dest ini fin D f"
proof -
  obtain m where m: "fold (copy_one N src) (a_states N src) ({}, {}, Map.empty, dest) = (ini, fin, m, D)"
    using assms(3) by (auto simp: copy_automaton_def split: prod.splits)
  have "copying src dest Map.empty (from_states (T src) {}) dest"
    using assms(2) by (auto simp: copying_def image_T_def from_states_def)
  from copy_states_correct [OF assms(1) subset_refl this] m
  have c: "copying src dest m (from_states (T src) (set (a_states N src))) D" "set (a_states N src) \<subseteq> dom m"
    "ini = (\<lambda>q. the (m q)) ` (a_initial N src \<inter> set (a_states N src))"
    "fin = (\<lambda>q. the (m q)) ` (a_finals N src \<inter> set (a_states N src))" by auto
  let ?f = "\<lambda>q. the (m q)"
  have dom: "dom m = set (a_states N src)" using c(1,2) by (auto simp: copying_def)
  have all: "from_states (T src) (set (a_states N src)) = T src" using trans_states [OF assms(1)] by (auto simp: from_states_def)
  have ran: "ran m = ?f ` set (a_states N src)"
    unfolding dom [symmetric] by (force simp: ran_def image_iff)
  have "inj_on ?f (set (a_states N src))"
    using c(1) unfolding dom [symmetric] copying_def by (auto simp: inj_on_def) (metis domI)
  moreover have "a_finals N src \<inter> set (a_states N src) = a_finals N src" by (auto simp: a_finals_def)
  ultimately have "is_copy src dest ini fin D ?f"
    using c unfolding is_copy_def copying_def all ran by simp
  then show ?thesis by blast
qed

text \<open>What a copy accepts between its initial and final states.\<close>

lemma is_copy_accepts:
  assumes "is_copy src dest ini fin D f" "inv src" "inv dest"
  shows "accepts (T D) ini fin = lang src"
proof -
  note c = assms(1) [unfolded is_copy_def]
  have w: "within (image_T f (T src)) (f ` set (a_states N src))" "within (T dest) (set (a_states N dest))"
    using within_image within_T assms(2,3) by auto
  have sub: "ini \<subseteq> f ` set (a_states N src)" using c by auto
  have TD: "T D = image_T f (T src) \<union> T dest" using c by auto
  have dis: "f ` set (a_states N src) \<inter> set (a_states N dest) = {}" using c by simp
  have "run (T D) i w q \<longleftrightarrow> run (image_T f (T src)) i w q" if "i \<in> ini" for i w q
  proof
    assume "run (T D) i w q"
    then show "run (image_T f (T src)) i w q"
      using run_disjoint [OF _ w dis] that sub unfolding TD by blast
  next
    assume "run (image_T f (T src)) i w q"
    then show "run (T D) i w q" by (rule run_mono) (simp add: TD)
  qed
  then have "accepts (T D) ini fin = accepts (image_T f (T src)) ini fin"
    unfolding accepts_def by auto
  also have "\<dots> = lang src"
    using c within_T [OF assms(2)] by (simp add: accepts_image ta_lang_def a_finals_def)
  finally show ?thesis .
qed

lemma set_final_fold:
  assumes "inv A" "set qs \<subseteq> set (a_states N A)"
  defines "A' \<equiv> fold (\<lambda>q. a_set_final N q True) qs A"
  shows "inv A'" "a_states N A' = a_states N A" "T A' = T A" "a_initial N A' = a_initial N A"
    "a_finals N A' = a_finals N A \<union> set qs"
proof -
  have "inv A' \<and> a_states N A' = a_states N A \<and> T A' = T A \<and> a_initial N A' = a_initial N A
    \<and> (\<forall>q. a_final N A' q \<longleftrightarrow> a_final N A q \<or> q \<in> set qs)"
    using assms(1) unfolding A'_def by (induction qs arbitrary: A) (auto simp: set_final)
  then show "inv A'" "a_states N A' = a_states N A" "T A' = T A" "a_initial N A' = a_initial N A"
    "a_finals N A' = a_finals N A \<union> set qs"
    using assms(2) by (auto simp: a_finals_def)
qed

lemma del_all_states:
  assumes "inv A" "distinct qs" "set qs \<subseteq> set (a_states N A)"
  defines "A' \<equiv> fold (a_del_state N) qs A"
  shows "inv A' \<and> set (a_states N A') = set (a_states N A) - set qs"
  using assms(1-3) unfolding A'_def
proof (induction qs arbitrary: A)
  case (Cons q qs)
  then have "q \<in> set (a_states N A)" by simp
  then show ?case using Cons.IH [of "a_del_state N q A"] Cons.prems del_state(1,2) [of A q] by auto
qed simp

text \<open>A copy into an automaton without states, with the returned states as initial and final ones.\<close>

lemma fresh_copy:
  assumes "inv src" "inv dest" "set (a_states N dest) = {}" "copy_automaton N src dest = ((ini, fin), D)"
  defines "D' \<equiv> for_states (\<lambda>q. a_set_final N q True) fin (a_set_initial N ini D)"
  shows "inv D'" "lang D' = lang src" "(p, a, q) \<in> T D' \<Longrightarrow> \<exists>p q. (p, a, q) \<in> T src"
    "a_initial N D' \<subseteq> set (a_states N D')"
proof -
  obtain f where f: "is_copy src dest ini fin D f" using copy_automaton_correct [OF assms(1,2,4)] by blast
  note c = f [unfolded is_copy_def]
  have fin: "finite fin" "fin \<subseteq> set (a_states N D)" "ini \<subseteq> set (a_states N D)"
    using c by (auto simp: a_finals_def)
  let ?E = "a_set_initial N ini D"
  have "inv ?E" "set (sorted_list_of_set fin) \<subseteq> set (a_states N ?E)"
    using c fin by (auto simp: set_initial)
  note s = set_final_fold [OF this, folded D'_def]
  have none: "T dest = {}" using trans_states [OF assms(2)] assms(3) by auto
  have "a_finals N ?E = {}" using c assms(3) by (auto simp: a_finals_def set_initial)
  then have D': "inv D'" "T D' = T D" "a_initial N D' = ini" "a_finals N D' = fin" "a_states N D' = a_states N D"
    using s fin(1) by (simp_all add: set_initial)
  show "inv D'" "a_initial N D' \<subseteq> set (a_states N D')" using D' fin by auto
  show "lang D' = lang src"
    using is_copy_accepts [OF f assms(1,2)] D' fin(3) by (simp add: ta_lang_def Int_absorb2)
  show "(p, a, q) \<in> T D' \<Longrightarrow> \<exists>p q. (p, a, q) \<in> T src"
    using c none D'(2) by (auto simp: image_T_def)
qed

lemma compact_automaton_correct:
  assumes "inv A"
  shows "inv (compact_automaton N A)" "lang (compact_automaton N A) = lang A"
    "(p, a, q) \<in> T (compact_automaton N A) \<Longrightarrow> \<exists>p q. (p, a, q) \<in> T A"
    "a_initial N (compact_automaton N A) \<subseteq> set (a_states N (compact_automaton N A))"
proof -
  obtain ini fin C where c: "copy_automaton N A (a_empty N) = ((ini, fin), C)" by (metis surj_pair)
  let ?C = "for_states (\<lambda>q. a_set_final N q True) fin (a_set_initial N ini C)"
  let ?A = "fold (a_del_state N) (a_states N A) A"
  have e: "set (a_states N (a_empty N)) = {}" by (simp add: empty_ok)
  note C = fresh_copy [OF assms empty_ok(1) e c]
  have A: "inv ?A" "set (a_states N ?A) = {}"
    using del_all_states [OF assms states_distinct [OF assms] subset_refl] by auto
  obtain ini2 fin2 D where d: "copy_automaton N ?C ?A = ((ini2, fin2), D)" by (metis surj_pair)
  note D = fresh_copy [OF C(1) A d]
  have eq: "compact_automaton N A = for_states (\<lambda>q. a_set_final N q True) fin2 (a_set_initial N ini2 D)"
    by (simp add: compact_automaton_def c d)
  show "inv (compact_automaton N A)" "lang (compact_automaton N A) = lang A"
    "a_initial N (compact_automaton N A) \<subseteq> set (a_states N (compact_automaton N A))"
    using D(1,2,4) C(2) unfolding eq by simp_all
  show "(p, a, q) \<in> T (compact_automaton N A) \<Longrightarrow> \<exists>p q. (p, a, q) \<in> T A"
    using D(3) C(3) unfolding eq by blast
qed

lemma simplify_automaton_correct:
  assumes "inv A"
  shows "\<exists>B. simplify_automaton N compact A = Some B \<and> inv B \<and> lang B = lang A
    \<and> (\<forall>p q. (p, epsilon, q) \<notin> T B)"
proof -
  note E = eps_elim_correct [OF assms]
  obtain B where B: "remove_dead N (a_states N (eps_elim N A)) {} (eps_elim N A) = Some B" "inv B"
    "lang B = lang (eps_elim N A)" "T B \<subseteq> T (eps_elim N A)"
    using remove_dead_correct [OF E(1), of "a_states N (eps_elim N A)" "{}"] by auto
  have "simplify_automaton N compact A = Some (if compact then compact_automaton N B else B)"
    using B by (simp add: simplify_automaton_def dedup_id Let_def)
  moreover have no: "(p, epsilon, q) \<notin> T B" for p q using E(5) B(4) by blast
  moreover have "(p, epsilon, q) \<notin> T (compact_automaton N B)" for p q
    using compact_automaton_correct(3) [OF B(2)] no by blast
  ultimately show ?thesis
    using B E(4) compact_automaton_correct(1,2) [OF B(2)] by auto
qed

end

section \<open>An automaton that meets the contract\<close>

text \<open>
  States are handed out in ascending order, as in the container; transitions are a list
  without repetition.
\<close>

record lnfa =
  l_states :: "state list"
  l_trans :: "(state \<times> int \<times> state) list"
  l_initial :: "state set"
  l_final :: "state set"
  l_next :: state

definition lnfa_empty :: lnfa where
  "lnfa_empty = \<lparr>l_states = [], l_trans = [], l_initial = {}, l_final = {}, l_next = 1\<rparr>"

definition list_astl :: "lnfa astl" where
  "list_astl = \<lparr>a_empty = lnfa_empty, a_states = l_states,
     a_delta2 = \<lambda>A p. map snd (filter (\<lambda>t. fst t = p) (l_trans A)),
     a_delta2_backwards = \<lambda>A q. map (\<lambda>(p, a, r). (a, p)) (filter (\<lambda>t. snd (snd t) = q) (l_trans A)),
     a_initial = l_initial, a_set_initial = \<lambda>I A. A\<lparr>l_initial := I\<rparr>,
     a_final = \<lambda>A q. q \<in> l_final A,
     a_set_final = \<lambda>q b A. A\<lparr>l_final := (if b then insert q (l_final A) else l_final A - {q})\<rparr>,
     a_new_state = \<lambda>A. (l_next A, A\<lparr>l_states := l_states A @ [l_next A],
       l_final := l_final A - {l_next A}, l_next := Suc (l_next A)\<rparr>),
     a_set_trans = \<lambda>p a q A. A\<lparr>l_trans := List.insert (p, a, q) (l_trans A)\<rparr>,
     a_del_trans = \<lambda>p a q A. A\<lparr>l_trans := remove1 (p, a, q) (l_trans A)\<rparr>,
     a_del_state = \<lambda>s A. A\<lparr>l_states := remove1 s (l_states A),
       l_trans := filter (\<lambda>(p, a, q). p \<noteq> s \<and> q \<noteq> s) (l_trans A)\<rparr>\<rparr>"

definition lnfa_T :: "lnfa \<Rightarrow> trans" where
  "lnfa_T A = set (l_trans A)"

definition lnfa_inv :: "lnfa \<Rightarrow> bool" where
  "lnfa_inv A \<longleftrightarrow> distinct (l_states A) \<and> distinct (l_trans A)
     \<and> within (set (l_trans A)) (set (l_states A))
     \<and> (\<forall>q \<in> set (l_states A). q < l_next A)"

interpretation list_nfa: astl_nfa list_astl lnfa_inv lnfa_T
proof
  fix A :: lnfa and q :: state assume "lnfa_inv A" "q \<in> set (a_states list_astl A)"
  then show "distinct (a_delta2 list_astl A q)" "distinct (a_delta2_backwards list_astl A q)"
    by (auto simp: list_astl_def lnfa_inv_def distinct_map inj_on_def)
next
  fix A A' :: lnfa and s q :: state assume "lnfa_inv A" "a_new_state list_astl A = (s, A')"
  then show "a_final list_astl A' q = (q \<noteq> s \<and> a_final list_astl A q)"
    by (auto simp: list_astl_def lnfa_inv_def)
qed (auto simp: list_astl_def lnfa_inv_def lnfa_T_def lnfa_empty_def within_def image_iff
  in_set_insert less_Suc_eq fun_eq_iff)

section \<open>Properties\<close>

text \<open>
  C16. \<open>simplify_automaton\<close> returns for every automaton and both settings of
  \<open>compact\<close>; the result accepts exactly the words of the input and has no epsilon
  transition left.
\<close>

theorem simplify_automaton_preserves_language:
  assumes "astl_nfa N ok T" "ok A"
  shows "\<exists>B. simplify_automaton N compact A = Some B \<and> ok B \<and> ta_lang N T B = ta_lang N T A
    \<and> (\<forall>p q. (p, epsilon, q) \<notin> T B)"
  using astl_nfa.simplify_automaton_correct [OF assms] .

text \<open>A loop as it is built for a star: two states with epsilon transitions in both directions.\<close>

definition sample_loop :: lnfa where
  "sample_loop = \<lparr>l_states = [1, 2], l_trans = [(1, 0, 2), (1, - 1, 2), (2, - 1, 1)],
     l_initial = {1}, l_final = {2}, l_next = 3\<rparr>"

theorem simplify_automaton_preserves_language_witness:
  "lnfa_inv sample_loop \<and> (\<exists>B. simplify_automaton list_astl True sample_loop = Some B
    \<and> ta_lang list_astl lnfa_T B = ta_lang list_astl lnfa_T sample_loop)"
proof -
  have "lnfa_inv sample_loop" by (auto simp: lnfa_inv_def sample_loop_def within_def)
  then show ?thesis
    using simplify_automaton_preserves_language [OF list_nfa.astl_nfa_axioms, of sample_loop True] by blast
qed

text \<open>
  \<open>copy_automaton\<close> adds an isomorphic copy of the source to the destination, on fresh
  states, and changes nothing else there; the returned sets are the images of the initial and
  final states, and between them the destination accepts exactly the language of the source.
\<close>

theorem copy_automaton_isomorphic:
  assumes "astl_nfa N ok T" "ok src" "ok dest" "copy_automaton N src dest = ((ini, fin), D)"
  shows "(\<exists>f. inj_on f (set (a_states N src)) \<and> f ` set (a_states N src) \<inter> set (a_states N dest) = {}
      \<and> set (a_states N D) = set (a_states N dest) \<union> f ` set (a_states N src)
      \<and> T D = T dest \<union> {(f p, a, f q) |p a q. (p, a, q) \<in> T src}
      \<and> ini = f ` (a_initial N src \<inter> set (a_states N src)) \<and> fin = f ` a_finals N src
      \<and> a_initial N D = a_initial N dest \<and> a_finals N D = a_finals N dest)
    \<and> accepts (T D) ini fin = ta_lang N T src"
proof -
  obtain f where f: "astl_nfa.is_copy N ok T src dest ini fin D f"
    using astl_nfa.copy_automaton_correct [OF assms] by blast
  note c = f [unfolded astl_nfa.is_copy_def [OF assms(1)]]
  have "image_T f (T src) = {(f p, a, f q) |p a q. (p, a, q) \<in> T src}" by (force simp: image_T_def)
  moreover have "a_finals N D = a_finals N dest" using c by (auto simp: a_finals_def)
  ultimately show ?thesis using c astl_nfa.is_copy_accepts [OF assms(1) f assms(2,3)] by auto
qed

theorem copy_automaton_isomorphic_witness:
  "\<exists>ini fin D. copy_automaton list_astl sample_loop sample_loop = ((ini, fin), D)
    \<and> accepts (lnfa_T D) ini fin = ta_lang list_astl lnfa_T sample_loop"
proof -
  have inv: "lnfa_inv sample_loop" by (auto simp: lnfa_inv_def sample_loop_def within_def)
  obtain ini fin D where "copy_automaton list_astl sample_loop sample_loop = ((ini, fin), D)" by (metis surj_pair)
  then show ?thesis using copy_automaton_isomorphic [OF list_nfa.astl_nfa_axioms inv inv] by blast
qed

lemma compact_from_correct:
  "distinct qs \<Longrightarrow> compact_from N A qs k (m, r, F) =
    (m ++ map_of (zip qs [k..<k + length qs]), r ++ map_of (zip [k..<k + length qs] qs),
     F \<union> {k + i |i. i < length qs \<and> a_final N A (qs ! i)})"
proof (induction qs arbitrary: k m r F)
  case (Cons q qs)
  have up: "[k..<k + length (q # qs)] = k # [Suc k..<Suc k + length qs]"
    using upt_conv_Cons [of k "k + length (q # qs)"] by (simp del: upt_Suc)
  have "map_of (zip qs [Suc k..<Suc k + length qs]) q = None" using Cons.prems by (simp add: map_of_zip_is_None del: upt_Suc)
  moreover have "map_of (zip [Suc k..<Suc k + length qs] qs) k = None" by (simp add: map_of_zip_is_None del: upt_Suc)
  moreover have "{k + i |i. i < length (q # qs) \<and> a_final N A ((q # qs) ! i)} =
      (if a_final N A q then {k} else {}) \<union> {Suc k + i |i. i < length qs \<and> a_final N A (qs ! i)}"
    by (auto simp: less_Suc_eq_0_disj)
  ultimately show ?case
    using Cons unfolding up by (simp add: map_add_upd_left domIff Un_assoc del: upt_Suc) (simp add: fun_eq_iff map_add_def)
qed auto

lemma compact_state_numbers_maps:
  assumes "astl_nfa N ok T" "ok A" "compact_state_numbers N A = (s_map, reverse_s_map, finals)"
  shows "s_map q = Some i \<longleftrightarrow> i < length (a_states N A) \<and> a_states N A ! i = q"
    and "reverse_s_map i = Some q \<longleftrightarrow> i < length (a_states N A) \<and> a_states N A ! i = q"
    and "finals = {i. i < length (a_states N A) \<and> a_final N A (a_states N A ! i)}"
proof -
  let ?qs = "a_states N A"
  have d: "distinct ?qs" using astl_nfa.states_distinct [OF assms(1,2)] .
  have m: "s_map = map_of (zip ?qs [0..<length ?qs])" "reverse_s_map = map_of (zip [0..<length ?qs] ?qs)"
    and F: "finals = {i. i < length ?qs \<and> a_final N A (?qs ! i)}"
    using assms(3) compact_from_correct [OF d, of N A 0 Map.empty Map.empty "{}"]
    by (auto simp: compact_state_numbers_def)
  show "finals = {i. i < length ?qs \<and> a_final N A (?qs ! i)}" by (rule F)
  show "s_map q = Some i \<longleftrightarrow> i < length ?qs \<and> ?qs ! i = q"
    unfolding m by (subst map_of_eq_Some_iff) (auto simp: d in_set_zip)
  show "reverse_s_map i = Some q \<longleftrightarrow> i < length ?qs \<and> ?qs ! i = q"
  proof -
    have "(i, q) \<in> set (zip [0..<length ?qs] ?qs)" if "i < length ?qs" "?qs ! i = q"
      using that nth_mem [of i "zip [0..<length ?qs] ?qs"] by simp
    moreover have "i < length ?qs \<and> ?qs ! i = q" if "(i, q) \<in> set (zip [0..<length ?qs] ?qs)"
      using that by (auto simp: in_set_zip)
    ultimately show ?thesis unfolding m by (subst map_of_eq_Some_iff) auto
  qed
qed

text \<open>
  \<open>compact_state_numbers\<close> numbers the states consecutively from 0: the two maps are
  inverse bijections between the states and the numbers below the state count, and the
  returned final numbers are those of the final states.
\<close>

theorem compact_state_numbers_bijection:
  assumes "astl_nfa N ok T" "ok A" "compact_state_numbers N A = (s_map, reverse_s_map, finals)"
  shows "dom s_map = set (a_states N A) \<and> ran s_map = {0..<length (a_states N A)}
    \<and> (\<forall>q i. s_map q = Some i \<longleftrightarrow> reverse_s_map i = Some q)
    \<and> finals = {i. \<exists>q. s_map q = Some i \<and> a_final N A q}"
proof -
  note maps = compact_state_numbers_maps [OF assms]
  have "q \<in> dom s_map \<longleftrightarrow> q \<in> set (a_states N A)" for q using maps(1) by (auto simp: dom_def in_set_conv_nth)
  moreover have "i \<in> ran s_map \<longleftrightarrow> i < length (a_states N A)" for i using maps(1) by (auto simp: ran_def)
  ultimately show ?thesis using maps by auto
qed

theorem compact_state_numbers_bijection_witness:
  "\<exists>m r F. compact_state_numbers list_astl sample_loop = (m, r, F) \<and> ran m = {0..<2}"
proof -
  have inv: "lnfa_inv sample_loop" by (auto simp: lnfa_inv_def sample_loop_def within_def)
  obtain m r F where "compact_state_numbers list_astl sample_loop = (m, r, F)" by (metis surj_pair)
  moreover have "length (a_states list_astl sample_loop) = 2" by (simp add: list_astl_def sample_loop_def)
  ultimately show ?thesis using compact_state_numbers_bijection [OF list_nfa.astl_nfa_axioms inv] by fastforce
qed

definition tg_inv :: "'g tg_index \<Rightarrow> bool" where
  "tg_inv ix \<longleftrightarrow> 0 \<le> m_next_index ix \<and> m_next_index ix \<le> int_max
     \<and> (\<forall>f i. m_target_graph_to_int ix f = Some i \<longleftrightarrow> m_int_to_target_graph ix i = Some f)
     \<and> dom (m_int_to_target_graph ix) = {0..<m_next_index ix}"

lemma to_index_inv:
  assumes "tg_inv ix" "to_index f ix = Inr (i, ix')"
  shows "tg_inv ix'" "0 \<le> i" "lookup_index i ix' = Some f"
    "\<And>j g. lookup_index j ix = Some g \<Longrightarrow> lookup_index j ix' = Some g"
    "m_next_index ix' = (if m_target_graph_to_int ix f = None then m_next_index ix + 1 else m_next_index ix)"
proof -
  note inv = assms(1) [unfolded tg_inv_def]
  have nxt: "m_int_to_target_graph ix (m_next_index ix) = None"
    using inv by (metis atLeastLessThan_iff domIff less_irrefl)
  have "tg_inv ix' \<and> 0 \<le> i \<and> lookup_index i ix' = Some f
      \<and> (\<forall>j g. lookup_index j ix = Some g \<longrightarrow> lookup_index j ix' = Some g)
      \<and> m_next_index ix' = (if m_target_graph_to_int ix f = None then m_next_index ix + 1 else m_next_index ix)"
  proof (cases "m_target_graph_to_int ix f")
    case (Some j)
    then have "j \<in> dom (m_int_to_target_graph ix)" using inv by (metis domI)
    then have "0 \<le> j" using inv by auto
    moreover have "i = j" "ix' = ix" using Some assms(2) by (auto simp: to_index_def)
    moreover have "m_int_to_target_graph ix j = Some f" using inv Some by blast
    ultimately show ?thesis using Some assms(1) by (auto simp: lookup_index_def)
  next
    case None
    then have e: "m_next_index ix < int_max" "i = m_next_index ix"
      "ix' = ix\<lparr>m_next_index := m_next_index ix + 1,
         m_target_graph_to_int := (m_target_graph_to_int ix)(f \<mapsto> m_next_index ix),
         m_int_to_target_graph := (m_int_to_target_graph ix)(m_next_index ix \<mapsto> f)\<rparr>"
      using assms(2) by (auto simp: to_index_def split: if_splits)
    have nf: "m_int_to_target_graph ix k \<noteq> Some f" for k using inv None by (metis option.distinct(1))
    have "tg_inv ix'"
      using inv None e nxt nf unfolding tg_inv_def by auto
    then show ?thesis using None e nxt inv by (auto simp: lookup_index_def)
  qed
  then show "tg_inv ix'" "0 \<le> i" "lookup_index i ix' = Some f"
    "\<And>j g. lookup_index j ix = Some g \<Longrightarrow> lookup_index j ix' = Some g"
    "m_next_index ix' = (if m_target_graph_to_int ix f = None then m_next_index ix + 1 else m_next_index ix)"
    by auto
qed

lemma tg_clear_inv: "tg_inv (tg_clear ix)" "tg_inv tg_new"
  by (auto simp: tg_inv_def tg_clear_def tg_new_def int_max_def)

text \<open>
  C23. \<open>Target_Graph_Index\<close>: indices are handed out consecutively from 0 and the two maps
  stay inverse to each other. A known graph keeps its index, a new one gets the next one, and
  the only failure is the reported overflow of the index range; in particular no index is ever
  the epsilon label \<open>-1\<close>.
\<close>

theorem target_graph_index_roundtrip:
  assumes "tg_inv ix"
  shows "case to_index f ix of
      Inr (i, ix') \<Rightarrow> tg_inv ix' \<and> i \<noteq> epsilon \<and> lookup_index i ix' = Some f \<and> lookup_target_graph f ix' = Some i
        \<and> (\<forall>g j. lookup_target_graph g ix = Some j \<longrightarrow> lookup_target_graph g ix' = Some j)
        \<and> (lookup_target_graph f ix = None \<longrightarrow> i = m_next_index ix)
    | Inl e \<Rightarrow> e = Query_Processing_Error \<and> lookup_target_graph f ix = None \<and> m_next_index ix = int_max"
proof (cases "to_index f ix")
  case (Inl e)
  then show ?thesis using assms
    by (auto simp: to_index_def lookup_target_graph_def tg_inv_def split: option.splits if_splits)
next
  case (Inr r)
  obtain i ix' where r: "r = (i, ix')" by (cases r)
  note t = to_index_inv [OF assms Inr [unfolded r]]
  have "lookup_target_graph g ix' = Some j \<longleftrightarrow> lookup_index j ix' = Some g"
    "lookup_target_graph g ix = Some j \<longleftrightarrow> lookup_index j ix = Some g" for g j
    using t(1) assms by (auto simp: tg_inv_def lookup_index_def lookup_target_graph_def)
  moreover have "lookup_target_graph f ix = None \<longrightarrow> i = m_next_index ix"
    using Inr r by (auto simp: to_index_def lookup_target_graph_def split: if_splits)
  ultimately show ?thesis using t Inr r by auto
qed

theorem target_graph_index_roundtrip_witness:
  "tg_inv (tg_new :: nat tg_index) \<and> (\<exists>i ix. to_index (7::nat) tg_new = Inr (i, ix) \<and> lookup_index i ix = Some 7)"
proof -
  obtain i ix where "to_index (7::nat) tg_new = Inr (i, ix)"
    by (simp add: to_index_def tg_new_def int_max_def)
  then show ?thesis using tg_clear_inv(2) target_graph_index_roundtrip [OF tg_clear_inv(2), of "7::nat"] by auto
qed

end
