(* ===== verification/Automaton_Build.thy ===== *)
theory Automaton_Build
  imports Trace_Automaton
begin

text \<open>
  The automaton constructions of the path pattern evaluation
  (\<open>src/fshell2/fql/evaluation/evaluate_path_pattern.cpp\<close>): alternative, concatenation and
  bounded or unbounded repetition, each on copies of the automata of the operands.

  Shown here: the languages of the three constructions. The repetition adds epsilon
  transitions between the initial and the final states of one copy, which is exact when no
  transition enters an initial state and none leaves a final state of the operand
  (\<open>start_clean\<close>, \<open>end_clean\<close>).
\<close>

section \<open>The constructions\<close>

text \<open>All epsilon transitions from one set of states to another.\<close>

definition link :: "'a astl \<Rightarrow> state set \<Rightarrow> state set \<Rightarrow> 'a \<Rightarrow> 'a" where
  "link N X Y = for_states (\<lambda>x. for_states (\<lambda>y. a_set_trans N x epsilon y) Y) X"

text \<open>A fresh initial and a fresh final state.\<close>

definition new_initial_final :: "'a astl \<Rightarrow> 'a \<Rightarrow> state \<times> state \<times> 'a" where
  "new_initial_final N A =
    (let (i, A) = a_new_state N A;
         A = a_set_initial N (insert i (a_initial N A)) A;
         (f, A) = a_new_state N A
     in (i, f, a_set_final N f True A))"

definition build_alternative :: "'a astl \<Rightarrow> 'a \<Rightarrow> 'a \<Rightarrow> 'a \<Rightarrow> 'a" where
  "build_alternative N sub_a sub_b aut =
    (let ((a_init, a_final), aut) = copy_automaton N sub_a aut;
         ((b_init, b_final), aut) = copy_automaton N sub_b aut;
         (i, f, aut) = new_initial_final N aut
     in link N b_final {f} (link N {i} b_init (link N a_final {f} (link N {i} a_init aut))))"

definition build_concat :: "'a astl \<Rightarrow> 'a \<Rightarrow> 'a \<Rightarrow> 'a \<Rightarrow> 'a" where
  "build_concat N sub_a sub_b aut =
    (let ((a_init, a_final), aut) = copy_automaton N sub_a aut;
         ((b_init, b_final), aut) = copy_automaton N sub_b aut;
         aut = a_set_initial N a_init aut;
         aut = for_states (\<lambda>q. a_set_final N q True) b_final aut
     in link N a_final b_init aut)"

text \<open>
  One more copy of the operand of a repetition: appended to what has been built so far, which is
  given by its initial and final states. \<open>shortcut\<close> and \<open>loop\<close> say which
  transitions between the two ends of the copy are added.
\<close>

definition repeat_copy ::
  "'a astl \<Rightarrow> bool \<Rightarrow> bool \<Rightarrow> 'a \<Rightarrow> state set \<times> state set \<times> 'a \<Rightarrow> state set \<times> state set \<times> 'a" where
  "repeat_copy N shortcut loop sub acc = (case acc of (initial, final, aut) \<Rightarrow>
     (case copy_automaton N sub aut of ((sub_init, sub_final), aut) \<Rightarrow>
        let aut = (if shortcut then
              for_states (\<lambda>x. for_states (\<lambda>y aut.
                let aut = a_set_trans N x epsilon y aut
                in if loop then a_set_trans N y epsilon x aut else aut) sub_final) sub_init aut
            else aut)
        in if initial = {} then (sub_init, sub_final, aut)
           else (initial, sub_final, link N final sub_init aut)))"

definition build_repeat :: "'a astl \<Rightarrow> 'a \<Rightarrow> int \<Rightarrow> int \<Rightarrow> 'a \<Rightarrow> 'a" where
  "build_repeat N sub lb ub aut =
    (let acc = (repeat_copy N False False sub ^^ nat lb) ({}, {}, aut);
         ub = ((\<lambda>ub. if ub \<noteq> - 1 then ub - 1 else ub) ^^ nat lb) ub;
         (initial, final, aut) =
           (if ub = - 1 then repeat_copy N True True sub acc
            else (repeat_copy N True False sub ^^ nat ub) acc);
         aut = a_set_initial N initial aut
     in for_states (\<lambda>q. a_set_final N q True) final aut)"

section \<open>Languages\<close>

definition conc :: "'b list set \<Rightarrow> 'b list set \<Rightarrow> 'b list set" where
  "conc A B = {u @ v |u v. u \<in> A \<and> v \<in> B}"

primrec lpow :: "'b list set \<Rightarrow> nat \<Rightarrow> 'b list set" where
  "lpow A 0 = {[]}"
| "lpow A (Suc n) = conc (lpow A n) A"

definition lstar :: "'b list set \<Rightarrow> 'b list set" where
  "lstar A = (\<Union>n. lpow A n)"

lemma conc_Nil [simp]: "conc {[]} A = A" "conc A {[]} = A"
  by (auto simp: conc_def)

lemma conc_assoc: "conc (conc A B) C = conc A (conc B C)"
  unfolding conc_def by (auto; metis append_assoc)

lemma concI: "u \<in> A \<Longrightarrow> v \<in> B \<Longrightarrow> u @ v \<in> conc A B"
  by (auto simp: conc_def)

lemma conc_empty_iff [simp]: "conc A B = {} \<longleftrightarrow> A = {} \<or> B = {}"
  by (auto simp: conc_def)

lemma lpow_empty_iff [simp]: "lpow A n = {} \<longleftrightarrow> A = {} \<and> n \<noteq> 0"
  by (induction n) auto

lemma lpow_add: "lpow A (m + n) = conc (lpow A m) (lpow A n)"
  by (induction n) (auto simp: conc_assoc)

lemma lpow_Suc_left: "lpow A (Suc n) = conc A (lpow A n)"
  using lpow_add [of A 1 n] by simp

lemma conc_UN: "conc A (\<Union>n\<in>X. B n) = (\<Union>n\<in>X. conc A (B n))" "conc (\<Union>n\<in>X. B n) A = (\<Union>n\<in>X. conc (B n) A)"
  by (auto simp: conc_def)

lemma conc_Un: "conc A (B \<union> C) = conc A B \<union> conc A C" "conc (B \<union> C) A = conc B A \<union> conc C A"
  by (auto simp: conc_def)

lemma lpow_or_Nil: "lpow (A \<union> {[]}) k = (\<Union>n\<in>{0..k}. lpow A n)"
proof (induction k)
  case (Suc k)
  have "lpow (A \<union> {[]}) (Suc k) = (\<Union>n\<in>{0..k}. lpow A (Suc n)) \<union> (\<Union>n\<in>{0..k}. lpow A n)"
    unfolding lpow.simps(2) Suc conc_Un conc_UN conc_Nil ..
  also have "(\<Union>n\<in>{0..k}. lpow A (Suc n)) = (\<Union>n\<in>{Suc 0..Suc k}. lpow A n)"
    by (simp add: image_Suc_atLeastAtMost [symmetric] del: image_Suc_atLeastAtMost lpow.simps(2))
  also have "(\<Union>n\<in>{Suc 0..Suc k}. lpow A n) \<union> (\<Union>n\<in>{0..k}. lpow A n) = (\<Union>n\<in>{0..Suc k}. lpow A n)"
    by (auto simp del: lpow.simps) (metis atLeastAtMost_iff le_SucI not_less_eq_eq le_zero_eq zero_le)+
  finally show ?case .
qed simp

lemma conc_lpow_range:
  "conc (lpow A l) (\<Union>n\<in>{0..k}. lpow A n) = (\<Union>n\<in>{l..l + k}. lpow A n)"
proof -
  have "{l..l + k} = (\<lambda>n. l + n) ` {0..k}" by (simp add: add.commute)
  then show ?thesis by (simp only: conc_UN lpow_add [symmetric] image_image)
qed

lemma conc_lpow_lstar: "conc (lpow A l) (lstar A) = (\<Union>n\<in>{l..}. lpow A n)"
proof -
  have "{l..} = (\<lambda>n. l + n) ` UNIV" by (auto simp: image_iff le_iff_add)
  then show ?thesis by (simp add: lstar_def conc_UN lpow_add)
qed

lemma lstar_Nil: "[] \<in> lstar A"
  unfolding lstar_def by (rule UN_I [of 0]) auto

lemma lstar_Cons: "u \<in> A \<Longrightarrow> v \<in> lstar A \<Longrightarrow> u @ v \<in> lstar A"
  unfolding lstar_def by (metis UNIV_I UN_E UN_I concI lpow_Suc_left)

section \<open>Gluing transition relations\<close>

definition links :: "state set \<Rightarrow> state set \<Rightarrow> trans" where
  "links X Y = {(x, epsilon, y) |x y. x \<in> X \<and> y \<in> Y}"

definition start_clean :: "trans \<Rightarrow> state set \<Rightarrow> bool" where
  "start_clean T I \<longleftrightarrow> (\<forall>(p, a, q) \<in> T. q \<notin> I)"

definition end_clean :: "trans \<Rightarrow> state set \<Rightarrow> bool" where
  "end_clean T F \<longleftrightarrow> (\<forall>(p, a, q) \<in> T. p \<notin> F)"

lemma links_empty [simp]: "links {} Y = {}" "links X {} = {}"
  by (auto simp: links_def)

lemma links_iff [simp]: "(p, a, q) \<in> links X Y \<longleftrightarrow> a = epsilon \<and> p \<in> X \<and> q \<in> Y"
  by (auto simp: links_def)

lemma links_Un: "links (X \<union> Y) Z = links X Z \<union> links Y Z" "links Z (X \<union> Y) = links Z X \<union> links Z Y"
  by (auto simp: links_def)

lemma clean_Un [simp]:
  "start_clean (T \<union> U) I \<longleftrightarrow> start_clean T I \<and> start_clean U I"
  "end_clean (T \<union> U) F \<longleftrightarrow> end_clean T F \<and> end_clean U F"
  unfolding start_clean_def end_clean_def by blast+

lemma clean_empty [simp]: "start_clean {} I" "end_clean {} F"
  by (auto simp: start_clean_def end_clean_def)

lemma clean_links: "Y \<inter> I = {} \<Longrightarrow> start_clean (links X Y) I" "X \<inter> F = {} \<Longrightarrow> end_clean (links X Y) F"
  by (auto simp: start_clean_def end_clean_def)

lemma clean_within: "within T S \<Longrightarrow> S \<inter> I = {} \<Longrightarrow> start_clean T I" "within T S \<Longrightarrow> S \<inter> F = {} \<Longrightarrow> end_clean T F"
  by (fastforce simp: start_clean_def end_clean_def within_def)+

lemma run_links:
  assumes "within T0 S0" "within T1 S1" "S0 \<inter> S1 = {}" "F0 \<subseteq> S0" "I1 \<subseteq> S1"
    and "run (T0 \<union> T1 \<union> links F0 I1) p w q"
  shows "(p \<in> S1 \<longrightarrow> run T1 p w q) \<and> (p \<in> S0 \<longrightarrow> q \<in> S0 \<and> run T0 p w q
    \<or> (\<exists>u v f i. w = u @ v \<and> f \<in> F0 \<and> i \<in> I1 \<and> run T0 p u f \<and> run T1 i v q))"
  using assms(6)
proof (induction rule: run.induct)
  case (run_eps p q w r)
  note T = withinD [OF assms(1), of p epsilon q] withinD [OF assms(2), of p epsilon q]
  consider "(p, epsilon, q) \<in> T0" | "(p, epsilon, q) \<in> T1" | "p \<in> F0" "q \<in> I1" using run_eps.hyps(1) by auto
  then show ?case
  proof cases
    case 1
    then show ?thesis using run_eps.IH T assms(3) by (blast intro: run.run_eps)
  next
    case 2
    then show ?thesis using run_eps.IH T assms(3) by (blast intro: run.run_eps)
  next
    case 3
    then have "w = [] @ w \<and> p \<in> F0 \<and> q \<in> I1 \<and> run T0 p [] p \<and> run T1 q w r"
      using run_eps.IH assms(5) by (auto intro: run.run_refl)
    then show ?thesis using 3 assms(3,4) by blast
  qed
next
  case (run_step p a q w r)
  note T = withinD [OF assms(1), of p a q] withinD [OF assms(2), of p a q]
  consider "(p, a, q) \<in> T0" | "(p, a, q) \<in> T1" using run_step.hyps(1,2) by auto
  then show ?case
  proof cases
    case 1
    then show ?thesis using run_step.IH T assms(3) run_step.hyps(2) by (metis append_Cons disjoint_iff run.run_step)
  next
    case 2
    then show ?thesis using run_step.IH T assms(3) run_step.hyps(2) by (blast intro: run.run_step)
  qed
qed (auto intro: run.run_refl)

lemma accepts_links:
  assumes "within T0 S0" "within T1 S1" "S0 \<inter> S1 = {}" "F0 \<subseteq> S0" "I1 \<subseteq> S1" "X \<subseteq> S0" "Y \<subseteq> S1"
  shows "accepts (T0 \<union> T1 \<union> links F0 I1) X Y = conc (accepts T0 X F0) (accepts T1 I1 Y)"
proof (intro equalityI subsetI)
  fix w assume "w \<in> accepts (T0 \<union> T1 \<union> links F0 I1) X Y"
  then obtain x y where xy: "x \<in> X" "y \<in> Y" "run (T0 \<union> T1 \<union> links F0 I1) x w y" by (auto simp: accepts_def)
  then have "\<exists>u v f i. w = u @ v \<and> f \<in> F0 \<and> i \<in> I1 \<and> run T0 x u f \<and> run T1 i v y"
    using run_links [OF assms(1-5) xy(3)] assms(3,6,7) by blast
  then show "w \<in> conc (accepts T0 X F0) (accepts T1 I1 Y)"
    using xy by (auto simp: accepts_def intro!: concI)
next
  fix w assume "w \<in> conc (accepts T0 X F0) (accepts T1 I1 Y)"
  then obtain u v x f i y where w: "w = u @ v" "x \<in> X" "f \<in> F0" "run T0 x u f" "i \<in> I1" "y \<in> Y" "run T1 i v y"
    by (auto simp: conc_def accepts_def)
  let ?T = "T0 \<union> T1 \<union> links F0 I1"
  have "run ?T x u f" "run ?T i v y" "run ?T f [] i"
    using w by (auto intro: run_mono run.intros)
  then have "run ?T x (u @ [] @ v) y" by (intro run_append)
  then show "w \<in> accepts ?T X Y" using w by (auto simp: accepts_def)
qed

lemma accepts_disjoint:
  assumes "within T0 S0" "within T1 S1" "S0 \<inter> S1 = {}" "X0 \<subseteq> S0" "X1 \<subseteq> S1" "Y0 \<subseteq> S0" "Y1 \<subseteq> S1"
  shows "accepts (T0 \<union> T1) (X0 \<union> X1) (Y0 \<union> Y1) = accepts T0 X0 Y0 \<union> accepts T1 X1 Y1"
proof (intro equalityI subsetI)
  fix w assume "w \<in> accepts (T0 \<union> T1) (X0 \<union> X1) (Y0 \<union> Y1)"
  then obtain x y where xy: "x \<in> X0 \<union> X1" "y \<in> Y0 \<union> Y1" "run (T0 \<union> T1) x w y" by (auto simp: accepts_def)
  have "x \<in> S0 \<Longrightarrow> run T0 x w y \<and> y \<in> S0" "x \<in> S1 \<Longrightarrow> run T1 x w y \<and> y \<in> S1"
    using run_disjoint [OF xy(3) assms(1-3)] run_disjoint [of T1 T0 x w y S1 S0] xy(3) assms(1-3)
    by (auto simp: Un_commute Int_commute)
  then show "w \<in> accepts T0 X0 Y0 \<union> accepts T1 X1 Y1"
    using xy(1,2) assms(3-7) by (auto simp: accepts_def; blast)
qed (auto simp: accepts_def intro: run_mono)

lemma accepts_no_trans: "accepts {} {i} {i} = {[]}"
  by (auto simp: accepts_def intro: run.run_refl elim: run.cases)

text \<open>Epsilon transitions between the two ends of one copy.\<close>

lemma run_shortcut_middle:
  assumes "run (T \<union> links I F) p w q" "start_clean T I" "I \<inter> F = {}" "p \<notin> I"
  shows "run T p w q"
  using assms(1,4)
proof (induction rule: run.induct)
  case (run_eps p q w r)
  then have "(p, epsilon, q) \<in> T" by auto
  moreover then have "q \<notin> I" using assms(2) by (auto simp: start_clean_def)
  ultimately show ?case using run_eps.IH by (auto intro: run.run_eps)
next
  case (run_step p a q w r)
  then have "(p, a, q) \<in> T" by auto
  moreover then have "q \<notin> I" using assms(2) by (auto simp: start_clean_def)
  ultimately show ?case using run_step by (auto intro: run.run_step)
qed (rule run.run_refl)

lemma run_end_clean: "run T p w q \<Longrightarrow> end_clean T F \<Longrightarrow> p \<in> F \<Longrightarrow> w = [] \<and> q = p"
  by (erule run.cases) (auto simp: end_clean_def)

lemma accepts_shortcut:
  assumes "start_clean T I" "end_clean T F" "I \<inter> F = {}" "I \<noteq> {}" "F \<noteq> {}"
  shows "accepts (T \<union> links I F) I F = accepts T I F \<union> {[]}"
proof (intro equalityI subsetI)
  fix w assume "w \<in> accepts (T \<union> links I F) I F"
  then obtain i f where if_: "i \<in> I" "f \<in> F" "run (T \<union> links I F) i w f" by (auto simp: accepts_def)
  note mid = run_shortcut_middle [OF _ assms(1,3)]
  from if_(3) show "w \<in> accepts T I F \<union> {[]}"
  proof (cases rule: run.cases)
    case (run_eps q)
    show ?thesis
    proof (cases "(i, epsilon, q) \<in> T")
      case True
      then have "q \<notin> I" using assms(1) by (auto simp: start_clean_def)
      then have "run T i w f" using mid run_eps(2) True by (blast intro: run.run_eps)
      then show ?thesis using if_ by (auto simp: accepts_def)
    next
      case False
      then have "q \<in> F" "q \<notin> I" using run_eps(1) assms(3) by auto
      then have "run T q w f" using mid run_eps(2) by blast
      then show ?thesis using run_end_clean assms(2) \<open>q \<in> F\<close> by blast
    qed
  next
    case (run_step a q v)
    then have t: "(i, a, q) \<in> T" by auto
    then have "q \<notin> I" using assms(1) by (auto simp: start_clean_def)
    then have "run T i w f" using mid run_step t by (blast intro: run.run_step)
    then show ?thesis using if_ by (auto simp: accepts_def)
  qed simp
next
  fix w assume "w \<in> accepts T I F \<union> {[]}"
  then show "w \<in> accepts (T \<union> links I F) I F"
  proof
    assume "w \<in> accepts T I F"
    then show ?thesis by (auto simp: accepts_def intro: run_mono)
  next
    assume "w \<in> {[]}"
    moreover obtain i f where "i \<in> I" "f \<in> F" using assms by blast
    moreover then have "run (T \<union> links I F) i [] f" by (auto intro: run.intros)
    ultimately show ?thesis by (auto simp: accepts_def)
  qed
qed

lemma accepts_from: "i \<in> I \<Longrightarrow> f \<in> F \<Longrightarrow> run T i w f \<Longrightarrow> w \<in> accepts T I F"
  by (auto simp: accepts_def)

lemma run_loop:
  assumes "start_clean T I" "end_clean T F" "I \<inter> F = {}" "f \<in> F"
    and "run (T \<union> links I F \<union> links F I) p w f"
  shows "if p \<in> I \<union> F then w \<in> lstar (accepts T I F)
    else \<exists>u v g. w = u @ v \<and> g \<in> F \<and> run T p u g \<and> v \<in> lstar (accepts T I F)"
  using assms(5,4)
proof (induction rule: run.induct)
  case (run_refl p)
  then show ?case using lstar_Nil by auto
next
  case (run_eps p q w r)
  note IH = run_eps.IH [OF run_eps.prems]
  consider "(p, epsilon, q) \<in> T" | "p \<in> I \<union> F" "q \<in> I \<union> F" using run_eps.hyps(1) by auto
  then show ?case
  proof cases
    case 1
    then have pq: "q \<notin> I" "p \<notin> F" using assms(1,2) by (auto simp: start_clean_def end_clean_def)
    have "\<exists>u v g. w = u @ v \<and> g \<in> F \<and> run T p u g \<and> v \<in> lstar (accepts T I F)"
    proof (cases "q \<in> F")
      case True
      then have "w = [] @ w \<and> q \<in> F \<and> run T p [] q \<and> w \<in> lstar (accepts T I F)"
        using IH 1 by (auto intro: run.intros)
      then show ?thesis by blast
    next
      case False
      then show ?thesis using IH pq 1 by (auto intro: run.run_eps)
    qed
    then show ?thesis using pq lstar_Cons [OF accepts_from] by (metis UnE)
  next
    case 2
    then show ?thesis using IH by simp
  qed
next
  case (run_step p a q w r)
  note IH = run_step.IH [OF run_step.prems]
  have t: "(p, a, q) \<in> T" using run_step.hyps(1,2) by auto
  then have pq: "q \<notin> I" "p \<notin> F" using assms(1,2) by (auto simp: start_clean_def end_clean_def)
  have "\<exists>u v g. a # w = u @ v \<and> g \<in> F \<and> run T p u g \<and> v \<in> lstar (accepts T I F)"
  proof (cases "q \<in> F")
    case True
    then have "a # w = [a] @ w \<and> q \<in> F \<and> run T p [a] q \<and> w \<in> lstar (accepts T I F)"
      using IH t run_step.hyps(2) by (auto intro: run.intros)
    then show ?thesis by blast
  next
    case False
    then obtain u v g where "w = u @ v" "g \<in> F" "run T q u g" "v \<in> lstar (accepts T I F)" using IH pq by auto
    then have "a # w = (a # u) @ v \<and> g \<in> F \<and> run T p (a # u) g \<and> v \<in> lstar (accepts T I F)"
      using t run_step.hyps(2) by (auto intro: run.intros)
    then show ?thesis by blast
  qed
  then show ?case using pq lstar_Cons [OF accepts_from] by (metis UnE)
qed

lemma accepts_loop:
  assumes "start_clean T I" "end_clean T F" "I \<inter> F = {}" "I \<noteq> {}" "F \<noteq> {}"
  shows "accepts (T \<union> links I F \<union> links F I) I F = lstar (accepts T I F)"
proof (intro equalityI subsetI)
  fix w assume "w \<in> accepts (T \<union> links I F \<union> links F I) I F"
  then show "w \<in> lstar (accepts T I F)"
    using run_loop [OF assms(1-3)] unfolding accepts_def [of "T \<union> links I F \<union> links F I"] by fastforce
next
  let ?U = "T \<union> links I F \<union> links F I"
  have ends: "run ?U p [] q" if "p \<in> I \<union> F" "q \<in> I \<union> F" for p q
  proof -
    obtain i f where "i \<in> I" "f \<in> F" using assms by blast
    then have "(p, epsilon, q) \<in> ?U \<or> (\<exists>r. (p, epsilon, r) \<in> ?U \<and> (r, epsilon, q) \<in> ?U)" using that by auto
    then show ?thesis by (metis run.run_eps run.run_refl)
  qed
  have "\<exists>i \<in> I. \<exists>f \<in> F. run ?U i w f" if "w \<in> lpow (accepts T I F) n" for w n
    using that
  proof (induction n arbitrary: w)
    case 0
    then show ?case using ends assms(4,5) by auto
  next
    case (Suc n)
    then obtain u v i f where w: "w = u @ v" "u \<in> lpow (accepts T I F) n" "i \<in> I" "f \<in> F" "run T i v f"
      by (auto simp: conc_def accepts_def)
    obtain i' f' where "i' \<in> I" "f' \<in> F" "run ?U i' u f'" using Suc.IH [OF w(2)] by blast
    moreover have "run ?U i v f" using w(5) by (rule run_mono) auto
    moreover have "run ?U f' [] i" using ends w(3) \<open>f' \<in> F\<close> by blast
    ultimately show ?case using run_append [of ?U i' u f' "[] @ v" f] run_append [of ?U f' "[]" i v f] w by auto
  qed
  then show "w \<in> accepts ?U I F" if "w \<in> lstar (accepts T I F)" for w
    using that by (auto simp: lstar_def accepts_def)
qed

section \<open>Correctness of the constructions\<close>

text \<open>What one copy contributes, with the transitions between its two ends.\<close>

definition copy_lang :: "bool \<Rightarrow> bool \<Rightarrow> int list set \<Rightarrow> int list set" where
  "copy_lang shortcut loop L = (if shortcut then if loop then lstar L else L \<union> {[]} else L)"

context astl_nfa
begin

text \<open>Only transitions are added.\<close>

definition adds :: "'a \<Rightarrow> 'a \<Rightarrow> trans \<Rightarrow> bool" where
  "adds A B E \<longleftrightarrow> inv B \<and> a_states N B = a_states N A \<and> a_initial N B = a_initial N A
     \<and> a_final N B = a_final N A \<and> T B = T A \<union> E"

lemma adds_fold:
  assumes "inv A" "\<And>x B. x \<in> set xs \<Longrightarrow> inv B \<Longrightarrow> a_states N B = a_states N A \<Longrightarrow> adds B (f x B) (E x)"
  shows "adds A (fold f xs A) (\<Union>x\<in>set xs. E x)"
  using assms
proof (induction xs arbitrary: A)
  case (Cons x xs)
  have x: "adds A (f x A) (E x)" using Cons.prems by simp
  then have "adds (f x A) (fold f xs (f x A)) (\<Union>x\<in>set xs. E x)"
    using Cons.prems by (intro Cons.IH) (auto simp: adds_def)
  then show ?case using x by (auto simp: adds_def)
qed (simp add: adds_def)

lemma adds_trans: "adds A B D \<Longrightarrow> adds B C E \<Longrightarrow> adds A C (D \<union> E)"
  by (auto simp: adds_def)

lemma adds_set_trans: "inv A \<Longrightarrow> {p, q} \<subseteq> set (a_states N A) \<Longrightarrow> adds A (a_set_trans N p a q A) {(p, a, q)}"
  unfolding adds_def using set_trans by simp

lemma adds_for_states2:
  assumes "inv A" "X \<subseteq> set (a_states N A)" "Y \<subseteq> set (a_states N A)"
    and step: "\<And>x y B. x \<in> X \<Longrightarrow> y \<in> Y \<Longrightarrow> inv B \<Longrightarrow> a_states N B = a_states N A \<Longrightarrow> adds B (f x y B) (E x y)"
  shows "adds A (for_states (\<lambda>x. for_states (f x) Y) X A) (\<Union>x\<in>X. \<Union>y\<in>Y. E x y)"
proof -
  have fin: "finite X" "finite Y" using assms(2,3) by (auto intro: finite_subset)
  have "adds B (for_states (f x) Y B) (\<Union>y\<in>Y. E x y)"
    if "x \<in> X" "inv B" "a_states N B = a_states N A" for x B
    using adds_fold [of B "sorted_list_of_set Y" "f x" "E x"] that step fin by simp
  then show ?thesis
    using adds_fold [of A "sorted_list_of_set X" "\<lambda>x. for_states (f x) Y" "\<lambda>x. \<Union>y\<in>Y. E x y"] assms(1) fin by simp
qed

lemma link_correct:
  assumes "inv A" "X \<subseteq> set (a_states N A)" "Y \<subseteq> set (a_states N A)"
  shows "adds A (link N X Y A) (links X Y)"
proof -
  have eq: "links X Y = (\<Union>x\<in>X. \<Union>y\<in>Y. {(x, epsilon, y)})" by (auto simp: links_def)
  show ?thesis
    unfolding link_def eq
    by (rule adds_for_states2 [OF assms], rule adds_set_trans) (use assms in auto)
qed

lemma shortcut_correct:
  assumes "inv A" "X \<subseteq> set (a_states N A)" "Y \<subseteq> set (a_states N A)"
  shows "adds A (for_states (\<lambda>x. for_states (\<lambda>y A.
      let A = a_set_trans N x epsilon y A in if loop then a_set_trans N y epsilon x A else A) Y) X A)
    (links X Y \<union> (if loop then links Y X else {}))"
proof -
  let ?E = "\<lambda>x y. {(x, epsilon, y)} \<union> (if loop then {(y, epsilon, x)} else {})"
  have "adds B (let A = a_set_trans N x epsilon y B in if loop then a_set_trans N y epsilon x A else A) (?E x y)"
    if "x \<in> X" "y \<in> Y" "inv B" "a_states N B = a_states N A" for x y B
  proof -
    have one: "adds B (a_set_trans N x epsilon y B) {(x, epsilon, y)}"
      using that assms by (intro adds_set_trans) auto
    have "adds (a_set_trans N x epsilon y B) (a_set_trans N y epsilon x (a_set_trans N x epsilon y B)) {(y, epsilon, x)}"
      using that assms one by (intro adds_set_trans) (auto simp: adds_def)
    from adds_trans [OF one this] show ?thesis using one by (simp add: Let_def insert_commute)
  qed
  moreover have "links X Y \<union> (if loop then links Y X else {}) = (\<Union>x\<in>X. \<Union>y\<in>Y. ?E x y)" by (auto simp: links_def)
  ultimately show ?thesis using adds_for_states2 [OF assms, of _ ?E] by simp
qed

text \<open>
  The part of an automaton that a copy contributes: its states, its transitions and its two
  ends.
\<close>

definition piece :: "'a \<Rightarrow> 'a \<Rightarrow> 'a \<Rightarrow> state set \<Rightarrow> trans \<Rightarrow> state set \<Rightarrow> state set \<Rightarrow> bool" where
  "piece src A B S U I F \<longleftrightarrow> inv B \<and> set (a_states N A) \<inter> S = {} \<and> set (a_states N B) = set (a_states N A) \<union> S
     \<and> T B = T A \<union> U \<and> within U S \<and> I \<subseteq> S \<and> F \<subseteq> S \<and> accepts U I F = lang src
     \<and> a_initial N B = a_initial N A \<and> a_finals N B = a_finals N A
     \<and> (start_clean (T src) (a_initial N src \<inter> set (a_states N src)) \<longrightarrow> start_clean U I)
     \<and> (end_clean (T src) (a_finals N src) \<longrightarrow> end_clean U F)
     \<and> (a_initial N src \<inter> a_finals N src = {} \<longrightarrow> I \<inter> F = {})"

lemma copy_piece:
  assumes "inv src" "inv A" "copy_automaton N src A = ((I, F), B)"
  shows "\<exists>S U. piece src A B S U I F"
proof -
  obtain f where f: "is_copy src A I F B f" using copy_automaton_correct [OF assms] by blast
  note c = f [unfolded is_copy_def]
  let ?S = "set (a_states N src)"
  let ?U = "image_T f (T src)"
  have inj: "f x = f y \<longleftrightarrow> x = y" if "x \<in> ?S" "y \<in> ?S" for x y using c that by (auto dest: inj_onD)
  have fin: "a_finals N src \<subseteq> ?S" by (auto simp: a_finals_def)
  have TS: "p \<in> ?S \<and> q \<in> ?S" if "(p, a, q) \<in> T src" for p a q using trans_states [OF assms(1) that] .
  have I: "f x \<in> I \<longleftrightarrow> x \<in> a_initial N src" and F: "f x \<in> F \<longleftrightarrow> x \<in> a_finals N src" if "x \<in> ?S" for x
    using c inj that fin by auto
  have "start_clean ?U I" if "start_clean (T src) (a_initial N src \<inter> ?S)"
    using that TS I by (auto simp: start_clean_def image_T_def)
  moreover have "end_clean ?U F" if "end_clean (T src) (a_finals N src)"
    using that TS F by (auto simp: end_clean_def image_T_def)
  moreover have "I \<inter> F = {}" if "a_initial N src \<inter> a_finals N src = {}"
  proof -
    have "I \<subseteq> f ` ?S" using c by auto
    then show ?thesis using that I F by blast
  qed
  moreover have "accepts ?U I F = lang src"
    using c within_T [OF assms(1)] accepts_image [of "T src" ?S f "a_initial N src \<inter> ?S" "a_finals N src"] fin
    by (auto simp: ta_lang_def)
  moreover have "a_finals N B = a_finals N A" using c by (auto simp: a_finals_def)
  ultimately have "piece src A B (f ` ?S) ?U I F"
    unfolding piece_def using c within_image [OF within_T [OF assms(1)]] fin by auto
  then show ?thesis by blast
qed

lemma pieceD:
  assumes "piece src A B S U I F"
  shows "inv B" "set (a_states N A) \<inter> S = {}" "set (a_states N B) = set (a_states N A) \<union> S" "T B = T A \<union> U"
    "within U S" "I \<subseteq> S" "F \<subseteq> S" "accepts U I F = lang src" "a_initial N B = a_initial N A" "a_finals N B = a_finals N A"
    "start_clean (T src) (a_initial N src \<inter> set (a_states N src)) \<Longrightarrow> start_clean U I"
    "end_clean (T src) (a_finals N src) \<Longrightarrow> end_clean U F"
    "a_initial N src \<inter> a_finals N src = {} \<Longrightarrow> I \<inter> F = {}"
  using assms unfolding piece_def by auto

lemma new_initial_final_correct:
  assumes "inv A" "new_initial_final N A = (i, f, B)"
  shows "inv B" "i \<notin> set (a_states N A)" "f \<notin> set (a_states N A)" "i \<noteq> f"
    "set (a_states N B) = {i, f} \<union> set (a_states N A)" "T B = T A"
    "a_initial N B = insert i (a_initial N A)" "a_finals N B = insert f (a_finals N A)"
proof -
  obtain i' A1 where 1: "a_new_state N A = (i', A1)" by (metis surj_pair)
  let ?A2 = "a_set_initial N (insert i' (a_initial N A1)) A1"
  obtain f' A3 where 3: "a_new_state N ?A2 = (f', A3)" by (metis surj_pair)
  have e: "i = i'" "f = f'" "B = a_set_final N f' True A3"
    using assms(2) 1 3 by (auto simp: new_initial_final_def Let_def)
  note n1 = new_state [OF assms(1) 1]
  note i2 = set_initial(1) [OF n1(1), of "insert i' (a_initial N A1)"]
  note n3 = new_state [OF i2 3]
  show "inv B" "i \<notin> set (a_states N A)" "f \<notin> set (a_states N A)" "i \<noteq> f"
    "set (a_states N B) = {i, f} \<union> set (a_states N A)" "T B = T A"
    "a_initial N B = insert i (a_initial N A)" "a_finals N B = insert f (a_finals N A)"
    using n1 n3 unfolding e by (auto simp: set_initial set_final a_finals_def)
qed

text \<open>An automaton without states, and what is known of a construction on it.\<close>

definition blank :: "'a \<Rightarrow> bool" where
  "blank A \<longleftrightarrow> inv A \<and> set (a_states N A) = {} \<and> a_initial N A = {}"

lemma blankD: "blank A \<Longrightarrow> inv A \<and> set (a_states N A) = {} \<and> a_initial N A = {} \<and> T A = {} \<and> a_finals N A = {}"
  using trans_states by (fastforce simp: blank_def a_finals_def)

lemma blank_empty: "blank (a_empty N)"
  using empty_ok by (simp add: blank_def)

abbreviation initials :: "'a \<Rightarrow> state set" where
  "initials A \<equiv> a_initial N A \<inter> set (a_states N A)"

text \<open>Setting the ends of an automaton that has none yet.\<close>

lemma set_ends:
  assumes "inv A" "a_finals N A = {}" "I \<subseteq> set (a_states N A)" "F \<subseteq> set (a_states N A)"
  defines "B \<equiv> for_states (\<lambda>q. a_set_final N q True) F (a_set_initial N I A)"
  shows "inv B" "a_states N B = a_states N A" "T B = T A" "a_initial N B = I" "initials B = I" "a_finals N B = F"
proof -
  have "finite F" using assms(4) by (auto intro: finite_subset)
  moreover have "a_finals N (a_set_initial N I A) = {}" using assms(2) by (simp add: a_finals_def set_initial)
  ultimately show "inv B" "a_states N B = a_states N A" "T B = T A" "a_initial N B = I" "initials B = I" "a_finals N B = F"
    using set_final_fold [OF set_initial(1) [OF assms(1)], of "sorted_list_of_set F" I] assms(3,4)
    unfolding B_def by (auto simp: set_initial)
qed

lemma adds_a_finals: "adds A B E \<Longrightarrow> a_finals N B = a_finals N A"
  by (simp add: adds_def a_finals_def)

lemma build_concat_correct:
  assumes "inv sub_a" "inv sub_b" "blank A"
  defines "R \<equiv> build_concat N sub_a sub_b A"
  shows "inv R" "lang R = conc (lang sub_a) (lang sub_b)" "initials R \<inter> a_finals N R = {}"
    "start_clean (T sub_a) (initials sub_a) \<Longrightarrow> start_clean (T R) (initials R)"
    "end_clean (T sub_b) (a_finals N sub_b) \<Longrightarrow> end_clean (T R) (a_finals N R)"
proof -
  note A = blankD [OF assms(3)]
  obtain Ia Fa B where 1: "copy_automaton N sub_a A = ((Ia, Fa), B)" by (metis surj_pair)
  obtain Sa Ua where a: "piece sub_a A B Sa Ua Ia Fa" using copy_piece [OF assms(1) _ 1] A by blast
  note a = pieceD [OF a]
  obtain Ib Fb C where 2: "copy_automaton N sub_b B = ((Ib, Fb), C)" by (metis surj_pair)
  obtain Sb Ub where b: "piece sub_b B C Sb Ub Ib Fb" using copy_piece [OF assms(2) a(1) 2] by blast
  note b = pieceD [OF b]
  have dis: "Sa \<inter> Sb = {}" and TC: "T C = Ua \<union> Ub" and SC: "set (a_states N C) = Sa \<union> Sb" and fC: "a_finals N C = {}"
    using A a(2-4,9,10) b(2-4,9,10) by auto
  have ends: "Ia \<subseteq> Sa" "Fb \<subseteq> Sb" "Fa \<subseteq> Sa" "Ib \<subseteq> Sb" using a(6,7) b(6,7) by auto
  let ?D = "for_states (\<lambda>q. a_set_final N q True) Fb (a_set_initial N Ia C)"
  have w: "within Ua Sa" "within Ub Sb" using a(5-7) b(5-7) by auto
  have sub: "inv C" "Ia \<subseteq> set (a_states N C)" "Fb \<subseteq> set (a_states N C)" using SC ends b(1) by auto
  note D = set_ends [OF sub(1) fC sub(2,3)]
  have R: "R = link N Fa Ib ?D" by (simp add: R_def build_concat_def 1 2)
  have ad: "adds ?D R (links Fa Ib)" unfolding R using D SC ends by (intro link_correct) auto
  have TR: "T R = Ua \<union> Ub \<union> links Fa Ib" and iR: "initials R = Ia" and fR: "a_finals N R = Fb" and SR: "a_states N R = a_states N C"
    using ad adds_a_finals [OF ad] D TC by (auto simp: adds_def)
  show "inv R" using ad by (simp add: adds_def)
  show "initials R \<inter> a_finals N R = {}" unfolding iR fR using dis ends by auto
  show "lang R = conc (lang sub_a) (lang sub_b)"
    unfolding ta_lang_def [of N T R] iR fR TR accepts_links [OF w dis ends(3,4,1,2)] a(8) b(8) ..
  show "start_clean (T sub_a) (initials sub_a) \<Longrightarrow> start_clean (T R) (initials R)"
    unfolding iR TR using dis ends a(11) by (auto intro!: clean_links clean_within [OF w(2)])
  show "end_clean (T sub_b) (a_finals N sub_b) \<Longrightarrow> end_clean (T R) (a_finals N R)"
    unfolding fR TR using dis ends b(12) by (auto intro!: clean_links clean_within [OF w(1)])
qed

lemma build_alternative_correct:
  assumes "inv sub_a" "inv sub_b" "blank A"
  defines "R \<equiv> build_alternative N sub_a sub_b A"
  shows "inv R" "lang R = lang sub_a \<union> lang sub_b" "initials R \<inter> a_finals N R = {}"
    "start_clean (T R) (initials R)" "end_clean (T R) (a_finals N R)"
proof -
  note A = blankD [OF assms(3)]
  obtain Ia Fa B where 1: "copy_automaton N sub_a A = ((Ia, Fa), B)" by (metis surj_pair)
  obtain Sa Ua where a: "piece sub_a A B Sa Ua Ia Fa" using copy_piece [OF assms(1) _ 1] A by blast
  note a = pieceD [OF a]
  obtain Ib Fb C where 2: "copy_automaton N sub_b B = ((Ib, Fb), C)" by (metis surj_pair)
  obtain Sb Ub where b: "piece sub_b B C Sb Ub Ib Fb" using copy_piece [OF assms(2) a(1) 2] by blast
  note b = pieceD [OF b]
  have dis: "Sa \<inter> Sb = {}" and TC: "T C = Ua \<union> Ub" and SC: "set (a_states N C) = Sa \<union> Sb"
    and fC: "a_finals N C = {}" and iC: "a_initial N C = {}"
    using A a(2-4,9,10) b(2-4,9,10) by auto
  obtain i f D where 3: "new_initial_final N C = (i, f, D)" by (metis surj_pair)
  note D = new_initial_final_correct [OF _ 3]
  have ifn: "i \<notin> Sa \<union> Sb" "f \<notin> Sa \<union> Sb" "i \<noteq> f" using D SC b(1) by auto
  have R: "R = link N Fb {f} (link N {i} Ib (link N Fa {f} (link N {i} Ia D)))"
    by (simp add: R_def build_alternative_def 1 2 3)
  have iD: "inv D" "set (a_states N D) = {i, f} \<union> Sa \<union> Sb" using D b(1) SC by auto
  have l1: "adds D (link N {i} Ia D) (links {i} Ia)" using iD a(6,7) by (intro link_correct) auto
  have l2: "adds (link N {i} Ia D) (link N Fa {f} (link N {i} Ia D)) (links Fa {f})"
    using l1 iD a(6,7) by (intro link_correct) (auto simp: adds_def)
  have l3: "adds (link N Fa {f} (link N {i} Ia D)) (link N {i} Ib (link N Fa {f} (link N {i} Ia D))) (links {i} Ib)"
    using l1 l2 iD b(6,7) by (intro link_correct) (auto simp: adds_def)
  have l4: "adds (link N {i} Ib (link N Fa {f} (link N {i} Ia D))) R (links Fb {f})"
    unfolding R using l1 l2 l3 iD b(6,7) by (intro link_correct) (auto simp: adds_def)
  have ad: "adds D R (links {i} Ia \<union> links Fa {f} \<union> links {i} Ib \<union> links Fb {f})"
    using adds_trans [OF adds_trans [OF adds_trans [OF l1 l2] l3] l4] .
  have TR: "T R = ({} \<union> (Ua \<union> Ub) \<union> links {i} (Ia \<union> Ib)) \<union> {} \<union> links (Fa \<union> Fb) {f}"
    using ad D(6) b(1) TC by (auto simp: adds_def)
  have iR: "initials R = {i}" and fR: "a_finals N R = {f}" using ad adds_a_finals [OF ad] D b(1) iC fC iD by (auto simp: adds_def)
  show "inv R" using ad by (simp add: adds_def)
  show "initials R \<inter> a_finals N R = {}" unfolding iR fR using ifn by simp
  have ends: "Ia \<subseteq> Sa" "Fb \<subseteq> Sb" "Fa \<subseteq> Sa" "Ib \<subseteq> Sb" "within Ua Sa" "within Ub Sb" using a(5-7) b(5-7) by auto
  show "start_clean (T R) (initials R)"
    unfolding iR TR using ifn ends by (auto intro!: clean_links intro: clean_within)
  show "end_clean (T R) (a_finals N R)"
    unfolding fR TR using ifn ends by (auto intro!: clean_links intro: clean_within)
  have w: "within (Ua \<union> Ub) (Sa \<union> Sb)" using a(5) b(5) by (auto simp: within_def)
  have "lang R = conc (accepts ({} \<union> (Ua \<union> Ub) \<union> links {i} (Ia \<union> Ib)) {i} (Fa \<union> Fb)) (accepts {} {f} {f})"
    unfolding ta_lang_def iR fR TR
    using ifn ends w by (subst accepts_links [of _ "insert i (Sa \<union> Sb)" _ "{f}"]) (auto simp: within_def)
  also have "accepts ({} \<union> (Ua \<union> Ub) \<union> links {i} (Ia \<union> Ib)) {i} (Fa \<union> Fb)
      = conc (accepts {} {i} {i}) (accepts (Ua \<union> Ub) (Ia \<union> Ib) (Fa \<union> Fb))"
    using ifn ends w by (subst accepts_links [of _ "{i}" _ "Sa \<union> Sb"]) (auto simp: within_def)
  also have "accepts (Ua \<union> Ub) (Ia \<union> Ib) (Fa \<union> Fb) = lang sub_a \<union> lang sub_b"
    unfolding accepts_disjoint [OF a(5) b(5) dis a(6) b(6) a(7) b(7)] a(8) b(8) ..
  finally show "lang R = lang sub_a \<union> lang sub_b" by (simp add: accepts_no_trans)
qed

text \<open>
  The state of the repetition: \<open>L\<close> is the language between the two ends of what has been
  built; nothing has been built yet when there is no initial state.
\<close>

definition rep_ok :: "int list set \<Rightarrow> state set \<times> state set \<times> 'a \<Rightarrow> bool" where
  "rep_ok L acc \<longleftrightarrow> (case acc of (I, F, A) \<Rightarrow>
     inv A \<and> I \<subseteq> set (a_states N A) \<and> F \<subseteq> set (a_states N A) \<and> a_finals N A = {}
     \<and> (if I = {} then L = {[]} else accepts (T A) I F = L))"

abbreviation clean :: "'a \<Rightarrow> bool" where
  "clean A \<equiv> start_clean (T A) (initials A) \<and> end_clean (T A) (a_finals N A) \<and> initials A \<inter> a_finals N A = {}"

definition looped_piece ::
  "bool \<Rightarrow> bool \<Rightarrow> 'a \<Rightarrow> 'a \<Rightarrow> 'a \<Rightarrow> state set \<Rightarrow> trans \<Rightarrow> state set \<Rightarrow> state set \<Rightarrow> bool" where
  "looped_piece shortcut loop sub A C S U I F \<longleftrightarrow> inv C \<and> set (a_states N A) \<inter> S = {}
     \<and> set (a_states N C) = set (a_states N A) \<union> S \<and> T C = T A \<union> U \<and> within U S \<and> I \<subseteq> S \<and> F \<subseteq> S
     \<and> a_finals N C = a_finals N A \<and> I \<noteq> {} \<and> accepts U I F = copy_lang shortcut loop (lang sub)
     \<and> (start_clean (T sub) (initials sub) \<longrightarrow> \<not> (shortcut \<and> loop) \<longrightarrow> start_clean U I)
     \<and> (end_clean (T sub) (a_finals N sub) \<longrightarrow> \<not> (shortcut \<and> loop) \<longrightarrow> end_clean U F)
     \<and> (initials sub \<inter> a_finals N sub = {} \<longrightarrow> I \<inter> F = {})"

lemma looped_pieceI:
  "\<lbrakk>inv C; set (a_states N A) \<inter> S = {}; set (a_states N C) = set (a_states N A) \<union> S; T C = T A \<union> U; within U S; I \<subseteq> S; F \<subseteq> S; a_finals N C = a_finals N A; I \<noteq> {}; accepts U I F = copy_lang shortcut loop (lang sub); \<lbrakk>start_clean (T sub) (initials sub); \<not> (shortcut \<and> loop)\<rbrakk> \<Longrightarrow> start_clean U I; \<lbrakk>end_clean (T sub) (a_finals N sub); \<not> (shortcut \<and> loop)\<rbrakk> \<Longrightarrow> end_clean U F; \<lbrakk>initials sub \<inter> a_finals N sub = {}\<rbrakk> \<Longrightarrow> I \<inter> F = {}\<rbrakk>
    \<Longrightarrow> looped_piece shortcut loop sub A C S U I F"
  unfolding looped_piece_def by (intro conjI impI)

lemma looped_pieceD:
  assumes "looped_piece shortcut loop sub A C S U I F"
  shows "inv C" "set (a_states N A) \<inter> S = {}" "set (a_states N C) = set (a_states N A) \<union> S"
    "T C = T A \<union> U" "within U S" "I \<subseteq> S" "F \<subseteq> S" "a_finals N C = a_finals N A" "I \<noteq> {}"
    "accepts U I F = copy_lang shortcut loop (lang sub)"
    "start_clean (T sub) (initials sub) \<Longrightarrow> \<not> (shortcut \<and> loop) \<Longrightarrow> start_clean U I"
    "end_clean (T sub) (a_finals N sub) \<Longrightarrow> \<not> (shortcut \<and> loop) \<Longrightarrow> end_clean U F"
    "initials sub \<inter> a_finals N sub = {} \<Longrightarrow> I \<inter> F = {}"
  using assms unfolding looped_piece_def by simp_all

lemma looped_copy:
  fixes loop :: bool
  assumes sub: "inv sub" "lang sub \<noteq> {}" and cl: "shortcut \<Longrightarrow> clean sub"
    and A: "inv A" "copy_automaton N sub A = ((I, F), B)"
  defines "C \<equiv> if shortcut then for_states (\<lambda>x. for_states (\<lambda>y A.
      let A = a_set_trans N x epsilon y A in if loop then a_set_trans N y epsilon x A else A) F) I B else B"
  shows "\<exists>S U. looped_piece shortcut loop sub A C S U I F"
proof -
  obtain S U where "piece sub A B S U I F" using copy_piece [OF sub(1) A] by blast
  note p = pieceD [OF this]
  have dj: "I \<inter> F = {}" if "initials sub \<inter> a_finals N sub = {}"
    using p(13) that by (auto simp: a_finals_def)
  have ne: "I \<noteq> {}" "F \<noteq> {}" using p(8) sub(2) by (auto simp: accepts_def)
  let ?E = "if shortcut then links I F \<union> (if loop then links F I else {}) else {}"
  have "adds B C ?E"
  proof (cases shortcut)
    case True
    have "I \<subseteq> set (a_states N B)" "F \<subseteq> set (a_states N B)" using p(3,6,7) by auto
    from shortcut_correct [OF p(1) this, of loop] show ?thesis using True unfolding C_def by simp
  qed (use p(1) in \<open>simp add: C_def adds_def\<close>)
  note ad = this [unfolded adds_def] adds_a_finals [OF this]
  have "looped_piece shortcut loop sub A C S (U \<union> ?E) I F"
  proof (rule looped_pieceI)
    show "inv C" "set (a_states N A) \<inter> S = {}" "set (a_states N C) = set (a_states N A) \<union> S"
      "T C = T A \<union> (U \<union> ?E)" "I \<subseteq> S" "F \<subseteq> S" "I \<noteq> {}" "a_finals N C = a_finals N A"
      using ad p(2-4,6,7,10) ne by auto
    show "within (U \<union> ?E) S" using p(5-7) by (auto simp: within_def)
    show "initials sub \<inter> a_finals N sub = {} \<Longrightarrow> I \<inter> F = {}" by (rule dj)
    show "accepts (U \<union> ?E) I F = copy_lang shortcut loop (lang sub)"
    proof (cases shortcut)
      case True
      then have "start_clean U I" "end_clean U F" "I \<inter> F = {}" using cl p(11,12) dj by auto
      from accepts_shortcut [OF this ne] accepts_loop [OF this ne] show ?thesis
        using True p(8) by (simp add: copy_lang_def Un_assoc)
    qed (simp add: copy_lang_def p(8))
    show "start_clean (U \<union> ?E) I" if "start_clean (T sub) (initials sub)" "\<not> (shortcut \<and> loop)"
      using p(11) that cl dj by (auto intro!: clean_links)
    show "end_clean (U \<union> ?E) F" if "end_clean (T sub) (a_finals N sub)" "\<not> (shortcut \<and> loop)"
      using p(12) that cl dj by (auto intro!: clean_links)
  qed
  then show ?thesis by blast
qed

lemma repeat_copy_correct:
  assumes sub: "inv sub" "lang sub \<noteq> {}" and cl: "shortcut \<Longrightarrow> clean sub"
    and acc: "rep_ok L (I, F, A)" and r: "repeat_copy N shortcut loop sub (I, F, A) = (I', F', A')"
  shows "rep_ok (conc L (copy_lang shortcut loop (lang sub))) (I', F', A') \<and> I' \<noteq> {}
    \<and> ((if I = {} then start_clean (T sub) (initials sub) \<and> \<not> (shortcut \<and> loop) else start_clean (T A) I)
        \<longrightarrow> start_clean (T A') I')
    \<and> (end_clean (T sub) (a_finals N sub) \<and> \<not> (shortcut \<and> loop) \<longrightarrow> end_clean (T A') F')
    \<and> (I \<noteq> {} \<or> initials sub \<inter> a_finals N sub = {} \<longrightarrow> I' \<inter> F' = {})"
proof -
  have A: "inv A" "I \<subseteq> set (a_states N A)" "F \<subseteq> set (a_states N A)" "a_finals N A = {}"
    "I = {} \<Longrightarrow> L = {[]}" "I \<noteq> {} \<Longrightarrow> accepts (T A) I F = L"
    using acc by (auto simp: rep_ok_def split: if_splits)
  obtain Is Fs B where 1: "copy_automaton N sub A = ((Is, Fs), B)" by (metis surj_pair)
  define C where "C = (if shortcut then for_states (\<lambda>x. for_states (\<lambda>y A.
      let A = a_set_trans N x epsilon y A in if loop then a_set_trans N y epsilon x A else A) Fs) Is B else B)"
  have "\<exists>S U. looped_piece shortcut loop sub A C S U Is Fs"
    unfolding C_def by (rule looped_copy [OF sub cl A(1) 1])
  then obtain S U where "looped_piece shortcut loop sub A C S U Is Fs" by blast
  note p = looped_pieceD [OF this]
  note wA = within_T [OF A(1)]
  show ?thesis
  proof (cases "I = {}")
    case True
    then have e: "I' = Is" "F' = Fs" "A' = C" using r by (auto simp: repeat_copy_def 1 C_def)
    have "accepts (T C) Is Fs = accepts U Is Fs"
      using accepts_disjoint [OF wA p(5,2), of "{}" Is "{}" Fs] p(4,6,7) by (auto simp: accepts_def)
    then have "rep_ok (conc L (copy_lang shortcut loop (lang sub))) (I', F', A')"
      unfolding rep_ok_def e using p(1,3,6,7,8,9,10) A(4,5) True by auto
    moreover have "start_clean U Is \<Longrightarrow> start_clean (T C) Is" "end_clean U Fs \<Longrightarrow> end_clean (T C) Fs"
      unfolding p(4) using p(2,6,7) by (auto intro!: clean_within [OF wA])
    ultimately show ?thesis using p(9,11-13) True unfolding e by auto
  next
    case False
    then have e: "I' = I" "F' = Fs" "A' = link N F Is C" using r by (auto simp: repeat_copy_def 1 C_def)
    have ad: "adds C A' (links F Is)" unfolding e using p(1,3,6) A(3) by (intro link_correct) auto
    have TA': "T A' = T A \<union> U \<union> links F Is" using ad p(4) by (simp add: adds_def)
    have "accepts (T A') I Fs = conc L (copy_lang shortcut loop (lang sub))"
      unfolding TA' accepts_links [OF wA p(5,2) A(3) p(6) A(2) p(7)] p(10) A(6) [OF False] ..
    then have "rep_ok (conc L (copy_lang shortcut loop (lang sub))) (I', F', A')"
      using ad adds_a_finals [OF ad] p(3,7,8) A(2,4) False unfolding rep_ok_def e(1,2) by (auto simp: adds_def)
    moreover have "start_clean (T A) I \<Longrightarrow> start_clean (T A') I'" "end_clean U Fs \<Longrightarrow> end_clean (T A') F'"
      unfolding TA' e(1,2) using p(2,6,7) A(2,3) by (auto intro!: clean_links clean_within [OF wA] clean_within [OF p(5)])
    moreover have "I' \<inter> F' = {}" unfolding e using A(2) p(2,7) by auto
    ultimately show ?thesis using p(12) False unfolding e(1) by auto
  qed
qed

text \<open>A sequence of copies of the same kind.\<close>

lemma repeat_copies_correct:
  assumes sub: "inv sub" "lang sub \<noteq> {}" and cl: "shortcut \<Longrightarrow> clean sub"
    and acc: "rep_ok L (I, F, A)" and r: "(repeat_copy N shortcut False sub ^^ n) (I, F, A) = (I', F', A')"
  defines "L1 \<equiv> copy_lang shortcut False (lang sub)"
  shows "rep_ok (conc L (lpow L1 n)) (I', F', A') \<and> (I \<noteq> {} \<or> n \<noteq> 0 \<longrightarrow> I' \<noteq> {})
    \<and> (start_clean (T sub) (initials sub) \<and> (I \<noteq> {} \<longrightarrow> start_clean (T A) I) \<and> (I \<noteq> {} \<or> n \<noteq> 0) \<longrightarrow> start_clean (T A') I')
    \<and> (end_clean (T sub) (a_finals N sub) \<and> (n = 0 \<longrightarrow> end_clean (T A) F) \<longrightarrow> end_clean (T A') F')
    \<and> ((I \<noteq> {} \<longrightarrow> I \<inter> F = {}) \<and> initials sub \<inter> a_finals N sub = {} \<longrightarrow> I' = {} \<or> I' \<inter> F' = {})"
  using r
proof (induction n arbitrary: I' F' A')
  case 0
  then show ?case using acc by auto
next
  case (Suc n)
  obtain I1 F1 A1 where 1: "(repeat_copy N shortcut False sub ^^ n) (I, F, A) = (I1, F1, A1)" by (metis surj_pair)
  have 2: "repeat_copy N shortcut False sub (I1, F1, A1) = (I', F', A')" using Suc.prems 1 by simp
  note IH = Suc.IH [OF 1]
  have "rep_ok (conc L (lpow L1 n)) (I1, F1, A1)" using IH by simp
  note st = repeat_copy_correct [OF sub cl this 2]
  have "conc L (lpow L1 (Suc n)) = conc (conc L (lpow L1 n)) L1" by (simp add: conc_assoc)
  then have "rep_ok (conc L (lpow L1 (Suc n))) (I', F', A')" using st unfolding L1_def by simp
  moreover have "I' \<noteq> {}" "end_clean (T sub) (a_finals N sub) \<Longrightarrow> end_clean (T A') F'"
    "I1 \<noteq> {} \<or> initials sub \<inter> a_finals N sub = {} \<Longrightarrow> I' \<inter> F' = {}"
    "(if I1 = {} then start_clean (T sub) (initials sub) else start_clean (T A1) I1) \<Longrightarrow> start_clean (T A') I'"
    using st by auto
  moreover have "start_clean (T sub) (initials sub) \<Longrightarrow> (I \<noteq> {} \<Longrightarrow> start_clean (T A) I)
      \<Longrightarrow> (if I1 = {} then start_clean (T sub) (initials sub) else start_clean (T A1) I1)"
    using IH acc Suc.IH 1 by (cases "n = 0") (auto split: if_splits)
  ultimately show ?case by auto
qed

lemma bound_after:
  "u = - 1 \<or> int k \<le> u \<Longrightarrow> ((\<lambda>ub. if ub \<noteq> - 1 then ub - 1 else ub) ^^ k) u = (if u = - 1 then - 1 else u - int k)"
  by (induction k) auto

lemma build_repeat_correct:
  assumes sub: "inv sub" "lang sub \<noteq> {}" and lu: "0 \<le> l" "u = - 1 \<or> l \<le> u \<and> 0 < u"
    and cl: "u = - 1 \<or> l < u \<Longrightarrow> clean sub" and A: "blank A"
  defines "R \<equiv> build_repeat N sub l u A"
  shows "inv R" "lang R = (if u = - 1 then \<Union>n\<in>{nat l..}. lpow (lang sub) n else \<Union>n\<in>{nat l..nat u}. lpow (lang sub) n)"
    "start_clean (T sub) (initials sub) \<Longrightarrow> u \<noteq> - 1 \<or> 0 < l \<Longrightarrow> start_clean (T R) (initials R)"
    "end_clean (T sub) (a_finals N sub) \<Longrightarrow> u \<noteq> - 1 \<Longrightarrow> end_clean (T R) (a_finals N R)"
    "initials sub \<inter> a_finals N sub = {} \<Longrightarrow> initials R \<inter> a_finals N R = {}"
proof -
  note b = blankD [OF A]
  have 0: "rep_ok {[]} ({}, {}, A)" using b by (simp add: rep_ok_def)
  obtain I1 F1 A1 where 1: "(repeat_copy N False False sub ^^ nat l) ({}, {}, A) = (I1, F1, A1)" by (metis surj_pair)
  note r1 = repeat_copies_correct [OF sub _ 0 1, simplified, unfolded copy_lang_def, simplified]
  have none: "I1 = {}" if "l \<le> 0" using 1 that by simp
  have ok1: "rep_ok (lpow (lang sub) (nat l)) (I1, F1, A1)" using r1 by simp
  have ub: "((\<lambda>ub. if ub \<noteq> - 1 then ub - 1 else ub) ^^ nat l) u = (if u = - 1 then - 1 else u - l)"
    using bound_after [of u "nat l"] lu by auto
  define acc where "acc = (if u = - 1 then repeat_copy N True True sub (I1, F1, A1)
    else (repeat_copy N True False sub ^^ nat (u - l)) (I1, F1, A1))"
  obtain I F B where 2: "acc = (I, F, B)" by (metis surj_pair)
  have main: "rep_ok (if u = - 1 then conc (lpow (lang sub) (nat l)) (lstar (lang sub))
        else conc (lpow (lang sub) (nat l)) (lpow (lang sub \<union> {[]}) (nat (u - l)))) (I, F, B) \<and> I \<noteq> {}
    \<and> (start_clean (T sub) (initials sub) \<and> (u \<noteq> - 1 \<or> 0 < l) \<longrightarrow> start_clean (T B) I)
    \<and> (end_clean (T sub) (a_finals N sub) \<and> u \<noteq> - 1 \<longrightarrow> end_clean (T B) F)
    \<and> (initials sub \<inter> a_finals N sub = {} \<longrightarrow> I \<inter> F = {})"
  proof (cases "u = - 1")
    case True
    then have "repeat_copy N True True sub (I1, F1, A1) = (I, F, B)" using 2 by (simp add: acc_def)
    from repeat_copy_correct [OF sub _ ok1 this] cl True r1 show ?thesis by (auto simp: copy_lang_def)
  next
    case False
    then have r: "(repeat_copy N True False sub ^^ nat (u - l)) (I1, F1, A1) = (I, F, B)" using 2 by (simp add: acc_def)
    show ?thesis
    proof (cases "l < u")
      case True
      from repeat_copies_correct [OF sub _ ok1 r] cl True r1 False none show ?thesis by (auto simp: copy_lang_def)
    next
      case eq: False
      then have "I = I1" "F = F1" "B = A1" "0 < l" using r lu False by auto
      then show ?thesis using ok1 r1 False eq by auto
    qed
  qed
  have R: "R = for_states (\<lambda>q. a_set_final N q True) F (a_set_initial N I B)"
    unfolding R_def build_repeat_def 1 Let_def ub using 2 lu by (auto simp: acc_def)
  have B: "inv B" "a_finals N B = {}" "I \<subseteq> set (a_states N B)" "F \<subseteq> set (a_states N B)"
    using main by (auto simp: rep_ok_def)
  note E = set_ends [OF B, folded R]
  let ?L = "if u = - 1 then conc (lpow (lang sub) (nat l)) (lstar (lang sub))
      else conc (lpow (lang sub) (nat l)) (lpow (lang sub \<union> {[]}) (nat (u - l)))"
  have "accepts (T B) I F = ?L" using main [THEN conjunct1] main [THEN conjunct2, THEN conjunct1] unfolding rep_ok_def prod.case by argo
  then have "lang R = ?L" unfolding ta_lang_def [of N T R] E(2,3,4,6) Int_absorb2 [OF B(3)] .
  moreover have "nat l + nat (u - l) = nat u" if "u \<noteq> - 1" using lu that by auto
  ultimately show "lang R = (if u = - 1 then \<Union>n\<in>{nat l..}. lpow (lang sub) n else \<Union>n\<in>{nat l..nat u}. lpow (lang sub) n)"
    unfolding lpow_or_Nil conc_lpow_range conc_lpow_lstar by (cases "u = - 1") simp_all
  show "inv R" by (rule E(1))
  show "start_clean (T sub) (initials sub) \<Longrightarrow> u \<noteq> - 1 \<or> 0 < l \<Longrightarrow> start_clean (T R) (initials R)"
    "end_clean (T sub) (a_finals N sub) \<Longrightarrow> u \<noteq> - 1 \<Longrightarrow> end_clean (T R) (a_finals N R)"
    "initials sub \<inter> a_finals N sub = {} \<Longrightarrow> initials R \<inter> a_finals N R = {}"
    unfolding E(3,5,6) using main [THEN conjunct2] by auto
qed

end

end
