(* ===== verification/Path_Pattern.thy ===== *)
theory Path_Pattern
  imports Fql_Ast Cfa Automaton_Build
begin

text \<open>
  Evaluation of path patterns to trace automata
  (\<open>src/fshell2/fql/evaluation/evaluate_path_pattern.cpp\<close>).

  The visitor keeps a map from node pointers to automata, the index of target graphs and a list
  of further target graphs. A target graph pointer is either the entry of a node in the map of
  the filter evaluation or an element of that list. The environment holds what the visitor
  gets from outside: the automaton library, the evaluated filters, the successor lists of the
  control flow graph and \<open>Evaluate_Filter::ignore_instruction\<close>.

  Shown here: the automaton of a pattern accepts exactly the words of target graphs the pattern
  denotes, for patterns without \<open>PATHS\<close> whose repeated operands can be left and entered only
  at their ends; where this restriction is violated the automaton accepts more.
\<close>

section \<open>State\<close>

datatype tg_ptr = TG_filter addr | TG_more nat

record 'a pp_state =
  m_pp_map :: "addr \<rightharpoonup> 'a"
  m_target_graph_index :: "tg_ptr tg_index"
  m_more_target_graphs :: "cfa list"

record 'a pp_env =
  env_astl :: "'a astl"
  env_filter :: "addr \<Rightarrow> cfa"
  env_successors :: "cfa_node \<Rightarrow> cfa_node list"
  env_ignore :: "targett \<Rightarrow> bool"
  env_fuel :: nat

definition deref :: "'a pp_env \<Rightarrow> 'a pp_state \<Rightarrow> tg_ptr \<Rightarrow> cfa" where
  "deref env st p = (case p of TG_filter a \<Rightarrow> env_filter env a | TG_more i \<Rightarrow> m_more_target_graphs st ! i)"

section \<open>The visitor\<close>

definition pp_enter :: "'a pp_env \<Rightarrow> addr \<Rightarrow> 'a pp_state \<Rightarrow> 'a pp_state" where
  "pp_enter env p st = st\<lparr>m_pp_map := (m_pp_map st)(p \<mapsto> a_empty (env_astl env))\<rparr>"

definition pp_store :: "addr \<Rightarrow> 'a \<Rightarrow> 'a pp_state \<Rightarrow> 'a pp_state" where
  "pp_store p A st = st\<lparr>m_pp_map := (m_pp_map st)(p \<mapsto> A)\<rparr>"

text \<open>
  The automaton with a single transition for a target graph, which is either an existing object
  or a new element of \<open>m_more_target_graphs\<close>.
\<close>

definition visit_atom :: "'a pp_env \<Rightarrow> addr \<Rightarrow> tg_ptr + cfa \<Rightarrow> 'a pp_state \<Rightarrow> 'a pp_state out" where
  "visit_atom env p tg st =
    (let N = env_astl env;
         (i, f, A) = new_initial_final N (a_empty N);
         (ptr, more) = (case tg of Inl ptr \<Rightarrow> (ptr, m_more_target_graphs st)
            | Inr g \<Rightarrow> (TG_more (length (m_more_target_graphs st)), m_more_target_graphs st @ [g]))
     in obind (Some (to_index ptr (m_target_graph_index st))) (\<lambda>(k, ix).
          Some (Inr (st\<lparr>m_pp_map := (m_pp_map st)(p \<mapsto> a_set_trans N i k f A),
            m_target_graph_index := ix, m_more_target_graphs := more\<rparr>))))"

definition visit_Edgecov :: "'a pp_env \<Rightarrow> addr \<Rightarrow> 'e fql_node \<Rightarrow> 'a pp_state \<Rightarrow> 'a pp_state out" where
  "visit_Edgecov env p filter_expr st =
    (if m_pp_map st p \<noteq> None then Some (Inr st)
     else let tgg = env_filter env (node_addr filter_expr) in
       visit_atom env p
         (if m_disconnected_nodes tgg \<noteq> [] then
            Inr \<lparr>m_disconnected_nodes = [], m_edges = m_edges tgg, m_initial = m_initial tgg\<rparr>
          else Inl (TG_filter (node_addr filter_expr))) st)"

definition visit_Nodecov :: "'a pp_env \<Rightarrow> addr \<Rightarrow> 'e fql_node \<Rightarrow> 'a pp_state \<Rightarrow> 'a pp_state out" where
  "visit_Nodecov env p filter_expr st =
    (if m_pp_map st p \<noteq> None then Some (Inr st)
     else visit_atom env p
       (Inr \<lparr>m_disconnected_nodes = get_L (env_filter env (node_addr filter_expr)),
          m_edges = [], m_initial = []\<rparr>) st)"

definition visit_Predicate :: "'a pp_env \<Rightarrow> addr \<Rightarrow> 'a pp_state \<Rightarrow> 'a pp_state out" where
  "visit_Predicate env p st =
    (if m_pp_map st p \<noteq> None then Some (Inr st) else visit_atom env p (Inl (TG_filter p)) st)"

text \<open>The depth-first construction for \<open>PATHS\<close>; the first argument is fuel.\<close>

fun dfs_build ::
  "nat \<Rightarrow> 'a pp_env \<Rightarrow> state \<Rightarrow> cfa_node \<Rightarrow> int \<Rightarrow> (cfa_node \<rightharpoonup> int) \<Rightarrow> cfa \<Rightarrow> 'a \<times> 'a pp_state
    \<Rightarrow> ('a \<times> 'a pp_state) out"
and dfs_succs ::
  "nat \<Rightarrow> 'a pp_env \<Rightarrow> state \<Rightarrow> cfa_node \<Rightarrow> int \<Rightarrow> (cfa_node \<rightharpoonup> int) \<Rightarrow> cfa \<Rightarrow> cfa_node list
    \<Rightarrow> bool \<Rightarrow> 'a \<times> 'a pp_state \<Rightarrow> (bool \<times> 'a \<times> 'a pp_state) out" where
  "dfs_build 0 env state root bound nc tgg s = None"
| "dfs_build (Suc k) env state root bound nc tgg s =
    obind (dfs_succs k env state root bound nc tgg (env_successors env root) False s)
      (\<lambda>(may_be_end, ta, st).
        let N = env_astl env in
        if a_delta2 N ta state = [] then Some (Inr (a_set_final N state True ta, st))
        else if may_be_end \<and> a_delta2_backwards N ta state \<noteq> [] then
          (let in_edge = hd (a_delta2_backwards N ta state);
               (new_state, ta) = a_new_state N ta
           in Some (Inr (a_set_final N new_state True
                (a_set_trans N (snd in_edge) (fst in_edge) new_state ta), st)))
        else Some (Inr (ta, st)))"
| "dfs_succs k env state root bound nc tgg [] may_be_end s = Some (Inr (may_be_end, s))"
| "dfs_succs k env state root bound nc tgg (succ # succs) may_be_end s =
    (if env_ignore env (snd root) then
       obind (dfs_build k env state succ bound nc tgg s) (\<lambda>(ta, st).
         dfs_succs k env state root bound nc tgg succs
           (if a_delta2 (env_astl env) ta state = [] then True else may_be_end) (ta, st))
     else if nc succ = Some bound then dfs_succs k env state root bound nc tgg succs True s
     else if std_find edge_lt (root, succ) (m_edges tgg) = None then
       dfs_succs k env state root bound nc tgg succs True s
     else
       (let (ta, st) = s;
            N = env_astl env;
            ptr = TG_more (length (m_more_target_graphs st));
            more = m_more_target_graphs st @
              [\<lparr>m_disconnected_nodes = [], m_edges = [(root, succ)], m_initial = []\<rparr>];
            nc_next = nc(succ \<mapsto> (case nc succ of None \<Rightarrow> 1 | Some c \<Rightarrow> c + 1));
            (new_state, ta) = a_new_state N ta
        in obind (Some (to_index ptr (m_target_graph_index st))) (\<lambda>(l, ix).
             obind (dfs_build k env new_state succ bound nc_next tgg
               (a_set_trans N state l new_state ta,
                st\<lparr>m_target_graph_index := ix, m_more_target_graphs := more\<rparr>))
               (dfs_succs k env state root bound nc tgg succs may_be_end))))"

fun pathcov_initials ::
  "'a pp_env \<Rightarrow> state \<Rightarrow> int \<Rightarrow> cfa \<Rightarrow> cfa_node list \<Rightarrow> 'a \<times> 'a pp_state \<Rightarrow> ('a \<times> 'a pp_state) out" where
  "pathcov_initials env current_initial bound tgg [] s = Some (Inr s)"
| "pathcov_initials env current_initial bound tgg (root # roots) s =
    (let (ta, st) = s; N = env_astl env; (i_state, ta) = a_new_state N ta;
         ta = a_set_trans N current_initial epsilon i_state ta
     in obind (dfs_build (env_fuel env) env i_state root bound [root \<mapsto> 1] tgg (ta, st)) (\<lambda>(ta, st).
          pathcov_initials env current_initial bound tgg roots
            (if a_final N ta i_state then a_set_final N i_state False ta else ta, st)))"

definition visit_Pathcov ::
  "'a pp_env \<Rightarrow> addr \<Rightarrow> 'e fql_node \<Rightarrow> int \<Rightarrow> 'a pp_state \<Rightarrow> 'a pp_state out" where
  "visit_Pathcov env p filter_expr bound st =
    (if m_pp_map st p \<noteq> None then Some (Inr st)
     else
       (let N = env_astl env; (i, A) = a_new_state N (a_empty N);
            A = a_set_initial N (insert i (a_initial N A)) A;
            tgg = env_filter env (node_addr filter_expr)
        in obind (pathcov_initials env i bound tgg (m_initial tgg) (A, pp_enter env p st)) (\<lambda>(A, st).
             Some (Inr (pp_store p A st)))))"

fun visit_pp :: "'a pp_env \<Rightarrow> 'e fql_node \<Rightarrow> 'a pp_state \<Rightarrow> 'a pp_state out" where
  "visit_pp env (Edgecov p filter_expr) st = visit_Edgecov env p filter_expr st"
| "visit_pp env (Nodecov p filter_expr) st = visit_Nodecov env p filter_expr st"
| "visit_pp env (Pathcov p filter_expr bound) st = visit_Pathcov env p filter_expr bound st"
| "visit_pp env (Predicate p e) st = visit_Predicate env p st"
| "visit_pp env (PP_Alternative p a b) st =
    (if m_pp_map st p \<noteq> None then Some (Inr st)
     else obind (visit_pp env a (pp_enter env p st)) (\<lambda>st. obind (visit_pp env b st) (\<lambda>st.
       Some (Inr (pp_store p (build_alternative (env_astl env) (the (m_pp_map st (node_addr a)))
         (the (m_pp_map st (node_addr b))) (the (m_pp_map st p))) st)))))"
| "visit_pp env (PP_Concat p a b) st =
    (if m_pp_map st p \<noteq> None then Some (Inr st)
     else obind (visit_pp env a (pp_enter env p st)) (\<lambda>st. obind (visit_pp env b st) (\<lambda>st.
       Some (Inr (pp_store p (build_concat (env_astl env) (the (m_pp_map st (node_addr a)))
         (the (m_pp_map st (node_addr b))) (the (m_pp_map st p))) st)))))"
| "visit_pp env (Repeat p q lb ub) st =
    (if m_pp_map st p \<noteq> None then Some (Inr st)
     else obind (visit_pp env q (pp_enter env p st)) (\<lambda>st.
       Some (Inr (pp_store p (build_repeat (env_astl env) (the (m_pp_map st (node_addr q))) lb ub
         (the (m_pp_map st p))) st))))"
| "visit_pp env _ st = Some (Inr st)"

text \<open>\<open>simplify_automaton(m_entry.first->second, true)\<close> on the entry of a pattern.\<close>

definition simplify_entry :: "'a pp_env \<Rightarrow> addr \<Rightarrow> 'a pp_state \<Rightarrow> 'a pp_state out" where
  "simplify_entry env p st =
    (case simplify_automaton (env_astl env) True (the (m_pp_map st p)) of
       None \<Rightarrow> None | Some A \<Rightarrow> Some (Inr (pp_store p A st)))"

fun visit_cp :: "'a pp_env \<Rightarrow> 'e fql_node \<Rightarrow> 'a pp_state \<Rightarrow> 'a pp_state out" where
  "visit_cp env (CP_Alternative p a b) st = obind (visit_cp env a st) (visit_cp env b)"
| "visit_cp env (CP_Concat p a b) st = obind (visit_cp env a st) (visit_cp env b)"
| "visit_cp env (Quote p q) st = obind (visit_pp env q st) (simplify_entry env (node_addr q))"
| "visit_cp env n st = visit_pp env n st"

fun visit_query :: "'a pp_env \<Rightarrow> 'e fql_node \<Rightarrow> 'a pp_state \<Rightarrow> 'a pp_state out" where
  "visit_query env (Query p pre cover (Some passing)) st =
    obind (visit_cp env cover st) (\<lambda>st. obind (visit_pp env passing st)
      (simplify_entry env (node_addr passing)))"
| "visit_query env _ st = Some (Inr st)"

text \<open>
  \<open>do_query\<close> after the filter evaluation: \<open>id_addr\<close> is the node of the identity
  filter.
\<close>

definition pp_do_query :: "'a pp_env \<Rightarrow> addr \<Rightarrow> 'e fql_node \<Rightarrow> 'a pp_state \<Rightarrow> 'a pp_state out" where
  "pp_do_query env id_addr query st =
    obind (Some (tg_init (TG_filter id_addr) (tg_clear (m_target_graph_index st)))) (\<lambda>ix.
      visit_query env query
        (st\<lparr>m_pp_map := Map.empty, m_target_graph_index := ix, m_more_target_graphs := []\<rparr>))"

section \<open>The meaning of path patterns\<close>

text \<open>The words of target graphs a pattern denotes; \<open>F\<close> maps filter nodes to target graphs.\<close>

fun pp_lang :: "(addr \<Rightarrow> cfa) \<Rightarrow> 'e fql_node \<Rightarrow> cfa list set" where
  "pp_lang F (Edgecov p filter_expr) = {[(F (node_addr filter_expr))\<lparr>m_disconnected_nodes := []\<rparr>]}"
| "pp_lang F (Nodecov p filter_expr) =
     {[\<lparr>m_disconnected_nodes = get_L (F (node_addr filter_expr)), m_edges = [], m_initial = []\<rparr>]}"
| "pp_lang F (Predicate p e) = {[F p]}"
| "pp_lang F (PP_Alternative p a b) = pp_lang F a \<union> pp_lang F b"
| "pp_lang F (PP_Concat p a b) = conc (pp_lang F a) (pp_lang F b)"
| "pp_lang F (Repeat p q l u) =
     (if u = - 1 then \<Union>n\<in>{nat l..}. lpow (pp_lang F q) n else \<Union>n\<in>{nat l..nat u}. lpow (pp_lang F q) n)"
| "pp_lang F n = {}"

text \<open>
  Patterns whose automata have no transition into an initial state or out of a final state.
  \<open>D\<close> are the patterns whose automata may have been simplified in place.
\<close>

fun clean_start :: "'e fql_node set \<Rightarrow> 'e fql_node \<Rightarrow> bool" where
  "clean_start D (PP_Concat p a b) \<longleftrightarrow> PP_Concat p a b \<notin> D \<and> clean_start D a"
| "clean_start D (Repeat p q l u) \<longleftrightarrow> Repeat p q l u \<notin> D \<and> (u \<noteq> - 1 \<or> 0 < l) \<and> clean_start D q"
| "clean_start D n \<longleftrightarrow> n \<notin> D"

fun clean_end :: "'e fql_node set \<Rightarrow> 'e fql_node \<Rightarrow> bool" where
  "clean_end D (PP_Concat p a b) \<longleftrightarrow> PP_Concat p a b \<notin> D \<and> clean_end D b"
| "clean_end D (Repeat p q l u) \<longleftrightarrow> Repeat p q l u \<notin> D \<and> u \<noteq> - 1 \<and> clean_end D q"
| "clean_end D n \<longleftrightarrow> n \<notin> D"

fun supported :: "'e fql_node set \<Rightarrow> 'e fql_node \<Rightarrow> bool" where
  "supported D (Edgecov p f) \<longleftrightarrow> True"
| "supported D (Nodecov p f) \<longleftrightarrow> True"
| "supported D (Predicate p e) \<longleftrightarrow> True"
| "supported D (PP_Alternative p a b) \<longleftrightarrow> supported D a \<and> supported D b"
| "supported D (PP_Concat p a b) \<longleftrightarrow> supported D a \<and> supported D b"
| "supported D (Repeat p q l u) \<longleftrightarrow> supported D q \<and> 0 \<le> l \<and> (u = - 1 \<or> l \<le> u \<and> 0 < u)
     \<and> (u = - 1 \<or> l < u \<longrightarrow> clean_start D q \<and> clean_end D q)"
| "supported D n \<longleftrightarrow> False"

fun pp_nodes :: "'e fql_node \<Rightarrow> 'e fql_node set" where
  "pp_nodes (PP_Alternative p a b) = insert (PP_Alternative p a b) (pp_nodes a \<union> pp_nodes b)"
| "pp_nodes (PP_Concat p a b) = insert (PP_Concat p a b) (pp_nodes a \<union> pp_nodes b)"
| "pp_nodes (Repeat p q l u) = insert (Repeat p q l u) (pp_nodes q)"
| "pp_nodes n = {n}"

lemma self_in_pp_nodes [simp]: "n \<in> pp_nodes n"
  by (cases n) auto

lemma pp_nodes_size: "m \<in> pp_nodes n \<Longrightarrow> size m \<le> size n"
  by (induction n rule: pp_nodes.induct) auto

lemma pp_lang_nonempty: "supported D n \<Longrightarrow> pp_lang F n \<noteq> {}"
  by (induction D n rule: supported.induct) auto

lemma map_conc: "map f ` conc A B = conc (map f ` A) (map f ` B)"
  by (auto simp: conc_def image_iff) (metis map_append)+

lemma map_lpow: "map f ` lpow A n = lpow (map f ` A) n"
  by (induction n) (auto simp: map_conc)

lemma lists_conc: "A \<subseteq> lists X \<Longrightarrow> B \<subseteq> lists X \<Longrightarrow> conc A B \<subseteq> lists X"
  unfolding conc_def by fastforce

lemma lists_lpow: "A \<subseteq> lists X \<Longrightarrow> lpow A n \<subseteq> lists X"
  by (induction n) (simp_all add: lists_conc)

section \<open>Correctness of the visitor\<close>

abbreviation indices :: "'a pp_state \<Rightarrow> int set" where
  "indices st \<equiv> {i. lookup_index i (m_target_graph_index st) \<noteq> None}"

definition tg_val :: "'a pp_env \<Rightarrow> 'a pp_state \<Rightarrow> int \<Rightarrow> cfa" where
  "tg_val env st i = deref env st (the (lookup_index i (m_target_graph_index st)))"

definition st_ok :: "'a pp_state \<Rightarrow> bool" where
  "st_ok st \<longleftrightarrow> tg_inv (m_target_graph_index st)
     \<and> (\<forall>i k. lookup_index i (m_target_graph_index st) = Some (TG_more k) \<longrightarrow> k < length (m_more_target_graphs st))"

text \<open>Indices and further target graphs are only ever added.\<close>

definition extends :: "'a pp_state \<Rightarrow> 'a pp_state \<Rightarrow> bool" where
  "extends st st' \<longleftrightarrow> (\<forall>i g. lookup_index i (m_target_graph_index st) = Some g
       \<longrightarrow> lookup_index i (m_target_graph_index st') = Some g)
     \<and> (\<exists>gs. m_more_target_graphs st' = m_more_target_graphs st @ gs)"

lemma extends_refl [simp]: "extends st st"
  by (simp add: extends_def)

lemma extends_trans: "extends a b \<Longrightarrow> extends b c \<Longrightarrow> extends a c"
  unfolding extends_def by (metis append_assoc)

lemma tg_val_extends: "st_ok st \<Longrightarrow> extends st st' \<Longrightarrow> i \<in> indices st \<Longrightarrow> tg_val env st' i = tg_val env st i"
  by (auto simp: st_ok_def extends_def tg_val_def deref_def nth_append split: tg_ptr.splits)

context astl_nfa
begin

definition entry_ok :: "'e fql_node set \<Rightarrow> 'a pp_env \<Rightarrow> 'a pp_state \<Rightarrow> 'e fql_node \<Rightarrow> 'a \<Rightarrow> bool" where
  "entry_ok D env st n A \<longleftrightarrow> inv A \<and> lang A \<subseteq> lists (indices st)
     \<and> map (tg_val env st) ` lang A = pp_lang (env_filter env) n
     \<and> (clean_start D n \<longrightarrow> start_clean (T A) (initials A)) \<and> (clean_end D n \<longrightarrow> end_clean (T A) (a_finals N A))
     \<and> (clean_start D n \<and> clean_end D n \<longrightarrow> initials A \<inter> a_finals N A = {})"

definition pp_ok :: "'e fql_node set \<Rightarrow> 'a pp_env \<Rightarrow> 'e fql_node set \<Rightarrow> 'a pp_state \<Rightarrow> bool" where
  "pp_ok D env X st \<longleftrightarrow> st_ok st
     \<and> (\<forall>n\<in>X. \<forall>A. m_pp_map st (node_addr n) = Some A \<longrightarrow> entry_ok D env st n A)"

lemma entry_ok_extends:
  assumes "entry_ok D env st n A" "st_ok st" "extends st st'"
  shows "entry_ok D env st' n A"
proof -
  have "map (tg_val env st') w = map (tg_val env st) w" if "w \<in> lang A" for w
  proof (rule map_cong [OF refl])
    fix i assume "i \<in> set w"
    then have "i \<in> indices st" using assms(1) that unfolding entry_ok_def by (blast dest: in_listsD)
    then show "tg_val env st' i = tg_val env st i" by (rule tg_val_extends [OF assms(2,3)])
  qed
  then have "map (tg_val env st') ` lang A = map (tg_val env st) ` lang A" by (rule image_cong [OF refl])
  moreover have "indices st \<subseteq> indices st'" using assms(3) by (auto simp: extends_def)
  then have "lang A \<subseteq> lists (indices st')" using assms(1) lists_mono unfolding entry_ok_def by blast
  ultimately show ?thesis using assms(1) unfolding entry_ok_def by simp
qed

text \<open>What a visit of \<open>n\<close> does to the state.\<close>

definition visited :: "'e fql_node set \<Rightarrow> 'a pp_env \<Rightarrow> 'e fql_node \<Rightarrow> 'a pp_state \<Rightarrow> 'a pp_state \<Rightarrow> bool" where
  "visited D env n st st' \<longleftrightarrow> pp_ok D env (pp_nodes n) st' \<and> extends st st'
     \<and> m_pp_map st' (node_addr n) \<noteq> None \<and> dom (m_pp_map st) \<subseteq> dom (m_pp_map st')
     \<and> (\<forall>a. a \<notin> node_addr ` pp_nodes n \<longrightarrow> m_pp_map st' a = m_pp_map st a)"

lemma visited_others:
  assumes "visited D env n st st'" "pp_ok D env X st" "inj_on node_addr (X \<union> pp_nodes n)"
  shows "pp_ok D env (X \<union> pp_nodes n) st'"
proof -
  have "entry_ok D env st' m A" if m: "m \<in> X" "m_pp_map st' (node_addr m) = Some A" for m A
  proof (cases "m \<in> pp_nodes n")
    case False
    then have "node_addr m \<notin> node_addr ` pp_nodes n" using m(1) assms(3) by (auto dest: inj_onD)
    then have "m_pp_map st (node_addr m) = Some A" using assms(1) m(2) by (simp add: visited_def)
    then have "entry_ok D env st m A" "st_ok st" using assms(2) m(1) by (auto simp: pp_ok_def)
    then show ?thesis using assms(1) by (auto simp: visited_def intro: entry_ok_extends)
  qed (use assms(1) m in \<open>auto simp: visited_def pp_ok_def\<close>)
  then show ?thesis using assms(1) by (auto simp: visited_def pp_ok_def)
qed

lemma already_visited:
  "pp_ok D env (pp_nodes n) st \<Longrightarrow> m_pp_map st (node_addr n) \<noteq> None \<Longrightarrow> visited D env n st st"
  by (simp add: visited_def)

text \<open>Changing the map of automata only.\<close>

lemma change_map:
  "extends st (st\<lparr>m_pp_map := m\<rparr>)" "st_ok (st\<lparr>m_pp_map := m\<rparr>) \<longleftrightarrow> st_ok st"
  by (simp_all add: extends_def st_ok_def)

lemma pp_ok_change_map:
  assumes "pp_ok D env X st" "\<And>n. n \<in> X \<Longrightarrow> m (node_addr n) \<noteq> m_pp_map st (node_addr n)
      \<Longrightarrow> m (node_addr n) = Some A \<and> entry_ok D env st n A"
  shows "pp_ok D env X (st\<lparr>m_pp_map := m\<rparr>)"
proof -
  have "entry_ok D env (st\<lparr>m_pp_map := m\<rparr>) n B" if "n \<in> X" "m (node_addr n) = Some B" for n B
  proof (rule entry_ok_extends [OF _ _ change_map(1)])
    show "st_ok st" using assms(1) by (simp add: pp_ok_def)
    show "entry_ok D env st n B"
      using assms(1) assms(2) [OF that(1)] that by (cases "m (node_addr n) = m_pp_map st (node_addr n)") (auto simp: pp_ok_def)
  qed
  then show ?thesis using assms(1) by (simp add: pp_ok_def change_map)
qed

lemma pp_ok_subset: "pp_ok D env X st \<Longrightarrow> Y \<subseteq> X \<Longrightarrow> pp_ok D env Y st"
  by (auto simp: pp_ok_def)

lemma accepts_single: "k \<noteq> epsilon \<Longrightarrow> i \<noteq> f \<Longrightarrow> accepts {(i, k, f)} {i} {f} = {[k]}"
proof -
  assume k: "k \<noteq> epsilon" and ne: "i \<noteq> f"
  have none: "w = []" if "run {(i, k, f)} f w f" for w
    using that ne by (cases rule: run.cases) auto
  have "w = [k]" if "run {(i, k, f)} i w f" for w
    using that
  proof (cases rule: run.cases)
    case (run_step a q v)
    then show ?thesis using none [of v] by auto
  qed (use k ne in auto)
  moreover have "run {(i, k, f)} i [k] f" using k by (auto intro: run.intros)
  ultimately have "run {(i, k, f)} i w f \<longleftrightarrow> w = [k]" for w by metis
  then show ?thesis by (simp add: accepts_def)
qed

lemma atom_automaton:
  assumes "new_initial_final N (a_empty N) = (i, f, B)" "k \<noteq> epsilon"
  defines "A \<equiv> a_set_trans N i k f B"
  shows "inv A" "lang A = {[k]}" "clean A"
proof -
  note e = blankD [OF blank_empty]
  note b = new_initial_final_correct [OF _ assms(1)]
  have B: "inv B" "i \<noteq> f" "set (a_states N B) = {i, f}" "T B = {}" "a_initial N B = {i}" "a_finals N B = {f}"
    using b e by auto
  have "adds B A {(i, k, f)}" unfolding A_def using B by (intro adds_set_trans) auto
  then have A: "inv A" "initials A = {i}" "a_finals N A = {f}" "T A = {(i, k, f)}"
    using B adds_a_finals [of B A] by (auto simp: adds_def)
  then show "inv A" "lang A = {[k]}" "clean A"
    using accepts_single [OF assms(2) B(2)] B(2) by (auto simp: ta_lang_def start_clean_def end_clean_def)
qed

lemma visit_atom_correct:
  assumes N: "env_astl env = N" and st: "st_ok st" "m_pp_map st (node_addr n) = None" and n: "pp_nodes n = {n}"
    and tg: "pp_lang (env_filter env) n = {[case tg of Inl ptr \<Rightarrow> deref env st ptr | Inr g \<Rightarrow> g]}"
      "\<And>ptr. tg = Inl ptr \<Longrightarrow> \<exists>a. ptr = TG_filter a"
  shows "returns (visited D env n st) (visit_atom env (node_addr n) tg st)"
proof -
  obtain i f B where B: "new_initial_final N (a_empty N) = (i, f, B)" by (metis surj_pair)
  define ptr where "ptr = (case tg of Inl ptr \<Rightarrow> ptr | Inr g \<Rightarrow> TG_more (length (m_more_target_graphs st)))"
  define more where "more = (case tg of Inl ptr \<Rightarrow> m_more_target_graphs st | Inr g \<Rightarrow> m_more_target_graphs st @ [g])"
  let ?st = "\<lambda>k ix. st\<lparr>m_pp_map := (m_pp_map st)(node_addr n \<mapsto> a_set_trans N i k f B),
      m_target_graph_index := ix, m_more_target_graphs := more\<rparr>"
  have eq: "visit_atom env (node_addr n) tg st =
      obind (Some (to_index ptr (m_target_graph_index st))) (\<lambda>(k, ix). Some (Inr (?st k ix)))"
    by (simp add: visit_atom_def N B ptr_def more_def split: sum.splits)
  show ?thesis
  proof (cases "to_index ptr (m_target_graph_index st)")
    case (Inl e)
    then show ?thesis by (auto simp: eq to_index_def split: option.splits if_splits)
  next
    case (Inr r)
    obtain k ix where r: "to_index ptr (m_target_graph_index st) = Inr (k, ix)" using Inr by (cases r) auto
    have ti: "tg_inv (m_target_graph_index st)" using st(1) by (simp add: st_ok_def)
    note ix = to_index_inv [OF ti r]
    have k: "k \<noteq> epsilon" using ix(2) by auto
    note A = atom_automaton [OF B k]
    have more: "\<exists>gs. more = m_more_target_graphs st @ gs" by (auto simp: more_def split: sum.splits)
    have ext: "extends st (?st k ix)" using ix(4) more by (simp add: extends_def)
    have val: "tg_val env (?st k ix) k = (case tg of Inl ptr \<Rightarrow> deref env st ptr | Inr g \<Rightarrow> g)"
      using ix(3) tg(2) by (auto simp: tg_val_def deref_def ptr_def more_def split: sum.splits tg_ptr.splits)
    have "lookup_index j ix = Some (TG_more q) \<Longrightarrow> q < length more" for j q
    proof -
      assume j: "lookup_index j ix = Some (TG_more q)"
      show "q < length more"
      proof (cases "lookup_index j (m_target_graph_index st)")
        case (Some g)
        then have "q < length (m_more_target_graphs st)" using ix(4) [OF Some] j st(1) by (auto simp: st_ok_def)
        then show ?thesis using more by auto
      next
        case None
        then have "TG_more q = ptr"
          using j r by (auto simp: lookup_index_def to_index_def split: option.splits if_splits)
        then show ?thesis using tg(2) by (auto simp: ptr_def more_def split: sum.splits)
      qed
    qed
    then have ok: "st_ok (?st k ix)" using ix(1) by (simp add: st_ok_def)
    have "entry_ok D env (?st k ix) n (a_set_trans N i k f B)"
      using A ix(3) val tg(1) by (simp add: entry_ok_def)
    then have "visited D env n st (?st k ix)" using ok ext n by (auto simp: visited_def pp_ok_def)
    then show ?thesis by (simp add: eq r)
  qed
qed

text \<open>
  A composed pattern \<open>n\<close>: an entry is made, the operands are visited, and the automaton
  \<open>build st\<close> of their automata is stored.
\<close>

lemma pp_ok_entered:
  assumes "pp_ok D env (pp_nodes n) st" "Y \<subseteq> pp_nodes n - {n}" "inj_on node_addr (pp_nodes n)"
  shows "pp_ok D env Y (pp_enter env (node_addr n) st)"
  unfolding pp_enter_def
proof (rule pp_ok_change_map [OF pp_ok_subset [OF assms(1)]])
  show "Y \<subseteq> pp_nodes n" using assms(2) by auto
  fix m assume m: "m \<in> Y"
  then have "node_addr m \<noteq> node_addr n" using assms(2,3) inj_onD by fastforce
  moreover assume "((m_pp_map st)(node_addr n \<mapsto> a_empty (env_astl env))) (node_addr m) \<noteq> m_pp_map st (node_addr m)"
  ultimately show "((m_pp_map st)(node_addr n \<mapsto> a_empty (env_astl env))) (node_addr m) = Some undefined
      \<and> entry_ok D env st m undefined" by simp
qed

lemma visited_composed:
  assumes n: "pp_nodes n = insert n Y" "n \<notin> Y" "inj_on node_addr (pp_nodes n)"
    and st: "pp_ok D env Y st2" "extends (pp_enter env (node_addr n) st) st2"
      "dom (m_pp_map (pp_enter env (node_addr n) st)) \<subseteq> dom (m_pp_map st2)"
      "\<And>a. a \<notin> node_addr ` Y \<Longrightarrow> m_pp_map st2 a = m_pp_map (pp_enter env (node_addr n) st) a"
    and R: "entry_ok D env st2 n R"
  shows "visited D env n st (pp_store (node_addr n) R st2)"
proof -
  have ok: "st_ok st2" using st(1) by (simp add: pp_ok_def)
  have ext: "extends st2 (pp_store (node_addr n) R st2)" unfolding pp_store_def by (rule change_map)
  have "entry_ok D env (pp_store (node_addr n) R st2) m B"
    if "m \<in> pp_nodes n" "m_pp_map (pp_store (node_addr n) R st2) (node_addr m) = Some B" for m B
  proof (rule entry_ok_extends [OF _ ok ext])
    show "entry_ok D env st2 m B"
    proof (cases "m = n")
      case False
      then have "m \<in> Y" "node_addr m \<noteq> node_addr n" using that(1) n(1) inj_onD [OF n(3), of m n] by auto
      then show ?thesis using that(2) st(1) by (simp add: pp_store_def pp_ok_def)
    qed (use that R in \<open>simp add: pp_store_def\<close>)
  qed
  then have "pp_ok D env (pp_nodes n) (pp_store (node_addr n) R st2)"
    using ok by (simp add: pp_ok_def pp_store_def change_map)
  moreover have "extends st (pp_store (node_addr n) R st2)"
    using extends_trans [OF extends_trans [OF _ st(2)] ext, of st] change_map(1) unfolding pp_enter_def by blast
  moreover have "m_pp_map (pp_store (node_addr n) R st2) a = m_pp_map st a" if "a \<notin> node_addr ` pp_nodes n" for a
    using that st(4) [of a] n(1) by (auto simp: pp_store_def pp_enter_def)
  ultimately show ?thesis using st(3) by (auto simp: visited_def pp_store_def pp_enter_def)
qed

lemma visited_twice:
  assumes a: "visited D env a st0 st1" and b: "visited D env b st1 st2" and ok: "pp_ok D env (pp_nodes b) st0"
    and inj: "inj_on node_addr (pp_nodes a \<union> pp_nodes b)"
  shows "pp_ok D env (pp_nodes a \<union> pp_nodes b) st2" "extends st0 st2" "dom (m_pp_map st0) \<subseteq> dom (m_pp_map st2)"
    "\<And>x. x \<notin> node_addr ` (pp_nodes a \<union> pp_nodes b) \<Longrightarrow> m_pp_map st2 x = m_pp_map st0 x"
    "m_pp_map st2 (node_addr a) \<noteq> None" "m_pp_map st2 (node_addr b) \<noteq> None"
proof -
  show "pp_ok D env (pp_nodes a \<union> pp_nodes b) st2"
    using visited_others [OF b, of "pp_nodes a"] a inj by (simp add: visited_def)
  show "extends st0 st2" using a b extends_trans by (auto simp: visited_def)
  have dom: "dom (m_pp_map st0) \<subseteq> dom (m_pp_map st1)" "dom (m_pp_map st1) \<subseteq> dom (m_pp_map st2)"
    and here: "node_addr a \<in> dom (m_pp_map st1)" "node_addr b \<in> dom (m_pp_map st2)"
    using a b by (simp_all add: visited_def domIff)
  show "dom (m_pp_map st0) \<subseteq> dom (m_pp_map st2)" using dom by (rule subset_trans)
  show "m_pp_map st2 (node_addr a) \<noteq> None" "m_pp_map st2 (node_addr b) \<noteq> None"
    using here dom(2) by (auto simp: subset_iff domIff)
  show "\<And>x. x \<notin> node_addr ` (pp_nodes a \<union> pp_nodes b) \<Longrightarrow> m_pp_map st2 x = m_pp_map st0 x"
    using a b by (simp add: visited_def image_Un)
qed

lemma entry_alternative:
  assumes "entry_ok D env st a A" "entry_ok D env st b B"
  shows "entry_ok D env st (PP_Alternative p a b) (build_alternative N A B (a_empty N))"
proof -
  have "inv A" "inv B" using assms by (auto simp: entry_ok_def)
  note R = build_alternative_correct [OF this blank_empty]
  show ?thesis using assms R unfolding entry_ok_def R(2) by (simp add: image_Un)
qed

lemma entry_concat:
  assumes "entry_ok D env st a A" "entry_ok D env st b B"
  shows "entry_ok D env st (PP_Concat p a b) (build_concat N A B (a_empty N))"
proof -
  have "inv A" "inv B" using assms by (auto simp: entry_ok_def)
  note R = build_concat_correct [OF this blank_empty]
  show ?thesis using assms R unfolding entry_ok_def R(2) by (simp add: map_conc lists_conc)
qed

lemma entry_repeat:
  assumes "entry_ok D env st q A" "supported D (Repeat p q l u)"
  shows "entry_ok D env st (Repeat p q l u) (build_repeat N A l u (a_empty N))"
proof -
  note A = assms(1) [unfolded entry_ok_def]
  have "lang A \<noteq> {}" using A pp_lang_nonempty [of D q "env_filter env"] assms(2) by auto
  moreover have "clean A" if "u = - 1 \<or> l < u" using A assms(2) that by simp
  ultimately have R: "inv (build_repeat N A l u (a_empty N))"
    "lang (build_repeat N A l u (a_empty N)) = (if u = - 1 then \<Union>n\<in>{nat l..}. lpow (lang A) n else \<Union>n\<in>{nat l..nat u}. lpow (lang A) n)"
    "start_clean (T A) (initials A) \<Longrightarrow> u \<noteq> - 1 \<or> 0 < l \<Longrightarrow> start_clean (T (build_repeat N A l u (a_empty N))) (initials (build_repeat N A l u (a_empty N)))"
    "end_clean (T A) (a_finals N A) \<Longrightarrow> u \<noteq> - 1 \<Longrightarrow> end_clean (T (build_repeat N A l u (a_empty N))) (a_finals N (build_repeat N A l u (a_empty N)))"
    "initials A \<inter> a_finals N A = {} \<Longrightarrow> initials (build_repeat N A l u (a_empty N)) \<inter> a_finals N (build_repeat N A l u (a_empty N)) = {}"
    using build_repeat_correct [of A l u "a_empty N"] A assms(2) blank_empty by auto
  have "lpow (lang A) n \<subseteq> lists (indices st)" for n using A by (intro lists_lpow) simp
  then have "lang (build_repeat N A l u (a_empty N)) \<subseteq> lists (indices st)" unfolding R(2) by auto
  moreover have "map (tg_val env st) ` lang (build_repeat N A l u (a_empty N)) = pp_lang (env_filter env) (Repeat p q l u)"
    unfolding R(2) using A by (simp add: image_UN map_lpow)
  ultimately show ?thesis using A R unfolding entry_ok_def by auto
qed

lemma operand_not_self:
  "PP_Alternative p a b \<notin> pp_nodes a \<union> pp_nodes b" "PP_Concat p a b \<notin> pp_nodes a \<union> pp_nodes b"
  "Repeat p q l u \<notin> pp_nodes q"
  using pp_nodes_size [of _ a] pp_nodes_size [of _ b] pp_nodes_size [of _ q] by fastforce+

lemma visit_two:
  assumes N: "env_astl env = N" and n: "pp_nodes n = insert n (pp_nodes a \<union> pp_nodes b)" "n \<notin> pp_nodes a \<union> pp_nodes b"
    and inj: "inj_on node_addr (pp_nodes n)" and st: "pp_ok D env (pp_nodes n) st"
    and IHa: "\<And>st. \<lbrakk>inj_on node_addr (pp_nodes a); pp_ok D env (pp_nodes a) st\<rbrakk> \<Longrightarrow> returns (visited D env a st) (visit_pp env a st)"
    and IHb: "\<And>st. \<lbrakk>inj_on node_addr (pp_nodes b); pp_ok D env (pp_nodes b) st\<rbrakk> \<Longrightarrow> returns (visited D env b st) (visit_pp env b st)"
    and build: "\<And>st A B. entry_ok D env st a A \<Longrightarrow> entry_ok D env st b B \<Longrightarrow> entry_ok D env st n (build A B (a_empty N))"
  shows "returns (visited D env n st) (obind (visit_pp env a (pp_enter env (node_addr n) st)) (\<lambda>st.
    obind (visit_pp env b st) (\<lambda>st. Some (Inr (pp_store (node_addr n) (build (the (m_pp_map st (node_addr a)))
      (the (m_pp_map st (node_addr b))) (the (m_pp_map st (node_addr n)))) st)))))"
proof -
  let ?st = "pp_enter env (node_addr n) st"
  have sub: "pp_nodes a \<union> pp_nodes b \<subseteq> pp_nodes n - {n}" using n by auto
  have ok: "pp_ok D env (pp_nodes a \<union> pp_nodes b) ?st" by (rule pp_ok_entered [OF st sub inj])
  have inj': "inj_on node_addr (pp_nodes a \<union> pp_nodes b)" using inj by (rule inj_on_subset) (use sub in auto)
  have nY: "node_addr n \<notin> node_addr ` (pp_nodes a \<union> pp_nodes b)"
    using inj n by (auto simp: inj_on_def)
  show ?thesis
  proof (rule returns_bind)
    show "returns (visited D env a ?st) (visit_pp env a ?st)"
      using inj' pp_ok_subset [OF ok] by (intro IHa) (auto simp: inj_on_Un)
  next
    fix st1 assume a: "visited D env a ?st st1"
    have ok1: "pp_ok D env (pp_nodes b) st1"
      using visited_others [OF a, of "pp_nodes b"] pp_ok_subset [OF ok] inj'
      by (auto simp: Un_commute intro: pp_ok_subset)
    show "returns (visited D env n st) (obind (visit_pp env b st1) (\<lambda>st. Some (Inr (pp_store (node_addr n)
      (build (the (m_pp_map st (node_addr a))) (the (m_pp_map st (node_addr b))) (the (m_pp_map st (node_addr n)))) st))))"
    proof (rule returns_bind)
      show "returns (visited D env b st1) (visit_pp env b st1)"
        using inj' ok1 by (intro IHb) (auto simp: inj_on_Un)
    next
      fix st2 assume b: "visited D env b st1 st2"
      note v = visited_twice [OF a b pp_ok_subset [OF ok] inj', OF Un_upper2]
      obtain A B where AB: "m_pp_map st2 (node_addr a) = Some A" "m_pp_map st2 (node_addr b) = Some B" using v(5,6) by auto
      have "m_pp_map st2 (node_addr n) = Some (a_empty N)" using v(4) [OF nY] N by (simp add: pp_enter_def)
      moreover have "entry_ok D env st2 a A" "entry_ok D env st2 b B" using v(1) AB by (auto simp: pp_ok_def)
      ultimately show "returns (visited D env n st) (Some (Inr (pp_store (node_addr n)
          (build (the (m_pp_map st2 (node_addr a))) (the (m_pp_map st2 (node_addr b))) (the (m_pp_map st2 (node_addr n)))) st2)))"
        using visited_composed [OF n inj v(1-4) build] AB by simp
    qed
  qed
qed

lemma visit_one:
  assumes N: "env_astl env = N" and n: "pp_nodes n = insert n (pp_nodes a)" "n \<notin> pp_nodes a"
    and inj: "inj_on node_addr (pp_nodes n)" and st: "pp_ok D env (pp_nodes n) st"
    and IHa: "\<And>st. \<lbrakk>inj_on node_addr (pp_nodes a); pp_ok D env (pp_nodes a) st\<rbrakk> \<Longrightarrow> returns (visited D env a st) (visit_pp env a st)"
    and build: "\<And>st A. entry_ok D env st a A \<Longrightarrow> entry_ok D env st n (build A (a_empty N))"
  shows "returns (visited D env n st) (obind (visit_pp env a (pp_enter env (node_addr n) st)) (\<lambda>st.
    Some (Inr (pp_store (node_addr n) (build (the (m_pp_map st (node_addr a))) (the (m_pp_map st (node_addr n)))) st))))"
proof -
  let ?st = "pp_enter env (node_addr n) st"
  have sub: "pp_nodes a \<subseteq> pp_nodes n - {n}" using n by auto
  have ok: "pp_ok D env (pp_nodes a) ?st" by (rule pp_ok_entered [OF st sub inj])
  have inj': "inj_on node_addr (pp_nodes a)" using inj by (rule inj_on_subset) (use sub in auto)
  have nY: "node_addr n \<notin> node_addr ` pp_nodes a" using inj n by (auto simp: inj_on_def)
  show ?thesis
  proof (rule returns_bind [OF IHa [OF inj' ok]])
    fix st1 assume "visited D env a ?st st1"
    note v = this [unfolded visited_def]
    obtain A where A: "m_pp_map st1 (node_addr a) = Some A" using v by auto
    have "m_pp_map st1 (node_addr n) = Some (a_empty N)" using v nY N by (simp add: pp_enter_def)
    moreover have "entry_ok D env st1 a A" using v A by (auto simp: pp_ok_def)
    moreover have "visited D env n st (pp_store (node_addr n) (build A (a_empty N)) st1)"
      using v build [OF \<open>entry_ok D env st1 a A\<close>] by (intro visited_composed [OF n inj]) auto
    ultimately show "returns (visited D env n st) (Some (Inr (pp_store (node_addr n)
        (build (the (m_pp_map st1 (node_addr a))) (the (m_pp_map st1 (node_addr n)))) st1)))"
      using A by simp
  qed
qed

lemma visit_pp_correct:
  assumes N: "env_astl env = N"
  shows "\<lbrakk>supported D n; inj_on node_addr (pp_nodes n); pp_ok D env (pp_nodes n) st\<rbrakk>
    \<Longrightarrow> returns (visited D env n st) (visit_pp env n st)"
proof (induction n arbitrary: st)
  case (Edgecov p f)
  show ?case
  proof (cases "m_pp_map st p")
    case None
    have "returns (visited D env (Edgecov p f) st) (visit_atom env (node_addr (Edgecov p f))
        (if m_disconnected_nodes (env_filter env (node_addr f)) \<noteq> []
         then Inr \<lparr>m_disconnected_nodes = [], m_edges = m_edges (env_filter env (node_addr f)),
           m_initial = m_initial (env_filter env (node_addr f))\<rparr>
         else Inl (TG_filter (node_addr f))) st)"
      using None Edgecov.prems(3) by (intro visit_atom_correct [OF N]) (auto simp: pp_ok_def deref_def split: if_splits)
    then show ?thesis using None by (simp add: visit_Edgecov_def Let_def)
  qed (use Edgecov.prems(3) in \<open>simp add: visit_Edgecov_def already_visited\<close>)
next
  case (Nodecov p f)
  show ?case
  proof (cases "m_pp_map st p")
    case None
    have "returns (visited D env (Nodecov p f) st) (visit_atom env (node_addr (Nodecov p f))
        (Inr \<lparr>m_disconnected_nodes = get_L (env_filter env (node_addr f)), m_edges = [], m_initial = []\<rparr>) st)"
      using None Nodecov.prems(3) by (intro visit_atom_correct [OF N]) (auto simp: pp_ok_def)
    then show ?thesis using None by (simp add: visit_Nodecov_def)
  qed (use Nodecov.prems(3) in \<open>simp add: visit_Nodecov_def already_visited\<close>)
next
  case (Predicate p e)
  show ?case
  proof (cases "m_pp_map st p")
    case None
    have "returns (visited D env (Predicate p e) st) (visit_atom env (node_addr (Predicate p e)) (Inl (TG_filter p)) st)"
      using None Predicate.prems(3) by (intro visit_atom_correct [OF N]) (auto simp: pp_ok_def deref_def)
    then show ?thesis using None by (simp add: visit_Predicate_def)
  qed (use Predicate.prems(3) in \<open>simp add: visit_Predicate_def already_visited\<close>)
next
  case (PP_Alternative p a b)
  show ?case
  proof (cases "m_pp_map st p")
    case None
    show ?thesis
    proof -
      have "returns (visited D env (PP_Alternative p a b) st) (obind (visit_pp env a (pp_enter env (node_addr (PP_Alternative p a b)) st)) (\<lambda>st.
        obind (visit_pp env b st) (\<lambda>st. Some (Inr (pp_store (node_addr (PP_Alternative p a b))
          (build_alternative N (the (m_pp_map st (node_addr a))) (the (m_pp_map st (node_addr b)))
            (the (m_pp_map st (node_addr (PP_Alternative p a b))))) st)))))"
        using PP_Alternative.prems(1)
        by (intro visit_two [OF N _ operand_not_self(1) PP_Alternative.prems(2,3)] PP_Alternative.IH entry_alternative) simp_all
      then show ?thesis using None by (simp add: N)
    qed
  qed (use PP_Alternative.prems(3) in \<open>simp add: already_visited\<close>)
next
  case (PP_Concat p a b)
  show ?case
  proof (cases "m_pp_map st p")
    case None
    show ?thesis
    proof -
      have "returns (visited D env (PP_Concat p a b) st) (obind (visit_pp env a (pp_enter env (node_addr (PP_Concat p a b)) st)) (\<lambda>st.
        obind (visit_pp env b st) (\<lambda>st. Some (Inr (pp_store (node_addr (PP_Concat p a b))
          (build_concat N (the (m_pp_map st (node_addr a))) (the (m_pp_map st (node_addr b)))
            (the (m_pp_map st (node_addr (PP_Concat p a b))))) st)))))"
        using PP_Concat.prems(1)
        by (intro visit_two [OF N _ operand_not_self(2) PP_Concat.prems(2,3)] PP_Concat.IH entry_concat) simp_all
      then show ?thesis using None by (simp add: N)
    qed
  qed (use PP_Concat.prems(3) in \<open>simp add: already_visited\<close>)
next
  case (Repeat p q l u)
  show ?case
  proof (cases "m_pp_map st p")
    case None
    show ?thesis
    proof -
      have "returns (visited D env (Repeat p q l u) st) (obind (visit_pp env q (pp_enter env (node_addr (Repeat p q l u)) st)) (\<lambda>st.
        Some (Inr (pp_store (node_addr (Repeat p q l u)) (build_repeat N (the (m_pp_map st (node_addr q))) l u
          (the (m_pp_map st (node_addr (Repeat p q l u))))) st))))"
        using Repeat.prems(1)
        by (intro visit_one [OF N _ operand_not_self(3) Repeat.prems(2,3), where build = "\<lambda>A. build_repeat N A l u"]
          Repeat.IH entry_repeat) simp_all
      then show ?thesis using None by (simp add: N)
    qed
  qed (use Repeat.prems(3) in \<open>simp add: already_visited\<close>)
qed auto

text \<open>A pattern of the query, whose nodes are among \<open>X\<close>.\<close>

lemma visit_pp_within:
  assumes "env_astl env = N" "supported D n" "pp_nodes n \<subseteq> X" "inj_on node_addr X" "pp_ok D env X st"
  shows "returns (\<lambda>st'. pp_ok D env X st' \<and> dom (m_pp_map st) \<subseteq> dom (m_pp_map st') \<and> node_addr n \<in> dom (m_pp_map st'))
    (visit_pp env n st)"
proof (rule returns_mono)
  show "returns (visited D env n st) (visit_pp env n st)"
    by (rule visit_pp_correct [OF assms(1,2) inj_on_subset [OF assms(4,3)] pp_ok_subset [OF assms(5,3)]])
  fix st' assume v: "visited D env n st st'"
  have "X \<union> pp_nodes n = X" using assms(3) by auto
  then show "pp_ok D env X st' \<and> dom (m_pp_map st) \<subseteq> dom (m_pp_map st') \<and> node_addr n \<in> dom (m_pp_map st')"
    using visited_others [OF v assms(5)] assms(4) v by (auto simp: visited_def)
qed

lemma simplify_entry_correct:
  assumes N: "env_astl env = N" and n: "n \<in> D" "n \<in> X" "inj_on node_addr X" and st: "pp_ok D env X st"
    and A: "node_addr n \<in> dom (m_pp_map st)"
  shows "returns (\<lambda>st'. pp_ok D env X st' \<and> dom (m_pp_map st') = dom (m_pp_map st)) (simplify_entry env (node_addr n) st)"
proof -
  obtain A where A: "m_pp_map st (node_addr n) = Some A" using assms(6) by auto
  then have e: "entry_ok D env st n A" using st n(2) by (auto simp: pp_ok_def)
  then obtain B where B: "simplify_automaton N True A = Some B" "inv B" "lang B = lang A"
    using simplify_automaton_correct [of A True] by (auto simp: entry_ok_def)
  have "\<not> clean_start D n" "\<not> clean_end D n" using n(1) by (cases n; simp)+
  then have eB: "entry_ok D env st n B" using e B by (simp add: entry_ok_def)
  have "pp_ok D env X (st\<lparr>m_pp_map := (m_pp_map st)(node_addr n \<mapsto> B)\<rparr>)"
  proof (rule pp_ok_change_map [OF st])
    fix m assume m: "m \<in> X" "((m_pp_map st)(node_addr n \<mapsto> B)) (node_addr m) \<noteq> m_pp_map st (node_addr m)"
    then have "m = n" using n(2,3) by (auto dest: inj_onD split: if_splits)
    then show "((m_pp_map st)(node_addr n \<mapsto> B)) (node_addr m) = Some B \<and> entry_ok D env st m B" using eB by simp
  qed
  then show ?thesis using A B N by (auto simp: simplify_entry_def pp_store_def)
qed

end

section \<open>Queries\<close>

text \<open>The patterns of a coverage specification, and those whose automata are simplified in place.\<close>

fun cp_tops :: "'e fql_node \<Rightarrow> 'e fql_node set" where
  "cp_tops (CP_Alternative p a b) = cp_tops a \<union> cp_tops b"
| "cp_tops (CP_Concat p a b) = cp_tops a \<union> cp_tops b"
| "cp_tops (Quote p q) = {q}"
| "cp_tops n = {n}"

fun cp_quoted :: "'e fql_node \<Rightarrow> 'e fql_node set" where
  "cp_quoted (CP_Alternative p a b) = cp_quoted a \<union> cp_quoted b"
| "cp_quoted (CP_Concat p a b) = cp_quoted a \<union> cp_quoted b"
| "cp_quoted (Quote p q) = {q}"
| "cp_quoted n = {}"

context astl_nfa
begin

definition evaluated :: "'e fql_node set \<Rightarrow> 'a pp_env \<Rightarrow> 'e fql_node set \<Rightarrow> 'a pp_state \<Rightarrow> 'e fql_node set \<Rightarrow> 'a pp_state \<Rightarrow> bool" where
  "evaluated D env X st P st' \<longleftrightarrow> pp_ok D env X st' \<and> dom (m_pp_map st) \<subseteq> dom (m_pp_map st')
     \<and> node_addr ` P \<subseteq> dom (m_pp_map st')"

lemma evaluated_trans: "evaluated D env X st P st1 \<Longrightarrow> evaluated D env X st1 Q st2 \<Longrightarrow> evaluated D env X st (P \<union> Q) st2"
  unfolding evaluated_def by blast

lemma evaluated_both:
  assumes "returns (evaluated D env X st P) m" "\<And>st1. pp_ok D env X st1 \<Longrightarrow> returns (evaluated D env X st1 Q) (f st1)"
  shows "returns (evaluated D env X st (P \<union> Q)) (obind m f)"
proof (rule returns_bind [OF assms(1)])
  fix st1 assume st1: "evaluated D env X st P st1"
  then have "returns (evaluated D env X st1 Q) (f st1)" using assms(2) by (simp add: evaluated_def)
  then show "returns (evaluated D env X st (P \<union> Q)) (f st1)" by (rule returns_mono) (rule evaluated_trans [OF st1])
qed

lemma visit_single:
  assumes "env_astl env = N" "inj_on node_addr X" "supported D n" "pp_nodes n \<subseteq> X" "pp_ok D env X st"
  shows "returns (evaluated D env X st {n}) (visit_pp env n st)"
  using visit_pp_within [OF assms(1,3,4,2,5)] by (rule returns_mono) (simp add: evaluated_def)

lemma visit_simplified:
  assumes "env_astl env = N" "inj_on node_addr X" "supported D n" "pp_nodes n \<subseteq> X" "pp_ok D env X st" "n \<in> D"
  shows "returns (evaluated D env X st {n}) (obind (visit_pp env n st) (simplify_entry env (node_addr n)))"
proof (rule returns_bind [OF visit_single [OF assms(1-5)]])
  fix st1 assume st1: "evaluated D env X st {n} st1"
  have "n \<in> X" using assms(4) self_in_pp_nodes [of n] by blast
  with st1 have "returns (\<lambda>st'. pp_ok D env X st' \<and> dom (m_pp_map st') = dom (m_pp_map st1)) (simplify_entry env (node_addr n) st1)"
    by (intro simplify_entry_correct [OF assms(1,6) _ assms(2)]) (auto simp: evaluated_def)
  then show "returns (evaluated D env X st {n}) (simplify_entry env (node_addr n) st1)"
    by (rule returns_mono) (use st1 in \<open>auto simp: evaluated_def\<close>)
qed

lemma visit_cp_correct:
  assumes N: "env_astl env = N" and inj: "inj_on node_addr X"
  shows "\<lbrakk>\<forall>n\<in>cp_tops cp. supported D n \<and> pp_nodes n \<subseteq> X; cp_quoted cp \<subseteq> D; pp_ok D env X st\<rbrakk>
    \<Longrightarrow> returns (evaluated D env X st (cp_tops cp)) (visit_cp env cp st)"
proof (induction cp arbitrary: st)
  case (CP_Alternative p a b)
  then show ?case using evaluated_both [of D env X st "cp_tops a" _ "cp_tops b" "visit_cp env b"] by simp
next
  case (CP_Concat p a b)
  then show ?case using evaluated_both [of D env X st "cp_tops a" _ "cp_tops b" "visit_cp env b"] by simp
next
  case (Quote p q)
  then show ?case using visit_simplified [OF N inj, of D q st] by simp
qed (use visit_single [OF N inj] in \<open>simp_all del: visit_pp.simps supported.simps pp_nodes.simps\<close>)

lemma do_query_correct:
  assumes N: "env_astl env = N" and q: "query = Query p pre cover (Some passing)"
  defines "tops \<equiv> insert passing (cp_tops cover)" and "D \<equiv> insert passing (cp_quoted cover)"
  assumes inj: "inj_on node_addr (\<Union>n\<in>tops. pp_nodes n)" and sup: "\<And>n. n \<in> tops \<Longrightarrow> supported D n"
  shows "returns (\<lambda>st'. \<forall>n\<in>tops. \<exists>A. m_pp_map st' (node_addr n) = Some A \<and> inv A
      \<and> map (tg_val env st') ` lang A = pp_lang (env_filter env) n) (pp_do_query env id_addr query st)"
proof -
  let ?X = "\<Union>n\<in>tops. pp_nodes n"
  let ?ix = "(tg_clear (m_target_graph_index st))\<lparr>m_initialized := True\<rparr>"
  have ix: "tg_inv ?ix" "m_target_graph_to_int ?ix = Map.empty" "m_next_index ?ix < int_max" "m_int_to_target_graph ?ix = Map.empty"
    using tg_clear_inv(1) [of "m_target_graph_index st"] by (auto simp: tg_inv_def tg_clear_def int_max_def)
  obtain k ix0 where r: "to_index (TG_filter id_addr) ?ix = Inr (k, ix0)" using ix by (simp add: to_index_def)
  note ix0 = to_index_inv [OF ix(1) r]
  let ?st0 = "st\<lparr>m_pp_map := Map.empty, m_target_graph_index := ix0, m_more_target_graphs := []\<rparr>"
  have "g = TG_filter id_addr" if "lookup_index i ix0 = Some g" for i g
    using that r ix by (auto simp: to_index_def lookup_index_def split: if_splits)
  then have ok: "pp_ok D env ?X ?st0" using ix0(1) by (fastforce simp: pp_ok_def st_ok_def)
  have eq: "pp_do_query env id_addr query st = obind (visit_cp env cover ?st0)
      (\<lambda>st. obind (visit_pp env passing st) (simplify_entry env (node_addr passing)))"
    using r by (simp add: pp_do_query_def tg_init_def q)
  have "returns (evaluated D env ?X ?st0 (cp_tops cover \<union> {passing})) (pp_do_query env id_addr query st)"
    unfolding eq
  proof (rule evaluated_both)
    show "returns (evaluated D env ?X ?st0 (cp_tops cover)) (visit_cp env cover ?st0)"
      by (rule visit_cp_correct [OF N inj _ _ ok]) (use sup in \<open>auto simp: tops_def D_def\<close>)
    show "returns (evaluated D env ?X st1 {passing}) (obind (visit_pp env passing st1) (simplify_entry env (node_addr passing)))"
      if "pp_ok D env ?X st1" for st1
      by (rule visit_simplified [OF N inj]) (use sup that in \<open>auto simp: tops_def D_def\<close>)
  qed
  then show ?thesis
  proof (rule returns_mono, intro ballI)
    fix st' n assume e: "evaluated D env ?X ?st0 (cp_tops cover \<union> {passing}) st'" and n: "n \<in> tops"
    then obtain A where A: "m_pp_map st' (node_addr n) = Some A" by (auto simp: evaluated_def tops_def)
    have "n \<in> ?X" using n self_in_pp_nodes by blast
    then have "entry_ok D env st' n A" using e A by (auto simp: evaluated_def pp_ok_def)
    then show "\<exists>A. m_pp_map st' (node_addr n) = Some A \<and> inv A \<and> map (tg_val env st') ` lang A = pp_lang (env_filter env) n"
      using A by (auto simp: entry_ok_def)
  qed
qed

end

section \<open>Properties\<close>


text \<open>A query with a quoted pattern \<open>a.b*\<close> and the passing clause \<open>EDGES(ID)*\<close>.\<close>

definition sample_env :: "lnfa pp_env" where
  "sample_env = \<lparr>env_astl = list_astl,
     env_filter = (\<lambda>a. \<lparr>m_disconnected_nodes = [], m_edges = [(sample_node a, sample_node (Suc a))], m_initial = []\<rparr>),
     env_successors = (\<lambda>n. []), env_ignore = (\<lambda>t. False), env_fuel = 10\<rparr>"

definition sample_star :: "int fql_node" where
  "sample_star = PP_Concat 3 (Predicate 1 (Some 0)) (Repeat 4 (Predicate 2 (Some 1)) 0 (- 1))"

definition sample_passing :: "int fql_node" where
  "sample_passing = Repeat 7 (Edgecov 6 (Filter_Function 5 F_IDENTITY 0 [])) 0 (- 1)"

definition sample_state :: "'a pp_state" where
  "sample_state = \<lparr>m_pp_map = Map.empty, m_target_graph_index = tg_new, m_more_target_graphs = []\<rparr>"


lemma lpow_hd: "w \<in> lpow A n \<Longrightarrow> (\<And>v. v \<in> A \<Longrightarrow> v \<noteq> [] \<and> hd v = x) \<Longrightarrow> w = [] \<or> hd w = x"
proof (induction n arbitrary: w)
  case (Suc n)
  obtain u v where w: "w = u @ v" "u \<in> lpow A n" "v \<in> A" using Suc.prems(1) by (auto simp: conc_def)
  have "u = [] \<or> hd u = x" by (rule Suc.IH [OF w(2) Suc.prems(2)])
  then show ?case using Suc.prems(2) [OF w(3)] w(1) by (cases u) auto
qed simp

definition sample_nested :: "int fql_node" where
  "sample_nested = Repeat 9 sample_star 0 (- 1)"

text \<open>
  C24. Outside of \<open>supported\<close> the construction accepts too much: the automaton of
  \<open>(a.b*)*\<close> accepts the word \<open>b\<close>, because the epsilon transition from the initial to
  the final state of the copy meets the loop of the inner repetition there. The pattern itself
  denotes no such word.
\<close>

theorem nested_repetition_accepts_too_much:
  "\<exists>st' A. visit_pp sample_env sample_nested sample_state = Some (Inr st') \<and> m_pp_map st' 9 = Some A
    \<and> [env_filter sample_env 2] \<in> map (tg_val sample_env st') ` ta_lang list_astl lnfa_T A
    \<and> [env_filter sample_env 2] \<notin> pp_lang (env_filter sample_env) sample_nested"
proof -
  let ?A = "\<lparr>l_states = [1, 2, 3, 4], l_trans = [(4, epsilon, 1), (1, epsilon, 4), (4, epsilon, 3),
    (3, epsilon, 4), (3, 1, 4), (2, epsilon, 3), (1, 0, 2)], l_initial = {1}, l_final = {4}, l_next = 5\<rparr>"
  have "case visit_pp sample_env sample_nested sample_state of Some (Inr st) \<Rightarrow>
      m_pp_map st 9 = Some ?A \<and> lookup_index 1 (m_target_graph_index st) = Some (TG_filter 2) | _ \<Rightarrow> False"
    by code_simp
  then obtain st' where st': "visit_pp sample_env sample_nested sample_state = Some (Inr st')"
    "m_pp_map st' 9 = Some ?A" "lookup_index 1 (m_target_graph_index st') = Some (TG_filter 2)"
    by (auto split: option.splits sum.splits)
  have "run (lnfa_T ?A) 4 [] 4" by (rule run.run_refl)
  then have "run (lnfa_T ?A) 3 [1] 4" by (rule run.run_step [rotated 2]) (simp_all add: lnfa_T_def)
  then have "run (lnfa_T ?A) 4 [1] 4" by (rule run.run_eps [rotated]) (simp add: lnfa_T_def)
  then have "run (lnfa_T ?A) 1 [1] 4" by (rule run.run_eps [rotated]) (simp add: lnfa_T_def)
  then have "[1] \<in> ta_lang list_astl lnfa_T ?A"
    by (simp add: ta_lang_def accepts_def a_finals_def list_astl_def)
  moreover have "tg_val sample_env st' 1 = env_filter sample_env 2"
    by (simp add: tg_val_def st'(3) deref_def)
  ultimately have mem: "[env_filter sample_env 2] \<in> map (tg_val sample_env st') ` ta_lang list_astl lnfa_T ?A" by force
  have ne: "env_filter sample_env 1 \<noteq> env_filter sample_env 2"
    by (simp add: sample_env_def sample_node_def)
  have a: "v \<noteq> [] \<and> hd v = env_filter sample_env 1" if "v \<in> pp_lang (env_filter sample_env) sample_star" for v
    using that by (auto simp: sample_star_def conc_def)
  have "[env_filter sample_env 2] \<notin> lpow (pp_lang (env_filter sample_env) sample_star) n" for n
    using lpow_hd [of "[env_filter sample_env 2]" _ n, OF _ a] ne by auto
  then have "[env_filter sample_env 2] \<notin> pp_lang (env_filter sample_env) sample_nested"
    by (simp add: sample_nested_def)
  with st'(1,2) mem show ?thesis by (intro exI conjI)
qed

text \<open>
  C25. A repetition with both bounds 0 denotes the empty word, but its automaton has no initial
  state and accepts nothing.
\<close>

theorem zero_repetition_rejects_all:
  assumes "astl_nfa N ok T" "ok sub"
  shows "ta_lang N T (build_repeat N sub 0 0 (a_empty N)) = {} \<and> [] \<in> pp_lang F (Repeat p q 0 0)"
  using assms(1) by (simp add: build_repeat_def ta_lang_def accepts_def astl_nfa.set_initial(4))

theorem zero_repetition_rejects_all_witness:
  "lnfa_inv sample_loop \<and> ta_lang list_astl lnfa_T (build_repeat list_astl sample_loop 0 0 (a_empty list_astl)) = {}"
proof -
  have "lnfa_inv sample_loop" by (auto simp: lnfa_inv_def sample_loop_def within_def)
  then show ?thesis using zero_repetition_rejects_all [OF list_nfa.astl_nfa_axioms] by blast
qed

end
