(* ===== verification/Cfg.thy ===== *)
theory Cfg
  imports Cfa
begin

text \<open>
  GOTO programs and the control flow graph over them
  (\<open>src/fshell2/instrumentation/cfg.cpp\<close>, \<open>goto_utils.cpp\<close>).

  The data types are those parts of CBMC's \<open>instructiont\<close>, \<open>goto_functiont\<close> and
  \<open>exprt\<close> the program reads. An iterator into the instruction list of a function is the
  pair of function name and location number; \<open>end()\<close> is \<open>None\<close>. A pointer to a
  \<open>goto_programt\<close> is the name under which the function is stored, and the map of all
  functions is the list of its entries in iteration order.

  \<open>compute_edges\<close> fills the table of successors and predecessors. The theory relates it to
  \<open>cfg_step\<close>, the control flow relation given by rules, one per kind of transfer.
\<close>

section \<open>GOTO programs\<close>

datatype exprt = Exprt (expr_id: string) (get_identifier: string) (operands: "exprt list")

datatype guardt = Guard_True | Guard_False | Guard_Cond exprt

datatype goto_program_instruction_typet =
  NO_INSTRUCTION_TYPE | GOTO | ASSUME | ASSERT | OTHER | SKIP | START_THREAD | END_THREAD
| LOCATION | END_FUNCTION | ATOMIC_BEGIN | ATOMIC_END | RETURN | ASSIGN | DECL | DEAD
| FUNCTION_CALL | THROW | CATCH

datatype codet =
  Code_Assign (lhs: exprt) (rhs: exprt)
| Code_Function_Call (call_function: exprt)
| Code_Statement (get_statement: string)

record source_locationt =
  get_file :: string
  get_line :: string
  get_column :: string
  get_property_id :: string

record instructiont =
  i_type :: goto_program_instruction_typet
  i_function :: string
  i_location_number :: nat
  source_location :: "source_locationt option"
  labels :: "string list"
  targets :: "targett option list"
  guard :: guardt
  code :: codet

record goto_functiont =
  body :: "instructiont list"
  body_available :: bool
  is_inlined :: bool

type_synonym goto_functionst = "(string \<times> goto_functiont) list"

definition pc :: "instructiont \<Rightarrow> targett" where
  "pc i = \<lparr>t_function = i_function i, location_number = i_location_number i\<rparr>"

lemma pc_simps [simp]: "t_function (pc i) = i_function i" "location_number (pc i) = i_location_number i"
  by (simp_all add: pc_def)

text \<open>
  What \<open>goto_functionst::update\<close> establishes: every instruction names its function, location
  numbers are unique within a function, and jumps stay within the function.
\<close>

definition goto_wf :: "goto_functionst \<Rightarrow> bool" where
  "goto_wf gf \<longleftrightarrow> distinct (map fst gf)
     \<and> (\<forall>(f, fct) \<in> set gf. (\<forall>i \<in> set (body fct). i_function i = f
         \<and> (\<forall>t. Some t \<in> set (targets i) \<longrightarrow> t \<in> pc ` set (body fct)))
       \<and> distinct (map i_location_number (body fct)))"

lemma goto_wfD:
  assumes "goto_wf gf" "(f, fct) \<in> set gf"
  shows "i \<in> set (body fct) \<Longrightarrow> i_function i = f"
    and "i \<in> set (body fct) \<Longrightarrow> Some t \<in> set (targets i) \<Longrightarrow> t \<in> pc ` set (body fct)"
    and "distinct (map i_location_number (body fct))" "map_of gf f = Some fct"
  using assms by (auto simp: goto_wf_def)

text \<open>The symbols of an expression, from left to right.\<close>

fun find_symbols :: "exprt \<Rightarrow> exprt list" where
  "find_symbols (Exprt k n es) =
     (if k = ''symbol'' then [Exprt k n es] else concat (map find_symbols es))"

fun subexprs :: "exprt \<Rightarrow> exprt set" where
  "subexprs (Exprt k n es) =
     insert (Exprt k n es) (if k = ''symbol'' then {} else \<Union>e \<in> set es. subexprs e)"

lemma set_find_symbols: "set (find_symbols e) = {s \<in> subexprs e. expr_id s = ''symbol''}"
  by (induction e rule: find_symbols.induct) auto

section \<open>The graph\<close>

record cfg_entry =
  successors :: "(cfa_node \<times> bool) list"
  predecessors :: "cfa_node list"

type_synonym cfg_entries = "targett \<rightharpoonup> cfg_entry"

text \<open>\<open>m_entries[t]\<close>, which creates a missing entry.\<close>

definition entry_at :: "cfg_entries \<Rightarrow> targett \<Rightarrow> cfg_entry" where
  "entry_at m t = (case m t of None \<Rightarrow> \<lparr>successors = [], predecessors = []\<rparr> | Some e \<Rightarrow> e)"

definition push_successor :: "targett \<Rightarrow> cfa_node \<times> bool \<Rightarrow> cfg_entries \<Rightarrow> cfg_entries" where
  "push_successor t s m =
     m(t \<mapsto> (entry_at m t)\<lparr>successors := successors (entry_at m t) @ [s]\<rparr>)"

definition push_predecessor :: "targett \<Rightarrow> cfa_node \<Rightarrow> cfg_entries \<Rightarrow> cfg_entries" where
  "push_predecessor t p m =
     m(t \<mapsto> (entry_at m t)\<lparr>predecessors := predecessors (entry_at m t) @ [p]\<rparr>)"

fun push_next :: "targett \<Rightarrow> string \<Rightarrow> targett option \<Rightarrow> cfg_entries \<Rightarrow> cfg_entries" where
  "push_next PC f None m = m"
| "push_next PC f (Some t) m = push_successor PC ((f, t), False) m"

definition push_targets :: "targett \<Rightarrow> string \<Rightarrow> targett option list \<Rightarrow> cfg_entries \<Rightarrow> cfg_entries" where
  "push_targets PC f ts m =
     fold (\<lambda>t m. case t of None \<Rightarrow> m | Some t \<Rightarrow> push_successor PC ((f, t), True) m) ts m"

text \<open>The forward edges of one instruction, the branches in the order of the code.\<close>

definition goto_edges :: "string \<Rightarrow> instructiont \<Rightarrow> targett option \<Rightarrow> cfg_entries \<Rightarrow> cfg_entries" where
  "goto_edges f i next_PC m =
     push_targets (pc i) f (targets i)
       (if guard i \<noteq> Guard_True then push_next (pc i) f next_PC m else m)"

definition start_thread_edges :: "string \<Rightarrow> instructiont \<Rightarrow> targett option \<Rightarrow> cfg_entries \<Rightarrow> cfg_entries" where
  "start_thread_edges f i next_PC m =
     push_targets (pc i) f (targets i)
       (if next_PC \<noteq> None then push_successor (pc i) ((f, pc i), False) m else m)"

definition function_call_edges ::
  "goto_functionst \<Rightarrow> string \<Rightarrow> instructiont \<Rightarrow> targett option \<Rightarrow> cfg_entries \<Rightarrow> cfg_entries" where
  "function_call_edges gf f i next_PC m =
     (let function = call_function (code i) in
      if expr_id function = ''symbol'' then
        (case map_of gf (get_identifier function) of
           Some callee \<Rightarrow>
             if body_available callee then
               (if body callee \<noteq> [] then
                  let m = push_successor (pc i) ((get_identifier function, pc (hd (body callee))), False) m in
                  (case next_PC of
                     None \<Rightarrow> m
                   | Some t \<Rightarrow>
                       push_predecessor t (get_identifier function, pc (last (body callee)))
                         (push_successor (pc (last (body callee))) ((f, t), False) m))
                else push_next (pc i) f next_PC m)
             else push_next (pc i) f next_PC m
         | None \<Rightarrow> push_next (pc i) f next_PC m)
      else m)"

definition return_edges ::
  "string \<Rightarrow> instructiont list \<Rightarrow> instructiont \<Rightarrow> targett option \<Rightarrow> cfg_entries \<Rightarrow> cfg_entries" where
  "return_edges f instrs i next_PC m =
     (if next_PC \<noteq> None then push_successor (pc i) ((f, pc (last instrs)), False) m else m)"

definition backward_edges :: "string \<Rightarrow> targett \<Rightarrow> cfg_entries \<Rightarrow> cfg_entries" where
  "backward_edges f PC m =
     fold (\<lambda>s m. push_predecessor (snd (fst s)) (f, PC) m) (successors (entry_at m PC)) m"

definition compute_edges_at ::
  "goto_functionst \<Rightarrow> string \<Rightarrow> instructiont list \<Rightarrow> instructiont \<Rightarrow> targett option
     \<Rightarrow> cfg_entries \<Rightarrow> cfg_entries" where
  "compute_edges_at gf f instrs i next_PC m =
     (let m = m(pc i \<mapsto> entry_at m (pc i)) in
      backward_edges f (pc i)
        (if i_type i = GOTO then goto_edges f i next_PC m
         else if i_type i = START_THREAD then start_thread_edges f i next_PC m
         else if i_type i = FUNCTION_CALL then function_call_edges gf f i next_PC m
         else if i_type i = RETURN then return_edges f instrs i next_PC m
         else push_next (pc i) f next_PC m))"

fun next_pc :: "instructiont list \<Rightarrow> targett option" where
  "next_pc [] = None"
| "next_pc (j # js) = Some (pc j)"

fun compute_edges_from ::
  "goto_functionst \<Rightarrow> string \<Rightarrow> instructiont list \<Rightarrow> instructiont list \<Rightarrow> cfg_entries \<Rightarrow> cfg_entries" where
  "compute_edges_from gf f instrs [] m = m"
| "compute_edges_from gf f instrs (i # rest) m =
     compute_edges_from gf f instrs rest (compute_edges_at gf f instrs i (next_pc rest) m)"

definition compute_edges :: "goto_functionst \<Rightarrow> cfg_entries" where
  "compute_edges gf =
     fold (\<lambda>(f, fct) m. if body_available fct then compute_edges_from gf f (body fct) (body fct) m else m)
       gf Map.empty"

section \<open>The relation the table holds\<close>

definition succ_rel :: "cfg_entries \<Rightarrow> (targett \<times> cfa_node) set" where
  "succ_rel m = (SIGMA t:UNIV. fst ` set (successors (entry_at m t)))"

definition pred_rel :: "cfg_entries \<Rightarrow> (targett \<times> cfa_node) set" where
  "pred_rel m = (SIGMA t:UNIV. set (predecessors (entry_at m t)))"

lemma rel_iff:
  "(t, n) \<in> succ_rel m \<longleftrightarrow> n \<in> fst ` set (successors (entry_at m t))"
  "(t, p) \<in> pred_rel m \<longleftrightarrow> p \<in> set (predecessors (entry_at m t))"
  by (simp_all add: succ_rel_def pred_rel_def)

text \<open>Predecessors mirror successors.\<close>

definition mirrored :: "cfg_entries \<Rightarrow> bool" where
  "mirrored m \<longleftrightarrow> pred_rel m = (\<lambda>(t, n). (snd n, t_function t, t)) ` succ_rel m"

lemma entry_at_create [simp]: "entry_at (m(t \<mapsto> entry_at m t)) = entry_at m"
  by (rule ext) (simp add: entry_at_def)

lemma rel_create [simp]: "succ_rel (m(t \<mapsto> entry_at m t)) = succ_rel m" "pred_rel (m(t \<mapsto> entry_at m t)) = pred_rel m"
  by (simp_all add: succ_rel_def pred_rel_def)

lemma entry_at_push_successor:
  "entry_at (push_successor t s m) u =
     (if u = t then (entry_at m t)\<lparr>successors := successors (entry_at m t) @ [s]\<rparr> else entry_at m u)"
  by (simp add: entry_at_def push_successor_def)

lemma entry_at_push_predecessor:
  "entry_at (push_predecessor t p m) u =
     (if u = t then (entry_at m t)\<lparr>predecessors := predecessors (entry_at m t) @ [p]\<rparr> else entry_at m u)"
  by (simp add: entry_at_def push_predecessor_def)

lemma rel_push_successor [simp]:
  "succ_rel (push_successor t s m) = insert (t, fst s) (succ_rel m)"
  "pred_rel (push_successor t s m) = pred_rel m"
  by (auto simp: rel_iff entry_at_push_successor split: if_splits)

lemma rel_push_predecessor [simp]:
  "succ_rel (push_predecessor t p m) = succ_rel m"
  "pred_rel (push_predecessor t p m) = insert (t, p) (pred_rel m)"
  by (auto simp: rel_iff entry_at_push_predecessor split: if_splits)

lemma rel_push_next [simp]:
  "succ_rel (push_next t f n m) = (\<lambda>u. (t, f, u)) ` set_option n \<union> succ_rel m"
  "pred_rel (push_next t f n m) = pred_rel m"
  by (cases n; simp)+

lemma rel_push_targets [simp]:
  "succ_rel (push_targets t f ts m) = (\<lambda>u. (t, f, u)) ` {u. Some u \<in> set ts} \<union> succ_rel m"
  "pred_rel (push_targets t f ts m) = pred_rel m"
proof (induction ts arbitrary: m)
  case (Cons x ts)
  { case 1 show ?case using Cons by (cases x) (auto simp: push_targets_def) }
  { case 2 show ?case using Cons by (cases x) (auto simp: push_targets_def) }
qed (simp_all add: push_targets_def)

lemma backward_edges_aux:
  "succ_rel (fold (\<lambda>s m. push_predecessor (snd (fst s)) p m) ss m) = succ_rel m
   \<and> pred_rel (fold (\<lambda>s m. push_predecessor (snd (fst s)) p m) ss m) = (\<lambda>s. (snd (fst s), p)) ` set ss \<union> pred_rel m"
  by (induction ss arbitrary: m) auto

lemma rel_backward_edges [simp]:
  "succ_rel (backward_edges f t m) = succ_rel m"
  "pred_rel (backward_edges f t m) = {(u, f, t) |g u. (t, g, u) \<in> succ_rel m} \<union> pred_rel m"
proof -
  show "succ_rel (backward_edges f t m) = succ_rel m" by (simp add: backward_edges_def backward_edges_aux)
  have "(\<lambda>s. (snd (fst s), f, t)) ` set (successors (entry_at m t)) = {(u, f, t) |g u. (t, g, u) \<in> succ_rel m}"
    by (force simp: rel_iff)
  then show "pred_rel (backward_edges f t m) = {(u, f, t) |g u. (t, g, u) \<in> succ_rel m} \<union> pred_rel m"
    by (simp add: backward_edges_def backward_edges_aux)
qed

section \<open>The control flow relation\<close>

definition fetch :: "goto_functionst \<Rightarrow> string \<Rightarrow> nat \<Rightarrow> instructiont option" where
  "fetch gf f k =
     (case map_of gf f of
        None \<Rightarrow> None
      | Some fct \<Rightarrow> if body_available fct \<and> k < length (body fct) then Some (body fct ! k) else None)"

definition last_index :: "goto_functionst \<Rightarrow> string \<Rightarrow> nat" where
  "last_index gf f = (case map_of gf f of None \<Rightarrow> 0 | Some fct \<Rightarrow> length (body fct) - 1)"

text \<open>
  \<open>cfg_rule gf f k n n'\<close>: the instruction at position \<open>k\<close> of function \<open>f\<close> is
  the reason for control to pass from \<open>n\<close> to \<open>n'\<close>. A call is the reason for two
  transfers, one into the callee and one from its last instruction back behind the call. The
  rule for thread creation has the loop of the code, from the instruction to itself.
\<close>

inductive cfg_rule :: "goto_functionst \<Rightarrow> string \<Rightarrow> nat \<Rightarrow> cfa_node \<Rightarrow> cfa_node \<Rightarrow> bool" for gf where
  Goto_Next: "\<lbrakk>fetch gf f k = Some i; i_type i = GOTO; guard i \<noteq> Guard_True; fetch gf f (Suc k) = Some j\<rbrakk>
    \<Longrightarrow> cfg_rule gf f k (f, pc i) (f, pc j)"
| Goto_Target: "\<lbrakk>fetch gf f k = Some i; i_type i = GOTO; Some t \<in> set (targets i)\<rbrakk>
    \<Longrightarrow> cfg_rule gf f k (f, pc i) (f, t)"
| Thread_Self: "\<lbrakk>fetch gf f k = Some i; i_type i = START_THREAD; fetch gf f (Suc k) = Some j\<rbrakk>
    \<Longrightarrow> cfg_rule gf f k (f, pc i) (f, pc i)"
| Thread_Target: "\<lbrakk>fetch gf f k = Some i; i_type i = START_THREAD; Some t \<in> set (targets i)\<rbrakk>
    \<Longrightarrow> cfg_rule gf f k (f, pc i) (f, t)"
| Call_Enter: "\<lbrakk>fetch gf f k = Some i; i_type i = FUNCTION_CALL; expr_id (call_function (code i)) = ''symbol'';
     g = get_identifier (call_function (code i)); fetch gf g 0 = Some j\<rbrakk>
    \<Longrightarrow> cfg_rule gf f k (f, pc i) (g, pc j)"
| Call_Return: "\<lbrakk>fetch gf f k = Some i; i_type i = FUNCTION_CALL; expr_id (call_function (code i)) = ''symbol'';
     g = get_identifier (call_function (code i)); fetch gf g (last_index gf g) = Some e; fetch gf f (Suc k) = Some j\<rbrakk>
    \<Longrightarrow> cfg_rule gf f k (g, pc e) (f, pc j)"
| Call_Skip: "\<lbrakk>fetch gf f k = Some i; i_type i = FUNCTION_CALL; expr_id (call_function (code i)) = ''symbol'';
     fetch gf (get_identifier (call_function (code i))) 0 = None; fetch gf f (Suc k) = Some j\<rbrakk>
    \<Longrightarrow> cfg_rule gf f k (f, pc i) (f, pc j)"
| Return_Last: "\<lbrakk>fetch gf f k = Some i; i_type i = RETURN; fetch gf f (Suc k) = Some j;
     fetch gf f (last_index gf f) = Some e\<rbrakk>
    \<Longrightarrow> cfg_rule gf f k (f, pc i) (f, pc e)"
| Other_Next: "\<lbrakk>fetch gf f k = Some i; i_type i \<notin> {GOTO, START_THREAD, FUNCTION_CALL, RETURN};
     fetch gf f (Suc k) = Some j\<rbrakk>
    \<Longrightarrow> cfg_rule gf f k (f, pc i) (f, pc j)"

definition cfg_step :: "goto_functionst \<Rightarrow> cfa_node \<Rightarrow> cfa_node \<Rightarrow> bool" where
  "cfg_step gf n n' \<longleftrightarrow> (\<exists>f k. cfg_rule gf f k n n')"

inductive_cases cfg_ruleE: "cfg_rule gf f k n n'"

definition rule_rel :: "goto_functionst \<Rightarrow> string \<Rightarrow> nat \<Rightarrow> (targett \<times> cfa_node) set" where
  "rule_rel gf f k = {(snd n, n') |n n'. cfg_rule gf f k n n'}"

lemma fetch_None: "fetch gf g 0 = None \<Longrightarrow> fetch gf g k = None"
  by (auto simp: fetch_def split: option.splits if_splits)

lemma rule_rel_simps:
  assumes "fetch gf f k = Some i"
  shows "i_type i = GOTO \<Longrightarrow> rule_rel gf f k =
      {(pc i, f, pc j) |j. guard i \<noteq> Guard_True \<and> fetch gf f (Suc k) = Some j} \<union> {(pc i, f, t) |t. Some t \<in> set (targets i)}"
    and "i_type i = START_THREAD \<Longrightarrow> rule_rel gf f k =
      {(pc i, f, pc i) |j. fetch gf f (Suc k) = Some j} \<union> {(pc i, f, t) |t. Some t \<in> set (targets i)}"
    and "i_type i = RETURN \<Longrightarrow> rule_rel gf f k =
      {(pc i, f, pc e) |j e. fetch gf f (Suc k) = Some j \<and> fetch gf f (last_index gf f) = Some e}"
    and "i_type i \<notin> {GOTO, START_THREAD, FUNCTION_CALL, RETURN} \<Longrightarrow> rule_rel gf f k =
      {(pc i, f, pc j) |j. fetch gf f (Suc k) = Some j}"
    and "\<lbrakk>i_type i = FUNCTION_CALL; expr_id (call_function (code i)) \<noteq> ''symbol''\<rbrakk> \<Longrightarrow> rule_rel gf f k = {}"
    and "\<lbrakk>i_type i = FUNCTION_CALL; expr_id (call_function (code i)) = ''symbol'';
       fetch gf (get_identifier (call_function (code i))) 0 = None\<rbrakk> \<Longrightarrow> rule_rel gf f k =
      {(pc i, f, pc j) |j. fetch gf f (Suc k) = Some j}"
    and "\<lbrakk>i_type i = FUNCTION_CALL; expr_id (call_function (code i)) = ''symbol'';
       g = get_identifier (call_function (code i)); fetch gf g 0 = Some h; fetch gf g (last_index gf g) = Some e\<rbrakk>
     \<Longrightarrow> rule_rel gf f k = insert (pc i, g, pc h) {(pc e, f, pc j) |j. fetch gf f (Suc k) = Some j}"
  unfolding rule_rel_def using assms fetch_None [of gf "get_identifier (call_function (code i))"]
  by (fastforce simp: cfg_rule.simps)+

section \<open>The table holds the relation\<close>

definition mirror_edge :: "targett \<times> cfa_node \<Rightarrow> targett \<times> cfa_node" where
  "mirror_edge = (\<lambda>(t, n). (snd n, t_function t, t))"

lemma mirrored_iff: "mirrored m \<longleftrightarrow> pred_rel m = mirror_edge ` succ_rel m"
  by (simp add: mirrored_def mirror_edge_def)

lemma mirrored_backward:
  assumes "mirrored m" and m': "succ_rel m' = R \<union> succ_rel m" "pred_rel m' = P \<union> pred_rel m"
    and R: "\<And>t n. (t, n) \<in> R \<Longrightarrow> t = PC \<or> mirror_edge (t, n) \<in> P"
    and P: "P \<subseteq> mirror_edge ` R" and f: "t_function PC = f"
  shows "mirrored (backward_edges f PC m')"
proof -
  define B where "B = {(u, f, PC) |g u. (PC, g, u) \<in> succ_rel m'}"
  have B: "B = mirror_edge ` {e \<in> succ_rel m'. fst e = PC}"
    using f by (force simp: B_def mirror_edge_def)
  have "mirror_edge ` R \<subseteq> B \<union> P"
  proof
    fix x assume "x \<in> mirror_edge ` R"
    then obtain t n where "(t, n) \<in> R" "x = mirror_edge (t, n)" by auto
    then show "x \<in> B \<union> P" using R [of t n] by (auto simp: B m')
  qed
  moreover have "B \<subseteq> mirror_edge ` succ_rel m'" by (auto simp: B)
  moreover have "pred_rel (backward_edges f PC m') = B \<union> (P \<union> pred_rel m)" by (simp add: B_def m'(2) Un_assoc)
  ultimately show ?thesis
    using assms(1) P unfolding mirrored_iff rel_backward_edges(1) m'(1) image_Un by blast
qed

lemma fetch_last:
  assumes "map_of gf g = Some fct" "body_available fct" "body fct \<noteq> []"
  shows "fetch gf g 0 = Some (hd (body fct))" "fetch gf g (last_index gf g) = Some (last (body fct))"
  using assms by (simp_all add: fetch_def last_index_def hd_conv_nth last_conv_nth)

lemma fetch_wf:
  assumes "goto_wf gf" "fetch gf f k = Some i"
  shows "i_function i = f"
  using assms goto_wfD(1) by (auto simp: fetch_def split: option.splits if_splits dest!: map_of_SomeD)

lemma function_call_edges_rel:
  fixes gf f k i m
  defines "next_PC \<equiv> map_option pc (fetch gf f (Suc k))"
  defines "m' \<equiv> function_call_edges gf f i next_PC m"
  assumes "goto_wf gf" "fetch gf f k = Some i" "i_type i = FUNCTION_CALL" and mir: "mirrored m"
  shows "succ_rel m' = rule_rel gf f k \<union> succ_rel m \<and> mirrored (backward_edges f (pc i) m')"
proof -
  let ?callee = "call_function (code i)"
  note rules = rule_rel_simps [OF assms(4)]
  have f: "i_function i = f" by (rule fetch_wf [OF assms(3,4)])
  define g where "g = get_identifier ?callee"
  consider (pointer) "expr_id ?callee \<noteq> ''symbol''"
    | (skip) "expr_id ?callee = ''symbol''" "fetch gf g 0 = None"
    | (enter) h where "expr_id ?callee = ''symbol''" "fetch gf g 0 = Some h" by (cases "fetch gf g 0") auto
  then show ?thesis
  proof cases
    case pointer
    then have m': "m' = m" by (simp add: m'_def function_call_edges_def)
    have "mirrored (backward_edges f (pc i) m')"
      by (rule mirrored_backward [OF mir, where R = "{}" and P = "{}"]) (simp_all add: m' f)
    then show ?thesis using pointer by (simp add: m' rules assms)
  next
    case skip
    then have m': "m' = push_next (pc i) f next_PC m"
      by (auto simp: m'_def function_call_edges_def Let_def g_def fetch_def split: option.splits if_splits)
    have R: "rule_rel gf f k = (\<lambda>u. (pc i, f, u)) ` set_option next_PC"
      using skip by (auto simp: rules assms g_def next_PC_def)
    have "mirrored (backward_edges f (pc i) m')"
      by (rule mirrored_backward [OF mir, where R = "rule_rel gf f k" and P = "{}"]) (auto simp: m' f R)
    then show ?thesis by (simp add: m' R)
  next
    case enter
    obtain callee where callee: "map_of gf g = Some callee" "body_available callee" "body callee \<noteq> []"
      using enter by (auto simp: fetch_def split: option.splits if_splits)
    note fl = fetch_last [OF callee]
    define h' where "h' = hd (body callee)"
    define e' where "e' = last (body callee)"
    have e: "i_function e' = g" using fetch_wf [OF assms(3) fl(2)] by (simp add: e'_def)
    define P where "P = (\<lambda>t. (t, g, pc e')) ` set_option next_PC"
    have m': "succ_rel m' = insert (pc i, g, pc h') ((\<lambda>t. (pc e', f, t)) ` set_option next_PC) \<union> succ_rel m"
      "pred_rel m' = P \<union> pred_rel m"
      using enter(1) callee
      by (cases next_PC; simp add: m'_def function_call_edges_def Let_def g_def h'_def e'_def P_def insert_commute)+
    have R: "rule_rel gf f k = insert (pc i, g, pc h') ((\<lambda>t. (pc e', f, t)) ` set_option next_PC)"
      using rules(7) [OF assms(5) enter(1) g_def fl] by (auto simp: next_PC_def h'_def e'_def)
    have "mirrored (backward_edges f (pc i) m')"
      by (rule mirrored_backward [OF mir, where R = "rule_rel gf f k" and P = P])
         (auto simp: m' R f e P_def mirror_edge_def)
    then show ?thesis by (simp add: m' R)
  qed
qed

lemma compute_edges_at_rel:
  assumes wf: "goto_wf gf" and i: "fetch gf f k = Some i" and fct: "map_of gf f = Some fct"
    and mir: "mirrored m"
  shows "succ_rel (compute_edges_at gf f (body fct) i (map_option pc (fetch gf f (Suc k))) m)
      = rule_rel gf f k \<union> succ_rel m
    \<and> mirrored (compute_edges_at gf f (body fct) i (map_option pc (fetch gf f (Suc k))) m)"
proof -
  define n where "n = map_option pc (fetch gf f (Suc k))"
  define m0 where "m0 = m(pc i \<mapsto> entry_at m (pc i))"
  have m0: "mirrored m0" "succ_rel m0 = succ_rel m" using mir by (simp_all add: mirrored_iff m0_def)
  have f: "i_function i = f" by (rule fetch_wf [OF wf i])
  have "body_available fct" "body fct \<noteq> []" using i fct by (auto simp: fetch_def split: if_splits)
  then have last: "fetch gf f (last_index gf f) = Some (last (body fct))" by (rule fetch_last(2) [OF fct])
  note rules = rule_rel_simps [OF i]
  have local_step: ?thesis
    if R: "succ_rel m1 = R \<union> succ_rel m0" "pred_rel m1 = pred_rel m0" "rule_rel gf f k = R"
      and pc: "fst ` R \<subseteq> {pc i}" and at: "compute_edges_at gf f (body fct) i n m = backward_edges f (pc i) m1" for R m1
  proof -
    have "mirrored (backward_edges f (pc i) m1)"
      by (rule mirrored_backward [OF m0(1), where R = R and P = "{}"]) (use that f in auto)
    then show ?thesis using R m0 by (simp add: at n_def [symmetric])
  qed
  have at: "compute_edges_at gf f (body fct) i n m = backward_edges f (pc i)
      (if i_type i = GOTO then goto_edges f i n m0
       else if i_type i = START_THREAD then start_thread_edges f i n m0
       else if i_type i = FUNCTION_CALL then function_call_edges gf f i n m0
       else if i_type i = RETURN then return_edges f (body fct) i n m0
       else push_next (pc i) f n m0)"
    by (simp add: compute_edges_at_def Let_def m0_def)
  consider "i_type i = GOTO" | "i_type i = START_THREAD" | "i_type i = FUNCTION_CALL" | "i_type i = RETURN"
    | "i_type i \<notin> {GOTO, START_THREAD, FUNCTION_CALL, RETURN}" by blast
  then show ?thesis
  proof cases
    case 1
    then show ?thesis
      by (intro local_step [of "goto_edges f i n m0" "rule_rel gf f k"])
         (auto simp: at [unfolded n_def] rules goto_edges_def n_def)
  next
    case 2
    then show ?thesis
      by (intro local_step [of "start_thread_edges f i n m0" "rule_rel gf f k"])
         (auto simp: at [unfolded n_def] rules start_thread_edges_def n_def)
  next
    case 3
    then show ?thesis
      using function_call_edges_rel [OF wf i 3 m0(1)] m0 by (simp add: at n_def [symmetric])
  next
    case 4
    then show ?thesis
      by (intro local_step [of "return_edges f (body fct) i n m0" "rule_rel gf f k"])
         (auto simp: at [unfolded n_def] rules return_edges_def n_def last)
  next
    case 5
    then show ?thesis
      by (intro local_step [of "push_next (pc i) f n m0" "rule_rel gf f k"])
         (auto simp: at [unfolded n_def] rules n_def)
  qed
qed

lemma compute_edges_from_rel:
  assumes wf: "goto_wf gf" and fct: "map_of gf f = Some fct" "body_available fct"
  shows "\<lbrakk>k \<le> length (body fct); mirrored m\<rbrakk> \<Longrightarrow>
    succ_rel (compute_edges_from gf f (body fct) (drop k (body fct)) m)
      = (\<Union>l\<in>{k..<length (body fct)}. rule_rel gf f l) \<union> succ_rel m
    \<and> mirrored (compute_edges_from gf f (body fct) (drop k (body fct)) m)"
proof (induction "length (body fct) - k" arbitrary: k m)
  case 0
  then show ?case by simp
next
  case (Suc d)
  then have k: "k < length (body fct)" by simp
  have i: "fetch gf f k = Some (body fct ! k)" using k fct by (simp add: fetch_def)
  have d: "drop k (body fct) = body fct ! k # drop (Suc k) (body fct)"
    using k by (simp add: Cons_nth_drop_Suc)
  have n: "next_pc (drop (Suc k) (body fct)) = map_option pc (fetch gf f (Suc k))"
    using fct by (cases "Suc k < length (body fct)") (auto simp: fetch_def Cons_nth_drop_Suc [symmetric])
  define m1 where "m1 = compute_edges_at gf f (body fct) (body fct ! k) (map_option pc (fetch gf f (Suc k))) m"
  have m1: "succ_rel m1 = rule_rel gf f k \<union> succ_rel m" "mirrored m1"
    using compute_edges_at_rel [OF wf i fct(1) Suc.prems(2)] by (simp_all add: m1_def)
  have "{k..<length (body fct)} = insert k {Suc k..<length (body fct)}" using k by auto
  then show ?case using Suc.hyps(1) [of "Suc k" m1] Suc.hyps(2) k m1
    by (auto simp: d n m1_def [symmetric])
qed

lemma rule_rel_outside:
  assumes "map_of gf f = Some fct" "\<not> (body_available fct \<and> k < length (body fct))"
  shows "rule_rel gf f k = {}"
  using assms by (auto simp: rule_rel_def fetch_def elim: cfg_ruleE)

lemma compute_edges_fold:
  assumes wf: "goto_wf gf"
  shows "\<lbrakk>set gs \<subseteq> set gf; mirrored m\<rbrakk> \<Longrightarrow>
    let m' = fold (\<lambda>(f, fct) m. if body_available fct then compute_edges_from gf f (body fct) (body fct) m else m) gs m
    in succ_rel m' = (\<Union>f\<in>fst ` set gs. \<Union>k. rule_rel gf f k) \<union> succ_rel m \<and> mirrored m'"
proof (induction gs arbitrary: m)
  case (Cons p gs)
  obtain f fct where p: "p = (f, fct)" by (cases p)
  have fct: "map_of gf f = Some fct" using goto_wfD(4) [OF wf] Cons.prems p by auto
  define m1 where "m1 = (if body_available fct then compute_edges_from gf f (body fct) (body fct) m else m)"
  have "succ_rel m1 = (\<Union>k. rule_rel gf f k) \<union> succ_rel m \<and> mirrored m1"
  proof (cases "body_available fct")
    case True
    have "(\<Union>k. rule_rel gf f k) = (\<Union>l\<in>{0..<length (body fct)}. rule_rel gf f l)"
      using rule_rel_outside [OF fct] by (fastforce simp: not_less)
    then show ?thesis using compute_edges_from_rel [OF wf fct True, of 0 m] True Cons.prems
      by (simp add: m1_def)
  next
    case False
    then show ?thesis using rule_rel_outside [OF fct] Cons.prems by (auto simp: m1_def)
  qed
  then show ?case using Cons.IH [of m1] Cons.prems
    by (auto simp: p m1_def [symmetric] Let_def)
qed simp

lemma compute_edges_rel:
  assumes "goto_wf gf"
  shows "succ_rel (compute_edges gf) = {(snd n, n') |n n'. cfg_step gf n n'}" "mirrored (compute_edges gf)"
proof -
  have empty: "succ_rel Map.empty = {}" "mirrored Map.empty"
    by (auto simp: rel_iff entry_at_def mirrored_iff)
  have out: "rule_rel gf f k = {}" if "f \<notin> fst ` set gf" for f k
  proof -
    have "map_of gf f = None" using that by (simp add: map_of_eq_None_iff)
    then show ?thesis by (auto simp: rule_rel_def fetch_def elim: cfg_ruleE)
  qed
  have "(\<Union>f\<in>fst ` set gf. \<Union>k. rule_rel gf f k) = (\<Union>f. \<Union>k. rule_rel gf f k)"
    using out by blast
  also have "\<dots> = {(snd n, n') |n n'. cfg_step gf n n'}" by (fastforce simp: rule_rel_def cfg_step_def)
  finally show "succ_rel (compute_edges gf) = {(snd n, n') |n n'. cfg_step gf n n'}" "mirrored (compute_edges gf)"
    using compute_edges_fold [OF assms subset_refl empty(2)] empty(1) by (simp_all add: compute_edges_def Let_def)
qed

lemma fetch_mem:
  "fetch gf f k = Some i \<Longrightarrow> \<exists>fct. (f, fct) \<in> set gf \<and> body_available fct \<and> i \<in> set (body fct)"
  by (auto simp: fetch_def split: option.splits if_splits dest!: map_of_SomeD)

lemma target_function:
  assumes "goto_wf gf" "fetch gf f k = Some i" "Some t \<in> set (targets i)"
  shows "t_function t = f"
proof -
  obtain fct where fct: "(f, fct) \<in> set gf" "i \<in> set (body fct)" using fetch_mem [OF assms(2)] by blast
  then obtain j where "t = pc j" "j \<in> set (body fct)" using goto_wfD(2) [OF assms(1) fct assms(3)] by blast
  then show ?thesis using goto_wfD(1) [OF assms(1) fct(1)] by simp
qed

lemma cfg_step_nodes:
  assumes "goto_wf gf" "cfg_step gf n n'"
  shows "n \<in> cfa_nodes" "n' \<in> cfa_nodes"
  using assms fetch_wf [OF assms(1)] target_function [OF assms(1)]
  by (auto simp: cfg_step_def cfa_nodes_def elim!: cfg_ruleE)

lemma successors_step:
  assumes "goto_wf gf" "n \<in> cfa_nodes"
  shows "n' \<in> fst ` set (successors (entry_at (compute_edges gf) (snd n))) \<longleftrightarrow> cfg_step gf n n'"
proof -
  have "n' \<in> fst ` set (successors (entry_at (compute_edges gf) (snd n))) \<longleftrightarrow> (\<exists>h. snd h = snd n \<and> cfg_step gf h n')"
    unfolding rel_iff [symmetric] compute_edges_rel(1) [OF assms(1)] by (cases n') force
  also have "\<dots> \<longleftrightarrow> cfg_step gf n n'"
    using cfg_step_nodes(1) [OF assms(1)] assms(2) unfolding cfa_nodes_def
    by (metis (mono_tags, lifting) mem_Collect_eq prod.collapse)
  finally show ?thesis .
qed

lemma predecessors_step:
  assumes "goto_wf gf" "n' \<in> cfa_nodes"
  shows "n \<in> set (predecessors (entry_at (compute_edges gf) (snd n'))) \<longleftrightarrow> cfg_step gf n n'"
proof -
  have "n \<in> set (predecessors (entry_at (compute_edges gf) (snd n')))
      \<longleftrightarrow> (snd n', n) \<in> mirror_edge ` {(snd m, m') |m m'. cfg_step gf m m'}"
    using compute_edges_rel [OF assms(1)] by (simp add: rel_iff [symmetric] mirrored_iff)
  also have "\<dots> \<longleftrightarrow> (\<exists>m m'. snd m' = snd n' \<and> n = (t_function (snd m), snd m) \<and> cfg_step gf m m')"
    by (force simp: mirror_edge_def)
  also have "\<dots> \<longleftrightarrow> cfg_step gf n n'"
    using cfg_step_nodes [OF assms(1)] assms(2) unfolding cfa_nodes_def by (metis (mono_tags, lifting) mem_Collect_eq prod.collapse)
  finally show ?thesis .
qed

section \<open>Every instruction has an entry\<close>

lemma dom_push [simp]:
  "dom (push_successor t s m) = insert t (dom m)" "dom (push_predecessor t p m) = insert t (dom m)"
  by (simp_all add: push_successor_def push_predecessor_def)

lemma dom_push_next: "dom m \<subseteq> dom (push_next t f n m)"
  by (cases n) auto

lemma dom_push_targets: "dom m \<subseteq> dom (push_targets t f ts m)"
proof (induction ts arbitrary: m)
  case (Cons x ts)
  then show ?case
    using Cons [of "case x of None \<Rightarrow> m | Some t' \<Rightarrow> push_successor t ((f, t'), True) m"]
    by (cases x) (auto simp: push_targets_def)
qed (simp add: push_targets_def)

lemma dom_backward: "dom m \<subseteq> dom (backward_edges f t m)"
proof -
  have "dom m \<subseteq> dom (fold (\<lambda>s m. push_predecessor (snd (fst s)) (f, t) m) ss m)" for ss m
  proof (induction ss arbitrary: m)
    case (Cons s ss)
    show ?case using Cons [of "push_predecessor (snd (fst s)) (f, t) m"] by simp
  qed simp
  then show ?thesis by (simp add: backward_edges_def)
qed

lemma dom_compute_edges_at: "insert (pc i) (dom m) \<subseteq> dom (compute_edges_at gf f is i n m)"
proof -
  define m0 where "m0 = m(pc i \<mapsto> entry_at m (pc i))"
  have "dom m0 \<subseteq> dom (goto_edges f i n m0)"
    unfolding goto_edges_def by (rule order_trans [OF _ dom_push_targets]) (use dom_push_next in auto)
  moreover have "dom m0 \<subseteq> dom (start_thread_edges f i n m0)"
    unfolding start_thread_edges_def by (rule order_trans [OF _ dom_push_targets]) auto
  moreover have "dom m0 \<subseteq> dom (function_call_edges gf f i n m0)"
    using dom_push_next [of m0] by (auto simp: function_call_edges_def Let_def split: option.splits)
  moreover have "dom m0 \<subseteq> dom (return_edges f is i n m0)" by (auto simp: return_edges_def)
  ultimately have "dom m0 \<subseteq> dom (compute_edges_at gf f is i n m)"
    using dom_push_next [of m0] unfolding compute_edges_at_def Let_def m0_def [symmetric]
    by (intro order_trans [OF _ dom_backward]) simp
  then show ?thesis by (simp add: m0_def)
qed

lemma dom_compute_edges_from: "pc ` set is \<union> dom m \<subseteq> dom (compute_edges_from gf f instrs is m)"
proof (induction "is" arbitrary: m)
  case (Cons i "is")
  then show ?case using dom_compute_edges_at [of i m gf f instrs "next_pc is"]
    by (simp) (meson insert_subset order_trans subset_iff)
qed simp

lemma dom_compute_edges:
  assumes "(f, fct) \<in> set gf" "body_available fct" "i \<in> set (body fct)"
  shows "pc i \<in> dom (compute_edges gf)"
proof -
  let ?F = "\<lambda>(f, fct) m. if body_available fct then compute_edges_from gf f (body fct) (body fct) m else m"
  have mono: "dom m \<subseteq> dom (?F p m)" for p m
    using dom_compute_edges_from by (auto split: prod.splits)
  have fold_mono: "dom m \<subseteq> dom (fold ?F gs m)" for gs m
  proof (induction gs arbitrary: m)
    case (Cons p gs)
    show ?case using order_trans [OF mono [of m p] Cons [of "?F p m"]] by simp
  qed simp
  obtain gs hs where gf: "gf = gs @ (f, fct) # hs" using assms(1) by (meson split_list)
  have "pc i \<in> dom (?F (f, fct) m)" for m
    using dom_compute_edges_from [of "body fct" m gf f "body fct"] assms by auto
  then have "pc i \<in> dom (fold ?F hs (?F (f, fct) (fold ?F gs Map.empty)))"
    using fold_mono by blast
  moreover have "fold ?F gf Map.empty = fold ?F hs (?F (f, fct) (fold ?F gs Map.empty))"
    using gf by (metis (no_types, lifting) comp_apply fold_Cons fold_append)
  ultimately show ?thesis by (simp add: compute_edges_def)
qed

lemma fetch_inject:
  assumes "goto_wf gf" "fetch gf f k = Some i" "fetch gf f l = Some e" "pc i = pc e"
  shows "l = k"
proof -
  obtain fct where fct: "map_of gf f = Some fct"
    using assms(2) by (auto simp: fetch_def split: option.splits if_splits)
  then have "k < length (body fct)" "body fct ! k = i" "l < length (body fct)" "body fct ! l = e"
    using assms(2,3) by (auto simp: fetch_def split: if_splits)
  moreover have "distinct (map i_location_number (body fct))"
    using goto_wfD(3) [OF assms(1) map_of_SomeD [OF fct]] .
  moreover have "i_location_number e = i_location_number i" using assms(4) by (simp add: pc_def)
  ultimately show ?thesis by (metis distinct_conv_nth length_map nth_map)
qed

section \<open>Properties\<close>

text \<open>
  C10. The control flow graph is exact: after \<open>compute_edges\<close> every instruction has an
  entry, the successors of a location are the locations control may pass to by the rules of
  \<open>cfg_step\<close>, and the predecessors are the converse relation. In particular the return edges
  the loop stores at the last instruction of a callee, possibly before that instruction is
  visited itself, are complete.
\<close>

theorem cfg_exact:
  assumes "goto_wf gf" "n \<in> cfa_nodes"
  shows "(\<forall>f k i. fetch gf f k = Some i \<longrightarrow> compute_edges gf (pc i) \<noteq> None)
    \<and> fst ` set (successors (entry_at (compute_edges gf) (snd n))) = {n'. cfg_step gf n n'}
    \<and> set (predecessors (entry_at (compute_edges gf) (snd n))) = {n'. cfg_step gf n' n}"
proof (intro conjI allI impI)
  fix f k i assume "fetch gf f k = Some i"
  then show "compute_edges gf (pc i) \<noteq> None" using fetch_mem dom_compute_edges by blast
qed (use successors_step [OF assms] predecessors_step [OF assms] in blast)+

definition sample_instruction ::
  "goto_program_instruction_typet \<Rightarrow> string \<Rightarrow> nat \<Rightarrow> codet \<Rightarrow> instructiont" where
  "sample_instruction ty f k c =
    \<lparr>i_type = ty, i_function = f, i_location_number = k,
     source_location = Some \<lparr>get_file = ''a.c'', get_line = ''7'', get_column = [], get_property_id = []\<rparr>,
     labels = [], targets = [], guard = Guard_True, code = c\<rparr>"

definition sample_callee :: "string \<times> goto_functiont" where
  "sample_callee = (''f'', \<lparr>body =
     [sample_instruction RETURN ''f'' 0 (Code_Statement ''return''),
      sample_instruction END_FUNCTION ''f'' 1 (Code_Statement [])], body_available = True, is_inlined = False\<rparr>)"

definition sample_caller :: "string \<times> goto_functiont" where
  "sample_caller = (''main'', \<lparr>body =
     [sample_instruction FUNCTION_CALL ''main'' 0 (Code_Function_Call (Exprt ''symbol'' ''f'' [])),
      sample_instruction ASSIGN ''main'' 1 (Code_Assign (Exprt ''symbol'' ''main::x'' []) (Exprt ''symbol'' ''y'' [])),
      sample_instruction END_FUNCTION ''main'' 2 (Code_Statement [])], body_available = True, is_inlined = False\<rparr>)"

definition sample_program :: goto_functionst where
  "sample_program = [sample_callee, sample_caller]"

lemmas sample_program_simps = sample_program_def sample_callee_def sample_caller_def sample_instruction_def

lemma sample_program_wf: "goto_wf sample_program" "goto_wf (rev sample_program)"
  by (simp_all add: goto_wf_def sample_program_simps)

theorem cfg_exact_witness:
  "fst ` set (successors (entry_at (compute_edges sample_program) (snd (sample_node 0))))
     = {n'. cfg_step sample_program (sample_node 0) n'}
   \<and> cfg_step sample_program (sample_node 0) (''f'', \<lparr>t_function = ''f'', location_number = 0\<rparr>)"
proof -
  have "sample_node 0 \<in> cfa_nodes" by (simp add: sample_node_def cfa_nodes_def)
  note * = cfg_exact [OF sample_program_wf(1) this]
  have "(''f'', \<lparr>t_function = ''f'', location_number = 0\<rparr>)
      \<in> fst ` set (successors (entry_at (compute_edges sample_program) (snd (sample_node 0))))"
    by code_simp
  then show ?thesis using * by simp
qed

text \<open>
  The number of predecessor entries of a return location depends on the order of the
  functions. The program is the same; when the callee comes before its caller, the location
  behind the call has one predecessor, and when the caller comes first it has the same
  predecessor twice, because the return edge is stored while the call is visited and again when
  the last instruction of the callee is visited.
\<close>

theorem return_location_predecessors_depend_on_order:
  "predecessors (entry_at (compute_edges [sample_callee, sample_caller]) (snd (sample_node 1)))
     = [(''f'', \<lparr>t_function = ''f'', location_number = 1\<rparr>)]
   \<and> predecessors (entry_at (compute_edges [sample_caller, sample_callee]) (snd (sample_node 1)))
     = [(''f'', \<lparr>t_function = ''f'', location_number = 1\<rparr>), (''f'', \<lparr>t_function = ''f'', location_number = 1\<rparr>)]"
  by code_simp

text \<open>
  C27. A thread-creating instruction that is not the last one of its function never gets the
  next instruction as successor unless it is also a jump target: the fall-through edge the code
  adds leads from the instruction to itself.
\<close>

theorem start_thread_self_loop:
  assumes "goto_wf gf" "fetch gf f k = Some i" "i_type i = START_THREAD" "fetch gf f (Suc k) = Some j"
  shows "(f, pc i) \<in> fst ` set (successors (entry_at (compute_edges gf) (pc i)))
    \<and> ((f, pc j) \<in> fst ` set (successors (entry_at (compute_edges gf) (pc i))) \<longrightarrow> Some (pc j) \<in> set (targets i))"
proof -
  have node: "(f, pc i) \<in> cfa_nodes" using fetch_wf [OF assms(1,2)] by (simp add: cfa_nodes_def)
  have last: "k \<noteq> last_index gf f"
    using assms(4) by (auto simp: fetch_def last_index_def split: option.splits if_splits)
  note same = fetch_inject [OF assms(1)]
  have "cfg_step gf (f, pc i) (f, pc i)"
    using Thread_Self [OF assms(2-4)] by (auto simp: cfg_step_def)
  moreover have "Some (pc j) \<in> set (targets i)" if step: "cfg_step gf (f, pc i) (f, pc j)"
  proof -
    obtain g l where "cfg_rule gf g l (f, pc i) (f, pc j)" using step by (auto simp: cfg_step_def)
    then show ?thesis
    proof (cases rule: cfg_rule.cases)
      case (Thread_Self i' j')
      then show ?thesis using same [OF assms(2) assms(4)] by simp
    next
      case (Call_Return i' e' j')
      then show ?thesis using same [OF assms(2), of "last_index gf f" e'] last by simp
    qed (use same [OF assms(2)] assms(2,3) in \<open>auto dest: same [OF assms(2)]\<close>)
  qed
  ultimately show ?thesis using successors_step [OF assms(1) node] by simp
qed

definition sample_threads :: goto_functionst where
  "sample_threads = [(''main'', \<lparr>body =
     [(sample_instruction START_THREAD ''main'' 0 (Code_Statement []))
        \<lparr>targets := [Some \<lparr>t_function = ''main'', location_number = 2\<rparr>]\<rparr>,
      sample_instruction SKIP ''main'' 1 (Code_Statement []),
      sample_instruction END_THREAD ''main'' 2 (Code_Statement [])], body_available = True, is_inlined = False\<rparr>)]"

theorem start_thread_self_loop_witness:
  "sample_node 0 \<in> fst ` set (successors (entry_at (compute_edges sample_threads) (snd (sample_node 0))))
   \<and> sample_node 1 \<notin> fst ` set (successors (entry_at (compute_edges sample_threads) (snd (sample_node 0))))"
proof -
  have "goto_wf sample_threads" by (simp add: goto_wf_def sample_threads_def sample_instruction_def pc_def)
  moreover have "fetch sample_threads ''main'' 0 = Some (body (snd (hd sample_threads)) ! 0)"
    "fetch sample_threads ''main'' (Suc 0) = Some (body (snd (hd sample_threads)) ! 1)"
    "i_type (body (snd (hd sample_threads)) ! 0) = START_THREAD"
    by (simp_all add: fetch_def sample_threads_def sample_instruction_def)
  ultimately show ?thesis
    using start_thread_self_loop [of sample_threads "''main''" 0 "body (snd (hd sample_threads)) ! 0" "body (snd (hd sample_threads)) ! 1"]
    by (simp add: sample_threads_def sample_instruction_def sample_node_def pc_def)
qed

end
