(* ===== verification/Fql_Ast_Printer.thy ===== *)
theory Fql_Ast_Printer
  imports Fql_Ast "HOL-Library.Monad_Syntax"
begin

text \<open>
  The printer of the FQL abstract syntax (\<open>src/fshell2/fql/ast/fql_ast_printer.cpp\<close>).

  One function per visitor method gives the characters the method writes, with the output of
  the operands as arguments; \<open>fql_print\<close> composes them the way \<open>accept\<close> does. CBMC's
  \<open>expr2c\<close> is the parameter \<open>ex\<close>. The result is \<open>None\<close> when
  \<open>c_expr.at\<close> throws, which happens when the text of a predicate has no visible character.

  Shown here: the printed form of a query determines the query up to addresses, the arguments
  a filter function does not use and the text of its predicates; the exception is a repetition
  with a positive lower and an upper bound, which is printed like one without lower bound.
\<close>

section \<open>Numbers\<close>

definition digit :: "nat \<Rightarrow> char" where
  "digit d = char_of (48 + d)"

fun show_nat :: "nat \<Rightarrow> string" where
  "show_nat n = (if n < 10 then [digit n] else show_nat (n div 10) @ [digit (n mod 10)])"

declare show_nat.simps [simp del]

definition show_int :: "int \<Rightarrow> string" where
  "show_int i = (if i < 0 then CHR ''-'' # show_nat (nat (- i)) else show_nat (nat i))"

section \<open>The visitor methods\<close>

definition print_CP_Alternative :: "string \<Rightarrow> string \<Rightarrow> string" where
  "print_CP_Alternative a b = ''('' @ a @ ''+'' @ b @ '')''"

definition print_CP_Concat :: "string \<Rightarrow> string \<Rightarrow> string" where
  "print_CP_Concat a b = ''('' @ a @ ''.'' @ b @ '')''"

definition print_Depcov :: "string \<Rightarrow> string \<Rightarrow> string \<Rightarrow> string" where
  "print_Depcov a b c = ''DEPS('' @ a @ '','' @ b @ '','' @ c @ '')''"

definition print_Edgecov :: "string \<Rightarrow> string" where
  "print_Edgecov f = ''EDGES('' @ f @ '')''"

definition print_Filter_Compose :: "string \<Rightarrow> string \<Rightarrow> string" where
  "print_Filter_Compose a b = ''COMPOSE('' @ a @ '','' @ b @ '')''"

fun stt_name :: "nat \<Rightarrow> string option" where
  "stt_name i =
    (if i = 0 then Some ''IF'' else if i = 1 then Some ''FOR'' else if i = 2 then Some ''WHILE''
     else if i = 3 then Some ''SWITCH'' else if i = 4 then Some ''?:'' else if i = 5 then Some ''ASSERT''
     else None)"

fun stt_loop :: "nat list \<Rightarrow> int \<Rightarrow> bool \<Rightarrow> string" where
  "stt_loop [] types not_first = []"
| "stt_loop (i # is) types not_first =
    (if types = 0 then []
     else if bit types i then
       (case stt_name i of
          Some s \<Rightarrow> (if not_first then '','' else []) @ s @ stt_loop is (unset_bit i types) True
        | None \<Rightarrow> stt_loop is (unset_bit i types) not_first)
     else stt_loop is types not_first)"

definition print_Stmttypes :: "int \<Rightarrow> string" where
  "print_Stmttypes types = ''@STMTTYPE('' @ stt_loop [0..<32] types False @ '')''"

abbreviation quoted :: "string \<Rightarrow> string" where
  "quoted s \<equiv> CHR 0x27 # s @ [CHR 0x27]"

definition print_Filter_Function :: "filter_function_t \<Rightarrow> int \<Rightarrow> string \<Rightarrow> string" where
  "print_Filter_Function t i s = (case t of
      F_IDENTITY \<Rightarrow> ''ID''
    | F_FILE \<Rightarrow> ''@FILE('' @ quoted s @ '')''
    | F_LINE \<Rightarrow> ''@LINE('' @ show_int i @ '')''
    | F_COLUMN \<Rightarrow> ''@COLUMN('' @ show_int i @ '')''
    | F_FUNC \<Rightarrow> ''@FUNC('' @ s @ '')''
    | F_LABEL \<Rightarrow> ''@LABEL('' @ s @ '')''
    | F_CALL \<Rightarrow> ''@CALL('' @ s @ '')''
    | F_CALLS \<Rightarrow> ''@CALLS''
    | F_ENTRY \<Rightarrow> ''@ENTRY('' @ s @ '')''
    | F_EXIT \<Rightarrow> ''@EXIT('' @ s @ '')''
    | F_EXPR \<Rightarrow> ''@EXPR('' @ quoted s @ '')''
    | F_REGEXP \<Rightarrow> ''@REGEXP('' @ quoted s @ '')''
    | F_BASICBLOCKENTRY \<Rightarrow> ''@BASICBLOCKENTRY''
    | F_CONDITIONEDGE \<Rightarrow> ''@CONDITIONEDGE''
    | F_DECISIONEDGE \<Rightarrow> ''@DECISIONEDGE''
    | F_CONDITIONGRAPH \<Rightarrow> ''@CONDITIONGRAPH''
    | F_DEF \<Rightarrow> ''@DEF('' @ s @ '')''
    | F_USE \<Rightarrow> ''@USE('' @ s @ '')''
    | F_STMTTYPE \<Rightarrow> print_Stmttypes i)"

definition print_Filter_Intersection :: "string \<Rightarrow> string \<Rightarrow> string" where
  "print_Filter_Intersection a b = ''('' @ a @ ''&'' @ b @ '')''"

definition print_Filter_Setminus :: "string \<Rightarrow> string \<Rightarrow> string" where
  "print_Filter_Setminus a b = ''SETMINUS('' @ a @ '','' @ b @ '')''"

definition print_Filter_Union :: "string \<Rightarrow> string \<Rightarrow> string" where
  "print_Filter_Union a b = ''('' @ a @ ''|'' @ b @ '')''"

definition print_PP_Alternative :: "string \<Rightarrow> string \<Rightarrow> string" where
  "print_PP_Alternative a b = ''('' @ a @ ''+'' @ b @ '')''"

definition print_PP_Concat :: "string \<Rightarrow> string \<Rightarrow> string" where
  "print_PP_Concat a b = ''('' @ a @ ''.'' @ b @ '')''"

definition print_Nodecov :: "string \<Rightarrow> string" where
  "print_Nodecov f = ''NODES('' @ f @ '')''"

definition print_Pathcov :: "string \<Rightarrow> int \<Rightarrow> string" where
  "print_Pathcov f bound = ''PATHS('' @ f @ '','' @ show_int bound @ '')''"

text \<open>\<open>isspace\<close>, \<open>find\<close> and \<open>rfind\<close> of the standard library.\<close>

definition isspace :: "char \<Rightarrow> bool" where
  "isspace c \<longleftrightarrow> c \<in> set [CHR '' '', CHR 0x09, CHR 0x0A, CHR 0x0B, CHR 0x0C, CHR 0x0D]"

definition str_find :: "string \<Rightarrow> string \<Rightarrow> nat option" where
  "str_find s pat = find (\<lambda>i. prefix pat (drop i s)) [0..<Suc (length s)]"

definition str_rfind :: "string \<Rightarrow> char \<Rightarrow> nat option" where
  "str_rfind s c = find (\<lambda>i. s ! i = c) (rev [0..<length s])"

definition predicate_text :: "string \<Rightarrow> string option" where
  "predicate_text c_expr =
    (if list_all isspace c_expr then None
     else
       (let no_ws_start = length (takeWhile isspace c_expr);
            c_expr = (case str_find c_expr ''!PRED! = (_Bool)'' of
                None \<Rightarrow> drop no_ws_start c_expr | Some pre \<Rightarrow> drop (pre + 16) c_expr)
        in if c_expr \<noteq> [] \<and> hd c_expr = CHR ''('' then
             Some (case str_rfind c_expr (CHR '')'') of
                 None \<Rightarrow> drop 1 c_expr | Some j \<Rightarrow> take (j - 1) (drop 1 c_expr))
           else Some c_expr))"

definition print_Predicate :: "string \<Rightarrow> string option" where
  "print_Predicate c_expr = map_option (\<lambda>t. ''{'' @ t @ ''}'') (predicate_text c_expr)"

definition print_Query :: "string option \<Rightarrow> string \<Rightarrow> string option \<Rightarrow> string" where
  "print_Query pre cover passing =
    (case pre of None \<Rightarrow> [] | Some s \<Rightarrow> ''IN '' @ s @ '' '') @ ''COVER '' @ cover
    @ (case passing of None \<Rightarrow> [] | Some s \<Rightarrow> '' PASSING '' @ s)"

definition print_Quote :: "string \<Rightarrow> string" where
  "print_Quote q = [CHR 0x22] @ q @ [CHR 0x22]"

definition print_Repeat :: "string \<Rightarrow> int \<Rightarrow> int \<Rightarrow> string" where
  "print_Repeat q lb ub = ''('' @ q @
    (if ub = - 1 then if lb = 0 then ''*'' else ''>='' @ show_int lb else ''<='' @ show_int ub) @ '')''"

fun fql_print :: "('e \<Rightarrow> string) \<Rightarrow> 'e fql_node \<Rightarrow> string option" where
  "fql_print ex (CP_Alternative p a b) = do { x \<leftarrow> fql_print ex a; y \<leftarrow> fql_print ex b; Some (print_CP_Alternative x y) }"
| "fql_print ex (CP_Concat p a b) = do { x \<leftarrow> fql_print ex a; y \<leftarrow> fql_print ex b; Some (print_CP_Concat x y) }"
| "fql_print ex (Depcov p a b c) =
     do { x \<leftarrow> fql_print ex a; y \<leftarrow> fql_print ex b; z \<leftarrow> fql_print ex c; Some (print_Depcov x y z) }"
| "fql_print ex (Edgecov p f) = do { x \<leftarrow> fql_print ex f; Some (print_Edgecov x) }"
| "fql_print ex (Filter_Compose p a b) = do { x \<leftarrow> fql_print ex a; y \<leftarrow> fql_print ex b; Some (print_Filter_Compose x y) }"
| "fql_print ex (Filter_Function p t i s) = Some (print_Filter_Function t i s)"
| "fql_print ex (Filter_Intersection p a b) =
     do { x \<leftarrow> fql_print ex a; y \<leftarrow> fql_print ex b; Some (print_Filter_Intersection x y) }"
| "fql_print ex (Filter_Setminus p a b) = do { x \<leftarrow> fql_print ex a; y \<leftarrow> fql_print ex b; Some (print_Filter_Setminus x y) }"
| "fql_print ex (Filter_Union p a b) = do { x \<leftarrow> fql_print ex a; y \<leftarrow> fql_print ex b; Some (print_Filter_Union x y) }"
| "fql_print ex (Nodecov p f) = do { x \<leftarrow> fql_print ex f; Some (print_Nodecov x) }"
| "fql_print ex (PP_Alternative p a b) = do { x \<leftarrow> fql_print ex a; y \<leftarrow> fql_print ex b; Some (print_PP_Alternative x y) }"
| "fql_print ex (PP_Concat p a b) = do { x \<leftarrow> fql_print ex a; y \<leftarrow> fql_print ex b; Some (print_PP_Concat x y) }"
| "fql_print ex (Pathcov p f bound) = do { x \<leftarrow> fql_print ex f; Some (print_Pathcov x bound) }"
| "fql_print ex (Predicate p e) = do { e \<leftarrow> e; print_Predicate (ex e) }"
| "fql_print ex (Quote p q) = do { x \<leftarrow> fql_print ex q; Some (print_Quote x) }"
| "fql_print ex (Query p None cover None) = do { y \<leftarrow> fql_print ex cover; Some (print_Query None y None) }"
| "fql_print ex (Query p None cover (Some passing)) =
     do { y \<leftarrow> fql_print ex cover; z \<leftarrow> fql_print ex passing; Some (print_Query None y (Some z)) }"
| "fql_print ex (Query p (Some pre) cover None) =
     do { x \<leftarrow> fql_print ex pre; y \<leftarrow> fql_print ex cover; Some (print_Query (Some x) y None) }"
| "fql_print ex (Query p (Some pre) cover (Some passing)) =
     do { x \<leftarrow> fql_print ex pre; y \<leftarrow> fql_print ex cover; z \<leftarrow> fql_print ex passing;
       Some (print_Query (Some x) y (Some z)) }"
| "fql_print ex (Repeat p q lb ub) = do { x \<leftarrow> fql_print ex q; Some (print_Repeat x lb ub) }"

lemmas print_defs = print_CP_Alternative_def print_CP_Concat_def print_Depcov_def print_Edgecov_def
  print_Filter_Compose_def print_Filter_Intersection_def print_Filter_Setminus_def print_Filter_Union_def
  print_PP_Alternative_def print_PP_Concat_def print_Nodecov_def print_Pathcov_def print_Query_def
  print_Quote_def print_Repeat_def

section \<open>Decimal numbers can be read back\<close>

lemma of_char_digit: "d < 10 \<Longrightarrow> of_char (digit d) = (48 + d :: nat)"
  by (simp add: digit_def)

definition read_nat :: "string \<Rightarrow> nat" where
  "read_nat s = foldl (\<lambda>a c. 10 * a + (of_char c - 48)) 0 s"

lemma read_show_nat: "read_nat (show_nat n) = n"
proof (induction n rule: show_nat.induct)
  case (1 n)
  show ?case
  proof (cases "n < 10")
    case False
    then have "read_nat (show_nat n) = 10 * read_nat (show_nat (n div 10)) + n mod 10"
      by (subst show_nat.simps) (simp add: read_nat_def of_char_digit)
    then show ?thesis using 1 [OF False] by simp
  qed (simp add: show_nat.simps [of n] read_nat_def of_char_digit)
qed

lemma show_nat_inject [simp]: "show_nat m = show_nat n \<longleftrightarrow> m = n"
  using read_show_nat by metis

lemma show_nat_digits: "c \<in> set (show_nat n) \<Longrightarrow> 48 \<le> (of_char c :: nat) \<and> (of_char c :: nat) < 58"
proof (induction n rule: show_nat.induct)
  case (1 n)
  then show ?case by (subst (asm) (2) show_nat.simps) (auto simp: of_char_digit split: if_splits)
qed

lemma show_int_chars: "CHR '')'' \<notin> set (show_int i)"
  using show_nat_digits [of "CHR '')''"] by (auto simp: show_int_def)

lemma show_int_inject [simp]: "show_int i = show_int j \<longleftrightarrow> i = j"
proof -
  have "show_nat n \<noteq> CHR ''-'' # s" for n s using show_nat_digits [of "CHR ''-''" n] by auto
  then show ?thesis unfolding show_int_def by (auto simp: nat_eq_iff dest: sym)
qed

section \<open>The printed form can be read back\<close>

text \<open>A text that ends at the first occurrence of a delimiter.\<close>

lemma delimited_unique:
  "\<lbrakk>u @ d # r = u' @ d # r'; d \<notin> set u; d \<notin> set u'\<rbrakk> \<Longrightarrow> u = u' \<and> r = r'"
proof (induction u arbitrary: u')
  case Nil
  then show ?case by (cases u') auto
next
  case (Cons c u)
  then show ?case by (cases u') auto
qed

definition ff_keyword :: "filter_function_t \<Rightarrow> string" where
  "ff_keyword t = (case t of
      F_IDENTITY \<Rightarrow> ''ID'' | F_FILE \<Rightarrow> ''@FILE('' | F_LINE \<Rightarrow> ''@LINE('' | F_COLUMN \<Rightarrow> ''@COLUMN(''
    | F_FUNC \<Rightarrow> ''@FUNC('' | F_LABEL \<Rightarrow> ''@LABEL('' | F_CALL \<Rightarrow> ''@CALL('' | F_CALLS \<Rightarrow> ''@CALLS''
    | F_ENTRY \<Rightarrow> ''@ENTRY('' | F_EXIT \<Rightarrow> ''@EXIT('' | F_EXPR \<Rightarrow> ''@EXPR('' | F_REGEXP \<Rightarrow> ''@REGEXP(''
    | F_BASICBLOCKENTRY \<Rightarrow> ''@BASICBLOCKENTRY'' | F_CONDITIONEDGE \<Rightarrow> ''@CONDITIONEDGE''
    | F_DECISIONEDGE \<Rightarrow> ''@DECISIONEDGE'' | F_CONDITIONGRAPH \<Rightarrow> ''@CONDITIONGRAPH''
    | F_DEF \<Rightarrow> ''@DEF('' | F_USE \<Rightarrow> ''@USE('' | F_STMTTYPE \<Rightarrow> ''@STMTTYPE('')"

definition ff_types :: "filter_function_t list" where
  "ff_types = [F_IDENTITY, F_FILE, F_LINE, F_COLUMN, F_FUNC, F_LABEL, F_CALL, F_CALLS, F_ENTRY, F_EXIT, F_EXPR,
     F_REGEXP, F_BASICBLOCKENTRY, F_CONDITIONEDGE, F_DECISIONEDGE, F_CONDITIONGRAPH, F_DEF, F_USE, F_STMTTYPE]"

lemma ff_types_all: "t \<in> set ff_types"
  by (cases t) (simp_all add: ff_types_def)

lemma ff_keywords_prefix_free:
  "list_all (\<lambda>t. list_all (\<lambda>t'. prefix (ff_keyword t) (ff_keyword t') \<longrightarrow> t = t') ff_types) ff_types"
  by code_simp

lemma ff_keyword_unique:
  assumes "ff_keyword t @ r = ff_keyword t' @ r'"
  shows "t = t'"
proof -
  have "prefix (ff_keyword t) (ff_keyword t @ r)" "prefix (ff_keyword t') (ff_keyword t @ r)"
    using assms prefixI by metis+
  then have "prefix (ff_keyword t) (ff_keyword t') \<or> prefix (ff_keyword t') (ff_keyword t)"
    by (rule prefix_same_cases)
  moreover have "prefix (ff_keyword t) (ff_keyword t') \<longrightarrow> t = t'" for t t'
    using ff_keywords_prefix_free ff_types_all [of t] ff_types_all [of t'] by (auto simp: list_all_iff)
  ultimately show ?thesis by blast
qed

lemma print_ff_keyword: "\<exists>a. print_Filter_Function t i s = ff_keyword t @ a"
  by (cases t) (simp_all add: print_Filter_Function_def ff_keyword_def print_Stmttypes_def)

text \<open>Which arguments of a filter function are printed, and when they can be read back.\<close>

definition ff_int_arg :: "filter_function_t \<Rightarrow> bool" where
  "ff_int_arg t \<longleftrightarrow> t \<in> {F_LINE, F_COLUMN, F_STMTTYPE}"

definition ff_string_arg :: "filter_function_t \<Rightarrow> bool" where
  "ff_string_arg t \<longleftrightarrow> t \<in> {F_FILE, F_FUNC, F_LABEL, F_CALL, F_ENTRY, F_EXIT, F_EXPR, F_REGEXP, F_DEF, F_USE}"

definition ff_printable :: "filter_function_t \<Rightarrow> int \<Rightarrow> string \<Rightarrow> bool" where
  "ff_printable t i s \<longleftrightarrow> (t \<in> {F_FILE, F_EXPR, F_REGEXP} \<longrightarrow> CHR 0x27 \<notin> set s)
     \<and> (ff_string_arg t \<and> t \<notin> {F_FILE, F_EXPR, F_REGEXP} \<longrightarrow> CHR '')'' \<notin> set s)
     \<and> (t = F_STMTTYPE \<longrightarrow> 0 \<le> i \<and> i < 64)"

lemma stt_texts_distinct: "distinct (map (\<lambda>i. stt_loop [0..<32] i False) [0..63])"
  by code_simp

lemma stt_loop_inject:
  assumes "0 \<le> i" "i < 64" "0 \<le> j" "j < 64" "stt_loop [0..<32] i False = stt_loop [0..<32] j False"
  shows "i = j"
  using stt_texts_distinct assms unfolding distinct_map inj_on_def by simp

lemma stt_loop_chars: "CHR '')'' \<notin> set (stt_loop is i b)"
  by (induction "is" i b rule: stt_loop.induct) (auto split: if_splits)

lemma print_ff_readable:
  assumes "print_Filter_Function t i s @ r = print_Filter_Function t' i' s' @ r'"
    and "ff_printable t i s" "ff_printable t' i' s'"
  shows "t' = t \<and> (ff_int_arg t \<longrightarrow> i = i') \<and> (ff_string_arg t \<longrightarrow> s = s') \<and> r = r'"
proof -
  obtain a a' where "print_Filter_Function t i s = ff_keyword t @ a" "print_Filter_Function t' i' s' = ff_keyword t' @ a'"
    using print_ff_keyword by blast
  then have t: "t' = t" using ff_keyword_unique [of t "a @ r" t' "a' @ r'"] assms(1) by simp
  note d = delimited_unique [where d = "CHR '')''"] delimited_unique [where d = "CHR 0x27"]
  show ?thesis
    using assms d(1) [of "show_int i" r "show_int i'" r'] d(1) [of s r s' r'] d(2) [of s "'')'' @ r" s' "'')'' @ r'"]
      d(1) [of "stt_loop [0..<32] i False" r "stt_loop [0..<32] i' False" r'] stt_loop_inject [of i i']
      show_int_chars stt_loop_chars
    unfolding t by (cases t) (simp_all add: print_Filter_Function_def print_Stmttypes_def ff_printable_def ff_int_arg_def ff_string_arg_def)
qed

text \<open>
  A node without what printing does not show: addresses, unused arguments and the structure of
  predicates.
\<close>

primrec strip :: "('e \<Rightarrow> string) \<Rightarrow> 'e fql_node \<Rightarrow> string fql_node" where
  "strip ex (CP_Alternative p a b) = CP_Alternative 0 (strip ex a) (strip ex b)"
| "strip ex (CP_Concat p a b) = CP_Concat 0 (strip ex a) (strip ex b)"
| "strip ex (Depcov p a b c) = Depcov 0 (strip ex a) (strip ex b) (strip ex c)"
| "strip ex (Edgecov p f) = Edgecov 0 (strip ex f)"
| "strip ex (Filter_Compose p a b) = Filter_Compose 0 (strip ex a) (strip ex b)"
| "strip ex (Filter_Function p t i s) =
     Filter_Function 0 t (if ff_int_arg t then i else 0) (if ff_string_arg t then s else [])"
| "strip ex (Filter_Intersection p a b) = Filter_Intersection 0 (strip ex a) (strip ex b)"
| "strip ex (Filter_Setminus p a b) = Filter_Setminus 0 (strip ex a) (strip ex b)"
| "strip ex (Filter_Union p a b) = Filter_Union 0 (strip ex a) (strip ex b)"
| "strip ex (Nodecov p f) = Nodecov 0 (strip ex f)"
| "strip ex (PP_Alternative p a b) = PP_Alternative 0 (strip ex a) (strip ex b)"
| "strip ex (PP_Concat p a b) = PP_Concat 0 (strip ex a) (strip ex b)"
| "strip ex (Pathcov p f k) = Pathcov 0 (strip ex f) k"
| "strip ex (Predicate p e) = Predicate 0 (Option.bind e (\<lambda>e. predicate_text (ex e)))"
| "strip ex (Quote p q) = Quote 0 (strip ex q)"
| "strip ex (Query p x c y) = Query 0 (map_option (strip ex) x) (strip ex c) (map_option (strip ex) y)"
| "strip ex (Repeat p q l u) = Repeat 0 (strip ex q) l u"

text \<open>
  Texts that do not contain their own delimiter, statement types among the six known ones, and
  bounds the concrete syntax of repetitions has.
\<close>

primrec printable :: "('e \<Rightarrow> string) \<Rightarrow> 'e fql_node \<Rightarrow> bool" where
  "printable ex (CP_Alternative p a b) \<longleftrightarrow> printable ex a \<and> printable ex b"
| "printable ex (CP_Concat p a b) \<longleftrightarrow> printable ex a \<and> printable ex b"
| "printable ex (Depcov p a b c) \<longleftrightarrow> printable ex a \<and> printable ex b \<and> printable ex c"
| "printable ex (Edgecov p f) \<longleftrightarrow> printable ex f"
| "printable ex (Filter_Compose p a b) \<longleftrightarrow> printable ex a \<and> printable ex b"
| "printable ex (Filter_Function p t i s) \<longleftrightarrow> ff_printable t i s"
| "printable ex (Filter_Intersection p a b) \<longleftrightarrow> printable ex a \<and> printable ex b"
| "printable ex (Filter_Setminus p a b) \<longleftrightarrow> printable ex a \<and> printable ex b"
| "printable ex (Filter_Union p a b) \<longleftrightarrow> printable ex a \<and> printable ex b"
| "printable ex (Nodecov p f) \<longleftrightarrow> printable ex f"
| "printable ex (PP_Alternative p a b) \<longleftrightarrow> printable ex a \<and> printable ex b"
| "printable ex (PP_Concat p a b) \<longleftrightarrow> printable ex a \<and> printable ex b"
| "printable ex (Pathcov p f k) \<longleftrightarrow> printable ex f"
| "printable ex (Predicate p e) \<longleftrightarrow> pred_option (\<lambda>e. pred_option (\<lambda>t. CHR ''}'' \<notin> set t) (predicate_text (ex e))) e"
| "printable ex (Quote p q) \<longleftrightarrow> printable ex q"
| "printable ex (Query p x c y) \<longleftrightarrow> pred_option (printable ex) x \<and> printable ex c \<and> pred_option (printable ex) y"
| "printable ex (Repeat p q l u) \<longleftrightarrow> printable ex q \<and> (u = - 1 \<or> l = 0)"

text \<open>
  Reading back: a printed node of a static type, followed by anything, is the print of one
  stripped node only.
\<close>

definition readable :: "('e \<Rightarrow> string) \<Rightarrow> ('e fql_node \<Rightarrow> bool) \<Rightarrow> 'e fql_node \<Rightarrow> bool" where
  "readable ex P n \<longleftrightarrow> (\<forall>s n' s' r r'. fql_print ex n = Some s \<longrightarrow> P n' \<longrightarrow> well_typed n' \<longrightarrow> printable ex n'
     \<longrightarrow> fql_print ex n' = Some s' \<longrightarrow> s @ r = s' @ r' \<longrightarrow> strip ex n = strip ex n' \<and> r = r')"

lemma readableD:
  "\<lbrakk>readable ex P n; fql_print ex n = Some s; P n'; well_typed n'; printable ex n'; fql_print ex n' = Some s'; s @ r = s' @ r'\<rbrakk>
    \<Longrightarrow> strip ex n = strip ex n' \<and> r = r'"
  unfolding readable_def by blast

lemma readableI:
  "(\<And>s n' s' r r'. \<lbrakk>fql_print ex n = Some s; P n'; well_typed n'; printable ex n'; fql_print ex n' = Some s'; s @ r = s' @ r'\<rbrakk>
    \<Longrightarrow> strip ex n = strip ex n' \<and> r = r') \<Longrightarrow> readable ex P n"
  unfolding readable_def by blast

lemma read_operand:
  assumes "readable ex P a" "fql_print ex a = Some x"
  shows "\<lbrakk>x @ r = x' @ r'; fql_print ex a' = Some x'; P a'; well_typed a'; printable ex a'\<rbrakk>
    \<Longrightarrow> strip ex a = strip ex a' \<and> r = r'"
  using readableD [OF assms] by blast

lemma print_ff_first: "print_Filter_Function t i s @ r = c # z \<Longrightarrow> c = CHR ''@'' \<or> c = CHR ''I''"
  by (cases t) (auto simp: print_Filter_Function_def print_Stmttypes_def)

lemmas print_simps = bind_eq_Some_conv print_defs

text \<open>The constructors behind an opening parenthesis or a keyword.\<close>

lemma filter_first:
  assumes "is_filter n" "fql_print ex n = Some s" "s @ r = c # z"
  shows "c = CHR ''('' \<Longrightarrow> node_class n \<in> {C_Filter_Intersection, C_Filter_Union}"
    "c = CHR ''C'' \<Longrightarrow> node_class n = C_Filter_Compose" "c = CHR ''S'' \<Longrightarrow> node_class n = C_Filter_Setminus"
    "c = CHR ''@'' \<or> c = CHR ''I'' \<Longrightarrow> node_class n = C_Filter_Function"
  using assms print_ff_first by (cases n; fastforce simp: print_simps is_filter_def)+

lemma readable_Filter_Function:
  assumes "ff_printable t i u"
  shows "readable ex is_filter (Filter_Function p t i u)"
proof (rule readableI)
  fix s n' s' r r'
  assume *: "fql_print ex (Filter_Function p t i u) = Some s" "is_filter n'" "printable ex n'"
    "fql_print ex n' = Some s'" "s @ r = s' @ r'"
  have s: "s = print_Filter_Function t i u" using *(1) by simp
  then obtain c z where cz: "s @ r = c # z" "c = CHR ''@'' \<or> c = CHR ''I''"
    using print_ff_first by (cases "s @ r") (fastforce simp: print_Filter_Function_def print_Stmttypes_def split: filter_function_t.splits)+
  then have "node_class n' = C_Filter_Function" using filter_first(4) [OF *(2,4), of r' c z] *(5) by simp
  then obtain p' t' i' u' where "n' = Filter_Function p' t' i' u'" by (cases n') auto
  then show "strip ex (Filter_Function p t i u) = strip ex n' \<and> r = r'"
    using * print_ff_readable [of t i u r t' i' u' r'] assms by auto
qed

lemma readable_Filter_Compose:
  assumes a: "readable ex is_filter a" and b: "readable ex is_filter b"
  shows "readable ex is_filter (Filter_Compose p a b)"
proof (rule readableI)
  fix s n' s' r r'
  assume *: "fql_print ex (Filter_Compose p a b) = Some s" "is_filter n'" "well_typed n'" "printable ex n'"
    "fql_print ex n' = Some s'" "s @ r = s' @ r'"
  obtain a_text b_text where tx: "fql_print ex a = Some a_text" "fql_print ex b = Some b_text"
    and s: "s = print_Filter_Compose a_text b_text"
    using *(1) by (auto simp: bind_eq_Some_conv)
  have "node_class n' \<in> {C_Filter_Compose}"
    using filter_first(2) [OF *(2,5) *(6) [symmetric, unfolded s print_defs, simplified]] by simp
  then show "strip ex (Filter_Compose p a b) = strip ex n' \<and> r = r'"
    using *(2-6) unfolding s by (cases n') (auto simp: print_simps dest!: read_operand [OF a tx(1)] read_operand [OF b tx(2)])
qed

lemma readable_Filter_Intersection:
  assumes a: "readable ex is_filter a" and b: "readable ex is_filter b"
  shows "readable ex is_filter (Filter_Intersection p a b)"
proof (rule readableI)
  fix s n' s' r r'
  assume *: "fql_print ex (Filter_Intersection p a b) = Some s" "is_filter n'" "well_typed n'" "printable ex n'"
    "fql_print ex n' = Some s'" "s @ r = s' @ r'"
  obtain a_text b_text where tx: "fql_print ex a = Some a_text" "fql_print ex b = Some b_text"
    and s: "s = print_Filter_Intersection a_text b_text"
    using *(1) by (auto simp: bind_eq_Some_conv)
  have "node_class n' \<in> {C_Filter_Intersection, C_Filter_Union}"
    using filter_first(1) [OF *(2,5) *(6) [symmetric, unfolded s print_defs, simplified]] by simp
  then show "strip ex (Filter_Intersection p a b) = strip ex n' \<and> r = r'"
    using *(2-6) unfolding s by (cases n') (auto simp: print_simps dest!: read_operand [OF a tx(1)] read_operand [OF b tx(2)])
qed

lemma readable_Filter_Setminus:
  assumes a: "readable ex is_filter a" and b: "readable ex is_filter b"
  shows "readable ex is_filter (Filter_Setminus p a b)"
proof (rule readableI)
  fix s n' s' r r'
  assume *: "fql_print ex (Filter_Setminus p a b) = Some s" "is_filter n'" "well_typed n'" "printable ex n'"
    "fql_print ex n' = Some s'" "s @ r = s' @ r'"
  obtain a_text b_text where tx: "fql_print ex a = Some a_text" "fql_print ex b = Some b_text"
    and s: "s = print_Filter_Setminus a_text b_text"
    using *(1) by (auto simp: bind_eq_Some_conv)
  have "node_class n' \<in> {C_Filter_Setminus}"
    using filter_first(3) [OF *(2,5) *(6) [symmetric, unfolded s print_defs, simplified]] by simp
  then show "strip ex (Filter_Setminus p a b) = strip ex n' \<and> r = r'"
    using *(2-6) unfolding s by (cases n') (auto simp: print_simps dest!: read_operand [OF a tx(1)] read_operand [OF b tx(2)])
qed

lemma readable_Filter_Union:
  assumes a: "readable ex is_filter a" and b: "readable ex is_filter b"
  shows "readable ex is_filter (Filter_Union p a b)"
proof (rule readableI)
  fix s n' s' r r'
  assume *: "fql_print ex (Filter_Union p a b) = Some s" "is_filter n'" "well_typed n'" "printable ex n'"
    "fql_print ex n' = Some s'" "s @ r = s' @ r'"
  obtain a_text b_text where tx: "fql_print ex a = Some a_text" "fql_print ex b = Some b_text"
    and s: "s = print_Filter_Union a_text b_text"
    using *(1) by (auto simp: bind_eq_Some_conv)
  have "node_class n' \<in> {C_Filter_Intersection, C_Filter_Union}"
    using filter_first(1) [OF *(2,5) *(6) [symmetric, unfolded s print_defs, simplified]] by simp
  then show "strip ex (Filter_Union p a b) = strip ex n' \<and> r = r'"
    using *(2-6) unfolding s by (cases n') (auto simp: print_simps dest!: read_operand [OF a tx(1)] read_operand [OF b tx(2)])
qed

lemma filter_readable: "\<lbrakk>is_filter n; well_typed n; printable ex n\<rbrakk> \<Longrightarrow> readable ex is_filter n"
  by (induction n) (simp_all add: is_filter_def readable_Filter_Function readable_Filter_Compose
    readable_Filter_Intersection readable_Filter_Setminus readable_Filter_Union)

text \<open>Atoms, in path patterns and in coverage patterns.\<close>

definition atoms_first :: "('e \<Rightarrow> string) \<Rightarrow> ('e fql_node \<Rightarrow> bool) \<Rightarrow> bool" where
  "atoms_first ex P \<longleftrightarrow> (\<forall>n s r c z. P n \<longrightarrow> fql_print ex n = Some s \<longrightarrow> s @ r = c # z \<longrightarrow>
     (c = CHR ''D'' \<longrightarrow> node_class n = C_Depcov) \<and> (c = CHR ''E'' \<longrightarrow> node_class n = C_Edgecov)
     \<and> (c = CHR ''N'' \<longrightarrow> node_class n = C_Nodecov) \<and> (c = CHR ''P'' \<longrightarrow> node_class n = C_Pathcov)
     \<and> (c = CHR ''{'' \<longrightarrow> node_class n = C_Predicate))"

lemma atoms_firstD:
  assumes "atoms_first ex P" "P n" "fql_print ex n = Some s" "s @ r = c # z"
  shows "c = CHR ''D'' \<Longrightarrow> node_class n = C_Depcov" "c = CHR ''E'' \<Longrightarrow> node_class n = C_Edgecov"
    "c = CHR ''N'' \<Longrightarrow> node_class n = C_Nodecov" "c = CHR ''P'' \<Longrightarrow> node_class n = C_Pathcov"
    "c = CHR ''{'' \<Longrightarrow> node_class n = C_Predicate"
  using assms unfolding atoms_first_def by blast+

lemma atoms_first_pp: "atoms_first ex is_pp"
  unfolding atoms_first_def
proof (intro allI impI)
  fix n s r c z
  assume "is_pp n" "fql_print ex n = Some s" "s @ r = c # z"
  then show "(c = CHR ''D'' \<longrightarrow> node_class n = C_Depcov) \<and> (c = CHR ''E'' \<longrightarrow> node_class n = C_Edgecov)
     \<and> (c = CHR ''N'' \<longrightarrow> node_class n = C_Nodecov) \<and> (c = CHR ''P'' \<longrightarrow> node_class n = C_Pathcov)
     \<and> (c = CHR ''{'' \<longrightarrow> node_class n = C_Predicate)"
    by (cases n) (auto simp: print_simps print_Predicate_def is_defs)
qed

lemma atoms_first_cp: "atoms_first ex is_cp"
  unfolding atoms_first_def
proof (intro allI impI)
  fix n s r c z
  assume "is_cp n" "fql_print ex n = Some s" "s @ r = c # z"
  then show "(c = CHR ''D'' \<longrightarrow> node_class n = C_Depcov) \<and> (c = CHR ''E'' \<longrightarrow> node_class n = C_Edgecov)
     \<and> (c = CHR ''N'' \<longrightarrow> node_class n = C_Nodecov) \<and> (c = CHR ''P'' \<longrightarrow> node_class n = C_Pathcov)
     \<and> (c = CHR ''{'' \<longrightarrow> node_class n = C_Predicate)"
    by (cases n) (auto simp: print_simps print_Predicate_def is_defs)
qed

lemmas read_number = delimited_unique [OF _ show_int_chars show_int_chars]

lemma readable_Depcov:
  assumes a: "readable ex is_filter a" and b: "readable ex is_filter b" and c: "readable ex is_filter c" and first: "atoms_first ex P"
  shows "readable ex P (Depcov p a b c)"
proof (rule readableI)
  fix s n' s' r r'
  assume *: "fql_print ex (Depcov p a b c) = Some s" "P n'" "well_typed n'" "printable ex n'"
    "fql_print ex n' = Some s'" "s @ r = s' @ r'"
  obtain a_text b_text c_text where tx: "fql_print ex a = Some a_text" "fql_print ex b = Some b_text" "fql_print ex c = Some c_text"
    and s: "s = print_Depcov a_text b_text c_text"
    using *(1) by (auto simp: bind_eq_Some_conv)
  have "node_class n' \<in> {C_Depcov}"
    using atoms_firstD(1) [OF first *(2,5) *(6) [symmetric, unfolded s print_defs, simplified]] by simp
  then show "strip ex (Depcov p a b c) = strip ex n' \<and> r = r'"
    using *(2-6) unfolding s by (cases n') (auto simp: print_simps dest!: read_operand [OF a tx(1)] read_operand [OF b tx(2)] read_operand [OF c tx(3)])
qed

lemma readable_Edgecov:
  assumes f: "readable ex is_filter f" and first: "atoms_first ex P"
  shows "readable ex P (Edgecov p f)"
proof (rule readableI)
  fix s n' s' r r'
  assume *: "fql_print ex (Edgecov p f) = Some s" "P n'" "well_typed n'" "printable ex n'"
    "fql_print ex n' = Some s'" "s @ r = s' @ r'"
  obtain f_text where tx: "fql_print ex f = Some f_text"
    and s: "s = print_Edgecov f_text"
    using *(1) by (auto simp: bind_eq_Some_conv)
  have "node_class n' \<in> {C_Edgecov}"
    using atoms_firstD(2) [OF first *(2,5) *(6) [symmetric, unfolded s print_defs, simplified]] by simp
  then show "strip ex (Edgecov p f) = strip ex n' \<and> r = r'"
    using *(2-6) unfolding s by (cases n') (auto simp: print_simps dest!: read_operand [OF f tx(1)])
qed

lemma readable_Nodecov:
  assumes f: "readable ex is_filter f" and first: "atoms_first ex P"
  shows "readable ex P (Nodecov p f)"
proof (rule readableI)
  fix s n' s' r r'
  assume *: "fql_print ex (Nodecov p f) = Some s" "P n'" "well_typed n'" "printable ex n'"
    "fql_print ex n' = Some s'" "s @ r = s' @ r'"
  obtain f_text where tx: "fql_print ex f = Some f_text"
    and s: "s = print_Nodecov f_text"
    using *(1) by (auto simp: bind_eq_Some_conv)
  have "node_class n' \<in> {C_Nodecov}"
    using atoms_firstD(3) [OF first *(2,5) *(6) [symmetric, unfolded s print_defs, simplified]] by simp
  then show "strip ex (Nodecov p f) = strip ex n' \<and> r = r'"
    using *(2-6) unfolding s by (cases n') (auto simp: print_simps dest!: read_operand [OF f tx(1)])
qed

lemma readable_Pathcov:
  assumes f: "readable ex is_filter f" and first: "atoms_first ex P"
  shows "readable ex P (Pathcov p f k)"
proof (rule readableI)
  fix s n' s' r r'
  assume *: "fql_print ex (Pathcov p f k) = Some s" "P n'" "well_typed n'" "printable ex n'"
    "fql_print ex n' = Some s'" "s @ r = s' @ r'"
  obtain f_text where tx: "fql_print ex f = Some f_text"
    and s: "s = print_Pathcov f_text k"
    using *(1) by (auto simp: bind_eq_Some_conv)
  have "node_class n' \<in> {C_Pathcov}"
    using atoms_firstD(4) [OF first *(2,5) *(6) [symmetric, unfolded s print_defs, simplified]] by simp
  then show "strip ex (Pathcov p f k) = strip ex n' \<and> r = r'"
    using *(2-6) unfolding s by (cases n') (auto simp: print_simps dest!: read_operand [OF f tx(1)] read_number)
qed

lemma readable_Predicate:
  assumes first: "atoms_first ex P" and pr: "printable ex (Predicate p e)"
  shows "readable ex P (Predicate p e)"
proof (rule readableI)
  fix s n' s' r r'
  assume *: "fql_print ex (Predicate p e) = Some s" "P n'" "well_typed n'" "printable ex n'"
    "fql_print ex n' = Some s'" "s @ r = s' @ r'"
  obtain x t where e: "e = Some x" "predicate_text (ex x) = Some t" and s: "s = ''{'' @ t @ ''}''"
    using *(1) by (auto simp: bind_eq_Some_conv print_Predicate_def)
  have "node_class n' = C_Predicate"
    using atoms_firstD(5) [OF first *(2,5) *(6) [symmetric, unfolded s, simplified]] by simp
  then obtain p' x' t' where n': "n' = Predicate p' (Some x')" "predicate_text (ex x') = Some t'" "s' = ''{'' @ t' @ ''}''"
    using *(5) by (cases n') (auto simp: bind_eq_Some_conv print_Predicate_def)
  then have "t = t' \<and> r = r'"
    using delimited_unique [of t "CHR ''}''" r t' r'] *(4,6) pr e s by simp
  then show "strip ex (Predicate p e) = strip ex n' \<and> r = r'" using n' e by simp
qed

lemma atom_readable:
  assumes "is_atom n" "well_typed n" "printable ex n" "atoms_first ex P"
  shows "readable ex P n"
proof (cases n)
  case (Predicate p e)
  then show ?thesis using assms readable_Predicate by blast
qed (use assms filter_readable in \<open>auto simp: is_atom_def intro: readable_Depcov readable_Edgecov readable_Nodecov readable_Pathcov\<close>)

text \<open>Path patterns.\<close>

lemma pp_first:
  assumes "is_pp n" "fql_print ex n = Some s" "s @ r = CHR ''('' # z"
  shows "node_class n \<in> {C_PP_Alternative, C_PP_Concat, C_Repeat}"
  using assms by (cases n) (auto simp: print_simps print_Predicate_def is_defs)

lemma readable_PP_Alternative:
  assumes a: "readable ex is_pp a" and b: "readable ex is_pp b"
  shows "readable ex is_pp (PP_Alternative p a b)"
proof (rule readableI)
  fix s n' s' r r'
  assume *: "fql_print ex (PP_Alternative p a b) = Some s" "is_pp n'" "well_typed n'" "printable ex n'"
    "fql_print ex n' = Some s'" "s @ r = s' @ r'"
  obtain a_text b_text where tx: "fql_print ex a = Some a_text" "fql_print ex b = Some b_text"
    and s: "s = print_PP_Alternative a_text b_text"
    using *(1) by (auto simp: bind_eq_Some_conv)
  have "node_class n' \<in> {C_PP_Alternative, C_PP_Concat, C_Repeat}"
    using pp_first [OF *(2,5) *(6) [symmetric, unfolded s print_defs, simplified]] by simp
  then show "strip ex (PP_Alternative p a b) = strip ex n' \<and> r = r'"
    using *(2-6) unfolding s by (cases n') (auto simp: print_simps split: if_splits dest!: read_operand [OF a tx(1)] read_operand [OF b tx(2)])
qed

lemma readable_PP_Concat:
  assumes a: "readable ex is_pp a" and b: "readable ex is_pp b"
  shows "readable ex is_pp (PP_Concat p a b)"
proof (rule readableI)
  fix s n' s' r r'
  assume *: "fql_print ex (PP_Concat p a b) = Some s" "is_pp n'" "well_typed n'" "printable ex n'"
    "fql_print ex n' = Some s'" "s @ r = s' @ r'"
  obtain a_text b_text where tx: "fql_print ex a = Some a_text" "fql_print ex b = Some b_text"
    and s: "s = print_PP_Concat a_text b_text"
    using *(1) by (auto simp: bind_eq_Some_conv)
  have "node_class n' \<in> {C_PP_Alternative, C_PP_Concat, C_Repeat}"
    using pp_first [OF *(2,5) *(6) [symmetric, unfolded s print_defs, simplified]] by simp
  then show "strip ex (PP_Concat p a b) = strip ex n' \<and> r = r'"
    using *(2-6) unfolding s by (cases n') (auto simp: print_simps split: if_splits dest!: read_operand [OF a tx(1)] read_operand [OF b tx(2)])
qed

lemma readable_Repeat:
  assumes q: "readable ex is_pp q" and bounds: "u = - 1 \<or> l = 0"
  shows "readable ex is_pp (Repeat p q l u)"
proof (rule readableI)
  fix s n' s' r r'
  assume *: "fql_print ex (Repeat p q l u) = Some s" "is_pp n'" "well_typed n'" "printable ex n'"
    "fql_print ex n' = Some s'" "s @ r = s' @ r'"
  obtain q_text where tx: "fql_print ex q = Some q_text"
    and s: "s = print_Repeat q_text l u"
    using *(1) by (auto simp: bind_eq_Some_conv)
  have "node_class n' \<in> {C_PP_Alternative, C_PP_Concat, C_Repeat}"
    using pp_first [OF *(2,5) *(6) [symmetric, unfolded s print_defs, simplified]] by simp
  then show "strip ex (Repeat p q l u) = strip ex n' \<and> r = r'"
    using *(2-6) bounds unfolding s by (cases n') (auto simp: print_simps split: if_splits dest!: read_operand [OF q tx(1)] read_number)
qed

lemma pp_readable: "\<lbrakk>is_pp n; well_typed n; printable ex n\<rbrakk> \<Longrightarrow> readable ex is_pp n"
proof (induction n)
  case (PP_Alternative p a b)
  then show ?case by (simp add: readable_PP_Alternative)
next
  case (PP_Concat p a b)
  then show ?case by (simp add: readable_PP_Concat)
next
  case (Repeat p q l u)
  then show ?case by (simp add: readable_Repeat)
qed (auto simp: is_pp_def intro: atom_readable atoms_first_pp)

text \<open>Coverage patterns.\<close>

lemma cp_first:
  assumes "is_cp n" "fql_print ex n = Some s" "s @ r = c # z"
  shows "c = CHR ''('' \<Longrightarrow> node_class n \<in> {C_CP_Alternative, C_CP_Concat}" "c = CHR 0x22 \<Longrightarrow> node_class n = C_Quote"
  using assms by (cases n; auto simp: print_simps print_Predicate_def is_defs)+

lemma readable_CP_Alternative:
  assumes a: "readable ex is_cp a" and b: "readable ex is_cp b"
  shows "readable ex is_cp (CP_Alternative p a b)"
proof (rule readableI)
  fix s n' s' r r'
  assume *: "fql_print ex (CP_Alternative p a b) = Some s" "is_cp n'" "well_typed n'" "printable ex n'"
    "fql_print ex n' = Some s'" "s @ r = s' @ r'"
  obtain a_text b_text where tx: "fql_print ex a = Some a_text" "fql_print ex b = Some b_text"
    and s: "s = print_CP_Alternative a_text b_text"
    using *(1) by (auto simp: bind_eq_Some_conv)
  have "node_class n' \<in> {C_CP_Alternative, C_CP_Concat}"
    using cp_first(1) [OF *(2,5) *(6) [symmetric, unfolded s print_defs, simplified]] by simp
  then show "strip ex (CP_Alternative p a b) = strip ex n' \<and> r = r'"
    using *(2-6) unfolding s by (cases n') (auto simp: print_simps dest!: read_operand [OF a tx(1)] read_operand [OF b tx(2)])
qed

lemma readable_CP_Concat:
  assumes a: "readable ex is_cp a" and b: "readable ex is_cp b"
  shows "readable ex is_cp (CP_Concat p a b)"
proof (rule readableI)
  fix s n' s' r r'
  assume *: "fql_print ex (CP_Concat p a b) = Some s" "is_cp n'" "well_typed n'" "printable ex n'"
    "fql_print ex n' = Some s'" "s @ r = s' @ r'"
  obtain a_text b_text where tx: "fql_print ex a = Some a_text" "fql_print ex b = Some b_text"
    and s: "s = print_CP_Concat a_text b_text"
    using *(1) by (auto simp: bind_eq_Some_conv)
  have "node_class n' \<in> {C_CP_Alternative, C_CP_Concat}"
    using cp_first(1) [OF *(2,5) *(6) [symmetric, unfolded s print_defs, simplified]] by simp
  then show "strip ex (CP_Concat p a b) = strip ex n' \<and> r = r'"
    using *(2-6) unfolding s by (cases n') (auto simp: print_simps dest!: read_operand [OF a tx(1)] read_operand [OF b tx(2)])
qed

lemma readable_Quote:
  assumes q: "readable ex is_pp q"
  shows "readable ex is_cp (Quote p q)"
proof (rule readableI)
  fix s n' s' r r'
  assume *: "fql_print ex (Quote p q) = Some s" "is_cp n'" "well_typed n'" "printable ex n'"
    "fql_print ex n' = Some s'" "s @ r = s' @ r'"
  obtain q_text where tx: "fql_print ex q = Some q_text"
    and s: "s = print_Quote q_text"
    using *(1) by (auto simp: bind_eq_Some_conv)
  have "node_class n' \<in> {C_Quote}"
    using cp_first(2) [OF *(2,5) *(6) [symmetric, unfolded s print_defs, simplified]] by simp
  then show "strip ex (Quote p q) = strip ex n' \<and> r = r'"
    using *(2-6) unfolding s by (cases n') (auto simp: print_simps dest!: read_operand [OF q tx(1)])
qed

lemma cp_readable: "\<lbrakk>is_cp n; well_typed n; printable ex n\<rbrakk> \<Longrightarrow> readable ex is_cp n"
proof (induction n)
  case (CP_Alternative p a b)
  then show ?case by (simp add: readable_CP_Alternative)
next
  case (CP_Concat p a b)
  then show ?case by (simp add: readable_CP_Concat)
next
  case (Quote p q)
  then show ?case by (simp add: readable_Quote pp_readable)
qed (auto simp: is_cp_def intro: atom_readable atoms_first_cp)

text \<open>Queries: the optional parts in front of and behind the coverage pattern.\<close>

lemma print_Query_SomeE:
  assumes "fql_print ex (Query p pre cover passing) = Some s"
  obtains x y z where "pre = None \<and> x = None \<or> (\<exists>n u. pre = Some n \<and> x = Some u \<and> fql_print ex n = Some u)"
    "fql_print ex cover = Some y" "passing = None \<and> z = None \<or> (\<exists>n u. passing = Some n \<and> z = Some u \<and> fql_print ex n = Some u)"
    "s = print_Query x y z"
  using assms by (cases pre; cases passing) (auto simp: bind_eq_Some_conv)

definition scope_ok :: "('e \<Rightarrow> string) \<Rightarrow> ('e fql_node \<Rightarrow> bool) \<Rightarrow> 'e fql_node option \<Rightarrow> bool" where
  "scope_ok ex P x \<longleftrightarrow> pred_option (\<lambda>n. P n \<and> well_typed n \<and> printable ex n) x"

lemma query_parts:
  assumes "well_typed (Query p pre cover passing)" "printable ex (Query p pre cover passing)"
  shows "scope_ok ex is_filter pre" "is_cp cover" "well_typed cover" "printable ex cover" "scope_ok ex is_pp passing"
  using assms by (cases pre; cases passing; auto simp: scope_ok_def)+

lemma read_tail:
  assumes "scope_ok ex is_pp passing" "scope_ok ex is_pp passing'"
    and z: "passing = None \<and> z = None \<or> (\<exists>n u. passing = Some n \<and> z = Some u \<and> fql_print ex n = Some u)"
    and z': "passing' = None \<and> z' = None \<or> (\<exists>n u. passing' = Some n \<and> z' = Some u \<and> fql_print ex n = Some u)"
    and eq: "(case z of None \<Rightarrow> [] | Some s \<Rightarrow> '' PASSING '' @ s) = (case z' of None \<Rightarrow> [] | Some s \<Rightarrow> '' PASSING '' @ s)"
  shows "map_option (strip ex) passing = map_option (strip ex) passing'"
proof (cases passing)
  case None
  then show ?thesis using z z' eq by (auto split: option.splits)
next
  case (Some n)
  then obtain u where u: "z = Some u" "fql_print ex n = Some u" using z by auto
  then obtain n' u' where u': "passing' = Some n'" "z' = Some u'" "fql_print ex n' = Some u'" using z' eq by auto
  have "readable ex is_pp n" using assms(1) Some by (simp add: scope_ok_def pp_readable)
  then show ?thesis
    using readableD [of ex is_pp n u n' u' "[]" "[]"] assms(2) Some u u' eq by (simp add: scope_ok_def)
qed

lemma read_scope:
  assumes "scope_ok ex is_filter pre" "scope_ok ex is_filter pre'"
    and x: "pre = None \<and> x = None \<or> (\<exists>n u. pre = Some n \<and> x = Some u \<and> fql_print ex n = Some u)"
    and x': "pre' = None \<and> x' = None \<or> (\<exists>n u. pre' = Some n \<and> x' = Some u \<and> fql_print ex n = Some u)"
    and eq: "(case x of None \<Rightarrow> [] | Some s \<Rightarrow> ''IN '' @ s @ '' '') @ ''COVER '' @ r
      = (case x' of None \<Rightarrow> [] | Some s \<Rightarrow> ''IN '' @ s @ '' '') @ ''COVER '' @ r'"
  shows "map_option (strip ex) pre = map_option (strip ex) pre' \<and> r = r'"
proof (cases pre)
  case None
  then show ?thesis using x x' eq by (auto split: option.splits)
next
  case (Some n)
  then obtain u where u: "x = Some u" "fql_print ex n = Some u" using x by auto
  then obtain n' u' where u': "pre' = Some n'" "x' = Some u'" "fql_print ex n' = Some u'" using x' eq by auto
  have "readable ex is_filter n" using assms(1) Some by (simp add: scope_ok_def filter_readable)
  then show ?thesis
    using readableD [of ex is_filter n u n' u' "'' COVER '' @ r" "'' COVER '' @ r'"] assms(2) Some u u' eq
    by (simp add: scope_ok_def)
qed

section \<open>Properties\<close>


definition sample_query :: "addr \<Rightarrow> unit fql_node" where
  "sample_query k = Query k (Some (Filter_Intersection (k + 1) (Filter_Function (k + 2) F_FUNC (int k) ''main'')
       (Filter_Function (k + 3) F_LINE 13 [])))
     (CP_Concat (k + 4) (Quote (k + 5) (Repeat (k + 6) (Edgecov (k + 7) (Filter_Function (k + 8) F_IDENTITY 0 [])) 0 (- 1)))
       (Nodecov (k + 9) (Filter_Function (k + 10) F_STMTTYPE 5 [])))
     (Some (Predicate (k + 11) (Some ())))"


text \<open>
  C26. A repetition of a pattern exactly \<open>k\<close> times (\<open>lb = ub = k\<close>, the concrete syntax
  \<open>=k\<close>) is printed like one of at most \<open>k\<close> times, although the two denote different
  sets of paths.
\<close>

theorem repetition_print_ambiguous:
  "fql_print ex (Repeat p q (int k) (int k)) = fql_print ex (Repeat p' q 0 (int k))"
  by (simp add: print_Repeat_def)

end
