(* ===== verification/Evaluate_Filter.thy ===== *)
theory Evaluate_Filter
  imports Cfg Fql_Ast_Printer
begin

text \<open>
  The evaluation of filter expressions to target graphs
  (\<open>src/fshell2/fql/evaluation/evaluate_filter.cpp\<close>).

  The visitor keeps a map from filter nodes, identified by their addresses, to target graphs. A
  visit first inserts an empty graph, returns if the node was known, and assigns the value
  after its operands were visited. The reference is \<open>filter_sem\<close>, the value of a filter by
  recursion on its structure, and below it a description by sets of the edges of every filter
  function. The graph of a predicate comes from its instrumentation, which inserts code into the
  functions; the insertion is the parameter \<open>insert_predicate\<close> of the visitor.
\<close>

section \<open>What is skipped\<close>

definition ID__start :: string where
  "ID__start = ''_start''"

definition builtin_library :: string where
  "builtin_library = ''<builtin-library>-''"

definition ignore_function_of :: "instructiont \<Rightarrow> bool" where
  "ignore_function_of e =
    (if i_function e = ID__start then True
     else if i_function e = ''__CPROVER_initialize'' then True
     else case source_location e of
        None \<Rightarrow> False
      | Some l \<Rightarrow> get_file l = ''<built-in>'' \<or> take (length builtin_library) (get_file l) = builtin_library)"

definition ignore_function :: "goto_functiont \<Rightarrow> bool" where
  "ignore_function fct =
    (if \<not> body_available fct then True
     else if body fct = [] then True
     else if is_inlined fct then True
     else ignore_function_of (hd (body fct)))"

fun ignore_instruction_type :: "goto_program_instruction_typet \<Rightarrow> string \<Rightarrow> bool" where
  "ignore_instruction_type SKIP stmt = True"
| "ignore_instruction_type END_FUNCTION stmt = True"
| "ignore_instruction_type ATOMIC_BEGIN stmt = True"
| "ignore_instruction_type ATOMIC_END stmt = True"
| "ignore_instruction_type DECL stmt = True"
| "ignore_instruction_type DEAD stmt = True"
| "ignore_instruction_type OTHER stmt =
     (stmt \<noteq> ''cpp_delete'' \<and> stmt \<noteq> ''cpp_delete[]'' \<and> stmt \<noteq> ''printf'')"
| "ignore_instruction_type _ stmt = False"

definition code_statement :: "codet \<Rightarrow> string" where
  "code_statement c = (case c of Code_Statement s \<Rightarrow> s | Code_Assign l r \<Rightarrow> ''assign''
     | Code_Function_Call f \<Rightarrow> ''function_call'')"

definition ignore_instruction :: "instructiont \<Rightarrow> bool" where
  "ignore_instruction e = ignore_instruction_type (i_type e) (code_statement (code e))"

definition is_instrumented :: "instructiont \<Rightarrow> bool" where
  "is_instrumented e =
    (case source_location e of None \<Rightarrow> False | Some l \<Rightarrow> get_property_id l = ''fshell2_instrumentation'')"

section \<open>The loops\<close>

text \<open>Edges and initial states, the two local sets of the visitor.\<close>

type_synonym collected = "cfa_edge list \<times> cfa_node list"

text \<open>The loop over the successors that makes every matching location initial.\<close>

definition insert_successors :: "cfg_entries \<Rightarrow> string \<Rightarrow> instructiont \<Rightarrow> collected \<Rightarrow> collected" where
  "insert_successors cfg f i c =
    fold (\<lambda>s (es, is). (std_insert edge_lt ((f, pc i), fst s) es, std_insert node_lt (f, pc i) is))
      (successors (entry_at cfg (pc i))) c"

text \<open>The variant that makes only the first location initial, if \<open>mark\<close> holds.\<close>

definition insert_successors_first ::
  "bool \<Rightarrow> cfg_entries \<Rightarrow> string \<Rightarrow> instructiont \<Rightarrow> bool \<times> collected \<Rightarrow> bool \<times> collected" where
  "insert_successors_first mark cfg f i c =
    fold (\<lambda>s (first, es, is).
        let (first, is) = (if first \<and> mark then (False, std_insert node_lt (f, pc i) is) else (first, is))
        in (first, std_insert edge_lt ((f, pc i), fst s) es, is))
      (successors (entry_at cfg (pc i))) c"

definition collect_body ::
  "cfg_entries \<Rightarrow> (instructiont \<Rightarrow> bool) \<Rightarrow> string \<Rightarrow> instructiont list \<Rightarrow> collected \<Rightarrow> collected" where
  "collect_body cfg use_stmt f is c =
    fold (\<lambda>i c. if ignore_instruction i then c else if is_instrumented i then c
                else if \<not> use_stmt i then c else insert_successors cfg f i c) is c"

definition collect_body_first ::
  "bool \<Rightarrow> cfg_entries \<Rightarrow> string \<Rightarrow> instructiont list \<Rightarrow> collected \<Rightarrow> collected" where
  "collect_body_first mark cfg f is c =
    snd (fold (\<lambda>i c. if ignore_instruction i then c else if is_instrumented i then c
                     else insert_successors_first mark cfg f i c) is (True, c))"

definition for_functions ::
  "goto_functionst \<Rightarrow> (string \<Rightarrow> goto_functiont \<Rightarrow> collected \<Rightarrow> collected) \<Rightarrow> collected" where
  "for_functions gf step =
    fold (\<lambda>(f, fct) c. if ignore_function fct then c else step f fct c) gf ([], [])"

text \<open>The loop nest most filter functions share.\<close>

definition collect_all :: "goto_functionst \<Rightarrow> cfg_entries \<Rightarrow> (instructiont \<Rightarrow> bool) \<Rightarrow> collected" where
  "collect_all gf cfg use_stmt =
    for_functions gf (\<lambda>f fct c. collect_body cfg use_stmt f (body fct) c)"

section \<open>Filter functions\<close>

definition eval_IDENTITY :: "string \<Rightarrow> goto_functionst \<Rightarrow> cfg_entries \<Rightarrow> collected" where
  "eval_IDENTITY config_main gf cfg =
    for_functions gf (\<lambda>f fct c. collect_body_first (f = config_main) cfg f (body fct) c)"

definition location_file :: "instructiont \<Rightarrow> string" where
  "location_file i = (case source_location i of None \<Rightarrow> [] | Some l \<Rightarrow> get_file l)"

definition eval_FILE :: "string \<Rightarrow> goto_functionst \<Rightarrow> cfg_entries \<Rightarrow> collected" where
  "eval_FILE arg gf cfg =
    for_functions gf (\<lambda>f fct c.
      if location_file (hd (body fct)) \<noteq> arg then c else collect_body_first True cfg f (body fct) c)"

definition eval_LINE :: "int \<Rightarrow> goto_functionst \<Rightarrow> cfg_entries \<Rightarrow> collected" where
  "eval_LINE arg gf cfg =
    collect_all gf cfg (\<lambda>i. case source_location i of None \<Rightarrow> False
      | Some l \<Rightarrow> get_line l \<noteq> [] \<and> get_line l = show_int arg)"

definition eval_COLUMN :: "int \<Rightarrow> goto_functionst \<Rightarrow> cfg_entries \<Rightarrow> collected" where
  "eval_COLUMN arg gf cfg =
    collect_all gf cfg (\<lambda>i. case source_location i of None \<Rightarrow> False
      | Some l \<Rightarrow> get_column l \<noteq> [] \<and> get_column l = show_int arg)"

definition get_funct_entry :: "goto_functionst \<Rightarrow> string \<Rightarrow> fshell_error + goto_functiont" where
  "get_funct_entry gf arg =
    (case map_of gf arg of
       None \<Rightarrow> Inl Query_Processing_Error
     | Some fct \<Rightarrow> if ignore_function fct then Inl Query_Processing_Error else Inr fct)"

definition eval_FUNC :: "string \<Rightarrow> goto_functionst \<Rightarrow> cfg_entries \<Rightarrow> fshell_error + collected" where
  "eval_FUNC arg gf cfg =
    rbind (get_funct_entry gf arg) (\<lambda>fct. Inr (collect_body_first True cfg arg (body fct) ([], [])))"

definition eval_LABEL :: "string \<Rightarrow> goto_functionst \<Rightarrow> cfg_entries \<Rightarrow> collected" where
  "eval_LABEL arg gf cfg = collect_all gf cfg (\<lambda>i. arg \<in> set (labels i))"

text \<open>The position of the last \<open>::\<close>, and the part of a name behind it.\<close>

fun rfind_colons :: "string \<Rightarrow> nat option" where
  "rfind_colons (x # y # s) =
     (case rfind_colons (y # s) of
        Some k \<Rightarrow> Some (Suc k)
      | None \<Rightarrow> if x = CHR '':'' \<and> y = CHR '':'' then Some 0 else None)"
| "rfind_colons s = None"

definition base_name_of :: "string \<Rightarrow> string" where
  "base_name_of n = (case rfind_colons n of None \<Rightarrow> n | Some delim \<Rightarrow> drop (delim + 2) n)"

definition called_function :: "instructiont \<Rightarrow> string" where
  "called_function i = get_identifier (call_function (code i))"

definition eval_CALL :: "string \<Rightarrow> goto_functionst \<Rightarrow> cfg_entries \<Rightarrow> collected" where
  "eval_CALL arg gf cfg =
    collect_all gf cfg (\<lambda>i. i_type i = FUNCTION_CALL \<and> arg = base_name_of (called_function i))"

definition eval_CALLS :: "goto_functionst \<Rightarrow> cfg_entries \<Rightarrow> collected" where
  "eval_CALLS gf cfg = collect_all gf cfg (\<lambda>i. i_type i = FUNCTION_CALL)"

text \<open>The first instruction that is not skipped ends the loop.\<close>

fun entry_loop :: "cfg_entries \<Rightarrow> string \<Rightarrow> instructiont list \<Rightarrow> collected \<Rightarrow> collected" where
  "entry_loop cfg f [] c = c"
| "entry_loop cfg f (i # is) c =
     (if ignore_instruction i then entry_loop cfg f is c
      else if is_instrumented i then entry_loop cfg f is c
      else insert_successors cfg f i c)"

definition eval_ENTRY :: "string \<Rightarrow> goto_functionst \<Rightarrow> cfg_entries \<Rightarrow> fshell_error + collected" where
  "eval_ENTRY arg gf cfg =
    rbind (get_funct_entry gf arg) (\<lambda>fct. Inr (entry_loop cfg arg (body fct) ([], [])))"

definition eval_EXIT :: "string \<Rightarrow> goto_functionst \<Rightarrow> cfg_entries \<Rightarrow> fshell_error + collected" where
  "eval_EXIT arg gf cfg =
    rbind (get_funct_entry gf arg)
      (\<lambda>fct. Inr (collect_body cfg (\<lambda>i. i_type i = RETURN) arg (body fct) ([], [])))"

definition basic_block_loop ::
  "cfg_entries \<Rightarrow> string \<Rightarrow> instructiont list \<Rightarrow> collected \<Rightarrow> collected" where
  "basic_block_loop cfg f is c =
    snd (fold (\<lambda>i (take_next, c).
        if ignore_instruction i then (take_next, c) else if is_instrumented i then (take_next, c)
        else let e = entry_at cfg (pc i) in
          if successors e \<noteq> [] \<and> (take_next \<or> length (successors e) > 1 \<or> length (predecessors e) > 1)
          then (False, insert_successors cfg f i c) else (take_next, c)) is (True, c))"

definition eval_BASICBLOCKENTRY :: "goto_functionst \<Rightarrow> cfg_entries \<Rightarrow> collected" where
  "eval_BASICBLOCKENTRY gf cfg = for_functions gf (\<lambda>f fct c. basic_block_loop cfg f (body fct) c)"

definition conditional_goto :: "instructiont \<Rightarrow> bool" where
  "conditional_goto i \<longleftrightarrow> i_type i = GOTO \<and> guard i \<noteq> Guard_True \<and> guard i \<noteq> Guard_False"

definition eval_CONDITIONEDGE :: "goto_functionst \<Rightarrow> cfg_entries \<Rightarrow> collected" where
  "eval_CONDITIONEDGE gf cfg = collect_all gf cfg conditional_goto"

definition has_symbol :: "string \<Rightarrow> exprt \<Rightarrow> bool" where
  "has_symbol base_name e = list_ex (\<lambda>s. base_name = base_name_of (get_identifier s)) (find_symbols e)"

definition eval_DEF :: "string \<Rightarrow> goto_functionst \<Rightarrow> cfg_entries \<Rightarrow> collected" where
  "eval_DEF arg gf cfg = collect_all gf cfg (\<lambda>i. i_type i = ASSIGN \<and> has_symbol arg (lhs (code i)))"

definition eval_USE :: "string \<Rightarrow> goto_functionst \<Rightarrow> cfg_entries \<Rightarrow> collected" where
  "eval_USE arg gf cfg = collect_all gf cfg (\<lambda>i. i_type i = ASSIGN \<and> has_symbol arg (rhs (code i)))"

unbundle bit_operations_syntax

text \<open>The statement types; the masks are the values of \<open>stmttype_t\<close>.\<close>

definition use_stmttype :: "int \<Rightarrow> instructiont \<Rightarrow> bool" where
  "use_stmttype types i \<longleftrightarrow>
     types AND (1 OR 2 OR 4 OR 8) \<noteq> 0 \<and> conditional_goto i
     \<or> types AND 16 \<noteq> 0 \<and> i_type i = ASSIGN \<and> expr_id (rhs (code i)) = ''if''
     \<or> types AND 32 \<noteq> 0 \<and> i_type i = ASSERT"

definition eval_STMTTYPE :: "int \<Rightarrow> goto_functionst \<Rightarrow> cfg_entries \<Rightarrow> collected" where
  "eval_STMTTYPE types gf cfg = collect_all gf cfg (use_stmttype types)"

fun filter_function_sets ::
  "string \<Rightarrow> goto_functionst \<Rightarrow> cfg_entries \<Rightarrow> filter_function_t \<Rightarrow> int \<Rightarrow> string \<Rightarrow> fshell_error + collected" where
  "filter_function_sets main gf cfg F_IDENTITY i s = Inr (eval_IDENTITY main gf cfg)"
| "filter_function_sets main gf cfg F_FILE i s = Inr (eval_FILE s gf cfg)"
| "filter_function_sets main gf cfg F_LINE i s = Inr (eval_LINE i gf cfg)"
| "filter_function_sets main gf cfg F_COLUMN i s = Inr (eval_COLUMN i gf cfg)"
| "filter_function_sets main gf cfg F_FUNC i s = eval_FUNC s gf cfg"
| "filter_function_sets main gf cfg F_LABEL i s = Inr (eval_LABEL s gf cfg)"
| "filter_function_sets main gf cfg F_CALL i s = Inr (eval_CALL s gf cfg)"
| "filter_function_sets main gf cfg F_CALLS i s = Inr (eval_CALLS gf cfg)"
| "filter_function_sets main gf cfg F_ENTRY i s = eval_ENTRY s gf cfg"
| "filter_function_sets main gf cfg F_EXIT i s = eval_EXIT s gf cfg"
| "filter_function_sets main gf cfg F_EXPR i s = Inr ([], [])"
| "filter_function_sets main gf cfg F_REGEXP i s = Inr ([], [])"
| "filter_function_sets main gf cfg F_BASICBLOCKENTRY i s = Inr (eval_BASICBLOCKENTRY gf cfg)"
| "filter_function_sets main gf cfg F_CONDITIONEDGE i s = Inr (eval_CONDITIONEDGE gf cfg)"
| "filter_function_sets main gf cfg F_DECISIONEDGE i s = Inr ([], [])"
| "filter_function_sets main gf cfg F_CONDITIONGRAPH i s = Inr ([], [])"
| "filter_function_sets main gf cfg F_DEF i s = Inr (eval_DEF s gf cfg)"
| "filter_function_sets main gf cfg F_USE i s = Inr (eval_USE s gf cfg)"
| "filter_function_sets main gf cfg F_STMTTYPE i s = Inr (eval_STMTTYPE i gf cfg)"

section \<open>The visitor\<close>

definition set_E :: "cfa_edge list \<Rightarrow> cfa \<Rightarrow> cfa" where
  "set_E edges g = g\<lparr>m_edges := edges\<rparr>"

definition set_I :: "cfa_node list \<Rightarrow> cfa \<Rightarrow> cfa" where
  "set_I initial g = g\<lparr>m_initial := initial\<rparr>"

record filter_state =
  m_gf :: goto_functionst
  m_filter_map :: "addr \<rightharpoonup> cfa"
  m_predicate_map :: "addr \<rightharpoonup> cfa"

text \<open>The fixed surroundings: \<open>config.main\<close>, the control flow graph, the identity filter.\<close>

record 'e filter_env =
  config_main :: string
  m_cfg :: cfg_entries
  id_filter :: "'e fql_node"
  insert_predicate :: "'e option \<Rightarrow> addr \<Rightarrow> cfa_node list \<Rightarrow> goto_functionst \<Rightarrow> fshell_error + (goto_functionst \<times> cfa_edge list)"

definition enter_filter :: "addr \<Rightarrow> filter_state \<Rightarrow> filter_state" where
  "enter_filter p st = st\<lparr>m_filter_map := (m_filter_map st)(p \<mapsto> cfa_empty)\<rparr>"

definition assign_filter :: "addr \<Rightarrow> cfa \<Rightarrow> filter_state \<Rightarrow> filter_state" where
  "assign_filter p g st = st\<lparr>m_filter_map := (m_filter_map st)(p \<mapsto> g)\<rparr>"

definition visit_Filter_Function ::
  "'e filter_env \<Rightarrow> addr \<Rightarrow> filter_function_t \<Rightarrow> int \<Rightarrow> string \<Rightarrow> filter_state \<Rightarrow> fshell_error + filter_state" where
  "visit_Filter_Function env p ty i s st =
    (if m_filter_map st p \<noteq> None then Inr st
     else let st = enter_filter p st in
       rbind (filter_function_sets (config_main env) (m_gf st) (m_cfg env) ty i s) (\<lambda>(edges, initial).
         Inr (assign_filter p (set_I initial (set_E edges cfa_empty)) st)))"

text \<open>\<open>COMPOSE\<close>: the initial states are those of the first operand that are left.\<close>

definition compose_graphs :: "cfa \<Rightarrow> cfa \<Rightarrow> cfa" where
  "compose_graphs a b =
    (let g = setintersection a b;
         initial = std_insert_range node_lt (std_set_intersection node_lt (m_initial a) (get_L g)) []
     in set_I initial g)"

definition visit_filter_Predicate ::
  "'e filter_env \<Rightarrow> addr \<Rightarrow> 'e option \<Rightarrow> filter_state \<Rightarrow> fshell_error + filter_state" where
  "visit_filter_Predicate env p e st =
    (if m_predicate_map st p \<noteq> None then Inr st
     else let st = st\<lparr>m_predicate_map := (m_predicate_map st)(p \<mapsto> cfa_empty)\<rparr>;
              nodes = get_L (the (m_filter_map st (node_addr (id_filter env))))
       in rbind (insert_predicate env e p nodes (m_gf st)) (\<lambda>(gf, edges).
            let initial = fold (\<lambda>e is. std_insert node_lt (fst e) is) edges [] in
            Inr (st\<lparr>m_gf := gf,
              m_predicate_map := (m_predicate_map st)(p \<mapsto> set_I initial (set_E edges cfa_empty))\<rparr>)))"

text \<open>The values two visited operands left in the map are combined.\<close>

definition combine_filters ::
  "(cfa \<Rightarrow> cfa \<Rightarrow> cfa) \<Rightarrow> addr \<Rightarrow> addr \<Rightarrow> addr \<Rightarrow> filter_state \<Rightarrow> filter_state" where
  "combine_filters op p a b st =
    assign_filter p (op (the (m_filter_map st a)) (the (m_filter_map st b))) st"

fun visit :: "'e filter_env \<Rightarrow> 'e fql_node \<Rightarrow> filter_state \<Rightarrow> fshell_error + filter_state" where
  "visit env (CP_Alternative p a b) st = rbind (visit env a st) (visit env b)"
| "visit env (CP_Concat p a b) st = rbind (visit env a st) (visit env b)"
| "visit env (Depcov p a b c) st = rbind (rbind (visit env a st) (visit env b)) (visit env c)"
| "visit env (Edgecov p f) st = visit env f st"
| "visit env (Filter_Compose p a b) st =
    (if m_filter_map st p \<noteq> None then Inr st
     else rbind (rbind (visit env a (enter_filter p st)) (visit env b))
       (\<lambda>st. Inr (combine_filters compose_graphs p (node_addr a) (node_addr b) st)))"
| "visit env (Filter_Function p ty i s) st = visit_Filter_Function env p ty i s st"
| "visit env (Filter_Intersection p a b) st =
    (if m_filter_map st p \<noteq> None then Inr st
     else rbind (rbind (visit env a (enter_filter p st)) (visit env b))
       (\<lambda>st. Inr (combine_filters setintersection p (node_addr a) (node_addr b) st)))"
| "visit env (Filter_Setminus p a b) st =
    (if m_filter_map st p \<noteq> None then Inr st
     else rbind (rbind (visit env a (enter_filter p st)) (visit env b))
       (\<lambda>st. Inr (combine_filters setsubtract p (node_addr a) (node_addr b) st)))"
| "visit env (Filter_Union p a b) st =
    (if m_filter_map st p \<noteq> None then Inr st
     else rbind (rbind (visit env a (enter_filter p st)) (visit env b))
       (\<lambda>st. Inr (combine_filters setunion p (node_addr a) (node_addr b) st)))"
| "visit env (Nodecov p f) st = visit env f st"
| "visit env (PP_Alternative p a b) st = rbind (visit env a st) (visit env b)"
| "visit env (PP_Concat p a b) st = rbind (visit env a st) (visit env b)"
| "visit env (Pathcov p f k) st = visit env f st"
| "visit env (Predicate p e) st = visit_filter_Predicate env p e st"
| "visit env (Quote p q) st = visit env q st"
| "visit env (Query p None c (Some y)) st = rbind (visit env c st) (visit env y)"
| "visit env (Query p x c y) st = Inl Invalid_Argument"
| "visit env (Repeat p q l u) st = visit env q st"

definition do_query ::
  "'e filter_env \<Rightarrow> goto_functionst \<Rightarrow> 'e fql_node \<Rightarrow> fshell_error + filter_state" where
  "do_query env gf query =
    rbind (visit env (id_filter env)
        \<lparr>m_gf = gf, m_filter_map = Map.empty, m_predicate_map = Map.empty\<rparr>)
      (visit env query)"

section \<open>What the loops collect\<close>

definition considered :: "instructiont \<Rightarrow> bool" where
  "considered i \<longleftrightarrow> \<not> ignore_instruction i \<and> \<not> is_instrumented i"

definition collected_ok :: "collected \<Rightarrow> bool" where
  "collected_ok c \<longleftrightarrow> edge_set.ordered (fst c) \<and> node_set.ordered (snd c)"

text \<open>A step collects edges \<open>E\<close> and initial states \<open>I\<close> to whatever was collected.\<close>

definition collects :: "(collected \<Rightarrow> collected) \<Rightarrow> cfa_edge set \<Rightarrow> cfa_node set \<Rightarrow> bool" where
  "collects C E I \<longleftrightarrow> (\<forall>c. collected_ok c \<longrightarrow> collected_ok (C c)
     \<and> set (fst (C c)) = set (fst c) \<union> E \<and> set (snd (C c)) = set (snd c) \<union> I)"

lemma collectsD:
  assumes "collects C E I" "collected_ok c"
  shows "collected_ok (C c)" "set (fst (C c)) = set (fst c) \<union> E" "set (snd (C c)) = set (snd c) \<union> I"
  using assms unfolding collects_def by blast+

lemma collects_skip: "collects (\<lambda>c. c) {} {}"
  by (simp add: collects_def)

lemma collectsI:
  assumes "\<And>c. collected_ok c \<Longrightarrow> collected_ok (C c)
    \<and> set (fst (C c)) = set (fst c) \<union> E \<and> set (snd (C c)) = set (snd c) \<union> I"
  shows "collects C E I"
  unfolding collects_def using assms by blast

lemma collects_comp: "collects C E I \<Longrightarrow> collects D E' I' \<Longrightarrow> collects (D \<circ> C) (E \<union> E') (I \<union> I')"
  by (rule collectsI) (simp add: collectsD Un_assoc)

lemma collects_fold:
  assumes "\<And>x. x \<in> set xs \<Longrightarrow> collects (F x) (E x) (I x)"
  shows "collects (fold F xs) (\<Union>x\<in>set xs. E x) (\<Union>x\<in>set xs. I x)"
  using assms
proof (induction xs)
  case Nil
  then show ?case by (simp add: collects_def)
next
  case (Cons x xs)
  then have "collects (F x) (E x) (I x)" "collects (fold F xs) (\<Union>x\<in>set xs. E x) (\<Union>x\<in>set xs. I x)" by simp_all
  from collects_comp [OF this] show ?case by (simp add: comp_def)
qed

lemma collects_cong: "collects C E I \<Longrightarrow> E = E' \<Longrightarrow> I = I' \<Longrightarrow> collects C E' I'"
  by simp

abbreviation succ_nodes :: "cfg_entries \<Rightarrow> instructiont \<Rightarrow> cfa_node set" where
  "succ_nodes cfg i \<equiv> fst ` set (successors (entry_at cfg (pc i)))"

definition out_edges :: "cfg_entries \<Rightarrow> string \<Rightarrow> instructiont \<Rightarrow> cfa_edge set" where
  "out_edges cfg f i = {(f, pc i)} \<times> succ_nodes cfg i"

text \<open>The graph covers the function: all locations and successors are nodes.\<close>

definition covered :: "cfg_entries \<Rightarrow> string \<Rightarrow> instructiont list \<Rightarrow> bool" where
  "covered cfg f is \<longleftrightarrow> (\<forall>i \<in> set is. (f, pc i) \<in> cfa_nodes \<and> succ_nodes cfg i \<subseteq> cfa_nodes)"

lemma collects_insert:
  assumes "e \<in> cfa_edges" "n \<in> cfa_nodes"
  shows "collects (\<lambda>(es, is). (std_insert edge_lt e es, std_insert node_lt n is)) {e} {n}"
  using assms by (auto simp: collects_def collected_ok_def node_set.set_std_insert
    node_set.ordered_std_insert edge_set.set_std_insert edge_set.ordered_std_insert)

lemma collects_insert_successors:
  assumes "(f, pc i) \<in> cfa_nodes" "succ_nodes cfg i \<subseteq> cfa_nodes"
  shows "collects (insert_successors cfg f i) (out_edges cfg f i) (fst ` out_edges cfg f i)"
proof -
  have "collects (fold (\<lambda>s (es, is). (std_insert edge_lt ((f, pc i), fst s) es, std_insert node_lt (f, pc i) is))
      (successors (entry_at cfg (pc i))))
    (\<Union>s\<in>set (successors (entry_at cfg (pc i))). {((f, pc i), fst s)})
    (\<Union>s\<in>set (successors (entry_at cfg (pc i))). {(f, pc i)})"
    by (rule collects_fold, rule collects_insert) (use assms in \<open>auto simp: cfa_edges_def\<close>)
  moreover have "insert_successors cfg f i = fold (\<lambda>s (es, is). (std_insert edge_lt ((f, pc i), fst s) es, std_insert node_lt (f, pc i) is))
      (successors (entry_at cfg (pc i)))"
    by (rule ext) (simp add: insert_successors_def)
  ultimately show ?thesis by (auto simp: out_edges_def elim!: collects_cong)
qed

lemma collects_collect_body:
  assumes "covered cfg f is"
  shows "collects (collect_body cfg use_stmt f is)
    (\<Union>i\<in>{i \<in> set is. considered i \<and> use_stmt i}. out_edges cfg f i)
    (fst ` (\<Union>i\<in>{i \<in> set is. considered i \<and> use_stmt i}. out_edges cfg f i))"
proof -
  let ?E = "\<lambda>i. if considered i \<and> use_stmt i then out_edges cfg f i else {}"
  have "collects (fold (\<lambda>i c. if ignore_instruction i then c else if is_instrumented i then c
                else if \<not> use_stmt i then c else insert_successors cfg f i c) is)
     (\<Union>i\<in>set is. ?E i) (\<Union>i\<in>set is. fst ` ?E i)"
  proof (rule collects_fold)
    fix i assume "i \<in> set is"
    then show "collects (\<lambda>c. if ignore_instruction i then c else if is_instrumented i then c
                else if \<not> use_stmt i then c else insert_successors cfg f i c) (?E i) (fst ` ?E i)"
      using collects_insert_successors [of f i cfg] collects_skip assms
      by (cases "ignore_instruction i"; cases "is_instrumented i"; cases "use_stmt i")
         (simp_all add: considered_def covered_def)
  qed
  moreover have "collect_body cfg use_stmt f is = fold (\<lambda>i c. if ignore_instruction i then c else if is_instrumented i then c
                else if \<not> use_stmt i then c else insert_successors cfg f i c) is"
    by (rule ext) (simp add: collect_body_def)
  moreover have E: "(\<Union>i\<in>set is. ?E i) = (\<Union>i\<in>{i \<in> set is. considered i \<and> use_stmt i}. out_edges cfg f i)"
    by (auto split: if_splits)
  moreover have "(\<Union>i\<in>set is. fst ` ?E i) = fst ` (\<Union>i\<in>{i \<in> set is. considered i \<and> use_stmt i}. out_edges cfg f i)"
    by (simp only: E [symmetric] image_UN)
  ultimately show ?thesis by simp
qed

text \<open>The first location of a function that contributes an edge.\<close>

definition first_location :: "cfg_entries \<Rightarrow> instructiont list \<Rightarrow> instructiont option" where
  "first_location cfg is = find (\<lambda>i. considered i \<and> successors (entry_at cfg (pc i)) \<noteq> []) is"

lemma insert_successors_first_aux:
  "\<lbrakk>collected_ok c; n \<in> cfa_nodes; fst ` set ss \<subseteq> cfa_nodes\<rbrakk> \<Longrightarrow>
    let r = fold (\<lambda>s (first, es, is).
        let (first, is) = (if first \<and> mark then (False, std_insert node_lt n is) else (first, is))
        in (first, std_insert edge_lt (n, fst s) es, is)) ss (b, c)
    in fst r = (b \<and> (mark \<longrightarrow> ss = [])) \<and> collected_ok (snd r) \<and> set (fst (snd r)) = set (fst c) \<union> {n} \<times> fst ` set ss
      \<and> set (snd (snd r)) = set (snd c) \<union> (if b \<and> mark \<and> ss \<noteq> [] then {n} else {})"
proof (induction ss arbitrary: b c)
  case (Cons s ss)
  obtain es js where c: "c = (es, js)" by (cases c)
  define c1 where "c1 = (std_insert edge_lt (n, fst s) es, if b \<and> mark then std_insert node_lt n js else js)"
  have e: "(n, fst s) \<in> cfa_edges" using Cons.prems by (auto simp: cfa_edges_def)
  have c1: "collected_ok c1" "set (fst c1) = insert (n, fst s) (set es)" "set (snd c1) = (if b \<and> mark then insert n (set js) else set js)"
    using Cons.prems e by (auto simp: c1_def c collected_ok_def node_set.set_std_insert
      node_set.ordered_std_insert edge_set.set_std_insert edge_set.ordered_std_insert)
  show ?case using Cons.IH [of c1 "b \<and> \<not> mark"] Cons.prems c1
    by (auto simp: c c1_def Let_def split: if_splits)
qed simp

lemma insert_successors_first_correct:
  assumes "collected_ok c" "(f, pc i) \<in> cfa_nodes" "succ_nodes cfg i \<subseteq> cfa_nodes"
  shows "fst (insert_successors_first mark cfg f i (b, c)) = (b \<and> (mark \<longrightarrow> successors (entry_at cfg (pc i)) = []))"
    "collected_ok (snd (insert_successors_first mark cfg f i (b, c)))"
    "set (fst (snd (insert_successors_first mark cfg f i (b, c)))) = set (fst c) \<union> out_edges cfg f i"
    "set (snd (snd (insert_successors_first mark cfg f i (b, c))))
      = set (snd c) \<union> (if b \<and> mark \<and> successors (entry_at cfg (pc i)) \<noteq> [] then {(f, pc i)} else {})"
  using insert_successors_first_aux [OF assms, of mark b]
  by (simp_all add: insert_successors_first_def out_edges_def Let_def)

abbreviation first_step ::
  "bool \<Rightarrow> cfg_entries \<Rightarrow> string \<Rightarrow> instructiont \<Rightarrow> bool \<times> collected \<Rightarrow> bool \<times> collected" where
  "first_step mark cfg f \<equiv> (\<lambda>i c. if ignore_instruction i then c else if is_instrumented i then c
     else insert_successors_first mark cfg f i c)"

lemma collect_body_first_aux:
  "\<lbrakk>collected_ok c; covered cfg f is; r = fold (first_step mark cfg f) is (b, c)\<rbrakk> \<Longrightarrow>
    collected_ok (snd r) \<and> set (fst (snd r)) = set (fst c) \<union> (\<Union>i\<in>{i \<in> set is. considered i}. out_edges cfg f i)
      \<and> set (snd (snd r)) = set (snd c)
          \<union> (if b \<and> mark then (\<lambda>i. (f, pc i)) ` set_option (first_location cfg is) else {})"
proof (induction "is" arbitrary: b c)
  case Nil
  then show ?case by (simp add: first_location_def)
next
  case (Cons i "is")
  have cov: "covered cfg f is" "(f, pc i) \<in> cfa_nodes" "succ_nodes cfg i \<subseteq> cfa_nodes"
    using Cons.prems by (auto simp: covered_def)
  show ?case
  proof (cases "considered i")
    case False
    then have "first_location cfg (i # is) = first_location cfg is" "{j \<in> set (i # is). considered j} = {j \<in> set is. considered j}"
      by (auto simp: first_location_def)
    moreover have "r = fold (first_step mark cfg f) is (b, c)" using False Cons.prems(3) by (simp add: considered_def split: if_splits)
    ultimately show ?thesis using Cons.IH [OF Cons.prems(1) cov(1)] by simp
  next
    case True
    obtain b' c' where r: "insert_successors_first mark cfg f i (b, c) = (b', c')" by (meson surj_pair)
    note c' = insert_successors_first_correct [OF Cons.prems(1) cov(2,3), of mark b, unfolded r fst_conv snd_conv]
    have first: "first_location cfg (i # is) = (if successors (entry_at cfg (pc i)) \<noteq> [] then Some i else first_location cfg is)"
      using True by (simp add: first_location_def)
    have E: "{j \<in> set (i # is). considered j} = insert i {j \<in> set is. considered j}" using True by auto
    have "r = fold (first_step mark cfg f) is (b', c')" using True r Cons.prems(3) by (simp add: considered_def)
    from Cons.IH [OF c'(2) cov(1) this] show ?thesis
      unfolding E first c'(1,3,4) by (simp add: Un_assoc)
  qed
qed

lemma collects_collect_body_first:
  assumes "covered cfg f is"
  shows "collects (collect_body_first mark cfg f is) (\<Union>i\<in>{i \<in> set is. considered i}. out_edges cfg f i)
    (if mark then (\<lambda>i. (f, pc i)) ` set_option (first_location cfg is) else {})"
  by (rule collectsI) (use collect_body_first_aux [OF _ assms refl, of _ mark True] in \<open>simp add: collect_body_first_def\<close>)

lemma collects_entry_loop:
  assumes "covered cfg f is"
  shows "collects (entry_loop cfg f is) (\<Union>i\<in>set_option (find considered is). out_edges cfg f i)
    (fst ` (\<Union>i\<in>set_option (find considered is). out_edges cfg f i))"
  using assms
proof (induction "is")
  case (Cons i "is")
  then have IH: "collects (entry_loop cfg f is) (\<Union>i\<in>set_option (find considered is). out_edges cfg f i)
    (fst ` (\<Union>i\<in>set_option (find considered is). out_edges cfg f i))" by (simp add: covered_def)
  have "entry_loop cfg f (i # is) = (if considered i then insert_successors cfg f i else entry_loop cfg f is)"
    by (rule ext) (simp add: considered_def)
  then show ?case using IH collects_insert_successors [of f i cfg] Cons.prems by (simp add: covered_def)
qed (simp add: collects_def)

definition branching :: "cfg_entries \<Rightarrow> instructiont \<Rightarrow> bool" where
  "branching cfg i \<longleftrightarrow> length (successors (entry_at cfg (pc i))) > 1 \<or> length (predecessors (entry_at cfg (pc i))) > 1"

abbreviation basic_block_step ::
  "cfg_entries \<Rightarrow> string \<Rightarrow> instructiont \<Rightarrow> bool \<times> collected \<Rightarrow> bool \<times> collected" where
  "basic_block_step cfg f \<equiv> (\<lambda>i (take_next, c).
        if ignore_instruction i then (take_next, c) else if is_instrumented i then (take_next, c)
        else let e = entry_at cfg (pc i) in
          if successors e \<noteq> [] \<and> (take_next \<or> length (successors e) > 1 \<or> length (predecessors e) > 1)
          then (False, insert_successors cfg f i c) else (take_next, c))"

definition basic_block_locations :: "cfg_entries \<Rightarrow> bool \<Rightarrow> instructiont list \<Rightarrow> instructiont set" where
  "basic_block_locations cfg take_next is = {i \<in> set is. considered i \<and> branching cfg i}
     \<union> (if take_next then set_option (first_location cfg is) else {})"

lemma basic_block_step:
  assumes "considered i"
  shows "basic_block_step cfg f i (t, c) =
    (if successors (entry_at cfg (pc i)) \<noteq> [] \<and> (t \<or> branching cfg i) then (False, insert_successors cfg f i c) else (t, c))"
  using assms by (simp add: considered_def branching_def)

lemma basic_block_aux:
  "\<lbrakk>collected_ok c; covered cfg f is; r = fold (basic_block_step cfg f) is (t, c)\<rbrakk> \<Longrightarrow>
    collected_ok (snd r) \<and> set (fst (snd r)) = set (fst c) \<union> (\<Union>i\<in>basic_block_locations cfg t is. out_edges cfg f i)
      \<and> set (snd (snd r)) = set (snd c) \<union> fst ` (\<Union>i\<in>basic_block_locations cfg t is. out_edges cfg f i)"
proof (induction "is" arbitrary: t c)
  case Nil
  then show ?case by (simp add: basic_block_locations_def first_location_def)
next
  case (Cons i "is")
  have cov: "covered cfg f is" "(f, pc i) \<in> cfa_nodes" "succ_nodes cfg i \<subseteq> cfa_nodes"
    using Cons.prems by (auto simp: covered_def)
  let ?S = "successors (entry_at cfg (pc i))"
  have E: "(\<Union>j\<in>basic_block_locations cfg t (i # is). out_edges cfg f j) =
     (if considered i \<and> ?S \<noteq> [] \<and> (t \<or> branching cfg i)
      then out_edges cfg f i \<union> (\<Union>j\<in>basic_block_locations cfg False is. out_edges cfg f j)
      else (\<Union>j\<in>basic_block_locations cfg t is. out_edges cfg f j))"
    by (auto simp: basic_block_locations_def first_location_def out_edges_def split: if_splits)
  show ?case
  proof (cases "considered i \<and> ?S \<noteq> [] \<and> (t \<or> branching cfg i)")
    case True
    define c' where "c' = insert_successors cfg f i c"
    note add = collectsD [OF collects_insert_successors [OF cov(2,3)] Cons.prems(1), folded c'_def]
    have "r = fold (basic_block_step cfg f) is (False, c')"
      using True Cons.prems(3) basic_block_step [of i cfg f t c] by (simp add: c'_def)
    from Cons.IH [OF add(1) cov(1) this] show ?thesis
      using True unfolding E add(2,3) by (simp add: Un_assoc image_Un)
  next
    case False
    have "basic_block_step cfg f i (t, c) = (t, c)"
      using False basic_block_step [of i cfg f t c] by (cases "considered i") (auto simp: considered_def)
    then have "r = fold (basic_block_step cfg f) is (t, c)" using Cons.prems(3) by simp
    from Cons.IH [OF Cons.prems(1) cov(1) this] show ?thesis unfolding E using False by auto
  qed
qed

lemma collects_basic_block_loop:
  assumes "covered cfg f is"
  shows "collects (basic_block_loop cfg f is) (\<Union>i\<in>basic_block_locations cfg True is. out_edges cfg f i)
    (fst ` (\<Union>i\<in>basic_block_locations cfg True is. out_edges cfg f i))"
  by (rule collectsI) (use basic_block_aux [OF _ assms refl, of _ True] in \<open>simp add: basic_block_loop_def\<close>)

text \<open>All functions of the program.\<close>

definition program_covered :: "goto_functionst \<Rightarrow> cfg_entries \<Rightarrow> bool" where
  "program_covered gf cfg \<longleftrightarrow> (\<forall>(f, fct) \<in> set gf. covered cfg f (body fct))"

lemma collects_for_functions:
  assumes "\<And>f fct. (f, fct) \<in> set gf \<Longrightarrow> \<not> ignore_function fct \<Longrightarrow> collects (step f fct) (E f fct) (I f fct)"
  shows "collected_ok (for_functions gf step)"
    "set (fst (for_functions gf step)) = (\<Union>(f, fct)\<in>{(f, fct) \<in> set gf. \<not> ignore_function fct}. E f fct)"
    "set (snd (for_functions gf step)) = (\<Union>(f, fct)\<in>{(f, fct) \<in> set gf. \<not> ignore_function fct}. I f fct)"
proof -
  let ?E = "\<lambda>(f, fct). if ignore_function fct then {} else E f fct"
  let ?I = "\<lambda>(f, fct). if ignore_function fct then {} else I f fct"
  have "collects (fold (\<lambda>(f, fct) c. if ignore_function fct then c else step f fct c) gf)
    (\<Union>p\<in>set gf. ?E p) (\<Union>p\<in>set gf. ?I p)"
  proof (rule collects_fold)
    fix p assume p: "p \<in> set gf"
    obtain f fct where "p = (f, fct)" by (cases p)
    then show "collects (\<lambda>c. (\<lambda>(f, fct) c. if ignore_function fct then c else step f fct c) p c) (?E p) (?I p)"
      using assms [of f fct] collects_skip p by simp
  qed
  moreover have "collected_ok ([], [])" by (simp add: collected_ok_def)
  moreover have "(\<Union>p\<in>set gf. ?E p) = (\<Union>(f, fct)\<in>{(f, fct) \<in> set gf. \<not> ignore_function fct}. E f fct)"
    "(\<Union>p\<in>set gf. ?I p) = (\<Union>(f, fct)\<in>{(f, fct) \<in> set gf. \<not> ignore_function fct}. I f fct)"
    by (fastforce split: if_splits)+
  ultimately show "collected_ok (for_functions gf step)"
    "set (fst (for_functions gf step)) = (\<Union>(f, fct)\<in>{(f, fct) \<in> set gf. \<not> ignore_function fct}. E f fct)"
    "set (snd (for_functions gf step)) = (\<Union>(f, fct)\<in>{(f, fct) \<in> set gf. \<not> ignore_function fct}. I f fct)"
    by (simp_all add: for_functions_def collectsD)
qed

section \<open>The meaning of filter functions\<close>

text \<open>
  Which instructions of an available function a filter function selects, the edges of a filter
  function, and its initial states: for \<open>ID\<close>, \<open>FILE\<close> and \<open>FUNC\<close> the first location
  of each selected function (only of the main function for \<open>ID\<close>), for all others the sources
  of the edges.
\<close>

fun filter_matches ::
  "cfg_entries \<Rightarrow> filter_function_t \<Rightarrow> int \<Rightarrow> string \<Rightarrow> string \<Rightarrow> goto_functiont \<Rightarrow> instructiont \<Rightarrow> bool" where
  "filter_matches cfg F_IDENTITY v s f fct i = True"
| "filter_matches cfg F_FILE v s f fct i = (location_file (hd (body fct)) = s)"
| "filter_matches cfg F_LINE v s f fct i = (\<exists>l. source_location i = Some l \<and> get_line l = show_int v)"
| "filter_matches cfg F_COLUMN v s f fct i = (\<exists>l. source_location i = Some l \<and> get_column l = show_int v)"
| "filter_matches cfg F_FUNC v s f fct i = (f = s)"
| "filter_matches cfg F_LABEL v s f fct i = (s \<in> set (labels i))"
| "filter_matches cfg F_CALL v s f fct i = (i_type i = FUNCTION_CALL \<and> base_name_of (called_function i) = s)"
| "filter_matches cfg F_CALLS v s f fct i = (i_type i = FUNCTION_CALL)"
| "filter_matches cfg F_ENTRY v s f fct i = (f = s \<and> find considered (body fct) = Some i)"
| "filter_matches cfg F_EXIT v s f fct i = (f = s \<and> i_type i = RETURN)"
| "filter_matches cfg F_BASICBLOCKENTRY v s f fct i = (i \<in> basic_block_locations cfg True (body fct))"
| "filter_matches cfg F_CONDITIONEDGE v s f fct i = conditional_goto i"
| "filter_matches cfg F_DEF v s f fct i =
     (i_type i = ASSIGN \<and> (\<exists>e \<in> subexprs (lhs (code i)). expr_id e = ''symbol'' \<and> base_name_of (get_identifier e) = s))"
| "filter_matches cfg F_USE v s f fct i =
     (i_type i = ASSIGN \<and> (\<exists>e \<in> subexprs (rhs (code i)). expr_id e = ''symbol'' \<and> base_name_of (get_identifier e) = s))"
| "filter_matches cfg F_STMTTYPE v s f fct i = use_stmttype v i"
| "filter_matches cfg _ v s f fct i = False"

definition spec_edges ::
  "goto_functionst \<Rightarrow> cfg_entries \<Rightarrow> filter_function_t \<Rightarrow> int \<Rightarrow> string \<Rightarrow> cfa_edge set" where
  "spec_edges gf cfg ty v s = {((f, pc i), n) |f fct i n. (f, fct) \<in> set gf \<and> \<not> ignore_function fct
     \<and> i \<in> set (body fct) \<and> considered i \<and> filter_matches cfg ty v s f fct i \<and> n \<in> succ_nodes cfg i}"

definition spec_initial ::
  "string \<Rightarrow> goto_functionst \<Rightarrow> cfg_entries \<Rightarrow> filter_function_t \<Rightarrow> int \<Rightarrow> string \<Rightarrow> cfa_node set" where
  "spec_initial main gf cfg ty v s =
    (if ty \<in> {F_IDENTITY, F_FILE, F_FUNC} then
       {(f, pc i) |f fct i. (f, fct) \<in> set gf \<and> \<not> ignore_function fct \<and> first_location cfg (body fct) = Some i
         \<and> filter_matches cfg ty v s f fct i \<and> (ty = F_IDENTITY \<longrightarrow> f = main)}
     else fst ` spec_edges gf cfg ty v s)"

text \<open>The functions a filter function needs and that are not available.\<close>

definition unavailable :: "goto_functionst \<Rightarrow> filter_function_t \<Rightarrow> string \<Rightarrow> bool" where
  "unavailable gf ty s \<longleftrightarrow> ty \<in> {F_FUNC, F_ENTRY, F_EXIT}
     \<and> (case map_of gf s of None \<Rightarrow> True | Some fct \<Rightarrow> ignore_function fct)"

abbreviation meets :: "string \<Rightarrow> goto_functionst \<Rightarrow> cfg_entries \<Rightarrow> filter_function_t \<Rightarrow> int \<Rightarrow> string \<Rightarrow> collected \<Rightarrow> bool" where
  "meets main gf cfg ty v s c \<equiv> collected_ok c \<and> set (fst c) = spec_edges gf cfg ty v s
     \<and> set (snd c) = spec_initial main gf cfg ty v s"

lemma coveredD: "program_covered gf cfg \<Longrightarrow> (f, fct) \<in> set gf \<Longrightarrow> covered cfg f (body fct)"
  by (auto simp: program_covered_def)

lemma spec_edges_Un:
  "spec_edges gf cfg ty v s = (\<Union>(f, fct)\<in>{(f, fct) \<in> set gf. \<not> ignore_function fct}.
     \<Union>i\<in>{i \<in> set (body fct). considered i \<and> filter_matches cfg ty v s f fct i}. out_edges cfg f i)"
proof -
  define S where "S i = succ_nodes cfg i" for i
  have "out_edges cfg f i = {(f, pc i)} \<times> S i" for f i by (simp add: S_def out_edges_def)
  then show ?thesis unfolding spec_edges_def S_def [symmetric] by auto blast
qed

text \<open>A loop over all functions that selects locations, all of them initial.\<close>

lemma meets_all:
  assumes "program_covered gf cfg" and ty: "ty \<notin> {F_IDENTITY, F_FILE, F_FUNC}"
    and "\<And>f fct. (f, fct) \<in> set gf \<Longrightarrow> collects (step f fct) (\<Union>i\<in>L fct. out_edges cfg f i) (fst ` (\<Union>i\<in>L fct. out_edges cfg f i))"
    and L: "\<And>f fct i. (f, fct) \<in> set gf \<Longrightarrow> \<not> ignore_function fct \<Longrightarrow>
      i \<in> L fct \<and> succ_nodes cfg i \<noteq> {} \<longleftrightarrow> i \<in> set (body fct) \<and> considered i \<and> filter_matches cfg ty v s f fct i \<and> succ_nodes cfg i \<noteq> {}"
  shows "meets main gf cfg ty v s (for_functions gf step)"
proof -
  note add = collects_for_functions [of gf step "\<lambda>f fct. (\<Union>i\<in>L fct. out_edges cfg f i)"
    "\<lambda>f fct. fst ` (\<Union>i\<in>L fct. out_edges cfg f i)", OF assms(3)]
  have "(\<Union>i\<in>L fct. out_edges cfg f i) = (\<Union>i\<in>{i \<in> set (body fct). considered i \<and> filter_matches cfg ty v s f fct i}. out_edges cfg f i)"
    if "(f, fct) \<in> set gf" "\<not> ignore_function fct" for f fct
  proof -
    have "(\<Union>i\<in>L fct. out_edges cfg f i) = (\<Union>i\<in>{i \<in> L fct. succ_nodes cfg i \<noteq> {}}. out_edges cfg f i)"
      by (auto simp: out_edges_def)
    also have "{i \<in> L fct. succ_nodes cfg i \<noteq> {}} = {i. i \<in> set (body fct) \<and> considered i \<and> filter_matches cfg ty v s f fct i \<and> succ_nodes cfg i \<noteq> {}}"
      using L [OF that] by blast
    finally show ?thesis by (auto simp: out_edges_def)
  qed
  then have E: "(\<Union>(f, fct)\<in>{(f, fct) \<in> set gf. \<not> ignore_function fct}. \<Union>i\<in>L fct. out_edges cfg f i) = spec_edges gf cfg ty v s"
    unfolding spec_edges_Un by (intro SUP_cong refl) clarsimp
  have "(\<Union>(f, fct)\<in>{(f, fct) \<in> set gf. \<not> ignore_function fct}. fst ` (\<Union>i\<in>L fct. out_edges cfg f i))
      = fst ` spec_edges gf cfg ty v s"
    unfolding E [symmetric] by (simp add: image_UN split_beta)
  then show ?thesis using add E ty by (simp add: spec_initial_def)
qed

lemma meets_collect_all:
  assumes "program_covered gf cfg" and ty: "ty \<notin> {F_IDENTITY, F_FILE, F_FUNC}"
    and use_stmt: "\<And>f fct i. filter_matches cfg ty v s f fct i \<longleftrightarrow> use_stmt i"
  shows "meets main gf cfg ty v s (collect_all gf cfg use_stmt)"
  unfolding collect_all_def
proof (rule meets_all [OF assms(1) ty, where L = "\<lambda>fct. {i \<in> set (body fct). considered i \<and> use_stmt i}"])
  fix f fct assume "(f, fct) \<in> set gf"
  then show "collects (collect_body cfg use_stmt f (body fct)) (\<Union>i\<in>{i \<in> set (body fct). considered i \<and> use_stmt i}. out_edges cfg f i)
    (fst ` (\<Union>i\<in>{i \<in> set (body fct). considered i \<and> use_stmt i}. out_edges cfg f i))"
    by (intro collects_collect_body coveredD [OF assms(1)])
qed (use use_stmt in auto)

lemma meets_first:
  assumes cov: "program_covered gf cfg" and ty: "ty \<in> {F_IDENTITY, F_FILE}"
    and sel: "\<And>f fct i. filter_matches cfg ty v s f fct i \<longleftrightarrow> sel fct"
    and mark: "\<And>f. mark f \<longleftrightarrow> (ty = F_IDENTITY \<longrightarrow> f = main)"
  shows "meets main gf cfg ty v s
    (for_functions gf (\<lambda>f fct c. if \<not> sel fct then c else collect_body_first (mark f) cfg f (body fct) c))"
proof -
  let ?E = "\<lambda>f fct. if sel fct then \<Union>i\<in>{i \<in> set (body fct). considered i}. out_edges cfg f i else {}"
  let ?I = "\<lambda>f fct. if sel fct \<and> mark f then (\<lambda>i. (f, pc i)) ` set_option (first_location cfg (body fct)) else {}"
  have step: "collects (\<lambda>c. if \<not> sel fct then c else collect_body_first (mark f) cfg f (body fct) c) (?E f fct) (?I f fct)"
    if "(f, fct) \<in> set gf" for f fct
    using collects_collect_body_first [OF coveredD [OF cov that], of "mark f"] collects_skip by (cases "sel fct") auto
  have "(\<Union>(f, fct)\<in>{(f, fct) \<in> set gf. \<not> ignore_function fct}. ?E f fct) = spec_edges gf cfg ty v s"
    unfolding spec_edges_Un sel by (intro SUP_cong refl) (auto split: if_splits)
  moreover have "(\<Union>(f, fct)\<in>{(f, fct) \<in> set gf. \<not> ignore_function fct}. ?I f fct) = spec_initial main gf cfg ty v s"
    using ty by (auto simp: spec_initial_def sel mark split: if_splits) blast+
  ultimately show ?thesis using collects_for_functions [of gf _ ?E ?I, OF step] by simp
qed

lemma get_funct_entry_cases:
  assumes "ty \<in> {F_FUNC, F_ENTRY, F_EXIT}"
  shows "get_funct_entry gf s = Inr fct \<longleftrightarrow> map_of gf s = Some fct \<and> \<not> unavailable gf ty s"
    "get_funct_entry gf s = Inl e \<longleftrightarrow> e = Query_Processing_Error \<and> unavailable gf ty s"
  using assms by (auto simp: get_funct_entry_def unavailable_def split: option.splits)

text \<open>Filter functions of a single function.\<close>

lemma spec_edges_single:
  assumes wf: "goto_wf gf" and ty: "ty \<in> {F_FUNC, F_ENTRY, F_EXIT}"
    and fct: "map_of gf s = Some fct" "\<not> unavailable gf ty s"
    and L: "\<And>i. i \<in> L \<longleftrightarrow> i \<in> set (body fct) \<and> considered i \<and> filter_matches cfg ty v s s fct i"
  shows "spec_edges gf cfg ty v s = (\<Union>i\<in>L. out_edges cfg s i)"
proof -
  have only: "(f, fct') \<in> set gf \<and> filter_matches cfg ty v s f fct' i \<Longrightarrow> f = s \<and> fct' = fct" for f fct' i
    using goto_wfD(4) [OF wf, of f fct'] fct(1) ty by auto
  have "(s, fct) \<in> set gf" "\<not> ignore_function fct"
    using map_of_SomeD [OF fct(1)] fct ty by (auto simp: unavailable_def)
  moreover have "L = {i \<in> set (body fct). considered i \<and> filter_matches cfg ty v s s fct i}" using L by blast
  ultimately show ?thesis unfolding spec_edges_Un using only by (auto simp del: filter_matches.simps)
qed

lemma meets_single:
  assumes "goto_wf gf" "ty \<in> {F_ENTRY, F_EXIT}" "map_of gf s = Some fct" "\<not> unavailable gf ty s"
    and "\<And>i. i \<in> L \<longleftrightarrow> i \<in> set (body fct) \<and> considered i \<and> filter_matches cfg ty v s s fct i"
    and "collects step (\<Union>i\<in>L. out_edges cfg s i) (fst ` (\<Union>i\<in>L. out_edges cfg s i))"
  shows "meets main gf cfg ty v s (step ([], []))"
proof -
  have "spec_edges gf cfg ty v s = (\<Union>i\<in>L. out_edges cfg s i)"
    using assms(2) by (intro spec_edges_single [OF assms(1) _ assms(3,4,5)]) auto
  moreover have "spec_initial main gf cfg ty v s = fst ` spec_edges gf cfg ty v s"
    using assms(2) by (auto simp: spec_initial_def)
  ultimately show ?thesis using collectsD [OF assms(6), of "([], [])"] by (simp add: collected_ok_def)
qed

lemma meets_FUNC:
  assumes wf: "goto_wf gf" and cov: "program_covered gf cfg" and fct: "map_of gf s = Some fct" "\<not> unavailable gf F_FUNC s"
  shows "meets main gf cfg F_FUNC v s (collect_body_first True cfg s (body fct) ([], []))"
proof -
  have mem: "(s, fct) \<in> set gf" "\<not> ignore_function fct"
    using map_of_SomeD [OF fct(1)] fct by (auto simp: unavailable_def)
  have "spec_edges gf cfg F_FUNC v s = (\<Union>i\<in>{i \<in> set (body fct). considered i}. out_edges cfg s i)"
    by (rule spec_edges_single [OF wf _ fct]) auto
  moreover have iff: "(s, fct') \<in> set gf \<longleftrightarrow> fct' = fct" for fct' using goto_wfD(4) [OF wf, of s fct'] fct(1) mem(1) by auto
  have "spec_initial main gf cfg F_FUNC v s = {(s, pc i) |i. first_location cfg (body fct) = Some i}"
    using mem(2) by (simp add: spec_initial_def) (metis iff)
  then have "spec_initial main gf cfg F_FUNC v s = (\<lambda>i. (s, pc i)) ` set_option (first_location cfg (body fct))"
    by (cases "first_location cfg (body fct)") auto
  ultimately show ?thesis
    using collectsD [OF collects_collect_body_first [OF coveredD [OF cov mem(1)], of True], of "([], [])"]
    by (simp add: collected_ok_def)
qed

lemma show_int_not_Nil [simp]: "show_int i \<noteq> []" "[] \<noteq> show_int i"
proof -
  have "show_nat n \<noteq> []" for n by (subst show_nat.simps) simp
  then show "show_int i \<noteq> []" by (simp add: show_int_def)
  then show "[] \<noteq> show_int i" by metis
qed

lemma has_symbol_iff: "has_symbol s e \<longleftrightarrow> (\<exists>x \<in> subexprs e. expr_id x = ''symbol'' \<and> base_name_of (get_identifier x) = s)"
  by (auto simp: has_symbol_def list_ex_iff set_find_symbols)

lemma find_Some_mem: "find P xs = Some x \<Longrightarrow> x \<in> set xs \<and> P x"
  by (induction xs) (auto split: if_splits)

lemma basic_block_considered: "i \<in> basic_block_locations cfg t is \<Longrightarrow> i \<in> set is \<and> considered i"
  by (auto simp: basic_block_locations_def first_location_def dest!: find_Some_mem split: if_splits)

lemma meets_BASICBLOCKENTRY:
  assumes "program_covered gf cfg"
  shows "meets main gf cfg F_BASICBLOCKENTRY v s (eval_BASICBLOCKENTRY gf cfg)"
  unfolding eval_BASICBLOCKENTRY_def
  by (rule meets_all [OF assms, where L = "\<lambda>fct. basic_block_locations cfg True (body fct)"])
     (use collects_basic_block_loop [OF coveredD [OF assms]] basic_block_considered in auto)

lemma filter_function_sets_spec:
  assumes "goto_wf gf" "program_covered gf cfg"
  shows "case filter_function_sets main gf cfg ty v s of
      Inl e \<Rightarrow> e = Query_Processing_Error \<and> unavailable gf ty s
    | Inr c \<Rightarrow> \<not> unavailable gf ty s \<and> meets main gf cfg ty v s c"
proof (cases "ty \<in> {F_FUNC, F_ENTRY, F_EXIT}")
  case True
  show ?thesis
  proof (cases "unavailable gf ty s")
    case unav: True
    then have "get_funct_entry gf s = Inl Query_Processing_Error" using get_funct_entry_cases(2) [OF True] by blast
    then show ?thesis using True unav by (auto simp: eval_FUNC_def eval_ENTRY_def eval_EXIT_def)
  next
    case False
    then obtain fct where fct: "map_of gf s = Some fct" using True by (auto simp: unavailable_def split: option.splits)
    then have entry: "get_funct_entry gf s = Inr fct" using get_funct_entry_cases(1) [OF True] False by blast
    have cov: "covered cfg s (body fct)" using coveredD [OF assms(2) map_of_SomeD [OF fct]] .
    have "meets main gf cfg F_ENTRY v s (entry_loop cfg s (body fct) ([], []))" if "ty = F_ENTRY"
      using meets_single [OF assms(1) _ fct _ _ collects_entry_loop [OF cov], of F_ENTRY v main] False that
      by (auto dest: find_Some_mem)
    moreover have "meets main gf cfg F_EXIT v s (collect_body cfg (\<lambda>i. i_type i = RETURN) s (body fct) ([], []))" if "ty = F_EXIT"
      by (rule meets_single [OF assms(1) _ fct _ _ collects_collect_body [OF cov]]) (use False that in auto)
    ultimately show ?thesis
      using True False entry meets_FUNC [OF assms fct] by (auto simp: eval_FUNC_def eval_ENTRY_def eval_EXIT_def)
  qed
next
  case False
  then have av: "\<not> unavailable gf ty s" by (simp add: unavailable_def)
  note all = meets_collect_all [OF assms(2)]
  show ?thesis
  proof (cases ty)
    case F_IDENTITY
    then show ?thesis using av meets_first [OF assms(2), of F_IDENTITY v s "\<lambda>fct. True" "\<lambda>f. f = main" main]
      by (simp add: eval_IDENTITY_def)
  next
    case F_FILE
    then show ?thesis
      using av meets_first [OF assms(2), of F_FILE v s "\<lambda>fct. location_file (hd (body fct)) = s" "\<lambda>f. True" main]
      by (simp add: eval_FILE_def)
  next
    case F_LINE
    then show ?thesis using av by (simp add: eval_LINE_def) (rule all, auto split: option.splits)
  next
    case F_COLUMN
    then show ?thesis using av by (simp add: eval_COLUMN_def) (rule all, auto split: option.splits)
  next
    case F_LABEL
    then show ?thesis using av by (simp add: eval_LABEL_def) (rule all, auto)
  next
    case F_CALL
    then show ?thesis using av by (simp add: eval_CALL_def) (rule all, auto)
  next
    case F_CALLS
    then show ?thesis using av by (simp add: eval_CALLS_def) (rule all, auto)
  next
    case F_BASICBLOCKENTRY
    then show ?thesis using av meets_BASICBLOCKENTRY [OF assms(2)] by simp
  next
    case F_CONDITIONEDGE
    then show ?thesis using av by (simp add: eval_CONDITIONEDGE_def) (rule all, auto)
  next
    case F_DEF
    then show ?thesis using av by (simp add: eval_DEF_def) (rule all, auto simp: has_symbol_iff)
  next
    case F_USE
    then show ?thesis using av by (simp add: eval_USE_def) (rule all, auto simp: has_symbol_iff)
  next
    case F_STMTTYPE
    then show ?thesis using av by (simp add: eval_STMTTYPE_def) (rule all, auto)
  qed (use False av in \<open>simp_all add: spec_edges_def spec_initial_def collected_ok_def\<close>)
qed

lemma program_covered_cfg: "goto_wf gf \<Longrightarrow> program_covered gf (compute_edges gf)"
proof -
  assume wf: "goto_wf gf"
  have "(f, pc i) \<in> cfa_nodes" "succ_nodes (compute_edges gf) i \<subseteq> cfa_nodes"
    if "(f, fct) \<in> set gf" "i \<in> set (body fct)" for f fct i
  proof -
    show node: "(f, pc i) \<in> cfa_nodes" using goto_wfD(1) [OF wf that] by (simp add: cfa_nodes_def)
    show "succ_nodes (compute_edges gf) i \<subseteq> cfa_nodes"
      using successors_step [OF wf node] cfg_step_nodes(2) [OF wf] unfolding snd_conv by blast
  qed
  then show ?thesis unfolding program_covered_def covered_def by (intro ballI) (clarify, blast)
qed

lemma spec_initial_sources: "spec_initial main gf cfg ty v s \<subseteq> fst ` spec_edges gf cfg ty v s"
proof -
  have "(f, pc i) \<in> fst ` spec_edges gf cfg ty v s"
    if "(f, fct) \<in> set gf" "\<not> ignore_function fct" "first_location cfg (body fct) = Some i" "filter_matches cfg ty v s f fct i"
    for f fct i
  proof -
    have i: "i \<in> set (body fct)" "considered i" "successors (entry_at cfg (pc i)) \<noteq> []"
      using that(3) by (auto simp: first_location_def dest!: find_Some_mem)
    from i(3) have n: "fst (hd (successors (entry_at cfg (pc i)))) \<in> succ_nodes cfg i" by simp
    have "((f, pc i), fst (hd (successors (entry_at cfg (pc i))))) \<in> spec_edges gf cfg ty v s"
      unfolding spec_edges_def by (intro CollectI exI conjI, rule refl) (fact that i n)+
    then show ?thesis by (rule image_eqI [rotated]) simp
  qed
  then show ?thesis unfolding spec_initial_def by auto
qed

section \<open>The meaning of filters\<close>

fun filter_sem :: "string \<Rightarrow> goto_functionst \<Rightarrow> cfg_entries \<Rightarrow> 'e fql_node \<Rightarrow> fshell_error + cfa" where
  "filter_sem main gf cfg (Filter_Function p ty v s) =
     rbind (filter_function_sets main gf cfg ty v s) (\<lambda>(edges, initial).
       Inr (set_I initial (set_E edges cfa_empty)))"
| "filter_sem main gf cfg (Filter_Union p a b) =
     rbind (filter_sem main gf cfg a) (\<lambda>x. rbind (filter_sem main gf cfg b) (\<lambda>y. Inr (setunion x y)))"
| "filter_sem main gf cfg (Filter_Intersection p a b) =
     rbind (filter_sem main gf cfg a) (\<lambda>x. rbind (filter_sem main gf cfg b) (\<lambda>y. Inr (setintersection x y)))"
| "filter_sem main gf cfg (Filter_Setminus p a b) =
     rbind (filter_sem main gf cfg a) (\<lambda>x. rbind (filter_sem main gf cfg b) (\<lambda>y. Inr (setsubtract x y)))"
| "filter_sem main gf cfg (Filter_Compose p a b) =
     rbind (filter_sem main gf cfg a) (\<lambda>x. rbind (filter_sem main gf cfg b) (\<lambda>y. Inr (compose_graphs x y)))"
| "filter_sem main gf cfg _ = Inl Invalid_Argument"

text \<open>The edges a filter denotes, and the functions it needs but that are not available.\<close>

fun filter_edges :: "goto_functionst \<Rightarrow> cfg_entries \<Rightarrow> 'e fql_node \<Rightarrow> cfa_edge set" where
  "filter_edges gf cfg (Filter_Function p ty v s) = spec_edges gf cfg ty v s"
| "filter_edges gf cfg (Filter_Union p a b) = filter_edges gf cfg a \<union> filter_edges gf cfg b"
| "filter_edges gf cfg (Filter_Intersection p a b) = filter_edges gf cfg a \<inter> filter_edges gf cfg b"
| "filter_edges gf cfg (Filter_Setminus p a b) = filter_edges gf cfg a - filter_edges gf cfg b"
| "filter_edges gf cfg (Filter_Compose p a b) = filter_edges gf cfg a \<inter> filter_edges gf cfg b"
| "filter_edges gf cfg _ = {}"

fun needs_unavailable :: "goto_functionst \<Rightarrow> 'e fql_node \<Rightarrow> bool" where
  "needs_unavailable gf (Filter_Function p ty v s) \<longleftrightarrow> unavailable gf ty s"
| "needs_unavailable gf (Filter_Union p a b) \<longleftrightarrow> needs_unavailable gf a \<or> needs_unavailable gf b"
| "needs_unavailable gf (Filter_Intersection p a b) \<longleftrightarrow> needs_unavailable gf a \<or> needs_unavailable gf b"
| "needs_unavailable gf (Filter_Setminus p a b) \<longleftrightarrow> needs_unavailable gf a \<or> needs_unavailable gf b"
| "needs_unavailable gf (Filter_Compose p a b) \<longleftrightarrow> needs_unavailable gf a \<or> needs_unavailable gf b"
| "needs_unavailable gf _ \<longleftrightarrow> False"

lemma compose_graphs_correct:
  assumes "cfa_inv a" "cfa_inv b"
  shows "cfa_inv (compose_graphs a b) \<and> set (m_edges (compose_graphs a b)) = set (m_edges a) \<inter> set (m_edges b)
    \<and> cfa_L (compose_graphs a b) = cfa_L a \<inter> cfa_L b
    \<and> set (m_initial (compose_graphs a b)) = set (m_initial a) \<inter> cfa_L b"
proof -
  define g where "g = setintersection a b"
  have g: "cfa_inv g" "cfa_L g = cfa_L a \<inter> cfa_L b" "set (m_edges g) = set (m_edges a) \<inter> set (m_edges b)"
    using setintersection_correct [OF assms] by (simp_all add: g_def)
  note L = get_L_correct [OF g(1)]
  have I: "node_set.ordered (m_initial a)" "set (m_initial a) \<subseteq> cfa_L a" using assms(1) by (auto simp: cfa_inv_def)
  define js where "js = std_insert_range node_lt (std_set_intersection node_lt (m_initial a) (get_L g)) []"
  have js: "node_set.ordered js" "set js = set (m_initial a) \<inter> cfa_L g"
    using rebuild_nodes [OF node_set.ordered_std_intersection [OF I(1), of "get_L g"]] node_set.set_std_intersection [OF I(1) L(1)] L(2)
    by (simp_all add: js_def)
  have "compose_graphs a b = g\<lparr>m_initial := js\<rparr>"
    by (simp add: compose_graphs_def g_def js_def Let_def set_I_def)
  then show ?thesis using g js I(2) by (auto simp: cfa_inv_def cfa_L_def)
qed

lemma function_graph_inv:
  assumes "meets main gf cfg ty v s (edges, initial)"
  shows "cfa_inv (set_I initial (set_E edges cfa_empty))"
  using assms spec_initial_sources [of main gf cfg ty v s]
  by (auto simp: cfa_inv_def cfa_L_def set_I_def set_E_def cfa_empty_def collected_ok_def)

lemma filter_sem_correct:
  assumes "goto_wf gf" "program_covered gf cfg"
  shows "is_filter n \<Longrightarrow> well_typed n \<Longrightarrow> case filter_sem main gf cfg n of
      Inl e \<Rightarrow> e = Query_Processing_Error \<and> needs_unavailable gf n
    | Inr g \<Rightarrow> \<not> needs_unavailable gf n \<and> cfa_inv g \<and> set (m_edges g) = filter_edges gf cfg n"
proof (induction n)
  case (Filter_Function p ty v s)
  show ?case
    using filter_function_sets_spec [OF assms, where main = main and ty = ty and v = v and s = s]
    by (cases "filter_function_sets main gf cfg ty v s")
       (auto simp: function_graph_inv set_I_def [abs_def] set_E_def split: prod.splits intro: function_graph_inv [unfolded set_I_def set_E_def])
next
  case (Filter_Union p a b)
  then show ?case
    by (auto split: sum.splits simp: setunion_correct)
next
  case (Filter_Intersection p a b)
  then show ?case
    by (auto split: sum.splits simp: setintersection_correct)
next
  case (Filter_Setminus p a b)
  then show ?case
    by (auto split: sum.splits simp: setsubtract_correct)
next
  case (Filter_Compose p a b)
  then show ?case
    by (auto split: sum.splits simp: compose_graphs_correct)
qed (simp_all add: is_filter_def)

fun filter_nodes :: "'e fql_node \<Rightarrow> 'e fql_node set" where
  "filter_nodes (Filter_Union p a b) = insert (Filter_Union p a b) (filter_nodes a \<union> filter_nodes b)"
| "filter_nodes (Filter_Intersection p a b) = insert (Filter_Intersection p a b) (filter_nodes a \<union> filter_nodes b)"
| "filter_nodes (Filter_Setminus p a b) = insert (Filter_Setminus p a b) (filter_nodes a \<union> filter_nodes b)"
| "filter_nodes (Filter_Compose p a b) = insert (Filter_Compose p a b) (filter_nodes a \<union> filter_nodes b)"
| "filter_nodes n = {n}"

lemma self_in_filter_nodes [simp]: "n \<in> filter_nodes n"
  by (cases n) auto

text \<open>The filters that coverage and path patterns refer to.\<close>

fun top_filters :: "'e fql_node \<Rightarrow> 'e fql_node set" where
  "top_filters (CP_Alternative p a b) = top_filters a \<union> top_filters b"
| "top_filters (CP_Concat p a b) = top_filters a \<union> top_filters b"
| "top_filters (Depcov p a b c) = {a, b, c}"
| "top_filters (Edgecov p f) = {f}"
| "top_filters (Nodecov p f) = {f}"
| "top_filters (Pathcov p f k) = {f}"
| "top_filters (PP_Alternative p a b) = top_filters a \<union> top_filters b"
| "top_filters (PP_Concat p a b) = top_filters a \<union> top_filters b"
| "top_filters (Quote p q) = top_filters q"
| "top_filters (Query p x c (Some y)) = top_filters c \<union> top_filters y"
| "top_filters (Repeat p q l u) = top_filters q"
| "top_filters n = {}"

lemma pattern_not_query: "is_cp n \<Longrightarrow> node_class n \<noteq> C_Query" "is_pp n \<Longrightarrow> node_class n \<noteq> C_Query"
  by (auto simp: is_defs)

lemma top_filters_typed: "\<lbrakk>well_typed n; f \<in> top_filters n; node_class n \<noteq> C_Query\<rbrakk> \<Longrightarrow> is_filter f \<and> well_typed f"
proof (induction n)
  case (Query p x c y)
  then show ?case by simp
qed (auto dest: pattern_not_query)

fun predicate_free :: "'e fql_node \<Rightarrow> bool" where
  "predicate_free (CP_Alternative p a b) \<longleftrightarrow> predicate_free a \<and> predicate_free b"
| "predicate_free (CP_Concat p a b) \<longleftrightarrow> predicate_free a \<and> predicate_free b"
| "predicate_free (PP_Alternative p a b) \<longleftrightarrow> predicate_free a \<and> predicate_free b"
| "predicate_free (PP_Concat p a b) \<longleftrightarrow> predicate_free a \<and> predicate_free b"
| "predicate_free (Quote p q) \<longleftrightarrow> predicate_free q"
| "predicate_free (Query p x c (Some y)) \<longleftrightarrow> predicate_free c \<and> predicate_free y"
| "predicate_free (Repeat p q l u) \<longleftrightarrow> predicate_free q"
| "predicate_free (Predicate p e) \<longleftrightarrow> False"
| "predicate_free n \<longleftrightarrow> True"

section \<open>The visitor computes the meaning\<close>

text \<open>
  Nodes in \<open>Open\<close> are being visited: their entry is still the empty graph. Every other node of
  \<open>X\<close> that has an entry has its meaning there.
\<close>

locale filter_evaluation =
  fixes env :: "'e filter_env" and gf :: goto_functionst and X :: "'e fql_node set"
  assumes unique: "inj_on node_addr X"
begin

abbreviation sem :: "'e fql_node \<Rightarrow> fshell_error + cfa" where
  "sem n \<equiv> filter_sem (config_main env) gf (m_cfg env) n"

definition fm_ok :: "'e fql_node set \<Rightarrow> filter_state \<Rightarrow> bool" where
  "fm_ok Open st \<longleftrightarrow> m_gf st = gf
     \<and> (\<forall>n \<in> X - Open. \<forall>g. m_filter_map st (node_addr n) = Some g \<longrightarrow> sem n = Inr g)"

definition evaluates :: "'e fql_node set \<Rightarrow> 'e fql_node set \<Rightarrow> (filter_state \<Rightarrow> fshell_error + filter_state) \<Rightarrow> bool" where
  "evaluates Open N V \<longleftrightarrow> (\<forall>st. fm_ok Open st \<longrightarrow>
     (case V st of
        Inl e \<Rightarrow> \<exists>n \<in> N. sem n = Inl e
      | Inr st' \<Rightarrow> fm_ok Open st' \<and> dom (m_filter_map st) \<union> node_addr ` N \<subseteq> dom (m_filter_map st')))"

lemma evaluatesD:
  assumes "evaluates Open N V" "fm_ok Open st"
  shows "V st = Inl e \<Longrightarrow> \<exists>n \<in> N. sem n = Inl e"
    "V st = Inr st' \<Longrightarrow> fm_ok Open st' \<and> dom (m_filter_map st) \<union> node_addr ` N \<subseteq> dom (m_filter_map st')"
  using assms by (fastforce simp: evaluates_def split: sum.splits)+

lemma evaluates_seq:
  assumes "evaluates Open M V" "evaluates Open N W"
  shows "evaluates Open (M \<union> N) (\<lambda>st. rbind (V st) W)"
  unfolding evaluates_def
proof (intro allI impI)
  fix st assume st: "fm_ok Open st"
  show "case rbind (V st) W of Inl e \<Rightarrow> \<exists>n \<in> M \<union> N. sem n = Inl e
    | Inr st' \<Rightarrow> fm_ok Open st' \<and> dom (m_filter_map st) \<union> node_addr ` (M \<union> N) \<subseteq> dom (m_filter_map st')"
  proof (cases "V st")
    case (Inl e)
    then show ?thesis using evaluatesD(1) [OF assms(1) st] by auto
  next
    case (Inr st1)
    note st1 = evaluatesD(2) [OF assms(1) st Inr]
    show ?thesis
    proof (cases "W st1")
      case (Inl e)
      then show ?thesis using evaluatesD(1) [OF assms(2), of st1] st1 Inr by auto
    next
      case (Inr st2)
      then have "fm_ok Open st2 \<and> dom (m_filter_map st1) \<union> node_addr ` N \<subseteq> dom (m_filter_map st2)"
        using evaluatesD(2) [OF assms(2)] st1 by blast
      then show ?thesis using st1 Inr \<open>V st = Inr st1\<close> by (simp add: image_Un) blast
    qed
  qed
qed

lemma fm_ok_enter: "n \<in> X \<Longrightarrow> fm_ok Open st \<Longrightarrow> fm_ok (insert n Open) (enter_filter (node_addr n) st)"
  using unique by (auto simp: fm_ok_def enter_filter_def inj_on_def split: if_splits)

lemma fm_ok_assign:
  "\<lbrakk>n \<in> X; fm_ok (insert n Open) st; sem n = Inr g\<rbrakk> \<Longrightarrow> fm_ok Open (assign_filter (node_addr n) g st)"
  using unique by (auto simp: fm_ok_def assign_filter_def inj_on_def split: if_splits)

lemma fm_ok_entry:
  "\<lbrakk>fm_ok Open st; n \<in> X; n \<notin> Open; node_addr n \<in> dom (m_filter_map st)\<rbrakk>
    \<Longrightarrow> sem n = Inr (the (m_filter_map st (node_addr n)))"
  by (auto simp: fm_ok_def)

text \<open>A binary operator: enter the node, visit both operands, combine their values.\<close>

lemma evaluates_binary:
  assumes n: "n \<in> X" "a \<in> X" "b \<in> X" "a \<notin> insert n Open" "b \<notin> insert n Open"
    and V: "evaluates (insert n Open) {a} V" "evaluates (insert n Open) {b} W"
    and sem: "sem n = rbind (sem a) (\<lambda>x. rbind (sem b) (\<lambda>y. Inr (oper x y)))"
  shows "evaluates Open {n} (\<lambda>st. if m_filter_map st (node_addr n) \<noteq> None then Inr st
     else rbind (rbind (V (enter_filter (node_addr n) st)) W)
       (\<lambda>st. Inr (combine_filters oper (node_addr n) (node_addr a) (node_addr b) st)))"
  unfolding evaluates_def
proof (intro allI impI)
  fix st assume st: "fm_ok Open st"
  define st0 where "st0 = enter_filter (node_addr n) st"
  have st0: "fm_ok (insert n Open) st0" "dom (m_filter_map st) \<subseteq> dom (m_filter_map st0)"
    using fm_ok_enter [OF n(1) st] by (auto simp: st0_def enter_filter_def)
  note seq = evaluatesD [OF evaluates_seq [OF V] st0(1)]
  let ?r = "if m_filter_map st (node_addr n) \<noteq> None then Inr st
     else rbind (rbind (V st0) W) (\<lambda>st. Inr (combine_filters oper (node_addr n) (node_addr a) (node_addr b) st))"
  show "case ?r of Inl e \<Rightarrow> \<exists>m \<in> {n}. sem m = Inl e
      | Inr st' \<Rightarrow> fm_ok Open st' \<and> dom (m_filter_map st) \<union> node_addr ` {n} \<subseteq> dom (m_filter_map st')"
  proof (cases "m_filter_map st (node_addr n)")
    case (Some g)
    then show ?thesis using st by auto
  next
    case None
    show ?thesis
    proof (cases "rbind (V st0) W")
      case (Inl e)
      obtain va where "V st0 = Inl e \<or> (\<exists>st1. V st0 = Inr st1 \<and> W st1 = Inl e \<and> va = st1)"
        using Inl by (cases "V st0") auto
      then have "sem a = Inl e \<or> (\<exists>x. sem a = Inr x) \<and> sem b = Inl e"
      proof (elim disjE exE conjE)
        assume "V st0 = Inl e"
        then show ?thesis using evaluatesD(1) [OF V(1) st0(1)] by auto
      next
        fix st1 assume st1: "V st0 = Inr st1" "W st1 = Inl e"
        note ok = evaluatesD(2) [OF V(1) st0(1) st1(1)]
        then have "sem a = Inr (the (m_filter_map st1 (node_addr a)))" using n by (intro fm_ok_entry) auto
        then show ?thesis using evaluatesD(1) [OF V(2), of st1] ok st1(2) by auto
      qed
      then show ?thesis using None Inl by (auto simp: sem)
    next
      case (Inr st2)
      note ok = seq(2) [OF Inr]
      have "sem a = Inr (the (m_filter_map st2 (node_addr a)))" "sem b = Inr (the (m_filter_map st2 (node_addr b)))"
        using ok n by (auto intro!: fm_ok_entry [of "insert n Open"])
      then have "sem n = Inr (oper (the (m_filter_map st2 (node_addr a))) (the (m_filter_map st2 (node_addr b))))"
        by (simp add: sem)
      then have "fm_ok Open (combine_filters oper (node_addr n) (node_addr a) (node_addr b) st2)"
        unfolding combine_filters_def using ok n(1) by (intro fm_ok_assign) auto
      moreover have "dom (m_filter_map (combine_filters oper (node_addr n) (node_addr a) (node_addr b) st2))
          = insert (node_addr n) (dom (m_filter_map st2))"
        by (simp add: combine_filters_def assign_filter_def)
      moreover have "dom (m_filter_map st) \<subseteq> dom (m_filter_map st2)" using ok st0(2) by blast
      moreover have "?r = Inr (combine_filters oper (node_addr n) (node_addr a) (node_addr b) st2)" using None Inr by auto
      ultimately show ?thesis by (simp add: subset_insertI2)
    qed
  qed
qed

lemma evaluates_function:
  assumes n: "n = Filter_Function p ty v s" "n \<in> X"
  shows "evaluates Open {n} (visit_Filter_Function env p ty v s)"
  unfolding evaluates_def
proof (intro allI impI)
  fix st assume st: "fm_ok Open st"
  have gf: "m_gf (enter_filter p st) = gf" "m_gf st = gf" using st by (simp_all add: fm_ok_def enter_filter_def)
  show "case visit_Filter_Function env p ty v s st of Inl e \<Rightarrow> \<exists>m \<in> {n}. sem m = Inl e
      | Inr st' \<Rightarrow> fm_ok Open st' \<and> dom (m_filter_map st) \<union> node_addr ` {n} \<subseteq> dom (m_filter_map st')"
  proof (cases "m_filter_map st p")
    case (Some g)
    then show ?thesis using st n by (auto simp: visit_Filter_Function_def)
  next
    case None
    show ?thesis
    proof (cases "filter_function_sets (config_main env) gf (m_cfg env) ty v s")
      case (Inl e)
      then show ?thesis using None n by (simp add: visit_Filter_Function_def gf Let_def)
    next
      case (Inr c)
      define g where "g = set_I (snd c) (set_E (fst c) cfa_empty)"
      have "sem n = Inr g" using Inr n by (simp add: g_def split_beta)
      then have "fm_ok Open (assign_filter p g (enter_filter p st))"
        using fm_ok_assign [OF n(2) fm_ok_enter [OF n(2) st], of g] n(1) by simp
      then show ?thesis using None Inr n
        by (auto simp: visit_Filter_Function_def gf Let_def split_beta g_def assign_filter_def enter_filter_def)
    qed
  qed
qed

lemma evaluates_operator:
  assumes X: "filter_nodes n \<subseteq> X" "filter_nodes n = insert n (filter_nodes a \<union> filter_nodes b)"
    and size: "\<forall>m\<in>Open. size n < size m" "size a < size n" "size b < size n"
    and a: "\<And>Open. \<lbrakk>filter_nodes a \<subseteq> X; \<forall>m\<in>Open. size a < size m\<rbrakk> \<Longrightarrow> evaluates Open {a} (visit env a)"
    and b: "\<And>Open. \<lbrakk>filter_nodes b \<subseteq> X; \<forall>m\<in>Open. size b < size m\<rbrakk> \<Longrightarrow> evaluates Open {b} (visit env b)"
    and sem: "sem n = rbind (sem a) (\<lambda>x. rbind (sem b) (\<lambda>y. Inr (oper x y)))"
    and eq: "\<And>st. visit env n st = (if m_filter_map st (node_addr n) \<noteq> None then Inr st
     else rbind (rbind (visit env a (enter_filter (node_addr n) st)) (visit env b))
       (\<lambda>st. Inr (combine_filters oper (node_addr n) (node_addr a) (node_addr b) st)))"
  shows "evaluates Open {n} (visit env n)"
proof -
  have "a \<in> X" "b \<in> X" "n \<in> X" using X self_in_filter_nodes by auto
  moreover have "a \<notin> insert n Open" "b \<notin> insert n Open" using size by auto
  moreover have "evaluates (insert n Open) {a} (visit env a)" "evaluates (insert n Open) {b} (visit env b)"
    by (intro a b; use X size in fastforce)+
  ultimately show ?thesis
    unfolding eq [abs_def] by (intro evaluates_binary sem) auto
qed

lemma evaluates_filter:
  "\<lbrakk>is_filter n; well_typed n; filter_nodes n \<subseteq> X; \<forall>m\<in>Open. size n < size m\<rbrakk> \<Longrightarrow> evaluates Open {n} (visit env n)"
proof (induction n arbitrary: Open)
  case (Filter_Function p ty v s)
  then show ?case using evaluates_function [OF refl, of p ty v s Open] by (simp add: evaluates_def)
next
  case (Filter_Union p a b)
  show ?case by (rule evaluates_operator [where oper = setunion and a = a and b = b]) (use Filter_Union in simp_all)
next
  case (Filter_Intersection p a b)
  show ?case by (rule evaluates_operator [where oper = setintersection and a = a and b = b]) (use Filter_Intersection in simp_all)
next
  case (Filter_Setminus p a b)
  show ?case by (rule evaluates_operator [where oper = setsubtract and a = a and b = b]) (use Filter_Setminus in simp_all)
next
  case (Filter_Compose p a b)
  show ?case by (rule evaluates_operator [where oper = compose_graphs and a = a and b = b]) (use Filter_Compose in simp_all)
qed (simp_all add: is_filter_def)

lemma evaluates_cong: "evaluates Open N V \<Longrightarrow> (\<And>st. W st = V st) \<Longrightarrow> evaluates Open N W"
  by (simp add: evaluates_def)

lemma evaluates_pattern:
  "\<lbrakk>well_typed n; is_cp n \<or> is_pp n; predicate_free n; \<forall>f\<in>top_filters n. filter_nodes f \<subseteq> X\<rbrakk>
    \<Longrightarrow> evaluates {} (top_filters n) (visit env n)"
proof (induction n)
  case (CP_Alternative p a b)
  then have "evaluates {} (top_filters a \<union> top_filters b) (\<lambda>st. rbind (visit env a st) (visit env b))"
    by (intro evaluates_seq) auto
  then show ?case by (simp add: evaluates_def)
next
  case (CP_Concat p a b)
  then have "evaluates {} (top_filters a \<union> top_filters b) (\<lambda>st. rbind (visit env a st) (visit env b))"
    by (intro evaluates_seq) auto
  then show ?case by (simp add: evaluates_def)
next
  case (PP_Alternative p a b)
  then have "evaluates {} (top_filters a \<union> top_filters b) (\<lambda>st. rbind (visit env a st) (visit env b))"
    by (intro evaluates_seq) auto
  then show ?case by (simp add: evaluates_def)
next
  case (PP_Concat p a b)
  then have "evaluates {} (top_filters a \<union> top_filters b) (\<lambda>st. rbind (visit env a st) (visit env b))"
    by (intro evaluates_seq) auto
  then show ?case by (simp add: evaluates_def)
next
  case (Depcov p a b c)
  then have "evaluates {} (({a} \<union> {b}) \<union> {c}) (\<lambda>st. rbind (rbind (visit env a st) (visit env b)) (visit env c))"
    by (intro evaluates_seq evaluates_filter) auto
  then show ?case by (simp add: evaluates_def insert_commute)
next
  case (Edgecov p f)
  then have "evaluates {} {f} (visit env f)" by (intro evaluates_filter) auto
  then show ?case by (simp add: evaluates_def)
next
  case (Nodecov p f)
  then have "evaluates {} {f} (visit env f)" by (intro evaluates_filter) auto
  then show ?case by (simp add: evaluates_def)
next
  case (Pathcov p f k)
  then have "evaluates {} {f} (visit env f)" by (intro evaluates_filter) auto
  then show ?case by (simp add: evaluates_def)
next
  case (Quote p q)
  then have "evaluates {} (top_filters q) (visit env q)" by auto
  then show ?case by (simp add: evaluates_def)
next
  case (Repeat p q l u)
  then have "evaluates {} (top_filters q) (visit env q)" by auto
  then show ?case by (simp add: evaluates_def)
qed (auto simp: is_defs)

lemma evaluates_query:
  assumes q: "well_typed (Query p None c (Some y))" "predicate_free c" "predicate_free y"
    and X: "\<forall>f\<in>insert (id_filter env) (top_filters c \<union> top_filters y). filter_nodes f \<subseteq> X"
    and id: "id_filter env = Filter_Function r F_IDENTITY v s"
  shows "case do_query env gf (Query p None c (Some y)) of
      Inl e \<Rightarrow> \<exists>f \<in> insert (id_filter env) (top_filters c \<union> top_filters y). sem f = Inl e
    | Inr st \<Rightarrow> \<forall>f \<in> insert (id_filter env) (top_filters c \<union> top_filters y).
        \<exists>g. m_filter_map st (node_addr f) = Some g \<and> sem f = Inr g"
proof -
  let ?st = "\<lparr>m_gf = gf, m_filter_map = Map.empty, m_predicate_map = Map.empty\<rparr>"
  let ?V = "\<lambda>st. rbind (visit env (id_filter env) st) (\<lambda>st. rbind (visit env c st) (visit env y))"
  have "evaluates {} {id_filter env} (visit env (id_filter env))"
    using X by (intro evaluates_filter) (auto simp: id is_filter_def)
  then have ev: "evaluates {} ({id_filter env} \<union> (top_filters c \<union> top_filters y)) ?V"
    using q X by (intro evaluates_seq evaluates_pattern) auto
  have eq: "do_query env gf (Query p None c (Some y)) = ?V ?st"
    unfolding do_query_def by (rule arg_cong [where f = "rbind _"]) (rule ext, simp)
  have st: "fm_ok {} ?st" by (simp add: fm_ok_def)
  show ?thesis
  proof (cases "?V ?st")
    case (Inl e)
    then show ?thesis using evaluatesD(1) [OF ev st Inl] by (simp add: eq)
  next
    case (Inr st')
    note ok = evaluatesD(2) [OF ev st Inr]
    have "\<exists>g. m_filter_map st' (node_addr f) = Some g \<and> sem f = Inr g"
      if f: "f \<in> insert (id_filter env) (top_filters c \<union> top_filters y)" for f
    proof -
      have "f \<in> X" using f X self_in_filter_nodes by blast
      moreover have "node_addr f \<in> dom (m_filter_map st')" using ok f by auto
      ultimately show ?thesis using ok by (auto simp: fm_ok_def)
    qed
    then show ?thesis by (simp add: eq Inr)
  qed
qed

end

text \<open>
  The locale holds for every set of nodes; a set in which an address stands for two nodes, which
  the factories exclude, is replaced by the empty set.
\<close>

definition unique_nodes :: "'e fql_node set \<Rightarrow> 'e fql_node set" where
  "unique_nodes X = (if inj_on node_addr X then X else {})"

interpretation filters: filter_evaluation env gf "unique_nodes X" for env gf X
  by standard (simp add: unique_nodes_def)

lemma do_query_filters:
  assumes "goto_wf gf" "m_cfg env = compute_edges gf"
    and "well_typed (Query p None c (Some y))" "predicate_free (Query p None c (Some y))"
    and "id_filter env = Filter_Function r F_IDENTITY v s"
    and "inj_on node_addr (\<Union>f \<in> insert (id_filter env) (top_filters (Query p None c (Some y))). filter_nodes f)"
  shows "case do_query env gf (Query p None c (Some y)) of
      Inl e \<Rightarrow> e = Query_Processing_Error
        \<and> (\<exists>f \<in> top_filters (Query p None c (Some y)). needs_unavailable gf f)
    | Inr st \<Rightarrow> \<forall>f \<in> insert (id_filter env) (top_filters (Query p None c (Some y))).
        \<not> needs_unavailable gf f \<and> (\<exists>g. m_filter_map st (node_addr f) = Some g \<and> cfa_inv g
          \<and> set (m_edges g) = filter_edges gf (compute_edges gf) f)"
proof -
  let ?tops = "insert (id_filter env) (top_filters c \<union> top_filters y)"
  let ?X = "\<Union>f \<in> ?tops. filter_nodes f"
  have X: "unique_nodes ?X = ?X" using assms(6) by (simp add: unique_nodes_def)
  have sem: "case filter_sem (config_main env) gf (m_cfg env) f of
      Inl e \<Rightarrow> e = Query_Processing_Error \<and> needs_unavailable gf f
    | Inr g \<Rightarrow> \<not> needs_unavailable gf f \<and> cfa_inv g \<and> set (m_edges g) = filter_edges gf (compute_edges gf) f"
    if "f \<in> ?tops" for f
  proof -
    have "node_class c \<noteq> C_Query" "node_class y \<noteq> C_Query" using assms(3) by (auto dest: pattern_not_query)
    then have "is_filter f \<and> well_typed f"
      using that assms(3,5) top_filters_typed [of c f] top_filters_typed [of y f] by (auto simp: is_filter_def)
    then show ?thesis
      using filter_sem_correct [OF assms(1) program_covered_cfg [OF assms(1)], of f "config_main env"] assms(2) by simp
  qed
  have id: "\<not> needs_unavailable gf (id_filter env)" by (simp add: assms(5) unavailable_def)
  have run: "case do_query env gf (Query p None c (Some y)) of
      Inl e \<Rightarrow> \<exists>f \<in> ?tops. filter_sem (config_main env) gf (m_cfg env) f = Inl e
    | Inr st \<Rightarrow> \<forall>f \<in> ?tops. \<exists>g. m_filter_map st (node_addr f) = Some g \<and> filter_sem (config_main env) gf (m_cfg env) f = Inr g"
    by (rule filters.evaluates_query [where X = ?X and s = s and v = v and r = r, unfolded X])
       (use assms(3-5) in auto)
  show ?thesis
  proof (cases "do_query env gf (Query p None c (Some y))")
    case (Inl e)
    then obtain f where f: "f \<in> ?tops" "filter_sem (config_main env) gf (m_cfg env) f = Inl e" using run by auto
    then have "e = Query_Processing_Error" "needs_unavailable gf f" using sem [OF f(1)] by simp_all
    moreover have "f \<in> top_filters c \<union> top_filters y" using f(1) id \<open>needs_unavailable gf f\<close> by blast
    ultimately show ?thesis by (simp only: Inl sum.case top_filters.simps) blast
  next
    case (Inr st)
    have "\<not> needs_unavailable gf f \<and> (\<exists>g. m_filter_map st (node_addr f) = Some g \<and> cfa_inv g
          \<and> set (m_edges g) = filter_edges gf (compute_edges gf) f)" if f: "f \<in> ?tops" for f
    proof -
      obtain g where "m_filter_map st (node_addr f) = Some g" "filter_sem (config_main env) gf (m_cfg env) f = Inr g"
        using run Inr f by auto
      then show ?thesis using sem [OF f] by simp
    qed
    then show ?thesis by (simp only: Inr sum.case top_filters.simps) blast
  qed
qed

section \<open>Properties\<close>




text \<open>The query \<open>COVER EDGES(SETMINUS(ID, @DEF(x))) PASSING EDGES(ID)*\<close> on the sample program.\<close>

definition sample_id :: "int fql_node" where
  "sample_id = Filter_Function 1 F_IDENTITY (- 1) []"

definition sample_cover :: "int fql_node" where
  "sample_cover = Edgecov 4 (Filter_Setminus 3 sample_id (Filter_Function 2 F_DEF (- 1) ''x''))"

definition sample_query_passing :: "int fql_node" where
  "sample_query_passing = Repeat 6 (Edgecov 5 sample_id) 0 (- 1)"

definition sample_filter_env :: "int filter_env" where
  "sample_filter_env = \<lparr>config_main = ''main'', m_cfg = compute_edges sample_program, id_filter = sample_id,
     insert_predicate = (\<lambda>e p nodes gf. Inr (gf, []))\<rparr>"


end
