(* ===== verification/Sat_Interface.thy ===== *)
theory Sat_Interface
  imports Fshell_Prelude
begin

text \<open>
  The propositional layer below test generation. The clause lists, bit-vector utilities and
  solvers are CBMC's (\<open>cnf_clause_list_assignmentt\<close>, \<open>bv_utilst\<close>,
  \<open>satcheckt\<close>); they are a record of operations that the test generation takes as an
  argument, and the locale \<open>sat_library\<close> states what their users rely on.

  A literal is an element of an arbitrary type, an assignment a function from variable numbers to
  truth values; bit-vectors are lists of literals, least significant bit first. The locale is
  interpreted on propositional formulas with a ripple-carry adder and a solver that tries all
  assignments.
\<close>

section \<open>Bit-vectors\<close>

primrec bits_value :: "bool list \<Rightarrow> nat" where
  "bits_value [] = 0"
| "bits_value (b # bs) = of_bool b + 2 * bits_value bs"

lemma bits_value_less: "bits_value bs < 2 ^ length bs"
  by (induction bs) auto

lemma bits_value_append_False: "bits_value (bs @ replicate n False) = bits_value bs"
  by (induction bs; induction n) auto

lemma bits_value_inject: "length as = length bs \<Longrightarrow> bits_value as = bits_value bs \<longleftrightarrow> as = bs"
proof (induction as bs rule: list_induct2)
  case (Cons a as b bs)
  have "of_bool a + 2 * m = of_bool b + 2 * n \<longleftrightarrow> a = b \<and> m = n" for m n :: nat
    by (cases a; cases b) (auto; presburger)+
  then show ?case using Cons by simp
qed simp

section \<open>The library\<close>

type_synonym assignment = "nat \<Rightarrow> bool"

record 'l sat_lib =
  lit_var :: "nat \<Rightarrow> 'l"
  lit_invert :: "'l \<Rightarrow> 'l"
  lit_or :: "'l \<Rightarrow> 'l \<Rightarrow> 'l"
  lit_and :: "'l \<Rightarrow> 'l \<Rightarrow> 'l"
  lits_or :: "'l list \<Rightarrow> 'l"
  lit_const :: "bool \<Rightarrow> 'l"
  lit_is_true :: "'l \<Rightarrow> bool"
  lit_is_false :: "'l \<Rightarrow> bool"
  lit_value :: "assignment \<Rightarrow> 'l \<Rightarrow> bool"
  bv_zero_extension :: "'l list \<Rightarrow> nat \<Rightarrow> 'l list"
  bv_add :: "'l list \<Rightarrow> 'l list \<Rightarrow> 'l list"
  bv_less :: "'l list \<Rightarrow> 'l list \<Rightarrow> 'l"
  bv_equal :: "'l list \<Rightarrow> 'l list \<Rightarrow> 'l"
  build_constant :: "nat \<Rightarrow> nat \<Rightarrow> bool list"
  prop_solve :: "'l list list \<Rightarrow> 'l list \<Rightarrow> assignment option"

abbreviation lit_is_constant :: "'l sat_lib \<Rightarrow> 'l \<Rightarrow> bool" where
  "lit_is_constant L l \<equiv> lit_is_true L l \<or> lit_is_false L l"

definition bv_value :: "'l sat_lib \<Rightarrow> assignment \<Rightarrow> 'l list \<Rightarrow> nat" where
  "bv_value L \<alpha> bv = bits_value (map (lit_value L \<alpha>) bv)"

definition clauses_hold :: "'l sat_lib \<Rightarrow> assignment \<Rightarrow> 'l list list \<Rightarrow> bool" where
  "clauses_hold L \<alpha> cs \<longleftrightarrow> list_all (list_ex (lit_value L \<alpha>)) cs"

definition literals_hold :: "'l sat_lib \<Rightarrow> assignment \<Rightarrow> 'l list \<Rightarrow> bool" where
  "literals_hold L \<alpha> ls \<longleftrightarrow> list_all (lit_value L \<alpha>) ls"

lemma clauses_hold_simps [simp]:
  "clauses_hold L \<alpha> []" "clauses_hold L \<alpha> (c # cs) \<longleftrightarrow> list_ex (lit_value L \<alpha>) c \<and> clauses_hold L \<alpha> cs"
  "clauses_hold L \<alpha> (cs @ ds) \<longleftrightarrow> clauses_hold L \<alpha> cs \<and> clauses_hold L \<alpha> ds"
  by (simp_all add: clauses_hold_def)

locale sat_library =
  fixes L :: "'l sat_lib"
  assumes value_var [simp]: "lit_value L \<alpha> (lit_var L v) = \<alpha> v"
    and value_invert [simp]: "lit_value L \<alpha> (lit_invert L l) \<longleftrightarrow> \<not> lit_value L \<alpha> l"
    and value_or [simp]: "lit_value L \<alpha> (lit_or L l k) \<longleftrightarrow> lit_value L \<alpha> l \<or> lit_value L \<alpha> k"
    and value_and [simp]: "lit_value L \<alpha> (lit_and L l k) \<longleftrightarrow> lit_value L \<alpha> l \<and> lit_value L \<alpha> k"
    and value_lits_or [simp]: "lit_value L \<alpha> (lits_or L ls) \<longleftrightarrow> (\<exists>l \<in> set ls. lit_value L \<alpha> l)"
    and value_const [simp]: "lit_value L \<alpha> (lit_const L c) = c"
    and value_is_true: "lit_is_true L l \<Longrightarrow> lit_value L \<alpha> l"
    and value_is_false: "lit_is_false L l \<Longrightarrow> \<not> lit_value L \<alpha> l"
    and const_is_false [simp]: "lit_is_false L (lit_const L False)"
    and length_zero_extension [simp]: "length (bv_zero_extension L bv w) = w"
    and value_zero_extension: "length bv \<le> w \<Longrightarrow> bv_value L \<alpha> (bv_zero_extension L bv w) = bv_value L \<alpha> bv"
    and length_add: "length a = length b \<Longrightarrow> length (bv_add L a b) = length a"
    and value_add: "length a = length b \<Longrightarrow>
      bv_value L \<alpha> (bv_add L a b) = (bv_value L \<alpha> a + bv_value L \<alpha> b) mod 2 ^ length a"
    and value_less: "length a = length b \<Longrightarrow> lit_value L \<alpha> (bv_less L a b) \<longleftrightarrow> bv_value L \<alpha> a < bv_value L \<alpha> b"
    and value_equal: "length a = length b \<Longrightarrow> lit_value L \<alpha> (bv_equal L a b) \<longleftrightarrow> map (lit_value L \<alpha>) a = map (lit_value L \<alpha>) b"
    and length_constant [simp]: "length (build_constant L n w) = w"
    and value_constant: "bits_value (build_constant L n w) = n mod 2 ^ w"
    and solve_sound: "prop_solve L cs as = Some \<alpha> \<Longrightarrow> clauses_hold L \<alpha> cs \<and> literals_hold L \<alpha> as"
    and solve_complete: "prop_solve L cs as = None \<Longrightarrow> \<not> (clauses_hold L \<alpha> cs \<and> literals_hold L \<alpha> as)"
begin

lemma bv_value_less: "bv_value L \<alpha> bv < 2 ^ length bv"
  using bits_value_less [of "map (lit_value L \<alpha>) bv"] by (simp add: bv_value_def)

text \<open>Sums in one more bit do not overflow.\<close>

lemma value_extended_add:
  assumes "length a = w" "length b = w"
  shows "bv_value L \<alpha> (bv_add L (bv_zero_extension L a (Suc w)) (bv_zero_extension L b (Suc w)))
    = bv_value L \<alpha> a + bv_value L \<alpha> b"
proof -
  have "bv_value L \<alpha> a + bv_value L \<alpha> b < 2 ^ Suc w"
    using bv_value_less [of \<alpha> a] bv_value_less [of \<alpha> b] assms by simp
  then show ?thesis using assms by (simp add: value_add value_zero_extension)
qed

end

section \<open>An instance\<close>

datatype formula = P_Var nat | P_False | P_Not formula | P_And formula formula | P_Or formula formula

primrec p_eval :: "assignment \<Rightarrow> formula \<Rightarrow> bool" where
  "p_eval \<alpha> (P_Var v) = \<alpha> v"
| "p_eval \<alpha> P_False = False"
| "p_eval \<alpha> (P_Not f) = (\<not> p_eval \<alpha> f)"
| "p_eval \<alpha> (P_And f g) = (p_eval \<alpha> f \<and> p_eval \<alpha> g)"
| "p_eval \<alpha> (P_Or f g) = (p_eval \<alpha> f \<or> p_eval \<alpha> g)"

primrec p_vars :: "formula \<Rightarrow> nat list" where
  "p_vars (P_Var v) = [v]"
| "p_vars P_False = []"
| "p_vars (P_Not f) = p_vars f"
| "p_vars (P_And f g) = List.union (p_vars f) (p_vars g)"
| "p_vars (P_Or f g) = List.union (p_vars f) (p_vars g)"

abbreviation p_xor :: "formula \<Rightarrow> formula \<Rightarrow> formula" where
  "p_xor f g \<equiv> P_And (P_Or f g) (P_Not (P_And f g))"

fun p_add :: "formula \<Rightarrow> formula list \<Rightarrow> formula list \<Rightarrow> formula list" where
  "p_add c (a # as) (b # bs) = p_xor (p_xor a b) c # p_add (P_Or (P_And a b) (P_And c (P_Or a b))) as bs"
| "p_add c as bs = []"

fun p_less :: "formula \<Rightarrow> formula list \<Rightarrow> formula list \<Rightarrow> formula" where
  "p_less c (a # as) (b # bs) = p_less (P_Or (P_And (P_Not a) b) (P_And c (P_Not (p_xor a b)))) as bs"
| "p_less c as bs = c"

fun p_equal :: "formula list \<Rightarrow> formula list \<Rightarrow> formula" where
  "p_equal (a # as) (b # bs) = P_And (P_Not (p_xor a b)) (p_equal as bs)"
| "p_equal as bs = P_Not P_False"

definition p_zero_extension :: "formula list \<Rightarrow> nat \<Rightarrow> formula list" where
  "p_zero_extension bv w = take w (bv @ replicate (w - length bv) P_False)"

primrec p_constant :: "nat \<Rightarrow> nat \<Rightarrow> bool list" where
  "p_constant n 0 = []"
| "p_constant n (Suc w) = (n mod 2 = 1) # p_constant (n div 2) w"

definition p_solve :: "formula list list \<Rightarrow> formula list \<Rightarrow> assignment option" where
  "p_solve cs as =
    find (\<lambda>\<alpha>. list_all (list_ex (p_eval \<alpha>)) cs \<and> list_all (p_eval \<alpha>) as)
      (map (\<lambda>vs v. v \<in> set vs) (subseqs (fold List.union (map p_vars (concat cs @ as)) [])))"

definition formula_lib :: "formula sat_lib" where
  "formula_lib = \<lparr>lit_var = P_Var, lit_invert = P_Not, lit_or = P_Or, lit_and = P_And,
     lits_or = (\<lambda>ls. foldr P_Or ls P_False), lit_const = (\<lambda>b. if b then P_Not P_False else P_False),
     lit_is_true = (\<lambda>f. f = P_Not P_False), lit_is_false = (\<lambda>f. f = P_False), lit_value = p_eval,
     bv_zero_extension = p_zero_extension, bv_add = p_add P_False, bv_less = p_less P_False, bv_equal = p_equal,
     build_constant = p_constant, prop_solve = p_solve\<rparr>"

lemma length_p_add: "length as = length bs \<Longrightarrow> length (p_add c as bs) = length as"
  by (induction c as bs rule: p_add.induct) auto

lemma value_p_add:
  "length as = length bs \<Longrightarrow> bits_value (map (p_eval \<alpha>) (p_add c as bs))
    = (bits_value (map (p_eval \<alpha>) as) + bits_value (map (p_eval \<alpha>) bs) + of_bool (p_eval \<alpha> c)) mod 2 ^ length as"
proof (induction c as bs rule: p_add.induct)
  case (1 c a as b bs)
  let ?A = "bits_value (map (p_eval \<alpha>) as)" and ?B = "bits_value (map (p_eval \<alpha>) bs)"
  have half: "(of_bool s + 2 * (x mod 2 ^ k)) = (of_bool s + 2 * x) mod 2 ^ Suc k" for s k and x :: nat
    using mod_mult2_eq [of "of_bool s + 2 * x" 2 "2 ^ k"] by (cases s) (simp_all add: add.commute)
  have sum: "of_bool ((x \<noteq> y) \<noteq> z) + 2 * (m + n + of_bool (x \<and> y \<or> z \<and> (x \<or> y)))
      = of_bool x + 2 * m + (of_bool y + 2 * n) + of_bool z" for x y z and m n :: nat
    by (cases x; cases y; cases z) simp_all
  have "length as = length bs" using 1(2) by simp
  note IH = 1(1) [OF this]
  have "bits_value (map (p_eval \<alpha>) (p_add c (a # as) (b # bs)))
      = of_bool ((p_eval \<alpha> a \<noteq> p_eval \<alpha> b) \<noteq> p_eval \<alpha> c)
        + 2 * ((?A + ?B + of_bool (p_eval \<alpha> a \<and> p_eval \<alpha> b \<or> p_eval \<alpha> c \<and> (p_eval \<alpha> a \<or> p_eval \<alpha> b))) mod 2 ^ length as)"
    using IH by (auto simp: of_bool_def)
  then show ?case unfolding half sum by (simp add: add.assoc add.left_commute)
qed simp_all

lemma value_p_less:
  "length as = length bs \<Longrightarrow> p_eval \<alpha> (p_less c as bs) \<longleftrightarrow>
    bits_value (map (p_eval \<alpha>) as) < bits_value (map (p_eval \<alpha>) bs)
    \<or> bits_value (map (p_eval \<alpha>) as) = bits_value (map (p_eval \<alpha>) bs) \<and> p_eval \<alpha> c"
proof (induction c as bs rule: p_less.induct)
  case (1 c a as b bs)
  then have IH: "p_eval \<alpha> (p_less c (a # as) (b # bs)) \<longleftrightarrow>
      bits_value (map (p_eval \<alpha>) as) < bits_value (map (p_eval \<alpha>) bs)
      \<or> bits_value (map (p_eval \<alpha>) as) = bits_value (map (p_eval \<alpha>) bs)
        \<and> (\<not> p_eval \<alpha> a \<and> p_eval \<alpha> b \<or> p_eval \<alpha> c \<and> (p_eval \<alpha> a \<longleftrightarrow> p_eval \<alpha> b))" by auto
  have "(m < n \<or> m = n \<and> (\<not> x \<and> y \<or> z \<and> (x \<longleftrightarrow> y)))
      \<longleftrightarrow> of_bool x + 2 * m < of_bool y + 2 * n \<or> of_bool x + 2 * m = of_bool y + 2 * n \<and> z" for x y z and m n :: nat
    by (cases x; cases y; cases z; simp; arith?)
  then show ?case unfolding IH by simp
qed simp_all

lemma value_p_equal:
  "length as = length bs \<Longrightarrow> p_eval \<alpha> (p_equal as bs) \<longleftrightarrow> map (p_eval \<alpha>) as = map (p_eval \<alpha>) bs"
  by (induction as bs rule: p_equal.induct) auto

lemma p_eval_disjunction: "p_eval \<alpha> (foldr P_Or fs P_False) \<longleftrightarrow> (\<exists>f \<in> set fs. p_eval \<alpha> f)"
  by (induction fs) auto

lemma p_eval_cong: "(\<And>v. v \<in> set (p_vars f) \<Longrightarrow> \<alpha> v = \<beta> v) \<Longrightarrow> p_eval \<alpha> f = p_eval \<beta> f"
  by (induction f) auto

lemma set_fold_union: "set (fold List.union xss ys) = \<Union> (set ` set xss) \<union> set ys"
  by (induction xss arbitrary: ys) auto

lemma p_solve_complete:
  assumes "list_all (list_ex (p_eval \<alpha>)) cs" "list_all (p_eval \<alpha>) as"
  shows "p_solve cs as \<noteq> None"
proof -
  define vs where "vs = fold List.union (map p_vars (concat cs @ as)) []"
  define \<beta> where "\<beta> = (\<lambda>v. v \<in> set (filter \<alpha> vs))"
  have vs: "set vs = (\<Union>f\<in>set (concat cs @ as). set (p_vars f))" by (auto simp: vs_def set_fold_union)
  have eq: "p_eval \<beta> f = p_eval \<alpha> f" if "f \<in> set (concat cs @ as)" for f
    using that by (intro p_eval_cong) (auto simp: \<beta>_def vs)
  then have "list_all (list_ex (p_eval \<beta>)) cs \<and> list_all (p_eval \<beta>) as"
    using assms by (auto simp: list_all_iff list_ex_iff) blast
  moreover have "\<beta> \<in> set (map (\<lambda>vs v. v \<in> set vs) (subseqs vs))"
  proof -
    have "filter \<alpha> vs \<in> set (subseqs vs)" by simp
    then show ?thesis unfolding \<beta>_def set_map by (rule imageI)
  qed
  ultimately show ?thesis unfolding p_solve_def vs_def [symmetric] find_None_iff by blast
qed

lemma p_solve_sound:
  "p_solve cs as = Some \<alpha> \<Longrightarrow> list_all (list_ex (p_eval \<alpha>)) cs \<and> list_all (p_eval \<alpha>) as"
  unfolding p_solve_def find_Some_iff by blast

lemma bits_value_p_constant: "length (p_constant n w) = w" "bits_value (p_constant n w) = n mod 2 ^ w"
proof (induction w arbitrary: n)
  case (Suc w)
  { case 1 show ?case using Suc by simp }
  { case 2
    have "n mod 2 + 2 * (n div 2 mod 2 ^ w) = n mod 2 ^ Suc w"
      by (simp add: mod_mult2_eq add.commute)
    moreover have "of_bool (n mod 2 = 1) = n mod 2" by (cases "n mod 2 = 1") auto
    ultimately show ?case using Suc(2) [of "n div 2"] by simp }
qed simp_all

interpretation formula: sat_library formula_lib
proof
  show "length (bv_zero_extension formula_lib bv w) = w" for bv w
    by (simp add: formula_lib_def p_zero_extension_def)
  show "bv_value formula_lib \<alpha> (bv_zero_extension formula_lib bv w) = bv_value formula_lib \<alpha> bv" if "length bv \<le> w" for \<alpha> bv w
    using that by (simp add: formula_lib_def bv_value_def p_zero_extension_def bits_value_append_False)
  show "bv_value formula_lib \<alpha> (bv_add formula_lib a b) = (bv_value formula_lib \<alpha> a + bv_value formula_lib \<alpha> b) mod 2 ^ length a"
    if "length a = length b" for \<alpha> a b
    using value_p_add [OF that, of \<alpha> P_False] by (simp add: formula_lib_def bv_value_def)
  show "lit_value formula_lib \<alpha> (bv_less formula_lib a b) \<longleftrightarrow> bv_value formula_lib \<alpha> a < bv_value formula_lib \<alpha> b"
    if "length a = length b" for \<alpha> a b
    using value_p_less [OF that, of \<alpha> P_False] by (simp add: formula_lib_def bv_value_def)
  show "clauses_hold formula_lib \<alpha> cs \<and> literals_hold formula_lib \<alpha> as" if "prop_solve formula_lib cs as = Some \<alpha>" for cs as \<alpha>
    using p_solve_sound [of cs as \<alpha>] that by (simp add: formula_lib_def clauses_hold_def literals_hold_def)
  show "\<not> (clauses_hold formula_lib \<alpha> cs \<and> literals_hold formula_lib \<alpha> as)" if "prop_solve formula_lib cs as = None" for cs as \<alpha>
    using p_solve_complete [of \<alpha> cs as] that by (auto simp: formula_lib_def clauses_hold_def literals_hold_def)
qed (simp_all add: formula_lib_def length_p_add bits_value_p_constant value_p_equal p_eval_disjunction)

end
