(* ===== verification/Test_Suite_Minimization.thy ===== *)
theory Test_Suite_Minimization
  imports Sat_Interface
begin

text \<open>
  Minimization of a test suite (\<open>src/fshell2/tc_generation/test_suite_minimization.cpp\<close>).

  The number of kept test cases is minimized under the constraint that all test goals stay
  covered: one variable per test case, one literal per test goal, a fan-in adder over the
  variables, and a solver loop that lowers an upper bound on the sum. Variables are numbered by
  the calls of \<open>new_variable\<close>; gates are inside the literals of the library.

  The loop is a partial function: \<open>None\<close> stands for a loop that does not end. Shown are the
  exactness and the width of the adder, and that minimization returns a smallest suite.
\<close>

section \<open>The encoding\<close>

type_synonym 'c test_suite = "(nat list \<times> 'c) list"

text \<open>One entry of the ordered map from test goals to literals.\<close>

fun cover_goal :: "'l sat_lib \<Rightarrow> 'l \<Rightarrow> nat \<Rightarrow> (nat \<times> 'l) list \<Rightarrow> (nat \<times> 'l) list" where
  "cover_goal L tc_var g [] = [(g, tc_var)]"
| "cover_goal L tc_var g ((k, l) # m) =
     (if k < g then (k, l) # cover_goal L tc_var g m
      else if g < k then (g, tc_var) # (k, l) # m
      else (k, lit_or L l tc_var) # m)"

definition cover_test_case :: "'l sat_lib \<Rightarrow> nat \<times> nat list \<times> 'c \<Rightarrow> (nat \<times> 'l) list \<Rightarrow> (nat \<times> 'l) list" where
  "cover_test_case L itc set_cover =
     (case itc of (i, goals, tc) \<Rightarrow> fold (cover_goal L (lit_var L i)) goals set_cover)"

definition set_cover :: "'l sat_lib \<Rightarrow> 'c test_suite \<Rightarrow> (nat \<times> 'l) list" where
  "set_cover L suite = fold (cover_test_case L) (enumerate 0 suite) []"

text \<open>One round of the fan-in adder, and all rounds.\<close>

fun add_pairs :: "'l sat_lib \<Rightarrow> nat \<Rightarrow> 'l list list \<Rightarrow> 'l list list" where
  "add_pairs L new_width (op0 # op1 # ops) =
     bv_add L (bv_zero_extension L op0 new_width) (bv_zero_extension L op1 new_width) # add_pairs L new_width ops"
| "add_pairs L new_width [op0] = [bv_zero_extension L op0 new_width]"
| "add_pairs L new_width [] = []"

lemma length_add_pairs [simp]: "length (add_pairs L w ops) = (length ops + 1) div 2"
  by (induction L w ops rule: add_pairs.induct) auto

function fan_in :: "'l sat_lib \<Rightarrow> 'l list list \<Rightarrow> 'l list list" where
  "fan_in L sum_operands =
     (if length sum_operands > 1
      then fan_in L (add_pairs L (length (hd sum_operands) + 1) sum_operands)
      else sum_operands)"
  by pat_completeness auto
termination
  by (relation "measure (\<lambda>(L, ops). length ops)") auto

declare fan_in.simps [simp del]

definition suite_sum :: "'l sat_lib \<Rightarrow> nat \<Rightarrow> 'l list" where
  "suite_sum L n = hd (fan_in L (map (\<lambda>i. [lit_var L i]) [0..<n]))"

text \<open>The literals that assume a value for the upper bound.\<close>

definition bound_assumptions :: "'l sat_lib \<Rightarrow> nat list \<Rightarrow> bool list \<Rightarrow> 'l list" where
  "bound_assumptions L upper_bound bound_constant =
     map2 (\<lambda>v b. if b then lit_var L v else lit_invert L (lit_var L v)) upper_bound bound_constant"

section \<open>The loop\<close>

partial_function (option) shrink ::
  "'l sat_lib \<Rightarrow> 'l list list \<Rightarrow> 'l list \<Rightarrow> nat list \<Rightarrow> nat \<Rightarrow> assignment option \<Rightarrow> (nat \<times> assignment option) option" where
  "shrink L clauses tc_sum upper_bound num_tcs best =
     (if num_tcs > 1 then
        (case prop_solve L clauses (bound_assumptions L upper_bound (build_constant L num_tcs (length upper_bound))) of
           None \<Rightarrow> Some (num_tcs, best)
         | Some \<alpha> \<Rightarrow> shrink L clauses tc_sum upper_bound (bv_value L \<alpha> tc_sum) (Some \<alpha>))
      else Some (num_tcs, best))"

declare shrink.simps [code]

definition keep_true :: "assignment option \<Rightarrow> 'c test_suite \<Rightarrow> 'c test_suite" where
  "keep_true best suite =
     (case best of None \<Rightarrow> suite | Some \<alpha> \<Rightarrow> map snd (filter (\<lambda>(i, tc). \<alpha> i) (enumerate 0 suite)))"

definition minimize :: "'l sat_lib \<Rightarrow> 'c test_suite \<Rightarrow> 'c test_suite option" where
  "minimize L suite =
     (if length suite \<le> 1 then Some suite
      else
        (let n = length suite;
             tc_sum = suite_sum L n;
             upper_bound = [n..<n + length tc_sum];
             clauses = map (\<lambda>(g, l). [l]) (set_cover L suite)
               @ [[bv_less L tc_sum (map (lit_var L) upper_bound)]]
         in case shrink L clauses tc_sum upper_bound n None of
              None \<Rightarrow> None
            | Some (num_tcs, best) \<Rightarrow> Some (if num_tcs < n then keep_true best suite else suite)))"

section \<open>What is to be achieved\<close>

definition suite_goals :: "'c test_suite \<Rightarrow> nat set" where
  "suite_goals suite = (\<Union>tc \<in> set suite. set (fst tc))"

text \<open>The number of selected test cases, and that a selection covers all goals.\<close>

definition selected :: "assignment \<Rightarrow> nat \<Rightarrow> nat set" where
  "selected \<alpha> n = {i. i < n \<and> \<alpha> i}"

definition covering :: "assignment \<Rightarrow> 'c test_suite \<Rightarrow> bool" where
  "covering \<alpha> suite \<longleftrightarrow> (\<forall>g \<in> suite_goals suite. \<exists>i \<in> selected \<alpha> (length suite). g \<in> set (fst (suite ! i)))"

lemma finite_selected [simp]: "finite (selected \<alpha> n)"
  by (simp add: selected_def)

lemma selected_Suc: "selected \<alpha> (Suc n) = (if \<alpha> n then insert n (selected \<alpha> n) else selected \<alpha> n)"
  by (auto simp: selected_def less_Suc_eq)

lemma card_selected: "card (selected \<alpha> n) = (\<Sum>i<n. of_bool (\<alpha> i))"
proof (induction n)
  case 0
  then show ?case by (simp add: selected_def)
next
  case (Suc n)
  have "n \<notin> selected \<alpha> n" by (simp add: selected_def)
  then show ?case using Suc by (simp add: selected_Suc)
qed

lemma card_selected_le: "card (selected \<alpha> n) \<le> n"
  using card_mono [of "{..<n}" "selected \<alpha> n"] by (auto simp: selected_def)

text \<open>Kept test cases and selections.\<close>

lemma keep_true_aux:
  "length (map snd (filter (\<lambda>(i, tc). \<alpha> i) (enumerate k suite))) = card {i. i < length suite \<and> \<alpha> (k + i)}
   \<and> set (map snd (filter (\<lambda>(i, tc). \<alpha> i) (enumerate k suite))) = {suite ! i |i. i < length suite \<and> \<alpha> (k + i)}
   \<and> subseq (map snd (filter (\<lambda>(i, tc). \<alpha> i) (enumerate k suite))) suite"
proof (induction suite arbitrary: k)
  case (Cons tc suite)
  have split: "{i. i < length (tc # suite) \<and> \<alpha> (k + i)} = (if \<alpha> k then {0} else {}) \<union> Suc ` {i. i < length suite \<and> \<alpha> (Suc k + i)}"
    by (auto simp: image_iff less_Suc_eq_0_disj)
  have card: "card {i. i < length (tc # suite) \<and> \<alpha> (k + i)} = of_bool (\<alpha> k) + card {i. i < length suite \<and> \<alpha> (Suc k + i)}"
    unfolding split by (simp add: card_image card_insert_if)
  have set: "{(tc # suite) ! i |i. i < length (tc # suite) \<and> \<alpha> (k + i)}
      = (if \<alpha> k then {tc} else {}) \<union> {suite ! i |i. i < length suite \<and> \<alpha> (Suc k + i)}"
    unfolding setcompr_eq_image split by (simp add: image_Un image_image)
  show ?case using Cons [of "Suc k"] unfolding card set by auto
qed simp

lemma keep_true_correct:
  "length (keep_true (Some \<alpha>) suite) = card (selected \<alpha> (length suite))"
  "subseq (keep_true (Some \<alpha>) suite) suite"
  "suite_goals (keep_true (Some \<alpha>) suite) = suite_goals suite \<longleftrightarrow> covering \<alpha> suite"
proof -
  note aux = keep_true_aux [of \<alpha> 0 suite]
  show "length (keep_true (Some \<alpha>) suite) = card (selected \<alpha> (length suite))"
    "subseq (keep_true (Some \<alpha>) suite) suite"
    using aux by (simp_all add: keep_true_def selected_def)
  have "set (keep_true (Some \<alpha>) suite) = {suite ! i |i. i \<in> selected \<alpha> (length suite)}"
    using aux by (simp add: keep_true_def selected_def)
  then have G: "suite_goals (keep_true (Some \<alpha>) suite) = (\<Union>i \<in> selected \<alpha> (length suite). set (fst (suite ! i)))"
    by (auto simp: suite_goals_def)
  moreover have "\<dots> \<subseteq> suite_goals suite" by (auto simp: suite_goals_def selected_def) (metis nth_mem)
  ultimately show "suite_goals (keep_true (Some \<alpha>) suite) = suite_goals suite \<longleftrightarrow> covering \<alpha> suite"
    unfolding covering_def by blast
qed

text \<open>Every sublist is a selection.\<close>

lemma subseq_selection:
  assumes "subseq T suite"
  shows "\<exists>\<alpha>. T = keep_true (Some \<alpha>) suite"
proof -
  have "\<exists>\<alpha>. T = map snd (filter (\<lambda>(i, tc). \<alpha> i) (enumerate k suite))" for k
    using assms
  proof (induction arbitrary: k rule: list_emb.induct)
    case (list_emb_Nil ys)
    show ?case by (rule exI [of _ "\<lambda>i. False"]) simp
  next
    case (list_emb_Cons xs ys y)
    then obtain \<alpha> where \<alpha>: "xs = map snd (filter (\<lambda>(i, tc). \<alpha> i) (enumerate (Suc k) ys))" by blast
    show ?case by (rule exI [of _ "\<lambda>i. i \<noteq> k \<and> \<alpha> i"])
        (auto simp: \<alpha> in_set_enumerate_eq intro!: arg_cong [where f = "map snd"] filter_cong)
  next
    case (list_emb_Cons2 x y xs ys)
    then obtain \<alpha> where \<alpha>: "xs = map snd (filter (\<lambda>(i, tc). \<alpha> i) (enumerate (Suc k) ys))" by blast
    show ?case by (rule exI [of _ "\<lambda>i. i = k \<or> \<alpha> i"])
        (auto simp: \<alpha> list_emb_Cons2 in_set_enumerate_eq intro!: arg_cong [where f = "map snd"] filter_cong)
  qed
  then show ?thesis by (simp add: keep_true_def)
qed

section \<open>Correctness\<close>

context sat_library
begin

text \<open>The literal of a goal holds if one of the test cases seen so far that satisfy it is selected.\<close>

definition cover_ok :: "(nat \<Rightarrow> nat set) \<Rightarrow> (nat \<times> 'l) list \<Rightarrow> bool" where
  "cover_ok C m \<longleftrightarrow> sorted_wrt (\<lambda>x y. fst x < fst y) m \<and> fst ` set m = {g. C g \<noteq> {}}
     \<and> (\<forall>(g, l) \<in> set m. \<forall>\<alpha>. lit_value L \<alpha> l \<longleftrightarrow> (\<exists>i \<in> C g. \<alpha> i))"

lemma fst_cover_goal: "fst ` set (cover_goal L v g m) = insert g (fst ` set m)"
  by (induction L v g m rule: cover_goal.induct) (auto simp: image_iff)

lemma sorted_cover_goal:
  "sorted_wrt (\<lambda>x y. fst x < fst y) m \<Longrightarrow> sorted_wrt (\<lambda>x y. fst x < fst y) (cover_goal L v g m)"
proof (induction m)
  case (Cons x m)
  obtain k l where x: "x = (k, l)" by (cases x)
  have "k < fst y" if "k < g" "y \<in> set (cover_goal L v g m)" for y
  proof -
    have "fst y \<in> insert g (fst ` set m)" using that(2) fst_cover_goal [of v g m] by (metis imageI)
    then show ?thesis using that(1) Cons.prems x by auto
  qed
  then show ?case using Cons x by force
qed simp

lemma set_cover_goal:
  "sorted_wrt (\<lambda>x y. fst x < fst y) m \<Longrightarrow> x \<in> set (cover_goal L v g m) \<Longrightarrow>
    x \<in> set m \<and> fst x \<noteq> g \<or> (\<exists>l. (g, l) \<in> set m \<and> x = (g, lit_or L l v)) \<or> x = (g, v) \<and> g \<notin> fst ` set m"
  by (induction L v g m rule: cover_goal.induct) (auto split: if_splits; fastforce)+

lemma cover_ok_goal:
  assumes "cover_ok C m"
  shows "cover_ok (C(g := insert i (C g))) (cover_goal L (lit_var L i) g m)"
proof -
  note ok = assms [unfolded cover_ok_def]
  have "lit_value L \<alpha> l \<longleftrightarrow> (\<exists>j \<in> (C(g := insert i (C g))) h. \<alpha> j)" if hl: "(h, l) \<in> set (cover_goal L (lit_var L i) g m)" for h l \<alpha>
  proof -
    consider "(h, l) \<in> set m" "h \<noteq> g" | l' where "(g, l') \<in> set m" "h = g" "l = lit_or L l' (lit_var L i)"
      | "h = g" "l = lit_var L i" "g \<notin> fst ` set m"
      using set_cover_goal [OF conjunct1 [OF ok] hl] by auto
    then show ?thesis
    proof cases
      case 1
      then have "lit_value L \<alpha> l \<longleftrightarrow> (\<exists>j \<in> C h. \<alpha> j)" using ok by blast
      then show ?thesis using 1 by simp
    next
      case 2
      then have "lit_value L \<alpha> l' \<longleftrightarrow> (\<exists>j \<in> C g. \<alpha> j)" using ok by blast
      then show ?thesis using 2 by auto
    next
      case 3
      then have "C g = {}" using ok by blast
      then show ?thesis using 3 by simp
    qed
  qed
  moreover have "fst ` set (cover_goal L (lit_var L i) g m) = {h. (C(g := insert i (C g))) h \<noteq> {}}"
    using ok by (auto simp: fst_cover_goal)
  moreover have "sorted_wrt (\<lambda>x y. fst x < fst y) (cover_goal L (lit_var L i) g m)"
    using ok by (intro sorted_cover_goal) simp
  ultimately show ?thesis unfolding cover_ok_def by (intro conjI ballI) (assumption | clarify)+
qed

lemma cover_ok_goals:
  "cover_ok C m \<Longrightarrow> cover_ok (\<lambda>h. if h \<in> set gs then insert i (C h) else C h) (fold (cover_goal L (lit_var L i)) gs m)"
proof (induction gs arbitrary: C m)
  case (Cons g gs)
  have "(\<lambda>h. if h \<in> set gs then insert i ((C(g := insert i (C g))) h) else (C(g := insert i (C g))) h)
      = (\<lambda>h. if h \<in> set (g # gs) then insert i (C h) else C h)" by (rule ext) simp
  then show ?case using Cons.IH [OF cover_ok_goal [OF Cons.prems, of g i]] by simp
qed simp

lemma cover_ok_suite:
  "cover_ok C m \<Longrightarrow> cover_ok (\<lambda>h. C h \<union> {k + i |i. i < length suite \<and> h \<in> set (fst (suite ! i))})
    (fold (cover_test_case L) (enumerate k suite) m)"
proof (induction suite arbitrary: C m k)
  case (Cons tc suite)
  let ?C = "\<lambda>h. if h \<in> set (fst tc) then insert k (C h) else C h"
  have ok: "cover_ok ?C (cover_test_case L (k, tc) m)"
    using cover_ok_goals [OF Cons.prems, of "fst tc" k] by (simp add: cover_test_case_def split_beta)
  have "(\<lambda>h. ?C h \<union> {Suc k + i |i. i < length suite \<and> h \<in> set (fst (suite ! i))})
      = (\<lambda>h. C h \<union> {k + i |i. i < length (tc # suite) \<and> h \<in> set (fst ((tc # suite) ! i))})"
    by (intro ext) (force simp: less_Suc_eq_0_disj)
  then show ?case using Cons.IH [OF ok, of "Suc k"] by simp
qed simp

lemma set_cover_correct:
  "list_all (\<lambda>(g, l). lit_value L \<alpha> l) (set_cover L suite) \<longleftrightarrow> covering \<alpha> suite"
proof -
  let ?C = "\<lambda>h. {i. i < length suite \<and> h \<in> set (fst (suite ! i))}"
  have "cover_ok (\<lambda>h. {}) []" by (simp add: cover_ok_def)
  from cover_ok_suite [OF this, of 0 suite] have ok: "cover_ok ?C (set_cover L suite)" by (simp add: set_cover_def)
  then have keys: "fst ` set (set_cover L suite) = suite_goals suite"
    unfolding cover_ok_def suite_goals_def set_conv_nth [of suite] by auto
  have lit: "lit_value L \<alpha> l \<longleftrightarrow> (\<exists>i \<in> ?C g. \<alpha> i)" if "(g, l) \<in> set (set_cover L suite)" for g l
    using ok that unfolding cover_ok_def by blast
  have "list_all (\<lambda>(g, l). lit_value L \<alpha> l) (set_cover L suite) \<longleftrightarrow> (\<forall>(g, l) \<in> set (set_cover L suite). \<exists>i \<in> ?C g. \<alpha> i)"
    unfolding list_all_iff using lit by (intro ball_cong) auto
  also have "\<dots> \<longleftrightarrow> (\<forall>g \<in> suite_goals suite. \<exists>i \<in> ?C g. \<alpha> i)" unfolding keys [symmetric] by force
  also have "\<dots> \<longleftrightarrow> covering \<alpha> suite" by (auto simp: covering_def selected_def)
  finally show ?thesis .
qed

text \<open>The rounds of the adder add up their operands, one bit wider each time.\<close>

lemma add_pairs_correct:
  assumes "\<forall>op \<in> set ops. length op = w"
  shows "\<forall>op \<in> set (add_pairs L (Suc w) ops). length op = Suc w"
    and "sum_list (map (bv_value L \<alpha>) (add_pairs L (Suc w) ops)) = sum_list (map (bv_value L \<alpha>) ops)"
  using assms
proof (induction ops rule: induct_list012)
  case (2 op0)
  { case 1 then show ?case by simp }
  { case 2 then show ?case by (simp add: value_zero_extension) }
next
  case (3 op0 op1 ops)
  { case 1 then show ?case using "3.IH"(1) by (simp add: length_add) }
  { case 2 then show ?case using "3.IH"(2) by (simp add: value_extended_add) }
qed simp_all

lemma fan_in_correct:
  assumes "ops \<noteq> []" "\<forall>op \<in> set ops. length op = w"
  obtains s where "fan_in L ops = [s]" "\<And>\<alpha>. bv_value L \<alpha> s = sum_list (map (bv_value L \<alpha>) ops)"
    "length ops * 2 ^ w \<le> 2 ^ length s"
    "if length ops = 1 then length s = w else 2 ^ length s \<le> 2 * (length ops - 1) * 2 ^ w"
proof -
  have "\<exists>s. fan_in L ops = [s] \<and> (\<forall>\<alpha>. bv_value L \<alpha> s = sum_list (map (bv_value L \<alpha>) ops))
      \<and> length ops * 2 ^ w \<le> 2 ^ length s \<and> (if length ops = 1 then length s = w else 2 ^ length s \<le> 2 * (length ops - 1) * 2 ^ w)"
    using assms
  proof (induction "length ops" arbitrary: ops w rule: less_induct)
    case less
    show ?case
    proof (cases "length ops > 1")
      case False
      then obtain s where "ops = [s]" using less.prems(1) by (cases ops) auto
      then show ?thesis using less.prems(2) by (simp add: fan_in.simps)
    next
      case True
      let ?ops = "add_pairs L (Suc w) ops" and ?m = "length ops"
      have hd: "length (hd ops) = w" using less.prems by simp
      have "length ?ops < ?m" "?ops \<noteq> []" using True by (auto simp: length_0_conv [symmetric] simp del: length_0_conv)
      from less.hyps [OF this add_pairs_correct(1) [OF less.prems(2)]] obtain s where
        s: "fan_in L ?ops = [s]" "\<forall>\<alpha>. bv_value L \<alpha> s = sum_list (map (bv_value L \<alpha>) ?ops)"
        "(?m + 1) div 2 * 2 ^ Suc w \<le> 2 ^ length s"
        "if (?m + 1) div 2 = 1 then length s = Suc w else 2 ^ length s \<le> 2 * ((?m + 1) div 2 - 1) * 2 ^ Suc w"
        unfolding length_add_pairs by blast
      have lower: "?m * 2 ^ w \<le> 2 ^ length s"
      proof -
        have "?m * 2 ^ w \<le> (2 * ((?m + 1) div 2)) * 2 ^ w" by (intro mult_right_mono) auto
        also have "\<dots> = (?m + 1) div 2 * 2 ^ Suc w" by simp
        finally show ?thesis using s(3) by linarith
      qed
      have upper: "2 ^ length s \<le> 2 * (?m - 1) * 2 ^ w"
      proof (cases "(?m + 1) div 2 = 1")
        case True
        then have "?m = 2" "length s = Suc w" using s(4) \<open>?m > 1\<close> by (auto split: if_splits)
        then show ?thesis by simp
      next
        case False
        with s(4) have "2 ^ length s \<le> 2 * ((?m + 1) div 2 - 1) * 2 ^ Suc w" by (simp only: if_False)
        also have "2 * ((?m + 1) div 2 - 1) * 2 ^ Suc w = (2 * (2 * ((?m + 1) div 2 - 1))) * 2 ^ w" by simp
        also have "\<dots> \<le> 2 * (?m - 1) * 2 ^ w" by (intro mult_right_mono) auto
        finally show ?thesis .
      qed
      have "fan_in L ops = [s]" using s(1) True hd by (subst fan_in.simps) simp
      then show ?thesis using s(2) lower add_pairs_correct(2) [OF less.prems(2)] True upper by auto
    qed
  qed
  then show thesis using that by blast
qed

text \<open>Assumptions on the variables of the upper bound give it the value assumed.\<close>

lemma bound_assumptions_hold:
  assumes "length vs = length bs"
  shows "literals_hold L \<alpha> (bound_assumptions L vs bs) \<longleftrightarrow> map \<alpha> vs = bs"
  using assms by (induction vs bs rule: list_induct2) (auto simp: literals_hold_def bound_assumptions_def)

lemma bv_value_vars: "bv_value L \<alpha> (map (lit_var L) vs) = bits_value (map \<alpha> vs)"
  by (simp add: bv_value_def comp_def)

lemma bound_value:
  assumes "m < 2 ^ length vs"
  shows "literals_hold L \<alpha> (bound_assumptions L vs (build_constant L m (length vs)))
    \<longleftrightarrow> bv_value L \<alpha> (map (lit_var L) vs) = m"
  using assms bits_value_inject [of "map \<alpha> vs" "build_constant L m (length vs)"]
  by (simp add: bound_assumptions_hold bv_value_vars value_constant)

lemma suite_sum_correct:
  assumes "0 < n"
  shows "bv_value L \<alpha> (suite_sum L n) = card (selected \<alpha> n)"
    and "2 * n \<le> 2 ^ length (suite_sum L n)"
    and "1 < n \<Longrightarrow> 2 ^ length (suite_sum L n) \<le> 4 * (n - 1)"
proof -
  let ?ops = "map (\<lambda>i. [lit_var L i]) [0..<n]"
  have ops: "?ops \<noteq> []" "\<forall>op \<in> set ?ops. length op = 1" using assms by auto
  obtain s where s: "fan_in L ?ops = [s]"
    "\<And>\<alpha>. bv_value L \<alpha> s = sum_list (map (bv_value L \<alpha>) ?ops)" "length ?ops * 2 ^ 1 \<le> 2 ^ length s"
    "if length ?ops = 1 then length s = 1 else 2 ^ length s \<le> 2 * (length ?ops - 1) * 2 ^ 1"
    by (rule fan_in_correct [OF ops], rule that)
  have "suite_sum L n = s" using s(1) by (simp add: suite_sum_def)
  moreover have "sum_list (map (bv_value L \<alpha>) ?ops) = card (selected \<alpha> n)"
    by (simp add: bv_value_def comp_def card_selected interv_sum_list_conv_sum_set_nat atLeast0LessThan)
  ultimately show "bv_value L \<alpha> (suite_sum L n) = card (selected \<alpha> n)"
    "2 * n \<le> 2 ^ length (suite_sum L n)"
    "1 < n \<Longrightarrow> 2 ^ length (suite_sum L n) \<le> 4 * (n - 1)"
    using s(2) [of \<alpha>] s(3,4) by simp_all
qed

text \<open>
  The loop, for any condition \<open>P\<close> on assignments that the clauses express together with the bound:
  it ends, with an assignment of least sum above one, or with none when the first bound is already
  unsatisfiable.
\<close>

lemma shrink_minimal:
  fixes P :: "assignment \<Rightarrow> bool"
  assumes sat: "\<And>m \<alpha>. 1 < m \<Longrightarrow> m \<le> N \<Longrightarrow>
      prop_solve L cs (bound_assumptions L ub (build_constant L m (length ub))) = Some \<alpha> \<Longrightarrow> P \<alpha> \<and> bv_value L \<alpha> s < m"
    and unsat: "\<And>m \<alpha>. 1 < m \<Longrightarrow> m \<le> N \<Longrightarrow>
      prop_solve L cs (bound_assumptions L ub (build_constant L m (length ub))) = None \<Longrightarrow> P \<alpha> \<Longrightarrow> m \<le> bv_value L \<alpha> s"
    and "m \<le> N" "case best of None \<Rightarrow> m = N | Some \<alpha> \<Rightarrow> P \<alpha> \<and> bv_value L \<alpha> s = m"
  shows "\<exists>m' best'. shrink L cs s ub m best = Some (m', best') \<and> m' \<le> N
    \<and> (case best' of None \<Rightarrow> m' = N | Some \<alpha> \<Rightarrow> P \<alpha> \<and> bv_value L \<alpha> s = m')
    \<and> (\<forall>\<alpha>. P \<alpha> \<longrightarrow> m' \<le> max 1 (bv_value L \<alpha> s))"
  using assms(3,4)
proof (induction m arbitrary: best rule: less_induct)
  case (less m)
  show ?case
  proof (cases "1 < m")
    case False
    then have "shrink L cs s ub m best = Some (m, best)" by (simp add: shrink.simps)
    moreover have "\<forall>\<alpha>. P \<alpha> \<longrightarrow> m \<le> max 1 (bv_value L \<alpha> s)" using False by auto
    ultimately show ?thesis using less.prems by blast
  next
    case True
    show ?thesis
    proof (cases "prop_solve L cs (bound_assumptions L ub (build_constant L m (length ub)))")
      case None
      then have "shrink L cs s ub m best = Some (m, best)" by (simp add: shrink.simps)
      moreover have "\<forall>\<alpha>. P \<alpha> \<longrightarrow> m \<le> max 1 (bv_value L \<alpha> s)"
        using unsat [OF True less.prems(1) None] by (simp add: le_max_iff_disj)
      ultimately show ?thesis using less.prems by blast
    next
      case (Some \<alpha>)
      then have "shrink L cs s ub m best = shrink L cs s ub (bv_value L \<alpha> s) (Some \<alpha>)"
        using True by (subst shrink.simps) simp
      then show ?thesis using less.IH [of "bv_value L \<alpha> s" "Some \<alpha>"] sat [OF True less.prems(1) Some] less.prems(1)
        by simp
    qed
  qed
qed

lemma minimize_clauses:
  assumes "1 < length suite" "1 < m" "m \<le> length suite"
  defines "s \<equiv> suite_sum L (length suite)"
  defines "ub \<equiv> [length suite..<length suite + length s]"
  defines "cs \<equiv> map (\<lambda>(g, l). [l]) (set_cover L suite) @ [[bv_less L s (map (lit_var L) ub)]]"
  defines "as \<equiv> bound_assumptions L ub (build_constant L m (length ub))"
  shows "prop_solve L cs as = Some \<alpha> \<Longrightarrow> covering \<alpha> suite \<and> bv_value L \<alpha> s < m"
    and "prop_solve L cs as = None \<Longrightarrow> covering \<alpha> suite \<Longrightarrow> m \<le> bv_value L \<alpha> s"
proof -
  let ?n = "length suite"
  have sum: "bv_value L \<alpha> s = card (selected \<alpha> ?n)" for \<alpha>
    using assms(1) unfolding s_def by (intro suite_sum_correct) linarith
  have "2 * ?n \<le> 2 ^ length s" using assms(1) unfolding s_def by (intro suite_sum_correct) linarith
  then have m: "m < 2 ^ length ub" using assms(1,3) by (simp add: ub_def)
  have clauses: "clauses_hold L \<alpha> cs \<longleftrightarrow> covering \<alpha> suite \<and> bv_value L \<alpha> s < bv_value L \<alpha> (map (lit_var L) ub)" for \<alpha>
    using set_cover_correct [of \<alpha> suite]
    by (simp add: cs_def value_less ub_def) (simp add: clauses_hold_def list_all_iff split_beta)
  show "covering \<alpha> suite \<and> bv_value L \<alpha> s < m" if "prop_solve L cs as = Some \<alpha>"
    using solve_sound [OF that] clauses [of \<alpha>] bound_value [OF m] unfolding as_def by simp
  show "m \<le> bv_value L \<alpha> s" if "prop_solve L cs as = None" "covering \<alpha> suite"
  proof (rule ccontr)
    assume less: "\<not> m \<le> bv_value L \<alpha> s"
    let ?\<beta> = "\<lambda>v. if v < ?n then \<alpha> v else build_constant L m (length ub) ! (v - ?n)"
    have sel: "selected ?\<beta> ?n = selected \<alpha> ?n" by (auto simp: selected_def)
    have "map ?\<beta> ub = build_constant L m (length ub)" by (rule nth_equalityI) (simp_all add: ub_def)
    then have as: "literals_hold L ?\<beta> as" by (simp add: as_def bound_assumptions_hold)
    then have "bv_value L ?\<beta> (map (lit_var L) ub) = m" using bound_value [OF m] by (simp add: as_def)
    moreover have "covering ?\<beta> suite" using that(2) sel by (simp add: covering_def)
    ultimately have "clauses_hold L ?\<beta> cs" using less by (simp add: clauses sum sel)
    then show False using solve_complete [OF that(1)] as by blast
  qed
qed

text \<open>Minimization ends, with a smallest subsuite for the same goals.\<close>

lemma minimize_smallest:
  "\<exists>suite'. minimize L suite = Some suite' \<and> subseq suite' suite \<and> suite_goals suite' = suite_goals suite
    \<and> (\<forall>T. subseq T suite \<and> suite_goals T = suite_goals suite \<longrightarrow> length suite' \<le> max 1 (length T))"
proof (cases "length suite \<le> 1")
  case True
  then have "\<forall>k. length suite \<le> max 1 k" by (simp add: le_max_iff_disj)
  then show ?thesis using True by (simp add: minimize_def)
next
  case False
  define s where "s = suite_sum L (length suite)"
  define ub where "ub = [length suite..<length suite + length s]"
  define cs where "cs = map (\<lambda>(g, l). [l]) (set_cover L suite) @ [[bv_less L s (map (lit_var L) ub)]]"
  have n: "1 < length suite" using False by simp
  note steps = minimize_clauses [OF n, folded s_def, folded ub_def, folded cs_def]
  have "\<exists>m' best'. shrink L cs s ub (length suite) None = Some (m', best') \<and> m' \<le> length suite
    \<and> (case best' of None \<Rightarrow> m' = length suite | Some \<alpha> \<Rightarrow> covering \<alpha> suite \<and> bv_value L \<alpha> s = m')
    \<and> (\<forall>\<alpha>. covering \<alpha> suite \<longrightarrow> m' \<le> max 1 (bv_value L \<alpha> s))"
    by (rule shrink_minimal) (use steps in auto)
  then obtain m' best' where run: "shrink L cs s ub (length suite) None = Some (m', best')" "m' \<le> length suite"
    and best: "case best' of None \<Rightarrow> m' = length suite | Some \<alpha> \<Rightarrow> covering \<alpha> suite \<and> bv_value L \<alpha> s = m'"
    and least: "\<forall>\<alpha>. covering \<alpha> suite \<longrightarrow> m' \<le> max 1 (bv_value L \<alpha> s)" by blast
  have sum: "bv_value L \<alpha> s = card (selected \<alpha> (length suite))" for \<alpha>
    using n unfolding s_def by (intro suite_sum_correct) linarith
  let ?r = "if m' < length suite then keep_true best' suite else suite"
  have "minimize L suite = Some ?r"
    using n run(1) by (simp add: minimize_def s_def ub_def cs_def Let_def)
  moreover have r: "length ?r = m' \<and> subseq ?r suite \<and> suite_goals ?r = suite_goals suite"
  proof (cases best')
    case None
    then show ?thesis using best by simp
  next
    case (Some \<alpha>)
    then show ?thesis using best run(2) by (simp add: keep_true_correct sum)
  qed
  moreover have "length ?r \<le> max 1 (length T)" if T: "subseq T suite \<and> suite_goals T = suite_goals suite" for T
  proof -
    obtain \<alpha> where \<alpha>: "T = keep_true (Some \<alpha>) suite" using subseq_selection T by blast
    then have "covering \<alpha> suite" using T keep_true_correct(3) by metis
    then show ?thesis using least r keep_true_correct(1) [of \<alpha> suite] by (simp add: \<alpha> sum)
  qed
  ultimately show ?thesis by blast
qed

end

section \<open>Properties\<close>

text \<open>
  C8. Minimization of a test suite terminates for every suite and solver with the documented
  behaviour: the result is a subsequence of the suite, it covers exactly the test goals that the
  suite covers, and no subsequence that covers them all has fewer test cases, except that a single
  remaining test case is never dropped.
\<close>

theorem minimize_optimal:
  assumes "sat_library L"
  shows "\<exists>suite'. minimize L suite = Some suite' \<and> subseq suite' suite \<and> suite_goals suite' = suite_goals suite
    \<and> (\<forall>T. subseq T suite \<and> suite_goals T = suite_goals suite \<longrightarrow> length suite' \<le> max 1 (length T))"
  by (rule sat_library.minimize_smallest [OF assms])

theorem minimize_optimal_witness:
  "minimize formula_lib [([0], True), ([0, 1], False)] = Some [([0, 1], False)]
   \<and> (\<exists>suite'. minimize formula_lib [([0], True), ([0, 1], False)] = Some suite'
     \<and> suite_goals suite' = suite_goals [([0], True), ([0, 1], False)])"
proof -
  have "minimize formula_lib [([0], True), ([0, 1], False)] = Some [([0, 1], False)]" by code_simp
  then show ?thesis using minimize_optimal [OF formula.sat_library_axioms, of "[([0], True), ([0, 1], False)]"] by blast
qed

text \<open>
  C28. The fan-in adder is exact for every number of test cases: its sum is the number of selected
  test cases without overflow, and its width is the least one in which the sum and the upper bound
  on it can be stored, one bit more than the logarithm of the number of test cases, rounded up.
\<close>

theorem adder_width:
  assumes "sat_library L" "1 < n"
  shows "bv_value L \<alpha> (suite_sum L n) = card (selected \<alpha> n)
    \<and> 2 * n \<le> 2 ^ length (suite_sum L n) \<and> 2 ^ length (suite_sum L n) \<le> 4 * (n - 1)"
  using sat_library.suite_sum_correct [OF assms(1), of n] assms(2) by simp

theorem adder_width_witness:
  "length (suite_sum formula_lib 5) = 4 \<and> bv_value formula_lib (\<lambda>v. v = 1 \<or> v = 4) (suite_sum formula_lib 5) = 2
   \<and> (2::nat) * 5 \<le> 2 ^ length (suite_sum formula_lib 5)"
proof -
  have "length (suite_sum formula_lib 5) = 4" "bv_value formula_lib (\<lambda>v. v = 1 \<or> v = 4) (suite_sum formula_lib 5) = 2"
    by code_simp+
  then show ?thesis using adder_width [OF formula.sat_library_axioms, of 5] by simp
qed

end
