(* ===== verification/Constraint_Strengthening.thy ===== *)
theory Constraint_Strengthening
  imports Sat_Interface
begin

text \<open>
  Test case generation by groupwise constraint strengthening
  (\<open>src/fshell2/tc_generation/constraint_strengthening.cpp\<close>).

  A solver is asked for models of the program's clauses; the test goals a model satisfies are
  recorded and excluded by further clauses, until all goals are covered, the solver reports
  unsatisfiability or the limit on the number of test cases is reached. With the SAT based coverage
  check a second solver, with the test case's inputs as assumptions, finds the other goals that the
  same inputs satisfy.

  A solver's state is its list of clauses. Goals are lists of literals numbered by their position;
  sets of goal numbers are ordered lists. Timers are left out; the messages at the end are part of
  the result. The loops are partial functions: \<open>None\<close> stands for a loop that does not end.
\<close>

section \<open>Goals that a model satisfies\<close>

definition goal_holds :: "'l sat_lib \<Rightarrow> 'l list list \<Rightarrow> assignment \<Rightarrow> nat \<Rightarrow> bool" where
  "goal_holds L goals \<alpha> g \<longleftrightarrow> list_all (lit_value L \<alpha>) (goals ! g)"

primrec find_sat_test_goals ::
  "'l sat_lib \<Rightarrow> assignment \<Rightarrow> 'l list list \<Rightarrow> bool \<Rightarrow> nat list \<Rightarrow> nat list \<Rightarrow> nat list
    \<Rightarrow> nat \<times> 'l list list \<times> nat list \<times> nat list \<times> nat list" where
  "find_sat_test_goals L \<alpha> goals has_internal_check [] tgs tgs_done = (0, [], [], tgs, tgs_done)"
| "find_sat_test_goals L \<alpha> goals has_internal_check (g # unsat_goals) tgs tgs_done =
     (if goal_holds L goals \<alpha> g then
        (case find_sat_test_goals L \<alpha> goals has_internal_check unsat_goals
            (if has_internal_check then remove1 g tgs else tgs) (insort_insert g tgs_done) of
           (cnt, more_clauses, unsat, tgs', done') \<Rightarrow>
             (cnt + 1, map (lit_invert L) (goals ! g) # more_clauses, unsat, tgs', done'))
      else
        (case find_sat_test_goals L \<alpha> goals has_internal_check unsat_goals tgs tgs_done of
           (cnt, more_clauses, unsat, tgs', done') \<Rightarrow> (cnt, more_clauses, g # unsat, tgs', done')))"

definition get_test_case_literals :: "'l sat_lib \<Rightarrow> (string \<times> 'l list) list \<Rightarrow> assignment \<Rightarrow> 'l list" where
  "get_test_case_literals L bv_map tc =
     concat (map (\<lambda>(name, literal_map).
         if take 12 name = ''$fshell2$'' then []
         else map (\<lambda>l. if lit_value L tc l then l else lit_invert L l)
           (filter (\<lambda>l. \<not> lit_is_constant L l) literal_map)) bv_map)"

section \<open>One test case\<close>

record 'l cover_state =
  num_sat :: nat
  unsat_goals :: "nat list"
  test_goal_set :: "nat list"
  tgs_done :: "nat list"
  minisat :: "'l list list"
  tmp_minisat :: "'l list list"
  coverage_cl :: "'l list list"

text \<open>The goals of the internal check: with the SAT based check they are only compared.\<close>

definition internal_goal :: "'l sat_lib \<Rightarrow> 'l list list \<Rightarrow> bool \<Rightarrow> nat \<Rightarrow> 'l cover_state \<Rightarrow> 'l cover_state" where
  "internal_goal L goals use_sat g st =
     (if g \<in> set (unsat_goals st) then
        (let st1 = st\<lparr>test_goal_set := insort_insert g (test_goal_set st)\<rparr> in
         if use_sat then st1
         else st1\<lparr>minisat := minisat st @ [map (lit_invert L) (goals ! g)],
           unsat_goals := remove1 g (unsat_goals st)\<rparr>)
      else st)"

definition internal_coverage :: "'l sat_lib \<Rightarrow> 'l list list \<Rightarrow> bool \<Rightarrow> nat list \<Rightarrow> 'l cover_state \<Rightarrow> 'l cover_state" where
  "internal_coverage L goals use_sat tgs st =
     fold (internal_goal L goals use_sat) tgs (st\<lparr>tgs_done := tgs, test_goal_set := []\<rparr>)"

definition cover_found ::
  "'l sat_lib \<Rightarrow> 'l list list \<Rightarrow> bool \<Rightarrow> assignment \<Rightarrow> 'l cover_state \<Rightarrow> 'l cover_state" where
  "cover_found L goals has_internal_check \<alpha> st =
     (case find_sat_test_goals L \<alpha> goals has_internal_check (unsat_goals st) (test_goal_set st) (tgs_done st) of
        (cnt, more_cl, unsat, tgs, done') \<Rightarrow>
          st\<lparr>num_sat := num_sat st + cnt, unsat_goals := unsat, test_goal_set := tgs, tgs_done := done',
            minisat := minisat st @ more_cl, tmp_minisat := tmp_minisat st @ more_cl,
            coverage_cl := coverage_cl st @ more_cl\<rparr>)"

partial_function (option) coverage_loop ::
  "'l sat_lib \<Rightarrow> 'l list list \<Rightarrow> bool \<Rightarrow> 'l list \<Rightarrow> 'l cover_state \<Rightarrow> 'l cover_state option" where
  "coverage_loop L goals has_internal_check fixed_literals st =
     (if unsat_goals st = [] then Some st
      else (case prop_solve L (tmp_minisat st) fixed_literals of
              None \<Rightarrow> Some st
            | Some \<beta> \<Rightarrow> coverage_loop L goals has_internal_check fixed_literals
                (cover_found L goals has_internal_check \<beta> st)))"

declare coverage_loop.simps [code]

definition sat_coverage ::
  "'l sat_lib \<Rightarrow> (string \<times> 'l list) list \<Rightarrow> 'l list list \<Rightarrow> 'l list list \<Rightarrow> bool \<Rightarrow> assignment
    \<Rightarrow> 'l cover_state \<Rightarrow> 'l cover_state option" where
  "sat_coverage L bv_map cnf goals has_internal_check \<alpha> st =
     (let st1 = cover_found L goals has_internal_check \<alpha> (st\<lparr>num_sat := 0, tmp_minisat := []\<rparr>)
      in coverage_loop L goals has_internal_check (get_test_case_literals L bv_map \<alpha>)
           (st1\<lparr>tmp_minisat := cnf @ coverage_cl st1\<rparr>))"

definition test_case_coverage ::
  "'l sat_lib \<Rightarrow> (string \<times> 'l list) list \<Rightarrow> 'l list list \<Rightarrow> 'l list list \<Rightarrow> (assignment \<Rightarrow> nat list option)
    \<Rightarrow> bool \<Rightarrow> bool \<Rightarrow> assignment \<Rightarrow> nat list \<Rightarrow> 'l list list \<Rightarrow> 'l list list \<Rightarrow> 'l cover_state option" where
  "test_case_coverage L bv_map cnf goals ctg use_sat use_internal_check \<alpha> unsat ms cov =
     (let st = \<lparr>num_sat = 0, unsat_goals = unsat, test_goal_set = [], tgs_done = [],
            minisat = ms, tmp_minisat = [], coverage_cl = cov\<rparr>;
          satisfied = (if use_internal_check then ctg \<alpha> else None);
          st1 = (case satisfied of None \<Rightarrow> st | Some tgs \<Rightarrow> internal_coverage L goals use_sat tgs st)
      in if use_sat then sat_coverage L bv_map cnf goals (satisfied \<noteq> None) \<alpha> st1 else Some st1)"

section \<open>The main loop\<close>

type_synonym test_cases = "(nat list \<times> assignment) list"

partial_function (option) generate_loop ::
  "'l sat_lib \<Rightarrow> (string \<times> 'l list) list \<Rightarrow> 'l list list \<Rightarrow> 'l list list \<Rightarrow> (assignment \<Rightarrow> nat list option)
    \<Rightarrow> bool \<Rightarrow> bool \<Rightarrow> nat \<Rightarrow> nat list \<Rightarrow> test_cases \<Rightarrow> 'l list list \<Rightarrow> 'l list list
    \<Rightarrow> (nat list \<times> test_cases) option" where
  "generate_loop L bv_map cnf goals ctg use_sat use_internal_check limit unsat tcs ms cov =
     (if unsat \<noteq> [] \<and> (limit = 0 \<or> length tcs < limit) then
        (case prop_solve L ms [] of
           None \<Rightarrow> Some (unsat, tcs)
         | Some \<alpha> \<Rightarrow>
             (case test_case_coverage L bv_map cnf goals ctg use_sat use_internal_check \<alpha> unsat ms cov of
                None \<Rightarrow> None
              | Some st \<Rightarrow>
                  generate_loop L bv_map cnf goals ctg use_sat use_internal_check limit (unsat_goals st)
                    (tcs @ [(tgs_done st, \<alpha>)]) (minisat st) (coverage_cl st)))
      else Some (unsat, tcs))"

declare generate_loop.simps [code]

datatype generate_message = Stopped_After nat | Unsatisfied_Goals "nat list"

definition exclude_previous :: "'l sat_lib \<Rightarrow> (string \<times> 'l list) list \<Rightarrow> test_cases \<Rightarrow> 'l list list" where
  "exclude_previous L bv_map prev_tcs =
     map (\<lambda>(tgs, tc). map (lit_invert L) (get_test_case_literals L bv_map tc)) prev_tcs"

definition generate ::
  "'l sat_lib \<Rightarrow> (string \<times> 'l list) list \<Rightarrow> 'l list list \<Rightarrow> 'l list list \<Rightarrow> (assignment \<Rightarrow> nat list option)
    \<Rightarrow> bool \<Rightarrow> bool \<Rightarrow> test_cases \<Rightarrow> nat \<Rightarrow> test_cases \<Rightarrow> (nat list \<times> test_cases \<times> generate_message list) option" where
  "generate L bv_map cnf goals ctg use_sat use_internal_check tcs limit prev_tcs =
     (let cnf' = cnf @ exclude_previous L bv_map prev_tcs in
      case generate_loop L bv_map cnf' goals ctg use_sat use_internal_check limit [0..<length goals] tcs cnf' [] of
        None \<Rightarrow> None
      | Some (unsat, tcs') \<Rightarrow>
          Some (unsat, tcs',
            (if limit > 0 \<and> length tcs' = limit then [Stopped_After limit] else [])
            @ (if unsat \<noteq> [] then [Unsatisfied_Goals unsat] else [])))"

section \<open>Correctness\<close>

lemma find_sat_test_goals_eq:
  "find_sat_test_goals L \<alpha> goals hic unsat tgs dn =
    (let found = filter (goal_holds L goals \<alpha>) unsat in
     (length found, map (\<lambda>g. map (lit_invert L) (goals ! g)) found, filter (\<lambda>g. \<not> goal_holds L goals \<alpha> g) unsat,
      (if hic then fold remove1 found tgs else tgs), fold insort_insert found dn))"
  by (induction unsat arbitrary: tgs dn) (simp_all add: Let_def)

text \<open>The literals of a test case hold in exactly the assignments that agree with it on the mapped literals.\<close>

definition agree :: "'l sat_lib \<Rightarrow> (string \<times> 'l list) list \<Rightarrow> assignment \<Rightarrow> assignment \<Rightarrow> bool" where
  "agree L bv_map \<alpha> \<beta> \<longleftrightarrow>
     (\<forall>(name, ls) \<in> set bv_map. name \<noteq> ''$fshell2$'' \<longrightarrow> (\<forall>l \<in> set ls. lit_value L \<alpha> l = lit_value L \<beta> l))"

text \<open>
  What holds for a recorded test case: it is a model, and each of its goals is reported by the
  internal check or satisfied by a model with the same inputs.
\<close>

definition recorded :: "'l sat_lib \<Rightarrow> (string \<times> 'l list) list \<Rightarrow> 'l list list \<Rightarrow> 'l list list \<Rightarrow> (assignment \<Rightarrow> nat list option)
    \<Rightarrow> bool \<Rightarrow> nat list \<times> assignment \<Rightarrow> bool" where
  "recorded L bv_map cnf goals ctg use_int tc \<longleftrightarrow> clauses_hold L (snd tc) cnf
     \<and> (\<forall>g \<in> set (fst tc). (use_int \<and> (\<exists>tgs. ctg (snd tc) = Some tgs \<and> g \<in> set tgs))
        \<or> (\<exists>\<beta>. clauses_hold L \<beta> cnf \<and> agree L bv_map (snd tc) \<beta> \<and> goal_holds L goals \<beta> g))"

lemma list_all_map_filter: "list_all P (map f (filter Q xs)) \<longleftrightarrow> (\<forall>x \<in> set xs. Q x \<longrightarrow> P (f x))"
  by (induction xs) auto

lemma list_all_concat_map: "list_all P (concat (map f xs)) \<longleftrightarrow> (\<forall>x \<in> set xs. list_all P (f x))"
  by (induction xs) auto

lemma take_12_marker: "take 12 name = ''$fshell2$'' \<longleftrightarrow> name = ''$fshell2$''"
proof
  assume eq: "take 12 name = ''$fshell2$''"
  then have "length (take 12 name) = 9" by simp
  then have "length name = 9" by (simp add: min_def split: if_splits)
  then show "name = ''$fshell2$''" using eq by simp
qed simp

context sat_library
begin

lemma test_case_literals_hold:
  "list_all (lit_value L \<beta>) (get_test_case_literals L bv_map \<alpha>) \<longleftrightarrow> agree L bv_map \<alpha> \<beta>"
proof -
  have const: "lit_value L \<alpha> l = lit_value L \<beta> l" if "lit_is_constant L l" for l
    using that value_is_true value_is_false by blast
  have fixed: "(\<not> lit_is_constant L l \<longrightarrow> lit_value L \<beta> (if lit_value L \<alpha> l then l else lit_invert L l))
      \<longleftrightarrow> lit_value L \<alpha> l = lit_value L \<beta> l" for l
    using const [of l] by (cases "lit_is_constant L l") auto
  have "list_all (lit_value L \<beta>) (get_test_case_literals L bv_map \<alpha>) \<longleftrightarrow>
      (\<forall>x \<in> set bv_map. fst x \<noteq> ''$fshell2$'' \<longrightarrow> (\<forall>l \<in> set (snd x). \<not> lit_is_constant L l \<longrightarrow>
        lit_value L \<beta> (if lit_value L \<alpha> l then l else lit_invert L l)))"
    unfolding get_test_case_literals_def take_12_marker list_all_concat_map split_beta
    by (simp only: if_distrib [where f = "list_all _"] list_all_map_filter list.pred_inject(1)) auto
  also have "\<dots> \<longleftrightarrow> (\<forall>x \<in> set bv_map. fst x \<noteq> ''$fshell2$'' \<longrightarrow> (\<forall>l \<in> set (snd x). lit_value L \<alpha> l = lit_value L \<beta> l))"
    unfolding fixed ..
  finally show ?thesis by (simp add: agree_def split_beta)
qed

lemma exclude_hold: "clauses_hold L \<beta> (exclude_previous L bv_map prev) \<longleftrightarrow> (\<forall>(tgs, \<alpha>) \<in> set prev. \<not> agree L bv_map \<alpha> \<beta>)"
proof -
  have "list_ex (lit_value L \<beta>) (map (lit_invert L) ls) \<longleftrightarrow> \<not> list_all (lit_value L \<beta>) ls" for ls
    by (induction ls) auto
  then show ?thesis
    by (auto simp: clauses_hold_def exclude_previous_def list_all_iff [where ?'a = "'l list"] test_case_literals_hold split_beta)
qed

text \<open>The clauses in terms of goals: those that are no longer open are excluded.\<close>

lemma inverted_clause: "list_ex (lit_value L \<beta>) (map (lit_invert L) ls) \<longleftrightarrow> \<not> list_all (lit_value L \<beta>) ls"
  by (induction ls) auto

definition excludes :: "'l list list \<Rightarrow> nat set \<Rightarrow> 'l list list \<Rightarrow> bool" where
  "excludes goals D cs \<longleftrightarrow> (\<forall>\<beta>. clauses_hold L \<beta> cs \<longleftrightarrow> (\<forall>g \<in> D. \<not> goal_holds L goals \<beta> g))"

lemma excludes_append:
  "excludes goals D cs \<Longrightarrow> excludes goals (D \<union> set gs) (cs @ map (\<lambda>g. map (lit_invert L) (goals ! g)) gs)"
proof (induction gs arbitrary: D cs)
  case (Cons g gs)
  have "excludes goals (insert g D) (cs @ [map (lit_invert L) (goals ! g)])"
    using Cons.prems by (auto simp: excludes_def inverted_clause goal_holds_def)
  from Cons.IH [OF this] show ?case by simp
qed simp

definition cover_inv :: "'l list list \<Rightarrow> 'l list list \<Rightarrow> 'l cover_state \<Rightarrow> bool" where
  "cover_inv cnf goals st \<longleftrightarrow> distinct (unsat_goals st) \<and> set (unsat_goals st) \<subseteq> {..<length goals}
     \<and> (\<exists>cs. minisat st = cnf @ cs \<and> excludes goals ({..<length goals} - set (unsat_goals st)) cs)"

definition coverage_inv :: "'l list list \<Rightarrow> 'l cover_state \<Rightarrow> bool" where
  "coverage_inv goals st \<longleftrightarrow> excludes goals ({..<length goals} - set (unsat_goals st)) (coverage_cl st)"

lemma cover_found_simps [simp]:
  "unsat_goals (cover_found L goals hic \<alpha> st) = filter (\<lambda>g. \<not> goal_holds L goals \<alpha> g) (unsat_goals st)"
  "set (tgs_done (cover_found L goals hic \<alpha> st)) = {g \<in> set (unsat_goals st). goal_holds L goals \<alpha> g} \<union> set (tgs_done st)"
  by (simp_all add: cover_found_def find_sat_test_goals_eq Let_def set_fold_insort_insert)

lemma cover_found_clauses:
  assumes "set (unsat_goals st) \<subseteq> {..<length goals}"
    and "excludes goals ({..<length goals} - set (unsat_goals st)) cs"
  shows "excludes goals ({..<length goals} - set (unsat_goals (cover_found L goals hic \<alpha> st)))
      (cs @ map (\<lambda>g. map (lit_invert L) (goals ! g)) (filter (goal_holds L goals \<alpha>) (unsat_goals st)))"
proof -
  have eq: "{..<length goals} - set (unsat_goals (cover_found L goals hic \<alpha> st))
      = ({..<length goals} - set (unsat_goals st)) \<union> set (filter (goal_holds L goals \<alpha>) (unsat_goals st))"
    using assms(1) by auto
  show ?thesis unfolding eq by (rule excludes_append [OF assms(2)])
qed

lemma cover_found_inv:
  assumes "cover_inv cnf goals st"
  shows "cover_inv cnf goals (cover_found L goals hic \<alpha> st)"
    and "coverage_inv goals st \<Longrightarrow> coverage_inv goals (cover_found L goals hic \<alpha> st)"
    and "tmp_minisat st = cnf @ coverage_cl st \<Longrightarrow>
      tmp_minisat (cover_found L goals hic \<alpha> st) = cnf @ coverage_cl (cover_found L goals hic \<alpha> st)"
proof -
  let ?st = "cover_found L goals hic \<alpha> st"
  let ?m = "map (\<lambda>g. map (lit_invert L) (goals ! g)) (filter (goal_holds L goals \<alpha>) (unsat_goals st))"
  have upd: "minisat ?st = minisat st @ ?m" "coverage_cl ?st = coverage_cl st @ ?m"
    "tmp_minisat ?st = tmp_minisat st @ ?m"
    by (simp_all add: cover_found_def find_sat_test_goals_eq Let_def)
  note clauses = cover_found_clauses [of st goals _ hic \<alpha>]
  obtain cs where cs: "minisat st = cnf @ cs" "excludes goals ({..<length goals} - set (unsat_goals st)) cs"
    and unsat: "set (unsat_goals st) \<subseteq> {..<length goals}" "distinct (unsat_goals st)"
    using assms unfolding cover_inv_def by blast
  show "cover_inv cnf goals ?st" unfolding cover_inv_def
  proof (intro conjI exI)
    show "minisat ?st = cnf @ (cs @ ?m)" using cs(1) upd(1) by simp
    show "excludes goals ({..<length goals} - set (unsat_goals ?st)) (cs @ ?m)" by (rule clauses [OF unsat(1) cs(2)])
  qed (use unsat in auto)
  show "coverage_inv goals ?st" if "coverage_inv goals st"
    using clauses [OF unsat(1)] that unfolding coverage_inv_def upd by simp
  show "tmp_minisat ?st = cnf @ coverage_cl ?st" if "tmp_minisat st = cnf @ coverage_cl st"
    using that upd by simp
qed

text \<open>A model of the clauses that excludes the closed goals satisfies an open one.\<close>

lemma open_goal:
  assumes "\<And>\<beta>. clauses_hold L \<beta> cnf \<Longrightarrow> \<exists>g < length goals. goal_holds L goals \<beta> g"
    and "excludes goals ({..<length goals} - U) cs" "clauses_hold L \<beta> (cnf @ cs)"
  shows "\<exists>g \<in> U. g < length goals \<and> goal_holds L goals \<beta> g"
  using assms(1) [of \<beta>] assms(2,3) unfolding excludes_def by auto

lemma coverage_loop_correct:
  assumes some: "\<And>\<beta>. clauses_hold L \<beta> cnf \<Longrightarrow> \<exists>g < length goals. goal_holds L goals \<beta> g"
    and "cover_inv cnf goals st" "coverage_inv goals st" "tmp_minisat st = cnf @ coverage_cl st"
  shows "\<exists>st'. coverage_loop L goals hic fixed st = Some st' \<and> cover_inv cnf goals st' \<and> coverage_inv goals st'
    \<and> set (unsat_goals st') \<subseteq> set (unsat_goals st)
    \<and> set (tgs_done st') = set (tgs_done st) \<union> (set (unsat_goals st) - set (unsat_goals st'))
    \<and> (\<forall>g \<in> set (unsat_goals st) - set (unsat_goals st').
        \<exists>\<beta>. clauses_hold L \<beta> cnf \<and> list_all (lit_value L \<beta>) fixed \<and> goal_holds L goals \<beta> g)"
  using assms(2-)
proof (induction "length (unsat_goals st)" arbitrary: st rule: less_induct)
  case less
  show ?case
  proof (cases "unsat_goals st = [] \<or> prop_solve L (tmp_minisat st) fixed = None")
    case True
    then have "coverage_loop L goals hic fixed st = Some st" by (auto simp: coverage_loop.simps)
    then show ?thesis using less.prems by simp
  next
    case False
    then obtain \<beta> where \<beta>: "prop_solve L (tmp_minisat st) fixed = Some \<beta>" by auto
    let ?st = "cover_found L goals hic \<beta> st"
    have run: "coverage_loop L goals hic fixed st = coverage_loop L goals hic fixed ?st"
      using False \<beta> by (subst coverage_loop.simps) simp
    have holds: "clauses_hold L \<beta> (cnf @ coverage_cl st)" "list_all (lit_value L \<beta>) fixed"
      using solve_sound [OF \<beta>] less.prems(3) by (simp_all add: literals_hold_def)
    obtain g where "g \<in> set (unsat_goals st)" "goal_holds L goals \<beta> g"
      using open_goal [OF some less.prems(2) [unfolded coverage_inv_def] holds(1)] by blast
    then have "length (unsat_goals ?st) < length (unsat_goals st)" by (auto intro: length_filter_less)
    from less.hyps [OF this cover_found_inv [OF less.prems(1)]] less.prems obtain st' where
      st': "coverage_loop L goals hic fixed ?st = Some st'" "cover_inv cnf goals st'" "coverage_inv goals st'"
        "set (unsat_goals st') \<subseteq> set (unsat_goals ?st)"
        "set (tgs_done st') = set (tgs_done ?st) \<union> (set (unsat_goals ?st) - set (unsat_goals st'))"
        "\<forall>g \<in> set (unsat_goals ?st) - set (unsat_goals st').
          \<exists>\<beta>. clauses_hold L \<beta> cnf \<and> list_all (lit_value L \<beta>) fixed \<and> goal_holds L goals \<beta> g" by blast
    have "\<exists>\<beta>. clauses_hold L \<beta> cnf \<and> list_all (lit_value L \<beta>) fixed \<and> goal_holds L goals \<beta> g"
      if "g \<in> set (unsat_goals st) - set (unsat_goals st')" for g
      using that st'(6) holds by (cases "goal_holds L goals \<beta> g") auto
    then show ?thesis unfolding run using st'(1-5) by (intro exI [of _ st']) auto
  qed
qed

text \<open>The internal check alone closes the goals it reports; next to the SAT based check it closes none.\<close>

lemma internal_coverage_inv:
  assumes "cover_inv cnf goals st"
  shows "cover_inv cnf goals (internal_coverage L goals False tgs st)
    \<and> set (unsat_goals (internal_coverage L goals False tgs st)) = set (unsat_goals st) - set tgs
    \<and> tgs_done (internal_coverage L goals False tgs st) = tgs"
proof -
  have "cover_inv cnf goals (fold (internal_goal L goals False) gs st)
      \<and> set (unsat_goals (fold (internal_goal L goals False) gs st)) = set (unsat_goals st) - set gs
      \<and> tgs_done (fold (internal_goal L goals False) gs st) = tgs_done st" if "cover_inv cnf goals st" for gs st
    using that
  proof (induction gs arbitrary: st)
    case (Cons g gs)
    let ?st = "internal_goal L goals False g st"
    obtain cs where cs: "minisat st = cnf @ cs" "excludes goals ({..<length goals} - set (unsat_goals st)) cs"
      and unsat: "set (unsat_goals st) \<subseteq> {..<length goals}" "distinct (unsat_goals st)"
      using Cons.prems unfolding cover_inv_def by blast
    have inv: "cover_inv cnf goals ?st"
    proof (cases "g \<in> set (unsat_goals st)")
      case True
      have eq: "{..<length goals} - set (unsat_goals ?st) = ({..<length goals} - set (unsat_goals st)) \<union> set [g]"
        using True unsat by (auto simp: internal_goal_def)
      have "minisat ?st = cnf @ (cs @ map (\<lambda>g. map (lit_invert L) (goals ! g)) [g])"
        using cs(1) True by (simp add: internal_goal_def)
      moreover have "distinct (unsat_goals ?st)" "set (unsat_goals ?st) \<subseteq> {..<length goals}"
        using unsat True by (auto simp: internal_goal_def)
      moreover have "excludes goals ({..<length goals} - set (unsat_goals ?st)) (cs @ map (\<lambda>g. map (lit_invert L) (goals ! g)) [g])"
        unfolding eq by (rule excludes_append [OF cs(2)])
      ultimately show ?thesis unfolding cover_inv_def by blast
    qed (use Cons.prems in \<open>simp add: internal_goal_def\<close>)
    moreover have "set (unsat_goals ?st) = set (unsat_goals st) - {g}" "tgs_done ?st = tgs_done st"
      using unsat by (auto simp: internal_goal_def)
    ultimately show ?case using Cons.IH [OF inv] by auto
  qed simp
  moreover have "cover_inv cnf goals (st\<lparr>tgs_done := tgs, test_goal_set := []\<rparr>)"
    using assms by (simp add: cover_inv_def)
  ultimately show ?thesis by (simp add: internal_coverage_def)
qed

lemma internal_coverage_compare [simp]:
  "unsat_goals (internal_coverage L goals True tgs st) = unsat_goals st"
  "minisat (internal_coverage L goals True tgs st) = minisat st"
  "coverage_cl (internal_coverage L goals True tgs st) = coverage_cl st"
  "tgs_done (internal_coverage L goals True tgs st) = tgs"
proof -
  have "unsat_goals (fold (internal_goal L goals True) gs st) = unsat_goals st
      \<and> minisat (fold (internal_goal L goals True) gs st) = minisat st
      \<and> coverage_cl (fold (internal_goal L goals True) gs st) = coverage_cl st
      \<and> tgs_done (fold (internal_goal L goals True) gs st) = tgs_done st" for gs st
    by (induction gs arbitrary: st) (simp_all add: internal_goal_def Let_def)
  note this [of tgs "st\<lparr>tgs_done := tgs, test_goal_set := []\<rparr>"]
  then show "unsat_goals (internal_coverage L goals True tgs st) = unsat_goals st"
    "minisat (internal_coverage L goals True tgs st) = minisat st"
    "coverage_cl (internal_coverage L goals True tgs st) = coverage_cl st"
    "tgs_done (internal_coverage L goals True tgs st) = tgs" by (simp_all add: internal_coverage_def)
qed

text \<open>One round of the SAT based check.\<close>

lemma sat_coverage_correct:
  assumes some: "\<And>\<beta>. clauses_hold L \<beta> cnf \<Longrightarrow> \<exists>g < length goals. goal_holds L goals \<beta> g"
    and inv: "cover_inv cnf goals st" "coverage_inv goals st" and \<alpha>: "clauses_hold L \<alpha> (minisat st)"
  shows "\<exists>st'. sat_coverage L bv_map cnf goals hic \<alpha> st = Some st' \<and> cover_inv cnf goals st' \<and> coverage_inv goals st'
    \<and> set (unsat_goals st') \<subset> set (unsat_goals st)
    \<and> set (tgs_done st') = set (tgs_done st) \<union> (set (unsat_goals st) - set (unsat_goals st'))
    \<and> (\<forall>g \<in> set (unsat_goals st) - set (unsat_goals st').
        \<exists>\<beta>. clauses_hold L \<beta> cnf \<and> agree L bv_map \<alpha> \<beta> \<and> goal_holds L goals \<beta> g)"
proof -
  let ?st0 = "st\<lparr>num_sat := 0, tmp_minisat := []\<rparr>"
  define st1 where "st1 = cover_found L goals hic \<alpha> ?st0"
  define st2 where "st2 = st1\<lparr>tmp_minisat := cnf @ coverage_cl st1\<rparr>"
  have "cover_inv cnf goals ?st0" "coverage_inv goals ?st0" using inv by (simp_all add: cover_inv_def coverage_inv_def)
  then have "cover_inv cnf goals st1" "coverage_inv goals st1" unfolding st1_def using cover_found_inv by blast+
  then have st2: "cover_inv cnf goals st2" "coverage_inv goals st2" "tmp_minisat st2 = cnf @ coverage_cl st2"
    by (simp_all add: st2_def cover_inv_def coverage_inv_def)
  have proj: "unsat_goals st2 = filter (\<lambda>g. \<not> goal_holds L goals \<alpha> g) (unsat_goals st)"
    "set (tgs_done st2) = {g \<in> set (unsat_goals st). goal_holds L goals \<alpha> g} \<union> set (tgs_done st)"
    by (simp_all add: st2_def st1_def)
  from coverage_loop_correct [OF some st2, of hic "get_test_case_literals L bv_map \<alpha>"] obtain st' where
    st': "coverage_loop L goals hic (get_test_case_literals L bv_map \<alpha>) st2 = Some st'"
      "cover_inv cnf goals st'" "coverage_inv goals st'" "set (unsat_goals st') \<subseteq> set (unsat_goals st2)"
      "set (tgs_done st') = set (tgs_done st2) \<union> (set (unsat_goals st2) - set (unsat_goals st'))"
      "\<forall>g \<in> set (unsat_goals st2) - set (unsat_goals st').
        \<exists>\<beta>. clauses_hold L \<beta> cnf \<and> list_all (lit_value L \<beta>) (get_test_case_literals L bv_map \<alpha>) \<and> goal_holds L goals \<beta> g"
    by blast
  obtain cs where cs: "minisat st = cnf @ cs" "excludes goals ({..<length goals} - set (unsat_goals st)) cs"
    using inv(1) unfolding cover_inv_def by blast
  then obtain g where g: "g \<in> set (unsat_goals st)" "goal_holds L goals \<alpha> g"
    using open_goal [OF some cs(2)] \<alpha> by auto
  have self: "clauses_hold L \<alpha> cnf" "agree L bv_map \<alpha> \<alpha>" using \<alpha> cs(1) by (auto simp: agree_def)
  have "\<exists>\<beta>. clauses_hold L \<beta> cnf \<and> agree L bv_map \<alpha> \<beta> \<and> goal_holds L goals \<beta> g"
    if "g \<in> set (unsat_goals st) - set (unsat_goals st')" for g
    using that st'(6) self proj(1) unfolding test_case_literals_hold by (cases "goal_holds L goals \<alpha> g") auto
  moreover have "sat_coverage L bv_map cnf goals hic \<alpha> st = Some st'"
    using st'(1) by (simp add: sat_coverage_def st1_def st2_def Let_def)
  moreover have "g \<notin> set (unsat_goals st')" using st'(4) g(2) proj(1) by auto
  ultimately show ?thesis using st'(2-5) g(1) proj by (intro exI [of _ st']) auto
qed

lemma test_case_coverage_correct:
  assumes some: "\<And>\<beta>. clauses_hold L \<beta> cnf \<Longrightarrow> \<exists>g < length goals. goal_holds L goals \<beta> g"
    and mode: "use_sat \<or> use_int \<and> (\<forall>\<beta>. clauses_hold L \<beta> cnf \<longrightarrow>
      (\<exists>tgs. ctg \<beta> = Some tgs \<and> (\<forall>g < length goals. goal_holds L goals \<beta> g \<longrightarrow> g \<in> set tgs)))"
    and unsat: "distinct unsat" "set unsat \<subseteq> {..<length goals}"
    and cs: "excludes goals ({..<length goals} - set unsat) cs"
    and cov: "use_sat \<longrightarrow> excludes goals ({..<length goals} - set unsat) cov"
    and \<alpha>: "clauses_hold L \<alpha> (cnf @ cs)"
  shows "\<exists>st'. test_case_coverage L bv_map cnf goals ctg use_sat use_int \<alpha> unsat (cnf @ cs) cov = Some st'
    \<and> cover_inv cnf goals st' \<and> (use_sat \<longrightarrow> coverage_inv goals st') \<and> set (unsat_goals st') \<subset> set unsat
    \<and> set unsat - set (unsat_goals st') \<subseteq> set (tgs_done st')
    \<and> recorded L bv_map cnf goals ctg use_int (tgs_done st', \<alpha>)"
proof -
  let ?st = "\<lparr>num_sat = 0, unsat_goals = unsat, test_goal_set = [], tgs_done = [],
            minisat = cnf @ cs, tmp_minisat = [], coverage_cl = cov\<rparr>"
  define satisfied where "satisfied = (if use_int then ctg \<alpha> else None)"
  define st1 where "st1 = (case satisfied of None \<Rightarrow> ?st | Some tgs \<Rightarrow> internal_coverage L goals use_sat tgs ?st)"
  have run: "test_case_coverage L bv_map cnf goals ctg use_sat use_int \<alpha> unsat (cnf @ cs) cov
      = (if use_sat then sat_coverage L bv_map cnf goals (satisfied \<noteq> None) \<alpha> st1 else Some st1)"
    by (simp add: test_case_coverage_def satisfied_def st1_def Let_def)
  have inv: "cover_inv cnf goals ?st" using unsat cs by (auto simp: cover_inv_def)
  have cnf: "clauses_hold L \<alpha> cnf" using \<alpha> by simp
  have claimed: "set (tgs_done st1) \<subseteq> {g. use_int \<and> (\<exists>tgs. ctg \<alpha> = Some tgs \<and> g \<in> set tgs)}"
    using internal_coverage_inv [OF inv]
    by (cases use_sat) (auto simp: st1_def satisfied_def split: option.splits if_splits)
  show ?thesis
  proof (cases use_sat)
    case True
    then have st1: "unsat_goals st1 = unsat" "minisat st1 = cnf @ cs" "coverage_cl st1 = cov"
      by (auto simp: st1_def split: option.splits)
    have "cover_inv cnf goals st1" "coverage_inv goals st1"
      using inv cov True by (simp_all add: cover_inv_def coverage_inv_def st1)
    from sat_coverage_correct [OF some this, of \<alpha> bv_map "satisfied \<noteq> None"] \<alpha> st1 obtain st' where
      st': "sat_coverage L bv_map cnf goals (satisfied \<noteq> None) \<alpha> st1 = Some st'" "cover_inv cnf goals st'"
        "coverage_inv goals st'" "set (unsat_goals st') \<subset> set unsat"
        "set (tgs_done st') = set (tgs_done st1) \<union> (set unsat - set (unsat_goals st'))"
        "\<forall>g \<in> set unsat - set (unsat_goals st').
          \<exists>\<beta>. clauses_hold L \<beta> cnf \<and> agree L bv_map \<alpha> \<beta> \<and> goal_holds L goals \<beta> g" by auto
    have "recorded L bv_map cnf goals ctg use_int (tgs_done st', \<alpha>)"
      using st'(5,6) claimed cnf unfolding recorded_def by auto
    then show ?thesis unfolding run if_P [OF True] using st'(1-5) by (intro exI [of _ st']) auto
  next
    case False
    then obtain tgs where tgs: "satisfied = Some tgs" "use_int" "\<forall>g < length goals. goal_holds L goals \<alpha> g \<longrightarrow> g \<in> set tgs"
      using mode cnf by (auto simp: satisfied_def)
    have st1: "cover_inv cnf goals st1" "set (unsat_goals st1) = set unsat - set tgs" "tgs_done st1 = tgs"
      using internal_coverage_inv [OF inv, of tgs] tgs(1) False by (auto simp: st1_def)
    obtain g where "g \<in> set unsat" "g < length goals" "goal_holds L goals \<alpha> g"
      using open_goal [OF some cs \<alpha>] by blast
    then have "set unsat - set tgs \<subset> set unsat" using tgs(3) by auto
    moreover have "recorded L bv_map cnf goals ctg use_int (tgs_done st1, \<alpha>)"
      using claimed cnf unfolding recorded_def by auto
    ultimately show ?thesis unfolding run if_not_P [OF False] using st1 False by auto
  qed
qed

lemma generate_loop_correct:
  assumes some: "\<And>\<beta>. clauses_hold L \<beta> cnf \<Longrightarrow> \<exists>g < length goals. goal_holds L goals \<beta> g"
    and mode: "use_sat \<or> use_int \<and> (\<forall>\<beta>. clauses_hold L \<beta> cnf \<longrightarrow>
      (\<exists>tgs. ctg \<beta> = Some tgs \<and> (\<forall>g < length goals. goal_holds L goals \<beta> g \<longrightarrow> g \<in> set tgs)))"
    and "distinct unsat" "set unsat \<subseteq> {..<length goals}"
    and "excludes goals ({..<length goals} - set unsat) cs"
    and "use_sat \<longrightarrow> excludes goals ({..<length goals} - set unsat) cov"
  shows "\<exists>unsat' new. generate_loop L bv_map cnf goals ctg use_sat use_int limit unsat tcs (cnf @ cs) cov = Some (unsat', tcs @ new)
    \<and> set unsat' \<subseteq> set unsat \<and> list_all (recorded L bv_map cnf goals ctg use_int) new
    \<and> set unsat - set unsat' \<subseteq> (\<Union>tc \<in> set new. set (fst tc)) \<and> length new + length unsat' \<le> length unsat
    \<and> (0 < limit \<longrightarrow> length (tcs @ new) \<le> max limit (length tcs))
    \<and> (unsat' = [] \<or> 0 < limit \<and> limit \<le> length (tcs @ new)
      \<or> (\<forall>\<beta>. clauses_hold L \<beta> cnf \<longrightarrow> (\<exists>g < length goals. g \<notin> set unsat' \<and> goal_holds L goals \<beta> g)))"
  using assms(3-)
proof (induction "length unsat" arbitrary: unsat tcs cs cov rule: less_induct)
  case less
  let ?run = "generate_loop L bv_map cnf goals ctg use_sat use_int limit"
  show ?case
  proof (cases "unsat \<noteq> [] \<and> (limit = 0 \<or> length tcs < limit)")
    case False
    then have "?run unsat tcs (cnf @ cs) cov = Some (unsat, tcs @ [])" by (auto simp: generate_loop.simps)
    then show ?thesis using False by (intro exI [of _ unsat] exI [of _ "[]"]) auto
  next
    case True
    show ?thesis
    proof (cases "prop_solve L (cnf @ cs) []")
      case None
      then have "?run unsat tcs (cnf @ cs) cov = Some (unsat, tcs @ [])" by (simp add: generate_loop.simps)
      moreover have "\<exists>g < length goals. g \<notin> set unsat \<and> goal_holds L goals \<beta> g" if "clauses_hold L \<beta> cnf" for \<beta>
        using solve_complete [OF None, of \<beta>] that less.prems(3) by (auto simp: excludes_def literals_hold_def)
      ultimately show ?thesis by (intro exI [of _ unsat] exI [of _ "[]"]) auto
    next
      case (Some \<alpha>)
      then have "clauses_hold L \<alpha> (cnf @ cs)" using solve_sound by blast
      from test_case_coverage_correct [OF some mode less.prems this, of bv_map] obtain st where
        st: "test_case_coverage L bv_map cnf goals ctg use_sat use_int \<alpha> unsat (cnf @ cs) cov = Some st"
          "cover_inv cnf goals st" "use_sat \<longrightarrow> coverage_inv goals st" "set (unsat_goals st) \<subset> set unsat"
          "set unsat - set (unsat_goals st) \<subseteq> set (tgs_done st)" "recorded L bv_map cnf goals ctg use_int (tgs_done st, \<alpha>)"
        by blast
      let ?tcs = "tcs @ [(tgs_done st, \<alpha>)]"
      obtain cs' where cs': "minisat st = cnf @ cs'" "excludes goals ({..<length goals} - set (unsat_goals st)) cs'"
        and unsat: "set (unsat_goals st) \<subseteq> {..<length goals}" "distinct (unsat_goals st)"
        using st(2) unfolding cover_inv_def by blast
      have shorter: "length (unsat_goals st) < length unsat"
        using psubset_card_mono [OF _ st(4)] less.prems(1) unsat(2) by (simp add: distinct_card)
      have step: "?run unsat tcs (cnf @ cs) cov = ?run (unsat_goals st) ?tcs (cnf @ cs') (coverage_cl st)"
        using True Some st(1) cs'(1) by (subst generate_loop.simps) simp
      obtain unsat' new where new: "?run (unsat_goals st) ?tcs (cnf @ cs') (coverage_cl st) = Some (unsat', ?tcs @ new)"
          "set unsat' \<subseteq> set (unsat_goals st)" "list_all (recorded L bv_map cnf goals ctg use_int) new"
          "set (unsat_goals st) - set unsat' \<subseteq> (\<Union>tc \<in> set new. set (fst tc))"
          "length new + length unsat' \<le> length (unsat_goals st)"
          "0 < limit \<longrightarrow> length (?tcs @ new) \<le> max limit (length ?tcs)"
          "unsat' = [] \<or> 0 < limit \<and> limit \<le> length (?tcs @ new)
            \<or> (\<forall>\<beta>. clauses_hold L \<beta> cnf \<longrightarrow> (\<exists>g < length goals. g \<notin> set unsat' \<and> goal_holds L goals \<beta> g))"
        using less.hyps [OF shorter unsat(2,1) cs'(2), of "coverage_cl st" ?tcs] st(3) unfolding coverage_inv_def by metis
      show ?thesis
      proof (intro exI conjI)
        show "?run unsat tcs (cnf @ cs) cov = Some (unsat', tcs @ ((tgs_done st, \<alpha>) # new))" using step new(1) by simp
        show "set unsat - set unsat' \<subseteq> (\<Union>tc \<in> set ((tgs_done st, \<alpha>) # new). set (fst tc))" using new(4) st(5) by auto
        show "0 < limit \<longrightarrow> length (tcs @ (tgs_done st, \<alpha>) # new) \<le> max limit (length tcs)" using new(6) True by auto
      qed (use new st shorter in auto)
    qed
  qed
qed

lemma generate_loop_start:
  assumes some: "\<And>\<beta>. clauses_hold L \<beta> cnf \<Longrightarrow> \<exists>g < length goals. goal_holds L goals \<beta> g"
    and mode: "use_sat \<or> use_int \<and> (\<forall>\<beta>. clauses_hold L \<beta> cnf \<longrightarrow>
      (\<exists>tgs. ctg \<beta> = Some tgs \<and> (\<forall>g < length goals. goal_holds L goals \<beta> g \<longrightarrow> g \<in> set tgs)))"
  obtains unsat new where
    "generate_loop L bv_map cnf goals ctg use_sat use_int limit [0..<length goals] tcs cnf [] = Some (unsat, tcs @ new)"
    "set unsat \<subseteq> {..<length goals}" "list_all (recorded L bv_map cnf goals ctg use_int) new"
    "{..<length goals} - set unsat \<subseteq> (\<Union>tc \<in> set new. set (fst tc))" "length new + length unsat \<le> length goals"
    "0 < limit \<longrightarrow> length (tcs @ new) \<le> max limit (length tcs)"
    "unsat = [] \<or> 0 < limit \<and> limit \<le> length (tcs @ new)
      \<or> (\<forall>\<beta>. clauses_hold L \<beta> cnf \<longrightarrow> (\<exists>g < length goals. g \<notin> set unsat \<and> goal_holds L goals \<beta> g))"
proof -
  have all: "set [0..<length goals] = {..<length goals}" by auto
  have none: "excludes goals ({..<length goals} - set [0..<length goals]) []" unfolding all by (simp add: excludes_def)
  from generate_loop_correct [OF some mode distinct_upt equalityD1 [OF all] none impI [OF none], of bv_map limit tcs]
  show thesis unfolding all append_Nil2 using that by auto
qed

end

section \<open>Properties\<close>

text \<open>Goals of which every assignment satisfies exactly one, for the examples.\<close>

lemma example_goals:
  "\<exists>!g. g < length [[P_Var 0], [P_Not (P_Var 0)], [P_False]]
     \<and> goal_holds formula_lib [[P_Var 0], [P_Not (P_Var 0)], [P_False]] \<beta> g"
proof (cases "\<beta> 0")
  case True
  then show ?thesis by (intro ex1I [of _ 0]) (auto simp: goal_holds_def formula_lib_def numeral_3_eq_3 less_Suc_eq)
next
  case False
  then show ?thesis by (intro ex1I [of _ 1]) (auto simp: goal_holds_def formula_lib_def numeral_3_eq_3 less_Suc_eq)
qed





end
