(* ===== verification/Known_Sat.thy ===== *)
theory Known_Sat
  imports Fshell_Prelude "HOL-Library.Word" "HOL-Library.Product_Lexorder"
begin

unbundle bit_operations_syntax

text \<open>
  The set of satisfied literals of the internal coverage analysis
  (\<open>class KnownSAT\<close> of \<open>src/fshell2/fql/evaluation/compute_test_goals.cpp\<close>).

  Literals over a contiguous range of variables are kept in a vector of bytes, one per variable,
  with one bit per sign. The vector grows at either end. Shown is that it implements a set of
  literals, and when a lookup reads outside the vector.
\<close>

section \<open>Literals and the byte vector\<close>

text \<open>CBMC's \<open>literalt\<close>: a constant, or a variable number with a sign (set for a negated variable).\<close>

datatype literal = Constant bool | Lit (var_no: nat) (sign: bool)

text \<open>
  The order of \<open>std::set< literalt >\<close>: by the encoding of variable number and sign in one
  word, in which the variable number of the constants is the largest.
\<close>

definition literal_code :: "literal \<Rightarrow> nat \<times> nat" where
  "literal_code l = (case l of Constant c \<Rightarrow> (1, of_bool c) | Lit v s \<Rightarrow> (0, 2 * v + of_bool s))"

lemma literal_code_inject: "literal_code l = literal_code m \<longleftrightarrow> l = m"
proof -
  have "2 * v + of_bool s = 2 * w + of_bool t \<longleftrightarrow> v = w \<and> s = t" for v w :: nat and s t
    by (cases s; cases t) (auto; presburger)+
  then show ?thesis by (cases l; cases m) (auto simp: literal_code_def)
qed

instantiation literal :: linorder
begin

definition less_literal :: "literal \<Rightarrow> literal \<Rightarrow> bool" where
  "less_literal l m \<longleftrightarrow> literal_code l < literal_code m"

definition less_eq_literal :: "literal \<Rightarrow> literal \<Rightarrow> bool" where
  "less_eq_literal l m \<longleftrightarrow> literal_code l \<le> literal_code m"

instance
  by standard (auto simp: less_literal_def less_eq_literal_def literal_code_inject less_le)

end

record known_sat =
  m_lits :: "8 word list"
  m_min_var_no :: nat
  m_max_var_no :: nat

definition sign_mask :: "bool \<Rightarrow> 8 word" where
  "sign_mask s = (if s then 1 else 2)"

fun ks_insert :: "literal \<Rightarrow> known_sat \<Rightarrow> bool \<times> known_sat" where
  "ks_insert (Constant c) k = (False, k)"
| "ks_insert (Lit v s) k =
     (let mask = sign_mask s in
      if m_lits k = [] then
        (True, k\<lparr>m_lits := [mask], m_min_var_no := v, m_max_var_no := v\<rparr>)
      else if v > m_max_var_no k then
        (True, k\<lparr>m_lits := (m_lits k @ replicate (v - m_max_var_no k) 0)
             [length (m_lits k) + (v - m_max_var_no k) - 1 := mask],
           m_max_var_no := v\<rparr>)
      else if v < m_min_var_no k then
        (True, k\<lparr>m_lits := (replicate (m_min_var_no k - v) 0 @ m_lits k)[0 := mask], m_min_var_no := v\<rparr>)
      else
        (let i = v - m_min_var_no k in
         ((m_lits k ! i) AND mask = 0, k\<lparr>m_lits := (m_lits k)[i := (m_lits k ! i) OR mask]\<rparr>)))"

text \<open>A lookup; \<open>None\<close> stands for a read outside the vector.\<close>

fun ks_has :: "known_sat \<Rightarrow> literal \<Rightarrow> bool option" where
  "ks_has k (Constant c) = Some c"
| "ks_has k (Lit v s) =
     (if v \<ge> m_min_var_no k \<and> v \<le> m_max_var_no k then
        (if v - m_min_var_no k < length (m_lits k) then Some ((m_lits k ! (v - m_min_var_no k)) AND sign_mask s \<noteq> 0)
         else None)
      else Some False)"

text \<open>The constructor: from the front up to the first insertion, then all from the back.\<close>

primrec ks_init_first :: "literal list \<Rightarrow> known_sat \<Rightarrow> known_sat" where
  "ks_init_first [] k = k"
| "ks_init_first (l # base) k = (case ks_insert l k of (True, k') \<Rightarrow> k' | (False, k') \<Rightarrow> ks_init_first base k')"

definition ks_init :: "literal list \<Rightarrow> known_sat" where
  "ks_init base =
     fold (\<lambda>l k. snd (ks_insert l k)) (rev base)
       (ks_init_first base \<lparr>m_lits = [], m_min_var_no = 0, m_max_var_no = 0\<rparr>)"

section \<open>The set it stands for\<close>

definition ks_ok :: "known_sat \<Rightarrow> bool" where
  "ks_ok k \<longleftrightarrow> (if m_lits k = [] then m_min_var_no k = 0 \<and> m_max_var_no k = 0
     else m_min_var_no k \<le> m_max_var_no k \<and> length (m_lits k) = m_max_var_no k - m_min_var_no k + 1)"

definition ks_set :: "known_sat \<Rightarrow> literal set" where
  "ks_set k = {Lit (m_min_var_no k + i) s |i s. i < length (m_lits k) \<and> (m_lits k ! i) AND sign_mask s \<noteq> 0}"

lemma sign_mask_bits [simp]:
  "(x OR sign_mask s) AND sign_mask t = 0 \<longleftrightarrow> x AND sign_mask t = 0 \<and> s \<noteq> t"
  "sign_mask s AND sign_mask t = 0 \<longleftrightarrow> s \<noteq> t"
  "(0 :: 8 word) AND sign_mask t = 0"
proof -
  have bit: "x AND sign_mask t = 0 \<longleftrightarrow> \<not> bit x (if t then 0 else 1)" for x :: "8 word" and t
    using and_exp_eq_0_iff_not_bit [of x 0] and_exp_eq_0_iff_not_bit [of x 1] by (simp add: sign_mask_def)
  show "(x OR sign_mask s) AND sign_mask t = 0 \<longleftrightarrow> x AND sign_mask t = 0 \<and> s \<noteq> t"
    unfolding bit by (auto simp: bit_simps sign_mask_def)
  show "sign_mask s AND sign_mask t = 0 \<longleftrightarrow> s \<noteq> t"
    unfolding bit by (auto simp: bit_simps sign_mask_def)
qed simp

lemma sign_mask_not_0 [simp]: "sign_mask t \<noteq> 0"
  by (simp add: sign_mask_def)

lemma in_ks_set:
  "Lit v s \<in> ks_set k \<longleftrightarrow> m_min_var_no k \<le> v \<and> v - m_min_var_no k < length (m_lits k)
     \<and> (m_lits k ! (v - m_min_var_no k)) AND sign_mask s \<noteq> 0"
  "Constant c \<notin> ks_set k"
  by (auto simp: ks_set_def) (metis le_add_diff_inverse)

lemma ks_insert_correct:
  assumes "ks_ok k"
  shows "ks_ok (snd (ks_insert l k))
    \<and> ks_set (snd (ks_insert l k)) = ks_set k \<union> (case l of Constant c \<Rightarrow> {} | Lit v s \<Rightarrow> {Lit v s})
    \<and> (fst (ks_insert l k) \<longleftrightarrow> (\<exists>v s. l = Lit v s) \<and> l \<notin> ks_set k)"
proof (cases l)
  case (Lit v s)
  let ?k = "snd (ks_insert (Lit v s) k)"
  have memb: "Lit w t \<in> ks_set ?k \<longleftrightarrow> Lit w t \<in> ks_set k \<or> w = v \<and> t = s" for w t
  proof -
    consider "m_lits k = []" | "m_lits k \<noteq> []" "v > m_max_var_no k"
      | "m_lits k \<noteq> []" "v < m_min_var_no k" "\<not> v > m_max_var_no k"
      | "m_lits k \<noteq> []" "\<not> v < m_min_var_no k" "\<not> v > m_max_var_no k" by blast
    then show ?thesis
    proof cases
      case 1
      then show ?thesis using assms by (auto simp: in_ks_set Let_def)
    next
      case 2
      then show ?thesis using assms
        by (auto simp: in_ks_set Let_def ks_ok_def nth_append nth_list_update)
    next
      case 3
      then show ?thesis using assms
        by (auto simp: in_ks_set Let_def ks_ok_def nth_append nth_list_update)
    next
      case 4
      then show ?thesis using assms
        by (auto simp: in_ks_set Let_def ks_ok_def nth_list_update)
    qed
  qed
  have "ks_ok ?k" using assms by (auto simp: ks_ok_def Let_def split: if_splits)
  moreover have "ks_set ?k = ks_set k \<union> {Lit v s}"
  proof (rule set_eqI)
    fix m
    show "m \<in> ks_set ?k \<longleftrightarrow> m \<in> ks_set k \<union> {Lit v s}" by (cases m) (auto simp: memb in_ks_set(2) simp del: ks_insert.simps)
  qed
  moreover have "fst (ks_insert (Lit v s) k) \<longleftrightarrow> Lit v s \<notin> ks_set k"
    using assms by (auto simp: in_ks_set Let_def ks_ok_def split: if_splits)
  ultimately show ?thesis using Lit by simp
qed (use assms in simp)

lemma ks_has_correct:
  assumes "ks_ok k"
  shows "ks_has k l = (case l of Constant c \<Rightarrow> Some c
     | Lit v s \<Rightarrow> if v = 0 \<and> m_lits k = [] then None else Some (Lit v s \<in> ks_set k))"
  using assms by (cases l) (auto simp: in_ks_set ks_ok_def split: if_splits)

text \<open>Initialization yields the literals of the list that are not constants.\<close>

abbreviation proper :: "literal list \<Rightarrow> literal set" where
  "proper ls \<equiv> {l \<in> set ls. \<exists>v s. l = Lit v s}"

lemma ks_fold_insert:
  "ks_ok k \<Longrightarrow> ks_ok (fold (\<lambda>l k. snd (ks_insert l k)) ls k)
     \<and> ks_set (fold (\<lambda>l k. snd (ks_insert l k)) ls k) = ks_set k \<union> proper ls"
proof (induction ls arbitrary: k)
  case (Cons l ls)
  then show ?case using ks_insert_correct [OF Cons.prems, of l] by (cases l) auto
qed simp

lemma ks_init_first_correct:
  "ks_ok k \<Longrightarrow> ks_ok (ks_init_first ls k) \<and> ks_set k \<subseteq> ks_set (ks_init_first ls k)
     \<and> ks_set (ks_init_first ls k) \<subseteq> ks_set k \<union> proper ls"
proof (induction ls arbitrary: k)
  case (Cons l ls)
  show ?case
  proof (cases l)
    case (Constant c)
    then show ?thesis using Cons.IH [OF Cons.prems] by auto
  next
    case (Lit v s)
    obtain b k' where k': "ks_insert l k = (b, k')" by (cases "ks_insert l k")
    then have "ks_ok k'" "ks_set k' = insert l (ks_set k)" using ks_insert_correct [OF Cons.prems, of l] Lit by auto
    moreover have "ks_init_first (l # ls) k = (if b then k' else ks_init_first ls k')" using k' by simp
    ultimately show ?thesis using Cons.IH [of k'] Lit by auto
  qed
qed simp

lemma ks_init_correct: "ks_ok (ks_init ls) \<and> ks_set (ks_init ls) = proper ls"
proof -
  let ?e = "\<lparr>m_lits = [], m_min_var_no = 0, m_max_var_no = 0\<rparr>"
  have "ks_ok ?e" "ks_set ?e = {}" by (simp_all add: ks_ok_def ks_set_def)
  then show ?thesis
    using ks_init_first_correct [of ?e ls] ks_fold_insert [of "ks_init_first ls ?e" "rev ls"]
    unfolding ks_init_def by auto
qed

declare ks_insert.simps [simp del] ks_has.simps [simp del]

section \<open>Properties\<close>

text \<open>
  C30. The byte vector implements a set of literals: built from a list it holds exactly the
  literals of the list that are not constants, an insertion adds its literal and reports whether
  it is new, a lookup answers membership, constants are answered by their value, and a lookup
  reads outside the vector exactly for variable 0 when nothing has been inserted. The invariant on
  the bounds and the length of the vector is kept throughout.
\<close>

theorem known_sat_refines_set:
  "ks_ok (ks_init base) \<and> ks_set (ks_init base) = {l \<in> set base. \<exists>v s. l = Lit v s}
   \<and> (ks_ok k \<longrightarrow>
      ks_ok (snd (ks_insert l k))
      \<and> ks_set (snd (ks_insert l k)) = ks_set k \<union> {m. m = l \<and> (\<exists>v s. l = Lit v s)}
      \<and> fst (ks_insert l k) = ((\<exists>v s. l = Lit v s) \<and> l \<notin> ks_set k)
      \<and> ks_has k l = (case l of Constant c \<Rightarrow> Some c
          | Lit v s \<Rightarrow> if v = 0 \<and> m_lits k = [] then None else Some (l \<in> ks_set k)))"
  using ks_init_correct [of base] ks_insert_correct [of k l] ks_has_correct [of k l]
  by (cases l) auto

theorem known_sat_refines_set_witness:
  "ks_ok (ks_init [Lit 7 False, Lit 3 True]) \<and> m_lits (ks_init [Lit 7 False, Lit 3 True]) = [1, 0, 0, 0, 2]
   \<and> ks_has (ks_init [Lit 7 False, Lit 3 True]) (Lit 3 True) = Some True
   \<and> ks_has (ks_init [Lit 7 False, Lit 3 True]) (Lit 7 True) = Some False"
proof -
  let ?b = "[Lit 7 False, Lit 3 True]"
  have lits: "m_lits (ks_init ?b) = [1, 0, 0, 0, 2]" by code_simp
  have ok: "ks_ok (ks_init ?b)" "ks_set (ks_init ?b) = {l \<in> set ?b. \<exists>v s. l = Lit v s}"
    using known_sat_refines_set [of ?b] by blast+
  have has: "ks_has (ks_init ?b) l = (case l of Constant c \<Rightarrow> Some c
      | Lit v s \<Rightarrow> if v = 0 \<and> m_lits (ks_init ?b) = [] then None else Some (l \<in> ks_set (ks_init ?b)))" for l
    using known_sat_refines_set [of ?b "ks_init ?b" l] by blast
  show ?thesis using lits ok(1) has [of "Lit 3 True"] has [of "Lit 7 True"] by (auto simp: ok(2))
qed

end
