(* ===== verification/Goal_Ids.thy ===== *)
theory Goal_Ids
  imports Known_Sat
begin

text \<open>
  Numbering of the test goals (\<open>make_id_map\<close> of
  \<open>src/fshell2/fql/evaluation/compute_test_goals.cpp\<close>) and the search for the first satisfied
  goal at the end of \<open>get_satisfied_test_goals\<close>.

  A test goal is a choice of one literal per group. The numbering runs an odometer over the
  groups; the search leaves out the goals that share the literal that is not satisfied.
\<close>

section \<open>The numbering\<close>

text \<open>
  One advance of the iterators, from the last group to the first: the lists are reversed. The
  result says whether an iterator stopped before its end; only then are those behind it reset.
\<close>

fun advance_rev :: "nat list \<Rightarrow> nat list \<Rightarrow> bool \<times> nat list" where
  "advance_rev (s # ss) (p # ps) =
     (if p + 1 \<noteq> s then (True, (p + 1) # ps)
      else (case advance_rev ss ps of (stopped, ps') \<Rightarrow> (stopped, (if stopped then 0 else p + 1) # ps')))"
| "advance_rev ss ps = (False, ps)"

partial_function (option) id_map_loop :: "'a list list \<Rightarrow> nat list \<Rightarrow> 'a list list \<Rightarrow> 'a list list option" where
  "id_map_loop groups ptrs m_tg_id_map =
     (if hd ptrs \<noteq> length (hd groups) then
        id_map_loop groups (rev (snd (advance_rev (rev (map length groups)) (rev ptrs))))
          (m_tg_id_map @ [map2 nth groups ptrs])
      else Some m_tg_id_map)"

declare id_map_loop.simps [code]

primrec skips_rev :: "nat list \<Rightarrow> nat \<Rightarrow> nat list" where
  "skips_rev [] prec_skip = []"
| "skips_rev (s # ss) prec_skip = (prec_skip - 1) # skips_rev ss (prec_skip * s)"

definition make_id_map :: "'a list list \<Rightarrow> ('a list list \<times> nat list) option" where
  "make_id_map groups =
     (if groups = [] \<or> [] \<in> set groups then Some ([], [])
      else (case id_map_loop groups (replicate (length groups) 0) [] of
              None \<Rightarrow> None
            | Some m_tg_id_map \<Rightarrow> Some (m_tg_id_map, rev (skips_rev (rev (map length groups)) 1))))"

section \<open>The search\<close>

text \<open>
  The position of the first literal that is not satisfied; the outer \<open>None\<close> stands for a failed
  lookup.
\<close>

primrec first_missing :: "('a \<Rightarrow> bool option) \<Rightarrow> 'a list \<Rightarrow> nat option option" where
  "first_missing has [] = Some None"
| "first_missing has (l # ls) =
     (case has l of
        None \<Rightarrow> None
      | Some False \<Rightarrow> Some (Some 0)
      | Some True \<Rightarrow> map_option (map_option Suc) (first_missing has ls))"

function find_goal :: "('a \<Rightarrow> bool option) \<Rightarrow> 'a list list \<Rightarrow> nat list \<Rightarrow> nat \<Rightarrow> nat option option" where
  "find_goal has id_map skips g =
     (if g < length id_map then
        (case first_missing has (id_map ! g) of
           None \<Rightarrow> None
         | Some None \<Rightarrow> Some (Some g)
         | Some (Some j) \<Rightarrow> find_goal has id_map skips (g + skips ! j + 1))
      else Some None)"
  by pat_completeness auto
termination
  by (relation "measure (\<lambda>(has, id_map, skips, g). length id_map - g)") auto

declare find_goal.simps [simp del]

section \<open>Mixed radix numbers\<close>

text \<open>The number of goals that share the literals of the first groups.\<close>

definition weight :: "'a list list \<Rightarrow> nat \<Rightarrow> nat" where
  "weight groups j = prod_list (map length (drop j groups))"

fun digits_value :: "nat list \<Rightarrow> nat list \<Rightarrow> nat" where
  "digits_value (s # ss) (p # ps) = p + s * digits_value ss ps"
| "digits_value ss ps = 0"

lemma digits_value_less:
  "list_all2 (<) ps ss \<Longrightarrow> digits_value ss ps < prod_list ss"
proof (induction ps ss rule: list_all2_induct)
  case (Cons p ps s ss)
  have "p + s * digits_value ss ps < s + s * digits_value ss ps" using Cons.hyps by simp
  also have "\<dots> = s * Suc (digits_value ss ps)" by simp
  also have "\<dots> \<le> s * prod_list ss" using Cons.IH by (intro mult_le_mono2) simp
  finally show ?case by simp
qed simp

lemma advance_rev_correct:
  assumes "list_all2 (<) ps ss"
  shows "fst (advance_rev ss ps) \<Longrightarrow> list_all2 (<) (snd (advance_rev ss ps)) ss
      \<and> digits_value ss (snd (advance_rev ss ps)) = digits_value ss ps + 1"
    and "\<not> fst (advance_rev ss ps) \<Longrightarrow> snd (advance_rev ss ps) = ss \<and> prod_list ss = digits_value ss ps + 1"
  using assms
proof (induction ps ss rule: list_all2_induct)
  case (Cons p ps s ss)
  { case 1 then show ?case using Cons by (auto split: prod.splits if_splits) }
  { case 2 then show ?case using Cons by (auto split: prod.splits if_splits simp: algebra_simps) }
qed simp_all

lemma digits_value_append:
  "length ss = length ps \<Longrightarrow> digits_value (ss @ [s]) (ps @ [p]) = digits_value ss ps + prod_list ss * p"
  by (induction ss ps rule: list_induct2) (auto simp: algebra_simps)

lemma length_product_lists_weight: "length (product_lists groups) = weight groups 0"
  by (induction groups) (simp_all add: weight_def length_concat comp_def sum_list_triv)

lemma nth_concat_map_Cons:
  "p < length g \<Longrightarrow> r < length xss \<Longrightarrow> concat (map (\<lambda>x. map (Cons x) xss) g) ! (p * length xss + r) = g ! p # xss ! r"
proof (induction g arbitrary: p)
  case (Cons a g)
  then show ?case by (cases p) (simp_all add: nth_append algebra_simps)
qed simp

lemma nth_product_lists:
  assumes "list_all2 (\<lambda>p g. p < length g) ps groups"
  shows "product_lists groups ! digits_value (rev (map length groups)) (rev ps) = map2 nth groups ps"
  using assms
proof (induction ps groups rule: list_all2_induct)
  case (Cons p ps g groups)
  have len: "length ps = length groups" using Cons.hyps(2) by (rule list_all2_lengthD)
  have "list_all2 (<) (rev ps) (rev (map length groups))" using Cons.hyps(2) by (simp add: list_all2_map2)
  from digits_value_less [OF this] have less: "digits_value (rev (map length groups)) (rev ps) < length (product_lists groups)"
    by (simp add: length_product_lists_weight weight_def prod_list.rev)
  have "digits_value (rev (map length (g # groups))) (rev (p # ps))
      = p * length (product_lists groups) + digits_value (rev (map length groups)) (rev ps)"
    using len by (simp add: digits_value_append length_product_lists_weight weight_def prod_list.rev)
  then show ?case using nth_concat_map_Cons [OF Cons.hyps(1) less] Cons.IH by simp
qed simp

text \<open>The odometer enumerates all choices in lexicographic order.\<close>

lemma id_map_loop_correct:
  assumes "groups \<noteq> []" "list_all2 (\<lambda>p g. p < length g) ps groups"
  shows "id_map_loop groups ps acc
    = Some (acc @ drop (digits_value (rev (map length groups)) (rev ps)) (product_lists groups))"
  using assms(2)
proof (induction "length (product_lists groups) - digits_value (rev (map length groups)) (rev ps)" arbitrary: ps acc rule: less_induct)
  case less
  let ?ss = "rev (map length groups)" and ?N = "length (product_lists groups)"
  let ?v = "digits_value ?ss (rev ps)" and ?adv = "advance_rev ?ss (rev ps)"
  have valid: "list_all2 (<) (rev ps) ?ss" using less.prems by (simp add: list_all2_map2)
  have N: "prod_list ?ss = ?N" by (simp add: length_product_lists_weight weight_def prod_list.rev)
  have lt: "?v < ?N" using digits_value_less [OF valid] N by simp
  have "ps \<noteq> []" using less.prems assms(1) by auto
  then have "hd ps \<noteq> length (hd groups)" using less.prems assms(1) by (cases ps; cases groups) auto
  then have step: "id_map_loop groups ps acc = id_map_loop groups (rev (snd ?adv)) (acc @ [map2 nth groups ps])"
    by (subst id_map_loop.simps) simp
  have now: "map2 nth groups ps = product_lists groups ! ?v" using nth_product_lists [OF less.prems] by simp
  show ?case
  proof (cases "fst ?adv")
    case True
    note adv = advance_rev_correct(1) [OF valid True]
    then have "list_all2 (\<lambda>p g. p < length g) (rev (snd ?adv)) groups"
      by (simp add: list_all2_rev1 list_all2_map2 rev_map)
    then show ?thesis using less.hyps [of "rev (snd ?adv)" "acc @ [map2 nth groups ps]"] adv lt
      by (simp add: step now Cons_nth_drop_Suc)
  next
    case False
    note adv = advance_rev_correct(2) [OF valid False]
    then have "hd (rev (snd ?adv)) = length (hd groups)" using assms(1) by (simp add: hd_map)
    then have "id_map_loop groups (rev (snd ?adv)) (acc @ [map2 nth groups ps]) = Some (acc @ [map2 nth groups ps])"
      by (subst id_map_loop.simps) simp
    moreover have "drop ?v (product_lists groups) = [product_lists groups ! ?v]"
      using Cons_nth_drop_Suc [OF lt] adv N by simp
    ultimately show ?thesis by (simp add: step now)
  qed
qed

lemma skips_rev_correct:
  "j < length ss \<Longrightarrow> skips_rev ss prec ! j = prec * prod_list (take j ss) - 1"
proof (induction ss arbitrary: prec j)
  case (Cons s ss)
  then show ?case by (cases j) (simp_all add: mult.assoc)
qed simp

lemma length_skips_rev [simp]: "length (skips_rev ss prec) = length ss"
  by (induction ss arbitrary: prec) simp_all

lemma skips_correct:
  assumes "j < length groups"
  shows "rev (skips_rev (rev (map length groups)) 1) ! j = weight groups (Suc j) - 1"
proof -
  have "rev (skips_rev (rev (map length groups)) 1) ! j = skips_rev (rev (map length groups)) 1 ! (length groups - Suc j)"
    using assms by (simp add: rev_nth)
  also have "\<dots> = prod_list (take (length groups - Suc j) (rev (map length groups))) - 1"
    using assms by (simp add: skips_rev_correct)
  also have "take (length groups - Suc j) (rev (map length groups)) = rev (map length (drop (Suc j) groups))"
    using assms by (simp add: take_rev drop_map)
  finally show ?thesis by (simp add: weight_def prod_list.rev)
qed

lemma make_id_map_correct:
  "make_id_map groups = (if groups = [] \<or> [] \<in> set groups then Some ([], [])
     else Some (product_lists groups, map (\<lambda>j. weight groups (Suc j) - 1) [0..<length groups]))"
proof (cases "groups = [] \<or> [] \<in> set groups")
  case False
  let ?z = "replicate (length groups) (0::nat)"
  have "list_all2 (\<lambda>p g. p < length g) ?z groups"
    using False by (auto simp: list_all2_conv_all_nth in_set_conv_nth)
  moreover have "digits_value ss (replicate n 0) = 0" for ss n
  proof (induction ss arbitrary: n)
    case (Cons s ss) then show ?case by (cases n) simp_all
  qed simp
  ultimately have "id_map_loop groups ?z [] = Some (product_lists groups)"
    using id_map_loop_correct [of groups ?z "[]"] False by simp
  moreover have "rev (skips_rev (rev (map length groups)) 1) = map (\<lambda>j. weight groups (Suc j) - 1) [0..<length groups]"
    by (rule nth_equalityI) (simp_all add: skips_correct [simplified])
  ultimately show ?thesis using False by (simp add: make_id_map_def)
qed (simp add: make_id_map_def)

section \<open>The search with skips\<close>

lemma weight_dvd: "i \<le> j \<Longrightarrow> weight groups j dvd weight groups i"
proof -
  assume "i \<le> j"
  then have "drop i groups = take (j - i) (drop i groups) @ drop j groups"
    by (metis append_take_drop_id drop_drop le_add_diff_inverse2)
  then have "weight groups i = prod_list (map length (take (j - i) (drop i groups))) * weight groups j"
    unfolding weight_def by (metis map_append prod_list.append)
  then show ?thesis by simp
qed

lemma weight_pos:
  assumes "[] \<notin> set groups"
  shows "0 < weight groups j"
proof -
  have "[] \<notin> set (drop j groups)" using assms by (meson in_set_dropD)
  then have "0 \<notin> set (map length (drop j groups))" by auto
  then show ?thesis unfolding weight_def by (metis gr0I prod_list_zero_iff)
qed

text \<open>A goal's literal of a group depends on the digits up to that group only.\<close>

lemma product_lists_nth_Cons:
  assumes "g < length (product_lists (grp # groups))"
  shows "product_lists (grp # groups) ! g = grp ! (g div weight groups 0) # product_lists groups ! (g mod weight groups 0)"
proof -
  let ?P = "weight groups 0"
  have "g < length grp * ?P" using assms unfolding length_product_lists_weight by (simp add: weight_def)
  then have "?P > 0" "g div ?P < length grp" by (auto simp: less_mult_imp_div_less intro: Nat.gr0I)
  then have "concat (map (\<lambda>x. map (Cons x) (product_lists groups)) grp) ! (g div ?P * length (product_lists groups) + g mod ?P)
      = grp ! (g div ?P) # product_lists groups ! (g mod ?P)"
    by (intro nth_concat_map_Cons) (simp_all add: length_product_lists_weight)
  then show ?thesis unfolding length_product_lists_weight div_mult_mod_eq by simp
qed

lemma goal_literal_cong:
  assumes "g < length (product_lists groups)" "h < length (product_lists groups)" "j < length groups"
    and "g div weight groups (Suc j) = h div weight groups (Suc j)"
  shows "product_lists groups ! g ! j = product_lists groups ! h ! j"
  using assms
proof (induction groups arbitrary: g h j)
  case (Cons grp groups)
  let ?P = "weight groups 0"
  have w: "weight (grp # groups) (Suc i) = weight groups i" for i by (simp add: weight_def)
  note cons = product_lists_nth_Cons [OF Cons.prems(1)] product_lists_nth_Cons [OF Cons.prems(2)]
  show ?case
  proof (cases j)
    case 0
    then show ?thesis using Cons.prems(4) unfolding cons w by simp
  next
    case (Suc i)
    let ?W = "weight groups (Suc i)"
    obtain c where c: "?P = ?W * c" using weight_dvd [of 0 "Suc i" groups] by auto
    have "?P > 0" using Cons.prems(1) unfolding length_product_lists_weight
      by (intro Nat.gr0I) (simp add: weight_def)
    then have W: "?W > 0" unfolding c by simp
    have "(x mod ?P) div ?W = (x div ?W) mod c" for x using W unfolding c mod_mult2_eq by simp
    then have "(g mod ?P) div ?W = (h mod ?P) div ?W" using Cons.prems(4) unfolding Suc w by simp
    moreover have "x mod ?P < length (product_lists groups)" for x
      using \<open>?P > 0\<close> by (simp add: length_product_lists_weight)
    ultimately have "product_lists groups ! (g mod ?P) ! i = product_lists groups ! (h mod ?P) ! i"
      using Cons.IH [of "g mod ?P" "h mod ?P" i] Cons.prems(3) Suc by simp
    then show ?thesis unfolding cons Suc by simp
  qed
qed simp

lemma div_Suc_differs: "0 < c \<Longrightarrow> a div c \<noteq> (a + 1) div c \<Longrightarrow> c dvd a + (1::nat)"
  by (metis Suc_eq_plus1 div_Suc dvd_eq_mod_eq_0)

lemma first_missing_cases:
  assumes "\<forall>l \<in> set ls. has l = Some (l \<in> K)"
  obtains "first_missing has ls = Some None" "set ls \<subseteq> K"
  | j where "first_missing has ls = Some (Some j)" "j < length ls" "ls ! j \<notin> K" "\<forall>i < j. ls ! i \<in> K"
proof -
  have "first_missing has ls = Some None \<and> set ls \<subseteq> K
    \<or> (\<exists>j. first_missing has ls = Some (Some j) \<and> j < length ls \<and> ls ! j \<notin> K \<and> (\<forall>i < j. ls ! i \<in> K))"
    using assms
  proof (induction ls)
    case (Cons l ls)
    show ?case
    proof (cases "l \<in> K")
      case True
      then show ?thesis using Cons by (auto simp: less_Suc_eq_0_disj)
    next
      case False
      then show ?thesis using Cons.prems by auto
    qed
  qed simp
  then show thesis using that by blast
qed

lemma find_upt_skip:
  assumes "a \<le> b" "\<And>h. a \<le> h \<Longrightarrow> h < b \<Longrightarrow> h < n \<Longrightarrow> \<not> P h"
  shows "find P [a..<n] = find P [b..<n]"
proof -
  have "find P [a..<m] = None" if "m \<le> b" "m \<le> n" for m
    using assms(2) that by (auto simp: find_None_iff)
  then show ?thesis
  proof (cases "b \<le> n")
    case True
    have "[a..<n] = [a..<b] @ [b..<n]" using upt_add_eq_append [of a b "n - b"] assms(1) True by simp
    moreover have "find P (xs @ ys) = (case find P xs of None \<Rightarrow> find P ys | Some x \<Rightarrow> Some x)" for xs ys
      by (induction xs) auto
    ultimately show ?thesis using \<open>\<And>m. m \<le> b \<Longrightarrow> m \<le> n \<Longrightarrow> find P [a..<m] = None\<close> [of b] True by simp
  qed (use assms(1) in simp)
qed

lemma find_goal_correct:
  fixes groups :: "'a list list"
  defines "N \<equiv> length (product_lists groups)"
  assumes "[] \<notin> set groups" and has: "\<forall>grp \<in> set groups. \<forall>l \<in> set grp. has l = Some (l \<in> K)"
    and "\<And>j. g < N \<Longrightarrow> first_missing has (product_lists groups ! g) = Some (Some j) \<Longrightarrow> weight groups (Suc j) dvd g"
  shows "find_goal has (product_lists groups) (map (\<lambda>j. weight groups (Suc j) - 1) [0..<length groups]) g
    = Some (find (\<lambda>g. set (product_lists groups ! g) \<subseteq> K) [g..<N])"
  using assms(4)
proof (induction "N - g" arbitrary: g rule: less_induct)
  case less
  let ?goal = "\<lambda>g. product_lists groups ! g" and ?W = "\<lambda>j. weight groups (Suc j)"
  let ?find = "find_goal has (product_lists groups) (map (\<lambda>j. ?W j - 1) [0..<length groups])"
  have len: "length (?goal h) = length groups" if "h < N" for h
    using that in_set_product_lists_length unfolding N_def by (metis nth_mem)
  have lits: "\<forall>l \<in> set (?goal h). has l = Some (l \<in> K)" if "h < N" for h
  proof -
    have "?goal h \<in> set (product_lists groups)" using that unfolding N_def by simp
    then have "list_all2 (\<lambda>x ys. x \<in> set ys) (?goal h) groups" by (simp add: product_lists_set)
    then show ?thesis using has by (fastforce simp: list_all2_conv_all_nth in_set_conv_nth [of _ "?goal h"])
  qed
  show ?case
  proof (cases "g < N")
    case False
    then show ?thesis by (simp add: find_goal.simps N_def)
  next
    case True
    from lits [OF True] show ?thesis
    proof (cases rule: first_missing_cases)
      case 1
      then show ?thesis using True by (subst find_goal.simps) (simp add: N_def upt_conv_Cons)
    next
      case (2 j)
      have j: "j < length groups" "?W j dvd g" using 2 less.prems [OF True 2(1)] len [OF True] by auto
      have W: "0 < ?W j" by (rule weight_pos [OF assms(2)])
      let ?h = "g + ?W j"
      have step: "?find g = ?find ?h"
        using 2(1) True j W by (subst find_goal.simps) (simp add: N_def)
      have skip: "\<not> set (?goal h) \<subseteq> K" if "g \<le> h" "h < ?h" "h < N" for h
      proof -
        obtain a where a: "g = ?W j * a" using j(2) by auto
        have "h div ?W j = g div ?W j"
        proof (rule div_nat_eqI)
          show "?W j * (g div ?W j) \<le> h" using that(1) a W by simp
          show "h < ?W j * Suc (g div ?W j)" using that(2) a W by simp
        qed
        then have "?goal h ! j = ?goal g ! j" using goal_literal_cong [of h groups g j] that(3) True j(1) by (simp add: N_def)
        then show ?thesis using 2(3) len [OF that(3)] j(1) by (metis nth_mem subsetD)
      qed
      have inv: "?W i dvd ?h" if h: "?h < N" and i: "first_missing has (?goal ?h) = Some (Some i)" for i
      proof (cases "j \<le> i")
        case True
        then show ?thesis using weight_dvd [of "Suc j" "Suc i" groups] j(2) by (meson dvd_add dvd_refl dvd_trans Suc_le_mono)
      next
        case False
        obtain c where c: "?W i = ?W j * c" using weight_dvd [of "Suc i" "Suc j" groups] False by auto
        obtain a where a: "g = ?W j * a" using j(2) by auto
        have "?goal ?h ! i \<notin> K" using lits [OF h] by (cases rule: first_missing_cases) (use i in auto)
        moreover have "?goal g ! i \<in> K" using 2(4) False by simp
        ultimately have "g div ?W i \<noteq> ?h div ?W i"
          using goal_literal_cong [of g groups ?h i] h True j(1) False by (auto simp: N_def)
        moreover have "g div ?W i = a div c" "?h div ?W i = (a + 1) div c"
          using W unfolding c a by (simp_all flip: mult_Suc_right add: div_mult2_eq)
        moreover have "0 < c" using weight_pos [OF assms(2), of "Suc i"] unfolding c by simp
        ultimately have "c dvd a + 1" using div_Suc_differs by simp
        then show ?thesis unfolding c a by (metis Suc_eq_plus1 mult_Suc_right add.commute mult_dvd_mono dvd_refl)
      qed
      have "?find ?h = Some (find (\<lambda>g. set (?goal g) \<subseteq> K) [?h..<N])"
        by (rule less.hyps) (use True W inv in auto)
      also have "\<dots> = Some (find (\<lambda>g. set (?goal g) \<subseteq> K) [g..<N])"
        using find_upt_skip [of g ?h N "\<lambda>g. set (?goal g) \<subseteq> K"] skip by simp
      finally show ?thesis unfolding step .
    qed
  qed
qed

lemma find_goal_first:
  assumes "make_id_map groups = Some (id_map, skips)" "\<forall>grp \<in> set groups. \<forall>l \<in> set grp. has l = Some (l \<in> K)"
  shows "find_goal has id_map skips 0 = Some (find (\<lambda>g. set (id_map ! g) \<subseteq> K) [0..<length id_map])"
proof (cases "groups = [] \<or> [] \<in> set groups")
  case True
  then have "id_map = []" using assms(1) by (auto simp: make_id_map_correct)
  then show ?thesis by (simp add: find_goal.simps)
next
  case False
  then have "id_map = product_lists groups" "skips = map (\<lambda>j. weight groups (Suc j) - 1) [0..<length groups]"
    using assms(1) by (simp_all add: make_id_map_correct)
  then show ?thesis using find_goal_correct [of groups has K 0] False assms(2) by simp
qed

section \<open>Properties\<close>

text \<open>
  C31. The numbering of test goals terminates for all groups. When there are groups and none is
  empty, the goals are numbered in lexicographic order of the choice of one literal per group, and
  the skip of a group is one less than the number of goals that share the choices up to that group;
  otherwise there are no goals.
\<close>

theorem make_id_map_enumerates:
  "\<exists>id_map skips. make_id_map groups = Some (id_map, skips)
    \<and> (if groups = [] \<or> [] \<in> set groups then id_map = [] \<and> skips = []
       else id_map = product_lists groups
         \<and> skips = map (\<lambda>j. prod_list (map length (drop (j + 1) groups)) - 1) [0..<length groups])"
  by (cases "groups = [] \<or> [] \<in> set groups") (auto simp: make_id_map_correct weight_def)

text \<open>
  C32. The search that skips blocks of goals finds the same goal as the search that tries them all
  in turn: the first one all of whose literals are satisfied, or none, for any numbering produced
  by \<open>make_id_map\<close> and any satisfied set of literals.
\<close>

theorem find_goal_no_skips:
  assumes "make_id_map groups = Some (id_map, skips)"
  shows "find_goal (\<lambda>l. Some (l \<in> K)) id_map skips 0 = Some (find (\<lambda>g. set (id_map ! g) \<subseteq> K) [0..<length id_map])"
  using find_goal_first [OF assms, of "\<lambda>l. Some (l \<in> K)" K] by simp

theorem find_goal_no_skips_witness:
  "make_id_map [[1, 2], [3], [4, 5, 6 :: nat]] =
     Some ([[1, 3, 4], [1, 3, 5], [1, 3, 6], [2, 3, 4], [2, 3, 5], [2, 3, 6]], [2, 2, 0])
   \<and> find_goal (\<lambda>l :: nat. Some (l \<in> {2, 3, 5})) [[1, 3, 4], [1, 3, 5], [1, 3, 6], [2, 3, 4], [2, 3, 5], [2, 3, 6]] [2, 2, 0] 0 = Some (Some 4)"
proof -
  let ?m = "[[1, 3, 4], [1, 3, 5], [1, 3, 6], [2, 3, 4], [2, 3, 5], [2, 3, 6 :: nat]]"
  have m: "make_id_map [[1, 2], [3], [4, 5, 6 :: nat]] = Some (?m, [2, 2, 0])" by code_simp
  have "find (\<lambda>g. set (?m ! g) \<subseteq> {2, 3, 5}) [0..<length ?m] = Some 4" by code_simp
  then show ?thesis using m find_goal_no_skips [OF m, of "{2, 3, 5}"] by simp
qed

end
