(* ===== verification/Goal_Analysis.thy ===== *)
theory Goal_Analysis
  imports Goal_Ids
begin

text \<open>
  The internal coverage analysis (\<open>Compute_Test_Goals_Boolean::get_satisfied_test_goals\<close> of
  \<open>src/fshell2/fql/evaluation/compute_test_goals.cpp\<close>).

  The automaton of the coverage pattern is simulated along the steps that a test case executes;
  every candidate run collects the literals of the test goals it passes, the set is closed under
  the conjunctions of the coverage pattern, and the first goal all of whose literals are in the
  set is satisfied.

  The map from states to lists of literal sets is the list of its pairs. The maps of the class
  are arguments; a missing entry in the map of disjunctions is a failure, written \<open>None\<close>.
\<close>

section \<open>Closure under conjunctions\<close>

type_synonym and_state = "known_sat \<times> literal list \<times> (literal \<Rightarrow> literal list)"

definition ks_push :: "literal \<Rightarrow> known_sat \<times> literal list \<Rightarrow> known_sat \<times> literal list" where
  "ks_push l st = (case st of (known, new_sat) \<Rightarrow>
     (case ks_insert l known of (inserted, known') \<Rightarrow> (known', if inserted then new_sat @ [l] else new_sat)))"

definition and_entry :: "literal \<times> literal \<Rightarrow> and_state \<Rightarrow> and_state option" where
  "and_entry e st = (case (e, st) of ((sg, other), (known, new_sat, missing)) \<Rightarrow>
     if other = Constant True then Some st
     else (case ks_has known sg of
             None \<Rightarrow> None
           | Some True \<Rightarrow> Some st
           | Some False \<Rightarrow>
               (case ks_has known other of
                  None \<Rightarrow> None
                | Some True \<Rightarrow> (case ks_push sg (known, new_sat) of (known', new_sat') \<Rightarrow> Some (known', new_sat', missing))
                | Some False \<Rightarrow> Some (known, new_sat, missing(other := missing other @ [sg])))))"

primrec and_entries :: "(literal \<times> literal) list \<Rightarrow> and_state \<Rightarrow> and_state option" where
  "and_entries [] st = Some st"
| "and_entries (e # es) st = (case and_entry e st of None \<Rightarrow> None | Some st' \<Rightarrow> and_entries es st')"

partial_function (option) and_loop ::
  "(literal \<times> (literal \<times> literal) list) list \<Rightarrow> known_sat \<Rightarrow> literal list \<Rightarrow> (literal \<Rightarrow> literal list) \<Rightarrow> known_sat option" where
  "and_loop reverse_and known new_sat missing =
     (case new_sat of
        [] \<Rightarrow> Some known
      | s # rest \<Rightarrow>
          (case and_entries (case map_of reverse_and s of None \<Rightarrow> [] | Some es \<Rightarrow> es) (known, rest, missing) of
             None \<Rightarrow> None
           | Some (known1, new1, missing1) \<Rightarrow>
               (case fold ks_push (missing1 s) (known1, new1) of
                  (known2, new2) \<Rightarrow> and_loop reverse_and known2 new2 (missing1(s := [])))))"

declare and_loop.simps [code]

text \<open>What the loop is to compute: the least set that contains the given literals and is closed
  under the conjunctions.\<close>

abbreviation and_rules :: "(literal \<times> (literal \<times> literal) list) list \<Rightarrow> literal \<Rightarrow> (literal \<times> literal) set" where
  "and_rules R s \<equiv> set (case map_of R s of None \<Rightarrow> [] | Some es \<Rightarrow> es)"

inductive conj_closed :: "(literal \<times> (literal \<times> literal) list) list \<Rightarrow> literal set \<Rightarrow> literal \<Rightarrow> bool"
  for R base where
  base: "l \<in> base \<Longrightarrow> conj_closed R base l"
| conj: "conj_closed R base s \<Longrightarrow> (Lit v b, other) \<in> and_rules R s \<Longrightarrow> conj_closed R base other
    \<Longrightarrow> conj_closed R base (Lit v b)"

section \<open>The closure loop is correct\<close>

abbreviation is_lit :: "literal \<Rightarrow> bool" where
  "is_lit l \<equiv> (\<exists>v b. l = Lit v b)"

text \<open>
  The state of the loop: what is known is sound, what is pending is known, and a rule with a known
  first part is applied or waits for its second part, which is unknown or still pending.
\<close>

definition rule_done :: "literal set \<Rightarrow> literal set \<Rightarrow> (literal \<Rightarrow> literal list) \<Rightarrow> literal \<times> literal \<Rightarrow> bool" where
  "rule_done K N missing e \<longleftrightarrow> (case e of (sg, other) \<Rightarrow>
     is_lit sg \<longrightarrow> is_lit other \<longrightarrow> sg \<in> K \<or> ((other \<notin> K \<or> other \<in> N) \<and> sg \<in> set (missing other)))"

definition and_inv :: "(literal \<times> (literal \<times> literal) list) list \<Rightarrow> literal set \<Rightarrow> literal set \<Rightarrow> and_state \<Rightarrow> bool" where
  "and_inv R base N st \<longleftrightarrow> (case st of (known, new_sat, missing) \<Rightarrow>
     ks_ok known \<and> distinct new_sat \<and> set new_sat \<subseteq> N \<and> N \<subseteq> ks_set known \<and> ks_set known \<noteq> {} \<and> base \<subseteq> ks_set known
     \<and> (\<forall>l \<in> ks_set known. conj_closed R base l)
     \<and> (\<forall>other sg. sg \<in> set (missing other) \<longrightarrow> is_lit other \<longrightarrow>
         (\<exists>s \<in> ks_set known. (sg, other) \<in> and_rules R s)))"

lemma ks_nonempty: "ks_ok k \<Longrightarrow> ks_set k \<noteq> {} \<Longrightarrow> m_lits k \<noteq> []"
  by (auto simp: ks_set_def)

lemma ks_has_nonempty:
  "ks_ok k \<Longrightarrow> ks_set k \<noteq> {} \<Longrightarrow> ks_has k l = Some (l = Constant True \<or> l \<in> ks_set k)"
  using ks_nonempty by (cases l) (auto simp: ks_has_correct in_ks_set(2))

lemma ks_push_correct:
  assumes "ks_ok known" "ks_push l (known, new_sat) = (known', new_sat')"
  shows "ks_ok known'" "ks_set known' = ks_set known \<union> {m. m = l \<and> is_lit l}"
    "new_sat' = (if is_lit l \<and> l \<notin> ks_set known then new_sat @ [l] else new_sat)"
  using assms ks_insert_correct [OF assms(1), of l] by (auto simp: ks_push_def split: prod.splits literal.splits)

lemma rule_done_mono:
  assumes "rule_done K N missing e" "K' - K \<subseteq> N'" "N \<subseteq> N'" "K \<subseteq> K'" "\<And>l. set (missing l) \<subseteq> set (missing' l)"
  shows "rule_done K' N' missing' e"
  using assms by (fastforce simp: rule_done_def split: prod.splits)

lemma and_entry_step:
  assumes inv: "and_inv R base N (known, new_sat, missing)" and s: "s \<in> ks_set known" and e: "e \<in> and_rules R s"
  shows "\<exists>known' ps missing'. and_entry e (known, new_sat, missing) = Some (known', new_sat @ ps, missing')
    \<and> and_inv R base (N \<union> set ps) (known', new_sat @ ps, missing')
    \<and> distinct ps \<and> set ps \<inter> ks_set known = {} \<and> ks_set known' = ks_set known \<union> set ps
    \<and> (\<forall>l. set (missing l) \<subseteq> set (missing' l)) \<and> rule_done (ks_set known') (N \<union> set ps) missing' e"
proof -
  obtain sg other where e': "e = (sg, other)" by (cases e)
  note inv' = inv [unfolded and_inv_def prod.case]
  have has: "ks_has known l = Some (l = Constant True \<or> l \<in> ks_set known)" for l using inv' ks_has_nonempty by blast
  have lits: "is_lit l" if "l \<in> ks_set known" for l using that in_ks_set(2) by (cases l) auto
  consider "other = Constant True \<or> sg = Constant True \<or> sg \<in> ks_set known"
    | "other \<noteq> Constant True" "sg \<noteq> Constant True" "sg \<notin> ks_set known" "other \<in> ks_set known"
    | "other \<noteq> Constant True" "sg \<noteq> Constant True" "sg \<notin> ks_set known" "other \<notin> ks_set known" by blast
  then show ?thesis
  proof cases
    case 1
    then have "and_entry e (known, new_sat, missing) = Some (known, new_sat @ [], missing)"
      by (auto simp: and_entry_def e' has)
    moreover have "rule_done (ks_set known) (N \<union> set []) missing e" using 1 by (auto simp: rule_done_def e')
    ultimately show ?thesis using inv by (intro exI conjI) auto
  next
    case 2
    obtain known' new' where push: "ks_push sg (known, new_sat) = (known', new')" by (cases "ks_push sg (known, new_sat)")
    note p = ks_push_correct [OF _ push]
    let ?ps = "if is_lit sg then [sg] else []"
    have run: "and_entry e (known, new_sat, missing) = Some (known', new_sat @ ?ps, missing)"
      using 2 p(3) inv' by (auto simp: and_entry_def e' has push)
    have K: "ks_set known' = ks_set known \<union> set ?ps" using p(2) inv' by auto
    have "conj_closed R base sg" if "is_lit sg"
      using that e s inv' 2(4) unfolding e' by (metis conj_closed.conj)
    then have "and_inv R base (N \<union> set ?ps) (known', new_sat @ ?ps, missing)"
      using inv' p(1) K 2(3) unfolding and_inv_def prod.case by (auto split: if_splits)
    moreover have "rule_done (ks_set known') (N \<union> set ?ps) missing e" using K by (auto simp: rule_done_def e')
    moreover have "distinct ?ps" "set ?ps \<inter> ks_set known = {}" using 2(3) by auto
    ultimately show ?thesis using run K by (intro exI conjI) auto
  next
    case 3
    let ?m = "missing(other := missing other @ [sg])"
    have "and_entry e (known, new_sat, missing) = Some (known, new_sat @ [], ?m)"
      using 3 by (auto simp: and_entry_def e' has)
    moreover have "and_inv R base (N \<union> set []) (known, new_sat @ [], ?m)"
      using inv' s e unfolding and_inv_def prod.case e' by (auto split: if_splits)
    moreover have "rule_done (ks_set known) (N \<union> set []) ?m e" using 3 by (auto simp: rule_done_def e')
    ultimately show ?thesis by (intro exI conjI) auto
  qed
qed

lemma and_entries_step:
  assumes "and_inv R base N (known, new_sat, missing)" "s \<in> ks_set known" "set es \<subseteq> and_rules R s"
  shows "\<exists>known' ps missing'. and_entries es (known, new_sat, missing) = Some (known', new_sat @ ps, missing')
    \<and> and_inv R base (N \<union> set ps) (known', new_sat @ ps, missing')
    \<and> distinct ps \<and> set ps \<inter> ks_set known = {} \<and> ks_set known' = ks_set known \<union> set ps
    \<and> (\<forall>l. set (missing l) \<subseteq> set (missing' l)) \<and> (\<forall>e \<in> set es. rule_done (ks_set known') (N \<union> set ps) missing' e)"
  using assms
proof (induction es arbitrary: known new_sat missing N)
  case Nil
  then show ?case by (intro exI [of _ known] exI [of _ "[]"] exI [of _ missing]) auto
next
  case (Cons e es)
  obtain k1 p1 m1 where step: "and_entry e (known, new_sat, missing) = Some (k1, new_sat @ p1, m1)"
      "and_inv R base (N \<union> set p1) (k1, new_sat @ p1, m1)" "distinct p1" "set p1 \<inter> ks_set known = {}"
      "ks_set k1 = ks_set known \<union> set p1" "\<forall>l. set (missing l) \<subseteq> set (m1 l)" "rule_done (ks_set k1) (N \<union> set p1) m1 e"
    using and_entry_step [OF Cons.prems(1,2), of e] Cons.prems(3) by auto
  obtain k2 p2 m2 where rest: "and_entries es (k1, new_sat @ p1, m1) = Some (k2, (new_sat @ p1) @ p2, m2)"
      "and_inv R base (N \<union> set p1 \<union> set p2) (k2, (new_sat @ p1) @ p2, m2)" "distinct p2" "set p2 \<inter> ks_set k1 = {}"
      "ks_set k2 = ks_set k1 \<union> set p2" "\<forall>l. set (m1 l) \<subseteq> set (m2 l)"
      "\<forall>e \<in> set es. rule_done (ks_set k2) (N \<union> set p1 \<union> set p2) m2 e"
    using Cons.IH [OF step(2)] Cons.prems(2,3) step(5) by auto
  have "rule_done (ks_set k2) (N \<union> set p1 \<union> set p2) m2 e"
    by (rule rule_done_mono [OF step(7)]) (use rest(5,6) in auto)
  moreover have "\<forall>l. set (missing l) \<subseteq> set (m2 l)" using step(6) rest(6) by blast
  ultimately show ?case using step(1-5) rest(1-5,7)
    by (intro exI [of _ k2] exI [of _ "p1 @ p2"] exI [of _ m2]) (auto simp: Un_assoc)
qed

lemma push_all_step:
  assumes "ks_ok known" "set new_sat \<subseteq> ks_set known" "distinct new_sat"
  shows "\<exists>known' ps. fold ks_push ls (known, new_sat) = (known', new_sat @ ps) \<and> ks_ok known'
    \<and> distinct (new_sat @ ps) \<and> set ps \<inter> ks_set known = {} \<and> ks_set known' = ks_set known \<union> set ps
    \<and> set ps \<subseteq> {l \<in> set ls. is_lit l} \<and> {l \<in> set ls. is_lit l} \<subseteq> ks_set known'"
  using assms
proof (induction ls arbitrary: known new_sat)
  case Nil
  then show ?case by (intro exI [of _ known] exI [of _ "[]"]) auto
next
  case (Cons l ls)
  obtain k1 n1 where push: "ks_push l (known, new_sat) = (k1, n1)" by (cases "ks_push l (known, new_sat)")
  note p = ks_push_correct [OF Cons.prems(1) push]
  obtain p1 where n1: "n1 = new_sat @ p1" "ks_set k1 = ks_set known \<union> set p1" "set p1 \<inter> ks_set known = {}"
    "set p1 \<subseteq> {m. m = l \<and> is_lit m}" "is_lit l \<longrightarrow> l \<in> ks_set k1" "distinct p1"
    by (rule that [of "if is_lit l \<and> l \<notin> ks_set known then [l] else []"]) (use p in auto)
  have "set n1 \<subseteq> ks_set k1" "distinct n1" using n1 Cons.prems by auto
  from Cons.IH [OF p(1) this] obtain k2 p2 where rest: "fold ks_push ls (k1, n1) = (k2, n1 @ p2)" "ks_ok k2"
    "distinct (n1 @ p2)" "set p2 \<inter> ks_set k1 = {}" "ks_set k2 = ks_set k1 \<union> set p2"
    "set p2 \<subseteq> {l \<in> set ls. is_lit l}" "{l \<in> set ls. is_lit l} \<subseteq> ks_set k2" by blast
  show ?case
  proof (intro exI conjI)
    show "fold ks_push (l # ls) (known, new_sat) = (k2, new_sat @ (p1 @ p2))" using rest(1) push n1(1) by simp
    show "distinct (new_sat @ (p1 @ p2))" using rest(3) n1(1) by simp
    show "set (p1 @ p2) \<inter> ks_set known = {}" using rest(4) n1(2,3) by auto
    show "ks_set k2 = ks_set known \<union> set (p1 @ p2)" using rest(5) n1(2) by auto
    show "set (p1 @ p2) \<subseteq> {m \<in> set (l # ls). is_lit m}" using rest(6) n1(4) by auto
    show "{m \<in> set (l # ls). is_lit m} \<subseteq> ks_set k2" using rest(5,7) n1(5) by auto
  qed (rule rest(2))
qed

text \<open>The loop ends with the closure.\<close>

lemma finite_rules: "finite {sg. \<exists>s other. (sg, other) \<in> and_rules R s}"
proof (rule finite_subset)
  show "{sg. \<exists>s other. (sg, other) \<in> and_rules R s} \<subseteq> (\<Union>(s, es) \<in> set R. fst ` set es)"
  proof safe
    fix sg s other
    assume "(sg, other) \<in> and_rules R s"
    then obtain es where "map_of R s = Some es" "(sg, other) \<in> set es" by (cases "map_of R s") auto
    then show "sg \<in> (\<Union>(s, es) \<in> set R. fst ` set es)" using map_of_SomeD by force
  qed
qed auto

lemma and_loop_correct:
  assumes "finite base" "\<forall>l \<in> base. is_lit l"
    and "and_inv R base (set new_sat) (known, new_sat, missing)"
    and "\<forall>t \<in> ks_set known - set new_sat. \<forall>e \<in> and_rules R t. rule_done (ks_set known) (set new_sat) missing e"
  shows "\<exists>known'. and_loop R known new_sat missing = Some known' \<and> ks_ok known' \<and> ks_set known' = {l. conj_closed R base l}"
proof -
  define U where "U = base \<union> {sg. \<exists>s other. (sg, other) \<in> and_rules R s}"
  have "finite U" using assms(1) finite_rules by (simp add: U_def)
  have U: "l \<in> U" if "conj_closed R base l" for l using that by cases (auto simp: U_def)
  have lit: "is_lit l" if "conj_closed R base l" for l using that by cases (use assms(2) in auto)
  show ?thesis using assms(3,4)
  proof (induction "length new_sat + card (U - ks_set known)" arbitrary: known new_sat missing rule: less_induct)
    case less
    note inv = less.prems(1) [unfolded and_inv_def prod.case]
    show ?case
    proof (cases new_sat)
      case Nil
      have "l \<in> ks_set known" if "conj_closed R base l" for l
        using that
      proof induction
        case (conj s v b other)
        then have "rule_done (ks_set known) {} missing (Lit v b, other)" using less.prems(2) Nil by auto
        then show ?case using conj lit [OF conj.hyps(3)] by (auto simp: rule_done_def)
      qed (use inv in auto)
      moreover have "and_loop R known new_sat missing = Some known" by (subst and_loop.simps) (simp add: Nil)
      ultimately show ?thesis using inv by auto
    next
      case (Cons s rest)
      have s: "s \<in> ks_set known" "conj_closed R base s" using inv Cons by auto
      have inv0: "and_inv R base (set new_sat) (known, rest, missing)" using inv Cons by (auto simp: and_inv_def)
      obtain k1 p1 m1 where one: "and_entries (case map_of R s of None \<Rightarrow> [] | Some es \<Rightarrow> es) (known, rest, missing) = Some (k1, rest @ p1, m1)"
          "and_inv R base (set new_sat \<union> set p1) (k1, rest @ p1, m1)" "distinct p1" "set p1 \<inter> ks_set known = {}"
          "ks_set k1 = ks_set known \<union> set p1" "\<forall>l. set (missing l) \<subseteq> set (m1 l)"
          "\<forall>e \<in> and_rules R s. rule_done (ks_set k1) (set new_sat \<union> set p1) m1 e"
        using and_entries_step [OF inv0 s(1) subset_refl] by blast
      note inv1 = one(2) [unfolded and_inv_def prod.case]
      have r1: "ks_ok k1" "set (rest @ p1) \<subseteq> ks_set k1" "distinct (rest @ p1)" using inv1 by auto
      obtain k2 p2 where two: "fold ks_push (m1 s) (k1, rest @ p1) = (k2, (rest @ p1) @ p2)" "ks_ok k2"
          "distinct ((rest @ p1) @ p2)" "set p2 \<inter> ks_set k1 = {}" "ks_set k2 = ks_set k1 \<union> set p2"
          "set p2 \<subseteq> {l \<in> set (m1 s). is_lit l}" "{l \<in> set (m1 s). is_lit l} \<subseteq> ks_set k2"
        using push_all_step [OF r1, of "m1 s"] by (elim exE conjE) (rule that)
      let ?new = "(rest @ p1) @ p2" and ?m = "m1(s := [])"
      have run: "and_loop R known new_sat missing = and_loop R k2 ?new ?m"
        by (subst and_loop.simps) (simp add: Cons one(1) two(1))
      have closed2: "conj_closed R base l" if "l \<in> set p2" for l
      proof -
        have "l \<in> set (m1 s)" "is_lit l" using that two(6) by auto
        then obtain t where "t \<in> ks_set k1" "(l, s) \<in> and_rules R t" using inv1 lit [OF s(2)] by blast
        then show ?thesis using inv1 s(2) \<open>is_lit l\<close> conj_closed.conj by metis
      qed
      have inv2: "and_inv R base (set ?new) (k2, ?new, ?m)"
        unfolding and_inv_def prod.case
      proof (intro conjI allI impI)
        show "set ?new \<subseteq> ks_set k2" "ks_set k2 \<noteq> {}" "base \<subseteq> ks_set k2" "Ball (ks_set k2) (conj_closed R base)"
          using inv1 two(5) closed2 by auto
        show "\<exists>t \<in> ks_set k2. (sg, other) \<in> and_rules R t" if "sg \<in> set (?m other)" "is_lit other" for other sg
        proof -
          have "sg \<in> set (m1 other)" using that(1) by (simp split: if_splits)
          then have "\<exists>t \<in> ks_set k1. (sg, other) \<in> and_rules R t" using inv1 that(2) by blast
          then show ?thesis unfolding two(5) by blast
        qed
      qed (use two in auto)
      have done2: "\<forall>t \<in> ks_set k2 - set ?new. \<forall>e \<in> and_rules R t. rule_done (ks_set k2) (set ?new) ?m e"
      proof (intro ballI)
        fix t e assume t: "t \<in> ks_set k2 - set ?new" and e: "e \<in> and_rules R t"
        have "rule_done (ks_set k1) (set new_sat \<union> set p1) m1 e"
        proof (cases "t = s")
          case True
          then show ?thesis using one(7) e by blast
        next
          case False
          then have "t \<in> ks_set known - set new_sat" using t one(5) two(5) Cons by auto
          then have "rule_done (ks_set known) (set new_sat) missing e" using less.prems(2) e by blast
          then show ?thesis by (rule rule_done_mono) (use one(5,6) in auto)
        qed
        then show "rule_done (ks_set k2) (set ?new) ?m e"
          using two(5,7) Cons unfolding rule_done_def by (auto split: prod.splits)
      qed
      have fewer: "length ?new + card (U - ks_set k2) < length new_sat + card (U - ks_set known)"
      proof -
        have "set (p1 @ p2) \<subseteq> U - ks_set known" using one(4,5) two(4,5) inv1 closed2 U by auto
        moreover have "distinct (p1 @ p2)" "U - ks_set k2 = U - ks_set known - set (p1 @ p2)" using two(3,5) one(5) by auto
        ultimately have "card (U - ks_set k2) + length (p1 @ p2) = card (U - ks_set known)"
          using \<open>finite U\<close> by (metis card_Diff_subset card_mono distinct_card finite_Diff finite_set le_add_diff_inverse2)
        then show ?thesis using Cons by simp
      qed
      show ?thesis unfolding run by (rule less.hyps [OF fewer inv2 done2])
    qed
  qed
qed

text \<open>The closure of a set of collected literals, as the function runs it.\<close>

definition close_literals :: "(literal \<times> (literal \<times> literal) list) list \<Rightarrow> literal list \<Rightarrow> known_sat option" where
  "close_literals reverse_and lits = and_loop reverse_and (ks_init lits) lits (\<lambda>l. [])"

lemma close_literals_correct:
  assumes "distinct lits" "\<forall>l \<in> set lits. is_lit l"
  shows "\<exists>known. close_literals R lits = Some known \<and> ks_ok known \<and> ks_set known = {l. conj_closed R (set lits) l}"
proof (cases "lits = []")
  case True
  have "\<not> conj_closed R {} l" for l
  proof
    assume "conj_closed R {} l" then show False by induction simp_all
  qed
  then show ?thesis using True ks_init_correct [of "[]"]
    by (simp add: close_literals_def and_loop.simps)
next
  case False
  have "proper lits = set lits" using assms(2) by auto
  then have init: "ks_ok (ks_init lits)" "ks_set (ks_init lits) = set lits" using ks_init_correct [of lits] by auto
  have "and_inv R (set lits) (set lits) (ks_init lits, lits, \<lambda>l. [])"
    using init assms(1) False by (auto simp: and_inv_def intro: conj_closed.base)
  then show ?thesis unfolding close_literals_def
    by (rule and_loop_correct [OF finite_set assms(2)]) (simp add: init)
qed

section \<open>Simulation\<close>

record edge_goal =
  m_edge_guard :: literal
  m_tg :: literal
  m_src :: nat
  m_dest :: nat

record ssa_step =
  s_shared :: bool
  s_guard :: literal
  s_instrumented :: bool
  s_edges :: "edge_goal list"
  s_nodes :: "edge_goal list"
  s_repeat :: "nat option"

text \<open>The truth value of a literal in a test case.\<close>

fun l_true :: "(nat \<Rightarrow> bool) \<Rightarrow> literal \<Rightarrow> bool" where
  "l_true \<alpha> (Constant c) = c"
| "l_true \<alpha> (Lit v s) = (\<alpha> v \<noteq> s)"

type_synonym candidates = "(nat \<times> literal list) list"

text \<open>One transition on all candidates in its source state.\<close>

definition take_edge ::
  "(nat \<Rightarrow> bool) \<Rightarrow> (literal \<rightharpoonup> literal list) \<Rightarrow> edge_goal \<Rightarrow> candidates \<Rightarrow> candidates option" where
  "take_edge is_test_goal_state reverse_or eg current =
     (let at_src = filter (\<lambda>c. fst c = m_src eg) current in
      if at_src = [] then Some []
      else if is_test_goal_state (m_dest eg) then
        (case reverse_or (m_tg eg) of
           None \<Rightarrow> None
         | Some ors \<Rightarrow> Some (map (\<lambda>c. (m_dest eg, fold insort_insert (filter (\<lambda>l. l \<noteq> Constant True) ors) (snd c))) at_src))
      else Some (map (\<lambda>c. (m_dest eg, snd c)) at_src))"

primrec take_edges ::
  "(nat \<Rightarrow> bool) \<Rightarrow> (nat \<Rightarrow> bool) \<Rightarrow> (literal \<rightharpoonup> literal list) \<Rightarrow> candidates \<Rightarrow> edge_goal list \<Rightarrow> candidates \<Rightarrow> candidates option" where
  "take_edges \<alpha> is_test_goal_state reverse_or current [] next_states = Some next_states"
| "take_edges \<alpha> is_test_goal_state reverse_or current (eg # egs) next_states =
     (if l_true \<alpha> (m_edge_guard eg) then
        (case take_edge is_test_goal_state reverse_or eg current of
           None \<Rightarrow> None
         | Some reached \<Rightarrow> take_edges \<alpha> is_test_goal_state reverse_or current egs (next_states @ reached))
      else take_edges \<alpha> is_test_goal_state reverse_or current egs next_states)"

definition sim_round ::
  "(nat \<Rightarrow> bool) \<Rightarrow> (nat \<Rightarrow> bool) \<Rightarrow> (literal \<rightharpoonup> literal list) \<Rightarrow> bool \<Rightarrow> edge_goal list \<Rightarrow> candidates \<Rightarrow> candidates option" where
  "sim_round \<alpha> is_test_goal_state reverse_or may_skip egs current =
     (if egs = [] then Some current
      else take_edges \<alpha> is_test_goal_state reverse_or current egs (if may_skip then current else []))"

text \<open>The rounds of a step: the node transitions as often as recorded, then the edges.\<close>

primrec node_rounds ::
  "(nat \<Rightarrow> bool) \<Rightarrow> (nat \<Rightarrow> bool) \<Rightarrow> (literal \<rightharpoonup> literal list) \<Rightarrow> edge_goal list \<Rightarrow> nat \<Rightarrow> candidates \<Rightarrow> candidates option" where
  "node_rounds \<alpha> is_test_goal_state reverse_or nodes 0 current = Some current"
| "node_rounds \<alpha> is_test_goal_state reverse_or nodes (Suc n) current =
     (case sim_round \<alpha> is_test_goal_state reverse_or True nodes current of
        None \<Rightarrow> None
      | Some current' \<Rightarrow> node_rounds \<alpha> is_test_goal_state reverse_or nodes n current')"

definition sim_step ::
  "(nat \<Rightarrow> bool) \<Rightarrow> (nat \<Rightarrow> bool) \<Rightarrow> (literal \<rightharpoonup> literal list) \<Rightarrow> ssa_step \<Rightarrow> candidates \<Rightarrow> candidates option" where
  "sim_step \<alpha> is_test_goal_state reverse_or step current =
     (if s_shared step \<or> \<not> l_true \<alpha> (s_guard step) then Some current
      else (case node_rounds \<alpha> is_test_goal_state reverse_or (s_nodes step)
              (case s_repeat step of None \<Rightarrow> 0 | Some n \<Rightarrow> n) current of
              None \<Rightarrow> None
            | Some current' \<Rightarrow> sim_round \<alpha> is_test_goal_state reverse_or (s_instrumented step) (s_edges step) current'))"

primrec simulate ::
  "(nat \<Rightarrow> bool) \<Rightarrow> (nat \<Rightarrow> bool) \<Rightarrow> (literal \<rightharpoonup> literal list) \<Rightarrow> ssa_step list \<Rightarrow> candidates \<Rightarrow> candidates option" where
  "simulate \<alpha> is_test_goal_state reverse_or [] current = Some current"
| "simulate \<alpha> is_test_goal_state reverse_or (step # steps) current =
     (case sim_step \<alpha> is_test_goal_state reverse_or step current of
        None \<Rightarrow> None
      | Some current' \<Rightarrow> simulate \<alpha> is_test_goal_state reverse_or steps current')"

text \<open>The goals of the candidates that end in a final state.\<close>

primrec candidate_goals ::
  "(nat \<Rightarrow> bool) \<Rightarrow> (literal \<times> (literal \<times> literal) list) list \<Rightarrow> literal list list \<Rightarrow> nat list \<Rightarrow> candidates \<Rightarrow> nat list
    \<Rightarrow> nat list option" where
  "candidate_goals final reverse_and id_map skips [] tgs = Some tgs"
| "candidate_goals final reverse_and id_map skips (c # cs) tgs =
     (if final (fst c) then
        (case close_literals reverse_and (snd c) of
           None \<Rightarrow> None
         | Some known \<Rightarrow>
             (case find_goal (ks_has known) id_map skips 0 of
                None \<Rightarrow> None
              | Some None \<Rightarrow> candidate_goals final reverse_and id_map skips cs tgs
              | Some (Some g) \<Rightarrow> candidate_goals final reverse_and id_map skips cs (insort_insert g tgs)))
      else candidate_goals final reverse_and id_map skips cs tgs)"

definition get_satisfied_test_goals ::
  "(nat \<Rightarrow> bool) \<Rightarrow> (nat \<Rightarrow> bool) \<Rightarrow> (nat \<Rightarrow> bool) \<Rightarrow> nat \<Rightarrow> (literal \<rightharpoonup> literal list)
    \<Rightarrow> (literal \<times> (literal \<times> literal) list) list \<Rightarrow> literal list list \<Rightarrow> nat list \<Rightarrow> ssa_step list \<Rightarrow> nat list option" where
  "get_satisfied_test_goals \<alpha> is_test_goal_state final init reverse_or reverse_and id_map skips steps =
     (case simulate \<alpha> is_test_goal_state reverse_or steps [(init, [])] of
        None \<Rightarrow> None
      | Some current \<Rightarrow> candidate_goals final reverse_and id_map skips current [])"

section \<open>Runs\<close>

text \<open>The literals a transition adds.\<close>

definition edge_goals :: "(nat \<Rightarrow> bool) \<Rightarrow> (literal \<rightharpoonup> literal list) \<Rightarrow> edge_goal \<Rightarrow> literal set" where
  "edge_goals is_tgs ror eg =
     (if is_tgs (m_dest eg) then {l. (\<exists>ors. ror (m_tg eg) = Some ors \<and> l \<in> set ors) \<and> l \<noteq> Constant True} else {})"

text \<open>The rounds that a test case performs, and the runs over them: in each round a transition is
  taken, or the round is left out where that is allowed.\<close>

definition step_rounds :: "(nat \<Rightarrow> bool) \<Rightarrow> ssa_step \<Rightarrow> (bool \<times> edge_goal list) list" where
  "step_rounds \<alpha> step = (if s_shared step \<or> \<not> l_true \<alpha> (s_guard step) then []
     else filter (\<lambda>r. snd r \<noteq> [])
       (replicate (case s_repeat step of None \<Rightarrow> 0 | Some n \<Rightarrow> n) (True, s_nodes step) @ [(s_instrumented step, s_edges step)]))"

inductive sim_run :: "(nat \<Rightarrow> bool) \<Rightarrow> (nat \<Rightarrow> bool) \<Rightarrow> (literal \<rightharpoonup> literal list) \<Rightarrow> (bool \<times> edge_goal list) list
    \<Rightarrow> nat \<times> literal set \<Rightarrow> nat \<times> literal set \<Rightarrow> bool"
  for \<alpha> is_tgs ror where
  finished: "sim_run \<alpha> is_tgs ror [] c c"
| skip: "sim_run \<alpha> is_tgs ror rs c d \<Longrightarrow> sim_run \<alpha> is_tgs ror ((True, egs) # rs) c d"
| edge: "eg \<in> set egs \<Longrightarrow> l_true \<alpha> (m_edge_guard eg) \<Longrightarrow>
    sim_run \<alpha> is_tgs ror rs (m_dest eg, S \<union> edge_goals is_tgs ror eg) d \<Longrightarrow>
    sim_run \<alpha> is_tgs ror ((b, egs) # rs) (m_src eg, S) d"

inductive_cases sim_run_NilE [elim!]: "sim_run \<alpha> is_tgs ror [] c d"
inductive_cases sim_run_ConsE: "sim_run \<alpha> is_tgs ror (r # rs) c d"

lemma sim_run_Nil [simp]: "sim_run \<alpha> is_tgs ror [] c d \<longleftrightarrow> d = c"
  by (auto intro: sim_run.finished)

lemma sim_run_Cons:
  "sim_run \<alpha> is_tgs ror ((b, egs) # rs) c d \<longleftrightarrow> b \<and> sim_run \<alpha> is_tgs ror rs c d
    \<or> (\<exists>eg \<in> set egs. l_true \<alpha> (m_edge_guard eg) \<and> m_src eg = fst c
        \<and> sim_run \<alpha> is_tgs ror rs (m_dest eg, snd c \<union> edge_goals is_tgs ror eg) d)"
  by (cases c) (auto intro: sim_run.intros elim!: sim_run_ConsE)

lemma sim_run_append:
  "sim_run \<alpha> is_tgs ror (rs @ ts) c d \<longleftrightarrow> (\<exists>e. sim_run \<alpha> is_tgs ror rs c e \<and> sim_run \<alpha> is_tgs ror ts e d)"
proof (induction rs arbitrary: c)
  case (Cons r rs)
  then show ?case by (cases r) (auto simp: sim_run_Cons)
qed simp

text \<open>Candidates as pairs of a state and a set.\<close>

definition cands :: "candidates \<Rightarrow> (nat \<times> literal set) set" where
  "cands cs = (\<lambda>c. (fst c, set (snd c))) ` set cs"

definition or_known :: "(nat \<Rightarrow> bool) \<Rightarrow> (literal \<rightharpoonup> literal list) \<Rightarrow> edge_goal list \<Rightarrow> bool" where
  "or_known is_tgs ror egs \<longleftrightarrow> (\<forall>eg \<in> set egs. is_tgs (m_dest eg) \<longrightarrow> ror (m_tg eg) \<noteq> None)"

abbreviation distinct_cands :: "candidates \<Rightarrow> bool" where
  "distinct_cands cs \<equiv> (\<forall>c \<in> set cs. distinct (snd c))"

lemma cands_Cons: "cands (c # cs) = insert (fst c, set (snd c)) (cands cs)"
  by (simp add: cands_def)

lemma cands_at: "{S. (q, S) \<in> cands cs} = (\<lambda>c. set (snd c)) ` set (filter (\<lambda>c. fst c = q) cs)"
proof (induction cs)
  case (Cons c cs)
  have "{S. (q, S) \<in> cands (c # cs)} = (if fst c = q then {set (snd c)} else {}) \<union> {S. (q, S) \<in> cands cs}"
    unfolding cands_Cons by auto
  then show ?case unfolding Cons.IH by simp
qed (simp add: cands_def)

lemma take_edge_correct:
  assumes "is_tgs (m_dest eg) \<longrightarrow> ror (m_tg eg) \<noteq> None" "distinct_cands current"
  shows "\<exists>cs. take_edge is_tgs ror eg current = Some cs \<and> distinct_cands cs
    \<and> cands cs = {(m_dest eg, S \<union> edge_goals is_tgs ror eg) |S. (m_src eg, S) \<in> cands current}"
proof -
  let ?at = "filter (\<lambda>c. fst c = m_src eg) current"
  have at: "{S. (m_src eg, S) \<in> cands current} = (\<lambda>c. set (snd c)) ` set ?at" by (rule cands_at)
  have eq: "{(m_dest eg, S \<union> G) |S. (m_src eg, S) \<in> cands current} = (\<lambda>c. (m_dest eg, set (snd c) \<union> G)) ` set ?at" for G
    using at by (auto simp: set_eq_iff image_iff)
  show ?thesis
  proof (cases "is_tgs (m_dest eg)")
    case True
    then obtain ors where ors: "ror (m_tg eg) = Some ors" using assms(1) by auto
    have G: "edge_goals is_tgs ror eg = set (filter (\<lambda>l. l \<noteq> Constant True) ors)"
      using True ors by (auto simp: edge_goals_def)
    show ?thesis unfolding G eq using True ors assms(2)
      by (auto simp: take_edge_def Let_def cands_def image_image set_fold_insort_insert distinct_fold_insort_insert Un_commute filter_empty_conv)
  next
    case False
    then have G: "edge_goals is_tgs ror eg = {}" by (simp add: edge_goals_def)
    show ?thesis unfolding G eq using False assms(2)
      by (auto simp: take_edge_def Let_def cands_def image_image filter_empty_conv)
  qed
qed

lemma take_edges_correct:
  assumes "or_known is_tgs ror egs" "distinct_cands current" "distinct_cands next_states"
  shows "\<exists>cs. take_edges \<alpha> is_tgs ror current egs next_states = Some cs \<and> distinct_cands cs
    \<and> cands cs = cands next_states \<union> {(m_dest eg, S \<union> edge_goals is_tgs ror eg) |eg S.
        eg \<in> set egs \<and> l_true \<alpha> (m_edge_guard eg) \<and> (m_src eg, S) \<in> cands current}"
  using assms
proof (induction egs arbitrary: next_states)
  case (Cons eg egs)
  have known: "is_tgs (m_dest eg) \<longrightarrow> ror (m_tg eg) \<noteq> None" "or_known is_tgs ror egs"
    using Cons.prems(1) by (auto simp: or_known_def)
  show ?case
  proof (cases "l_true \<alpha> (m_edge_guard eg)")
    case True
    obtain cs where cs: "take_edge is_tgs ror eg current = Some cs" "distinct_cands cs"
      "cands cs = {(m_dest eg, S \<union> edge_goals is_tgs ror eg) |S. (m_src eg, S) \<in> cands current}"
      using take_edge_correct [of is_tgs eg ror current] known(1) Cons.prems(2) by blast
    have d: "distinct_cands (next_states @ cs)" using Cons.prems(3) cs(2) by auto
    have app: "cands (next_states @ cs) = cands next_states \<union> cands cs" by (simp add: cands_def image_Un)
    obtain ds where ds: "take_edges \<alpha> is_tgs ror current egs (next_states @ cs) = Some ds" "distinct_cands ds"
      "cands ds = cands (next_states @ cs) \<union> {(m_dest eg, S \<union> edge_goals is_tgs ror eg) |eg S.
        eg \<in> set egs \<and> l_true \<alpha> (m_edge_guard eg) \<and> (m_src eg, S) \<in> cands current}"
      using Cons.IH [OF known(2) Cons.prems(2) d] by blast
    show ?thesis
    proof (intro exI conjI)
      show "take_edges \<alpha> is_tgs ror current (eg # egs) next_states = Some ds" using True cs(1) ds(1) by simp
    qed (use ds(2) in blast, unfold ds(3) app cs(3), use True in auto)
  next
    case False
    then have eq: "e \<in> set (eg # egs) \<and> l_true \<alpha> (m_edge_guard e) \<and> X \<longleftrightarrow> e \<in> set egs \<and> l_true \<alpha> (m_edge_guard e) \<and> X" for e X
      by auto
    show ?thesis unfolding eq using Cons.IH [OF known(2) Cons.prems(2,3)] False by simp
  qed
qed simp

lemma sim_round_correct:
  assumes "or_known is_tgs ror egs" "distinct_cands current" "egs \<noteq> []"
  shows "\<exists>cs. sim_round \<alpha> is_tgs ror b egs current = Some cs \<and> distinct_cands cs
    \<and> cands cs = {d. \<exists>c \<in> cands current. sim_run \<alpha> is_tgs ror [(b, egs)] c d}"
proof -
  have "distinct_cands (if b then current else [])" using assms(2) by simp
  from take_edges_correct [OF assms(1,2) this, of \<alpha>] obtain cs where cs:
    "take_edges \<alpha> is_tgs ror current egs (if b then current else []) = Some cs" "distinct_cands cs"
    "cands cs = cands (if b then current else []) \<union> {(m_dest eg, S \<union> edge_goals is_tgs ror eg) |eg S.
        eg \<in> set egs \<and> l_true \<alpha> (m_edge_guard eg) \<and> (m_src eg, S) \<in> cands current}" by blast
  have "cands [] = {}" by (simp add: cands_def)
  then have "cands cs = {d. \<exists>c \<in> cands current. sim_run \<alpha> is_tgs ror [(b, egs)] c d}"
    unfolding cs(3) sim_run_Cons sim_run_Nil by (cases b) (auto simp: Bex_def split_paired_Ex)
  then show ?thesis using cs(1,2) assms(3) by (simp add: sim_round_def)
qed

text \<open>Any list of rounds, and the whole simulation.\<close>

lemma node_rounds_correct:
  assumes "or_known is_tgs ror nodes" "distinct_cands current"
  shows "\<exists>cs. node_rounds \<alpha> is_tgs ror nodes n current = Some cs \<and> distinct_cands cs
    \<and> cands cs = {d. \<exists>c \<in> cands current. sim_run \<alpha> is_tgs ror (filter (\<lambda>r. snd r \<noteq> []) (replicate n (True, nodes))) c d}"
  using assms(2)
proof (induction n arbitrary: current)
  case (Suc n)
  show ?case
  proof (cases "nodes = []")
    case True
    then show ?thesis using Suc by (simp add: sim_round_def)
  next
    case False
    obtain cs where cs: "sim_round \<alpha> is_tgs ror True nodes current = Some cs" "distinct_cands cs"
      "cands cs = {d. \<exists>c \<in> cands current. sim_run \<alpha> is_tgs ror [(True, nodes)] c d}"
      using sim_round_correct [OF assms(1) Suc.prems False] by blast
    obtain ds where ds: "node_rounds \<alpha> is_tgs ror nodes n cs = Some ds" "distinct_cands ds"
      "cands ds = {d. \<exists>c \<in> cands cs. sim_run \<alpha> is_tgs ror (filter (\<lambda>r. snd r \<noteq> []) (replicate n (True, nodes))) c d}"
      using Suc.IH [OF cs(2)] by blast
    have "filter (\<lambda>r. snd r \<noteq> []) (replicate (Suc n) (True, nodes)) = [(True, nodes)] @ filter (\<lambda>r. snd r \<noteq> []) (replicate n (True, nodes))"
      using False by simp
    then have "cands ds = {d. \<exists>c \<in> cands current. sim_run \<alpha> is_tgs ror (filter (\<lambda>r. snd r \<noteq> []) (replicate (Suc n) (True, nodes))) c d}"
      unfolding ds(3) cs(3) by (simp only: sim_run_append) blast
    then show ?thesis using cs(1) ds(1,2) by simp
  qed
qed simp

lemma sim_step_correct:
  assumes "or_known is_tgs ror (s_nodes step)" "or_known is_tgs ror (s_edges step)" "distinct_cands current"
  shows "\<exists>cs. sim_step \<alpha> is_tgs ror step current = Some cs \<and> distinct_cands cs
    \<and> cands cs = {d. \<exists>c \<in> cands current. sim_run \<alpha> is_tgs ror (step_rounds \<alpha> step) c d}"
proof (cases "s_shared step \<or> \<not> l_true \<alpha> (s_guard step)")
  case True
  then show ?thesis using assms(3) by (auto simp: sim_step_def step_rounds_def)
next
  case False
  let ?n = "case s_repeat step of None \<Rightarrow> 0 | Some n \<Rightarrow> n"
  let ?nodes = "filter (\<lambda>r. snd r \<noteq> []) (replicate ?n (True, s_nodes step))"
  obtain cs where cs: "node_rounds \<alpha> is_tgs ror (s_nodes step) ?n current = Some cs" "distinct_cands cs"
    "cands cs = {d. \<exists>c \<in> cands current. sim_run \<alpha> is_tgs ror ?nodes c d}"
    using node_rounds_correct [OF assms(1,3)] by blast
  have run: "sim_step \<alpha> is_tgs ror step current = sim_round \<alpha> is_tgs ror (s_instrumented step) (s_edges step) cs"
    using False cs(1) by (simp add: sim_step_def)
  have rounds: "step_rounds \<alpha> step = ?nodes @ filter (\<lambda>r. snd r \<noteq> []) [(s_instrumented step, s_edges step)]"
    using False by (simp add: step_rounds_def)
  show ?thesis
  proof (cases "s_edges step = []")
    case True
    then have "sim_step \<alpha> is_tgs ror step current = Some cs" "step_rounds \<alpha> step = ?nodes"
      by (simp_all add: run rounds sim_round_def)
    then show ?thesis using cs(2,3) by simp
  next
    case False
    then have rounds': "step_rounds \<alpha> step = ?nodes @ [(s_instrumented step, s_edges step)]" by (simp add: rounds)
    obtain ds where ds: "sim_round \<alpha> is_tgs ror (s_instrumented step) (s_edges step) cs = Some ds" "distinct_cands ds"
      "cands ds = {d. \<exists>c \<in> cands cs. sim_run \<alpha> is_tgs ror [(s_instrumented step, s_edges step)] c d}"
      using sim_round_correct [OF assms(2) cs(2) False] by blast
    have "cands ds = {d. \<exists>c \<in> cands current. sim_run \<alpha> is_tgs ror (step_rounds \<alpha> step) c d}"
      unfolding ds(3) cs(3) rounds' sim_run_append by blast
    then show ?thesis unfolding run using ds(1,2) by blast
  qed
qed

lemma simulate_correct:
  assumes "\<forall>step \<in> set steps. or_known is_tgs ror (s_nodes step) \<and> or_known is_tgs ror (s_edges step)" "distinct_cands current"
  shows "\<exists>cs. simulate \<alpha> is_tgs ror steps current = Some cs \<and> distinct_cands cs
    \<and> cands cs = {d. \<exists>c \<in> cands current. sim_run \<alpha> is_tgs ror (concat (map (step_rounds \<alpha>) steps)) c d}"
  using assms
proof (induction steps arbitrary: current)
  case (Cons step steps)
  obtain cs where cs: "sim_step \<alpha> is_tgs ror step current = Some cs" "distinct_cands cs"
    "cands cs = {d. \<exists>c \<in> cands current. sim_run \<alpha> is_tgs ror (step_rounds \<alpha> step) c d}"
    using sim_step_correct [of is_tgs ror step current \<alpha>] Cons.prems by auto
  obtain ds where ds: "simulate \<alpha> is_tgs ror steps cs = Some ds" "distinct_cands ds"
    "cands ds = {d. \<exists>c \<in> cands cs. sim_run \<alpha> is_tgs ror (concat (map (step_rounds \<alpha>) steps)) c d}"
    using Cons.IH [OF _ cs(2)] Cons.prems(1) by auto
  have "cands ds = {d. \<exists>c \<in> cands current. sim_run \<alpha> is_tgs ror (concat (map (step_rounds \<alpha>) (step # steps))) c d}"
    unfolding ds(3) cs(3) by (simp add: sim_run_append) blast
  then show ?case using cs(1) ds(1,2) by simp
qed simp

section \<open>The satisfied goals\<close>

definition satisfied_set :: "(literal \<times> (literal \<times> literal) list) list \<Rightarrow> literal set \<Rightarrow> literal set" where
  "satisfied_set R S = {l. l = Constant True \<or> conj_closed R S l}"

definition first_goal :: "literal list list \<Rightarrow> literal set \<Rightarrow> nat option" where
  "first_goal id_map K = find (\<lambda>g. set (id_map ! g) \<subseteq> K) [0..<length id_map]"

lemma candidate_goals_correct:
  assumes ids: "make_id_map groups = Some (id_map, skips)" "\<forall>grp \<in> set groups. \<forall>b. Lit 0 b \<notin> set grp"
    and "distinct_cands cs" "\<forall>c \<in> set cs. \<forall>l \<in> set (snd c). is_lit l"
  shows "\<exists>tgs'. candidate_goals final R id_map skips cs tgs = Some tgs'
    \<and> set tgs' = set tgs \<union> {g. \<exists>q S. (q, S) \<in> cands cs \<and> final q \<and> first_goal id_map (satisfied_set R S) = Some g}"
  using assms(3,4)
proof (induction cs arbitrary: tgs)
  case (Cons c cs)
  let ?G = "\<lambda>S. first_goal id_map (satisfied_set R S)"
  have split: "{g. \<exists>q S. (q, S) \<in> cands (c # cs) \<and> final q \<and> ?G S = Some g}
      = {g. final (fst c) \<and> ?G (set (snd c)) = Some g} \<union> {g. \<exists>q S. (q, S) \<in> cands cs \<and> final q \<and> ?G S = Some g}"
    unfolding cands_Cons by blast
  show ?case
  proof (cases "final (fst c)")
    case True
    obtain known where known: "close_literals R (snd c) = Some known" "ks_ok known" "ks_set known = {l. conj_closed R (set (snd c)) l}"
      using close_literals_correct [of "snd c" R] Cons.prems by auto
    have "ks_has known l = Some (l \<in> satisfied_set R (set (snd c)))" if "grp \<in> set groups" "l \<in> set grp" for grp l
    proof (cases l)
      case (Constant b)
      then show ?thesis using ks_has_correct [OF known(2), of l] known(3) in_ks_set(2) by (auto simp: satisfied_set_def)
    next
      case (Lit v b)
      then have "v \<noteq> 0" using that ids(2) by (cases "v = 0") auto
      then show ?thesis using Lit ks_has_correct [OF known(2), of l] known(3) by (auto simp: satisfied_set_def)
    qed
    then have find: "find_goal (ks_has known) id_map skips 0 = Some (first_goal id_map (satisfied_set R (set (snd c))))"
      using find_goal_first [OF ids(1)] by (simp add: first_goal_def)
    define tgs1 where "tgs1 = (case first_goal id_map (satisfied_set R (set (snd c))) of None \<Rightarrow> tgs | Some g \<Rightarrow> insort_insert g tgs)"
    have "candidate_goals final R id_map skips (c # cs) tgs = candidate_goals final R id_map skips cs tgs1"
      using True known(1) find by (simp add: tgs1_def split: option.splits)
    moreover have "set tgs1 = set tgs \<union> {g. first_goal id_map (satisfied_set R (set (snd c))) = Some g}"
      by (auto simp: tgs1_def set_insort_insert split: option.splits)
    ultimately show ?thesis using Cons.IH [of tgs1] Cons.prems True unfolding split by (simp add: Un_assoc)
  next
    case False
    then show ?thesis using Cons.IH [of tgs] Cons.prems unfolding split by simp
  qed
qed (simp add: cands_def)

lemma sim_run_lits:
  assumes "sim_run \<alpha> is_tgs ror rs c d" "\<forall>tg ors. ror tg = Some ors \<longrightarrow> Constant False \<notin> set ors" "\<forall>l \<in> snd c. is_lit l"
  shows "\<forall>l \<in> snd d. is_lit l"
  using assms(1,3)
proof induction
  case (edge eg egs rs S d b)
  have "is_lit l" if "l \<in> edge_goals is_tgs ror eg" for l
    using that assms(2) by (cases l) (auto simp: edge_goals_def split: if_splits)
  then have "\<forall>l \<in> S \<union> edge_goals is_tgs ror eg. is_lit l" using edge.prems unfolding snd_conv by blast
  then show ?case using edge.IH by simp
qed simp_all



end
