(* ===== verification/Goto_Transformation.thy ===== *)
theory Goto_Transformation
  imports Evaluate_Filter
begin

text \<open>
  Parts of \<open>src/fshell2/instrumentation/goto_transformation.cpp\<close>.
\<close>

section \<open>Branch edges\<close>

text \<open>
  Whether there are instrumented instructions only in front of a destination; \<open>None\<close> stands for
  an iterator that runs past the end of the function.
\<close>

fun only_instrumented :: "targett \<Rightarrow> instructiont list \<Rightarrow> bool option" where
  "only_instrumented dest [] = None"
| "only_instrumented dest (i # rest) =
     (if pc i = dest then Some True
      else if is_instrumented i then only_instrumented dest rest
      else Some False)"

definition is_goto_edge :: "goto_functionst \<Rightarrow> cfa_edge \<Rightarrow> bool option" where
  "is_goto_edge gf e =
     (case map_of gf (fst (fst e)) of
        None \<Rightarrow> None
      | Some fct \<Rightarrow>
          (case dropWhile (\<lambda>i. pc i \<noteq> snd (fst e)) (body fct) of
             [] \<Rightarrow> None
           | i # rest \<Rightarrow>
               if i_type i \<noteq> GOTO then Some False
               else if guard i = Guard_True then Some True
               else if i_location_number i > location_number (snd (snd e)) then Some True
               else map_option Not (only_instrumented (snd (snd e)) rest)))"

end
