(* ===== verification/Automaton_Encoding.thy ===== *)
theory Automaton_Encoding
  imports Trace_Automaton Goto_Transformation Sat_Interface
begin

text \<open>
  The Boolean encoding of a trace automaton
  (\<open>Compute_Test_Goals_Boolean::build\<close>, \<open>do_step\<close> and their helpers in
  \<open>src/fshell2/fql/evaluation/compute_test_goals.cpp\<close>).

  The automaton is simulated along the steps of the program's equation: its state is a bit-vector,
  with a fresh vector per step and clauses that relate it to the previous one. The steps of the
  equation are CBMC's; those parts of them that the program reads are a record. The caches of
  state constants and of equality literals are part of the state.

  The fresh variables are numbered from the given one; the gates are inside the literals of the
  library. The literals recorded for the test goals are kept in the order of their insertion.
  \<open>None\<close> stands for reading past the end of the steps or of a function.
\<close>

section \<open>Steps of the equation\<close>

datatype assignment_typet = STATE_ASSIGN | HIDDEN_ASSIGN | GUARD_ASSIGN | PHI_ASSIGN

datatype ssa_kind =
  LOCATION_STEP | ASSIGNMENT_STEP assignment_typet | FUNCTION_CALL_STEP | ASSUME_STEP | ASSERT_STEP
| SHARED_READ_STEP | SHARED_WRITE_STEP | OTHER_STEP

record 'l symex_step =
  source_pc :: instructiont
  guard_literal :: 'l
  guard_unused :: bool
  step_kind :: ssa_kind

section \<open>State of the encoding\<close>

record 'l trans_entry =
  te_step :: nat
  te_repeat :: "nat option"
  te_guard :: 'l
  te_goal :: "'l option"
  te_src :: state
  te_dest :: state

record 'l enc_state =
  next_var :: nat
  clauses :: "'l list list"
  prev_state :: "'l list"
  reached :: "nat list"
  bv_cache :: "nat \<rightharpoonup> 'l list"
  prev_eq_cache :: "nat \<rightharpoonup> 'l"
  next_eq_cache :: "nat \<rightharpoonup> 'l"
  tg_to_lit :: "((state \<times> cfa_edge) \<times> 'l) list"
  step_to_trans :: "'l trans_entry list"

record enc_env =
  width :: nat
  map_tg :: bool
  reverse_state_map :: "nat \<rightharpoonup> state"
  is_test_goal_state :: "state \<Rightarrow> bool"
  transitions :: "int \<Rightarrow> (nat \<times> nat list) list"
  local_target_graphs :: "int list"

definition state_to_bvt_lookup :: "'l sat_lib \<Rightarrow> nat \<Rightarrow> nat \<Rightarrow> 'l enc_state \<Rightarrow> 'l list \<times> 'l enc_state" where
  "state_to_bvt_lookup L w s st = (case bv_cache st s of
      Some bv \<Rightarrow> (bv, st)
    | None \<Rightarrow> (let bv = map (lit_const L) (build_constant L s w) in (bv, st\<lparr>bv_cache := (bv_cache st)(s \<mapsto> bv)\<rparr>)))"

definition make_equals_prev :: "'l sat_lib \<Rightarrow> nat \<Rightarrow> nat \<Rightarrow> 'l enc_state \<Rightarrow> 'l \<times> 'l enc_state" where
  "make_equals_prev L w s st = (case prev_eq_cache st s of
      Some l \<Rightarrow> (l, st)
    | None \<Rightarrow> (case state_to_bvt_lookup L w s st of (bv, st1) \<Rightarrow>
        let l = bv_equal L (prev_state st) bv in (l, st1\<lparr>prev_eq_cache := (prev_eq_cache st1)(s \<mapsto> l)\<rparr>)))"

definition make_equals_next :: "'l sat_lib \<Rightarrow> nat \<Rightarrow> 'l list \<Rightarrow> nat \<Rightarrow> 'l enc_state \<Rightarrow> 'l \<times> 'l enc_state" where
  "make_equals_next L w next_state s st = (case next_eq_cache st s of
      Some l \<Rightarrow> (l, st)
    | None \<Rightarrow> (case state_to_bvt_lookup L w s st of (bv, st1) \<Rightarrow>
        let l = bv_equal L next_state bv in (l, st1\<lparr>next_eq_cache := (next_eq_cache st1)(s \<mapsto> l)\<rparr>)))"

section \<open>Transitions\<close>

text \<open>The record of a transition for the analysis of test goals.\<close>

definition record_goal ::
  "'l sat_lib \<Rightarrow> enc_env \<Rightarrow> nat \<Rightarrow> nat option \<Rightarrow> 'l \<Rightarrow> cfa_edge \<Rightarrow> nat \<Rightarrow> nat \<Rightarrow> 'l \<Rightarrow> 'l enc_state \<Rightarrow> 'l enc_state" where
  "record_goal L env no reps guard_lit e src s eq st =
     (let unmapped_state = the (reverse_state_map env s);
          goal = (if is_test_goal_state env unmapped_state then Some (lit_and L guard_lit eq) else None)
      in st\<lparr>tg_to_lit := tg_to_lit st @ (case goal of None \<Rightarrow> [] | Some l \<Rightarrow> [((unmapped_state, e), l)]),
           step_to_trans := step_to_trans st @ [\<lparr>te_step = no, te_repeat = reps, te_guard = guard_lit, te_goal = goal,
             te_src = the (reverse_state_map env src), te_dest = unmapped_state\<rparr>]\<rparr>)"

primrec encode_dests ::
  "'l sat_lib \<Rightarrow> enc_env \<Rightarrow> nat \<Rightarrow> nat option \<Rightarrow> 'l \<Rightarrow> cfa_edge \<Rightarrow> 'l list \<Rightarrow> nat \<Rightarrow> nat list \<Rightarrow> 'l enc_state
    \<Rightarrow> 'l list \<times> 'l enc_state" where
  "encode_dests L env no reps guard_lit e next_state src [] st = ([], st)"
| "encode_dests L env no reps guard_lit e next_state src (s # dests) st =
     (case make_equals_next L (width env) next_state s st of (eq, st1) \<Rightarrow>
        let st2 = st1\<lparr>reached := insort_insert s (reached st1)\<rparr>;
            st3 = (if map_tg env then record_goal L env no reps guard_lit e src s eq st2 else st2)
        in case encode_dests L env no reps guard_lit e next_state src dests st3 of (eqs, st4) \<Rightarrow> (eq # eqs, st4))"

primrec encode_sources ::
  "'l sat_lib \<Rightarrow> enc_env \<Rightarrow> nat \<Rightarrow> nat option \<Rightarrow> 'l \<Rightarrow> cfa_edge \<Rightarrow> 'l list \<Rightarrow> (nat \<times> nat list) list \<Rightarrow> 'l enc_state
    \<Rightarrow> 'l list \<times> 'l enc_state" where
  "encode_sources L env no reps guard_lit e next_state [] st = ([], st)"
| "encode_sources L env no reps guard_lit e next_state (t # ts) st =
     (if fst t \<notin> set (reached st) then encode_sources L env no reps guard_lit e next_state ts st
      else
        (case encode_dests L env no reps guard_lit e next_state (fst t) (snd t) st of (dests, st1) \<Rightarrow>
           case make_equals_prev L (width env) (fst t) st1 of (req_src, st2) \<Rightarrow>
             case encode_sources L env no reps guard_lit e next_state ts st2 of (trs, st3) \<Rightarrow>
               (lit_and L req_src (lits_or L dests) # trs, st3)))"

definition encode_graphs ::
  "'l sat_lib \<Rightarrow> enc_env \<Rightarrow> nat \<Rightarrow> nat option \<Rightarrow> 'l \<Rightarrow> cfa_edge \<Rightarrow> 'l list \<Rightarrow> int list \<Rightarrow> 'l enc_state
    \<Rightarrow> 'l list \<times> 'l enc_state" where
  "encode_graphs L env no reps guard_lit e next_state target_graphs st =
     encode_sources L env no reps guard_lit e next_state (concat (map (transitions env) target_graphs)) st"

section \<open>One step\<close>

definition new_state_vector :: "'l sat_lib \<Rightarrow> enc_env \<Rightarrow> 'l enc_state \<Rightarrow> 'l list" where
  "new_state_vector L env st = map (lit_var L) [next_var st..<next_var st + width env]"

definition swap_states :: "'l list \<Rightarrow> 'l enc_state \<Rightarrow> 'l enc_state" where
  "swap_states next_state st =
     st\<lparr>prev_state := next_state, prev_eq_cache := next_eq_cache st, next_eq_cache := Map.empty\<rparr>"

definition encode_node_round ::
  "'l sat_lib \<Rightarrow> enc_env \<Rightarrow> nat \<Rightarrow> nat option \<Rightarrow> 'l \<Rightarrow> cfa_edge \<Rightarrow> int list \<Rightarrow> 'l enc_state \<Rightarrow> 'l enc_state" where
  "encode_node_round L env no reps guard_lit e target_graphs st =
     (let next_state = new_state_vector L env st in
      case encode_graphs L env no reps guard_lit e next_state target_graphs (st\<lparr>next_var := next_var st + width env\<rparr>) of
        (trs, st1) \<Rightarrow>
          swap_states next_state (st1\<lparr>clauses := clauses st1 @
            [[lit_or L (bv_equal L (prev_state st1) next_state) (lit_and L guard_lit (lits_or L trs))]]\<rparr>))"

definition encode_nodes ::
  "'l sat_lib \<Rightarrow> enc_env \<Rightarrow> (cfa_node \<times> int list) list \<Rightarrow> nat \<Rightarrow> 'l symex_step \<Rightarrow> 'l enc_state \<Rightarrow> 'l enc_state" where
  "encode_nodes L env entry no step st =
     (case entry of
        [] \<Rightarrow> st
      | (n, graphs) # _ \<Rightarrow>
          (let target_graphs = filter (\<lambda>g. g \<in> set (local_target_graphs env)) graphs;
               sources = remdups (map fst (concat (map (transitions env) target_graphs)))
           in (encode_node_round L env no (Some (length sources)) (guard_literal step) (n, n) target_graphs ^^ length sources) st))"

text \<open>The guard of the branch of a conditional jump is read from the following steps.\<close>

definition goto_guard_literal :: "'l sat_lib \<Rightarrow> 'l symex_step \<Rightarrow> 'l symex_step list \<Rightarrow> 'l option" where
  "goto_guard_literal L step rest =
     (if i_type (source_pc step) = GOTO \<and> step_kind step = LOCATION_STEP then
        (if guard (source_pc step) = Guard_True then Some (lit_invert L (lit_const L False))
         else (case rest of
             [] \<Rightarrow> None
           | g # rest' \<Rightarrow>
               if step_kind g = ASSIGNMENT_STEP GUARD_ASSIGN then
                 (case rest' of [] \<Rightarrow> None | h # _ \<Rightarrow> Some (lit_invert L (guard_literal h)))
               else Some (lit_invert L (guard_literal g))))
      else Some (lit_const L False))"

text \<open>The edge of the branch among the at most two edges of a jump.\<close>

definition find_goto_edge :: "goto_functionst \<Rightarrow> instructiont \<Rightarrow> (cfa_edge \<times> int list) list \<Rightarrow> cfa_edge option option" where
  "find_goto_edge gf i entry =
     (if i_type i = GOTO then
        (case entry of
           [] \<Rightarrow> Some None
         | (e, graphs) # rest \<Rightarrow>
             (case is_goto_edge gf e of
                None \<Rightarrow> None
              | Some True \<Rightarrow> Some (Some e)
              | Some False \<Rightarrow> (case rest of [] \<Rightarrow> Some None | (e', graphs') # _ \<Rightarrow> Some (Some e'))))
      else Some None)"

primrec encode_edge_list ::
  "'l sat_lib \<Rightarrow> enc_env \<Rightarrow> nat \<Rightarrow> bool \<Rightarrow> 'l \<Rightarrow> 'l \<Rightarrow> cfa_edge option \<Rightarrow> 'l list \<Rightarrow> (cfa_edge \<times> int list) list
    \<Rightarrow> 'l list \<times> 'l \<Rightarrow> 'l enc_state \<Rightarrow> ('l list \<times> 'l) \<times> 'l enc_state" where
  "encode_edge_list L env no instrumented guard_lit goto_guard goto_edge next_state [] acc st = (acc, st)"
| "encode_edge_list L env no instrumented guard_lit goto_guard goto_edge next_state (en # entry) acc st =
     (let target_graphs = filter (\<lambda>g. g \<in> set (local_target_graphs env)) (snd en);
          al = lit_and L guard_lit (if goto_edge = Some (fst en) then goto_guard else lit_invert L goto_guard)
      in case encode_graphs L env no None al (fst en) next_state target_graphs st of (trs, st1) \<Rightarrow>
           (let eq_literal = (if instrumented then bv_equal L (prev_state st1) next_state else snd acc);
                trs' = (if instrumented then trs @ [eq_literal] else trs)
            in encode_edge_list L env no instrumented guard_lit goto_guard goto_edge next_state entry
                 (fst acc @ [al], eq_literal)
                 (st1\<lparr>clauses := clauses st1 @ [[lit_or L (lit_invert L al) (lits_or L trs')]]\<rparr>)))"

definition encode_edges ::
  "'l sat_lib \<Rightarrow> enc_env \<Rightarrow> goto_functionst \<Rightarrow> (cfa_edge \<times> int list) list \<Rightarrow> nat \<Rightarrow> 'l symex_step \<Rightarrow> 'l symex_step list
    \<Rightarrow> 'l enc_state \<Rightarrow> 'l enc_state option" where
  "encode_edges L env gf entry no step rest st =
     (case (goto_guard_literal L step rest, find_goto_edge gf (source_pc step) entry) of
        (Some goto_guard, Some goto_edge) \<Rightarrow>
          (let instrumented = is_instrumented (source_pc step);
               next_state = new_state_vector L env st
           in case encode_edge_list L env no instrumented (guard_literal step) goto_guard goto_edge next_state entry
                ([], lit_const L False) (st\<lparr>next_var := next_var st + width env\<rparr>) of
                ((edge_guards, eq_literal), st1) \<Rightarrow>
                  (let edge = lits_or L edge_guards;
                       eq_literal' = (if \<not> lit_is_true L edge \<and> lit_is_false L eq_literal
                         then bv_equal L (prev_state st1) next_state else eq_literal)
                   in Some (swap_states next_state (st1\<lparr>clauses := clauses st1 @ [[lit_or L edge eq_literal']]\<rparr>))))
      | _ \<Rightarrow> None)"

definition do_step ::
  "'l sat_lib \<Rightarrow> enc_env \<Rightarrow> goto_functionst \<Rightarrow> (targett \<Rightarrow> (cfa_node \<times> int list) list)
    \<Rightarrow> (targett \<Rightarrow> (cfa_edge \<times> int list) list) \<Rightarrow> nat \<Rightarrow> 'l symex_step \<Rightarrow> 'l symex_step list \<Rightarrow> 'l enc_state \<Rightarrow> 'l enc_state option" where
  "do_step L env gf loc_to_node loc_to_edge no step rest st =
     (if goto_guard_literal L step rest = None then None
      else
        (let st1 = encode_nodes L env (loc_to_node (pc (source_pc step))) no step st;
             entry = loc_to_edge (pc (source_pc step))
         in if entry = [] then
              Some (if is_instrumented (source_pc step) then st1
                else st1\<lparr>clauses := clauses st1 @ [[lit_invert L (guard_literal step)]]\<rparr>)
            else encode_edges L env gf entry no step rest st1))"

section \<open>The automaton\<close>

text \<open>An entry of an ordered map, created on first use.\<close>

fun smap_update :: "('k \<Rightarrow> 'k \<Rightarrow> bool) \<Rightarrow> 'k \<Rightarrow> 'v \<Rightarrow> ('v \<Rightarrow> 'v) \<Rightarrow> ('k \<times> 'v) list \<Rightarrow> ('k \<times> 'v) list" where
  "smap_update lt k d f [] = [(k, f d)]"
| "smap_update lt k d f ((k', v) # m) =
     (if lt k' k then (k', v) # smap_update lt k d f m
      else if lt k k' then (k, f d) # (k', v) # m
      else (k', f v) # m)"

record loc_maps =
  local_graphs :: "int list"
  loc_to_nodes :: "targett \<Rightarrow> (cfa_node \<times> int list) list"
  loc_to_edges :: "targett \<Rightarrow> (cfa_edge \<times> int list) list"

definition collect_graph :: "(int \<Rightarrow> cfa) \<Rightarrow> int \<Rightarrow> loc_maps \<Rightarrow> loc_maps" where
  "collect_graph lookup idx m =
     (if idx \<in> set (local_graphs m) then m
      else
        (let tgg = lookup idx;
             edges = fold (\<lambda>e mp. mp(snd (fst e) := smap_update edge_lt e [] (insort_insert idx) (mp (snd (fst e)))))
               (m_edges tgg) (loc_to_edges m);
             nodes = fold (\<lambda>n mp. mp(snd n := smap_update node_lt n [] (insort_insert idx) (mp (snd n))))
               (m_disconnected_nodes tgg) (loc_to_nodes m)
         in m\<lparr>local_graphs := insort_insert idx (local_graphs m), loc_to_nodes := nodes, loc_to_edges := edges\<rparr>))"

definition collect_graphs :: "'a astl \<Rightarrow> 'a \<Rightarrow> (int \<Rightarrow> cfa) \<Rightarrow> loc_maps \<Rightarrow> loc_maps" where
  "collect_graphs N aut lookup m =
     fold (\<lambda>q. fold (\<lambda>e. collect_graph lookup (fst e)) (a_delta2 N aut q)) (a_states N aut) (m\<lparr>local_graphs := []\<rparr>)"

definition add_transition :: "(state \<Rightarrow> nat) \<Rightarrow> state \<Rightarrow> int \<times> state \<Rightarrow> (int \<Rightarrow> (nat \<times> nat list) list) \<Rightarrow> int \<Rightarrow> (nat \<times> nat list) list" where
  "add_transition state_map q e tr =
     tr(fst e := smap_update (<) (state_map q) [] (insort_insert (state_map (snd e))) (tr (fst e)))"

definition build_transitions :: "'a astl \<Rightarrow> 'a \<Rightarrow> (state \<Rightarrow> nat) \<Rightarrow> int \<Rightarrow> (nat \<times> nat list) list" where
  "build_transitions N aut state_map =
     fold (\<lambda>q. fold (add_transition state_map q) (a_delta2 N aut q)) (a_states N aut) (\<lambda>g. [])"

text \<open>The width of the state vector: one bit, and one more for each halving that leaves a rest.\<close>

fun width_loop :: "nat \<Rightarrow> nat \<Rightarrow> nat" where
  "width_loop w num_states = (if num_states div 2 \<noteq> 0 then width_loop (w + 1) (num_states div 2) else w)"

declare width_loop.simps [simp del]

section \<open>All steps\<close>

definition skip_step :: "'l symex_step \<Rightarrow> bool" where
  "skip_step s \<longleftrightarrow> guard_unused s \<or> ignore_function_of (source_pc s) \<or> ignore_instruction (source_pc s)
     \<or> step_kind s \<in> {ASSIGNMENT_STEP HIDDEN_ASSIGN, ASSIGNMENT_STEP GUARD_ASSIGN, ASSIGNMENT_STEP PHI_ASSIGN,
         SHARED_READ_STEP, SHARED_WRITE_STEP}"

text \<open>A further step of the instruction of the previous one.\<close>

definition follow_up :: "'l symex_step \<Rightarrow> 'l symex_step \<Rightarrow> bool" where
  "follow_up p s \<longleftrightarrow> step_kind p = LOCATION_STEP
     \<and> ((\<exists>t. step_kind s = ASSIGNMENT_STEP t) \<or> step_kind s = FUNCTION_CALL_STEP
       \<or> (step_kind s = ASSUME_STEP \<or> step_kind s = ASSERT_STEP) \<and> i_type (source_pc s) = GOTO)"

fun encode_steps ::
  "'l sat_lib \<Rightarrow> enc_env \<Rightarrow> goto_functionst \<Rightarrow> loc_maps \<Rightarrow> 'l symex_step option \<Rightarrow> nat \<Rightarrow> 'l symex_step list
    \<Rightarrow> 'l enc_state \<Rightarrow> 'l enc_state option" where
  "encode_steps L env gf m previous_pc no [] st = Some st"
| "encode_steps L env gf m previous_pc no (s # rest) st =
     (if skip_step s then encode_steps L env gf m previous_pc (no + 1) rest st
      else
        (let same = (case previous_pc of None \<Rightarrow> False | Some p \<Rightarrow> pc (source_pc s) = pc (source_pc p)) in
         if same \<and> follow_up (the previous_pc) s then encode_steps L env gf m previous_pc (no + 1) rest st
         else
           (case do_step L env gf (loc_to_nodes m) (loc_to_edges m) no s rest st of
              None \<Rightarrow> None
            | Some st' \<Rightarrow> encode_steps L env gf m (if same then previous_pc else Some s) (no + 1) rest st')))"

primrec encode_finals :: "'l sat_lib \<Rightarrow> nat \<Rightarrow> nat list \<Rightarrow> 'l enc_state \<Rightarrow> 'l list \<times> 'l enc_state" where
  "encode_finals L w [] st = ([], st)"
| "encode_finals L w (s # finals) st =
     (case make_equals_prev L w s st of (l, st1) \<Rightarrow>
        (case encode_finals L w finals st1 of (ls, st2) \<Rightarrow> (l # ls, st2)))"

definition build ::
  "'l sat_lib \<Rightarrow> 'a astl \<Rightarrow> 'a \<Rightarrow> (int \<Rightarrow> cfa) \<Rightarrow> (state \<Rightarrow> bool) \<Rightarrow> bool \<Rightarrow> goto_functionst \<Rightarrow> 'l symex_step list
    \<Rightarrow> loc_maps \<Rightarrow> nat \<Rightarrow> 'l list list \<Rightarrow> (loc_maps \<times> 'l enc_state) option" where
  "build L N aut lookup is_tgs map_tgs gf steps m n cnf =
     (case compact_state_numbers N aut of (state_map, reverse_map, compact_final) \<Rightarrow>
        (let m1 = collect_graphs N aut lookup m;
             w = width_loop 1 (length (a_states N aut));
             env = \<lparr>width = w, map_tg = map_tgs, reverse_state_map = reverse_map, is_test_goal_state = is_tgs,
               transitions = build_transitions N aut (the \<circ> state_map), local_target_graphs = local_graphs m1\<rparr>;
             init = the (state_map (hd (sorted_list_of_set (a_initial N aut))));
             st0 = \<lparr>next_var = n, clauses = cnf, prev_state = [], reached = [init], bv_cache = Map.empty,
               prev_eq_cache = Map.empty, next_eq_cache = Map.empty, tg_to_lit = [], step_to_trans = []\<rparr>
         in case state_to_bvt_lookup L w init st0 of (bv, st1) \<Rightarrow>
           (case encode_steps L env gf m1 None 0 steps (st1\<lparr>prev_state := bv\<rparr>) of
              None \<Rightarrow> None
            | Some st2 \<Rightarrow>
                (case encode_finals L w (sorted_list_of_set compact_final) st2 of (finals, st3) \<Rightarrow>
                   Some (m1, st3\<lparr>clauses := clauses st3 @ [[lits_or L finals]]\<rparr>)))))"

section \<open>The relation that is encoded\<close>

definition graph_trans :: "enc_env \<Rightarrow> int list \<Rightarrow> nat \<Rightarrow> nat \<Rightarrow> bool" where
  "graph_trans env graphs q q' \<longleftrightarrow> (\<exists>g \<in> set graphs. \<exists>t \<in> set (transitions env g). fst t = q \<and> q' \<in> set (snd t))"

text \<open>A node may be passed with a transition if the step is executed, or without.\<close>

definition node_rel :: "(int list \<Rightarrow> 'q \<Rightarrow> 'q \<Rightarrow> bool) \<Rightarrow> bool \<Rightarrow> int list \<Rightarrow> 'q \<Rightarrow> 'q \<Rightarrow> bool" where
  "node_rel tr executed graphs q q' \<longleftrightarrow> q' = q \<or> executed \<and> tr graphs q q'"

text \<open>
  For the edges with their truth values: each edge taken is a transition, unless it was inserted by
  instrumentation and is left out; with no edge taken the state does not change.
\<close>

definition edges_rel :: "(int list \<Rightarrow> 'q \<Rightarrow> 'q \<Rightarrow> bool) \<Rightarrow> bool \<Rightarrow> (bool \<times> int list) list \<Rightarrow> 'q \<Rightarrow> 'q \<Rightarrow> bool" where
  "edges_rel tr instrumented es q q' \<longleftrightarrow>
     (\<forall>e \<in> set es. fst e \<longrightarrow> tr (snd e) q q' \<or> instrumented \<and> q' = q)
     \<and> ((\<exists>e \<in> set es. fst e) \<or> q' = q)"

definition local_part :: "int list \<Rightarrow> int list \<Rightarrow> int list" where
  "local_part locals graphs = filter (\<lambda>g. g \<in> set locals) graphs"

definition nodes_rel :: "enc_env \<Rightarrow> bool \<Rightarrow> (cfa_node \<times> int list) list \<Rightarrow> nat \<Rightarrow> nat \<Rightarrow> bool" where
  "nodes_rel env executed entry = (case entry of
      [] \<Rightarrow> (=)
    | (n, graphs) # _ \<Rightarrow>
        (let gs = local_part (local_target_graphs env) graphs in
         node_rel (graph_trans env) executed gs ^^ length (remdups (map fst (concat (map (transitions env) gs))))))"

text \<open>An edge is taken if its step is executed and the jump branches along it.\<close>

definition edge_taken ::
  "'l sat_lib \<Rightarrow> assignment \<Rightarrow> 'l symex_step \<Rightarrow> 'l \<Rightarrow> cfa_edge option \<Rightarrow> cfa_edge \<times> int list \<Rightarrow> bool" where
  "edge_taken L \<alpha> step gg ge en \<longleftrightarrow> lit_value L \<alpha> (guard_literal step) \<and> lit_value L \<alpha> gg = (ge = Some (fst en))"

section \<open>Equality literals and caches\<close>

definition env_ok :: "enc_env \<Rightarrow> bool" where
  "env_ok env \<longleftrightarrow> (\<forall>g. \<forall>t \<in> set (transitions env g). fst t < 2 ^ width env \<and> (\<forall>s \<in> set (snd t). s < 2 ^ width env))"

text \<open>Assignments that agree on the variables below a number.\<close>

definition same_below :: "nat \<Rightarrow> assignment \<Rightarrow> assignment \<Rightarrow> bool" where
  "same_below n \<alpha> \<beta> \<longleftrightarrow> (\<forall>v < n. \<alpha> v = \<beta> v)"

lemma same_below_le: "same_below m \<alpha> \<beta> \<Longrightarrow> n \<le> m \<Longrightarrow> same_below n \<alpha> \<beta>"
  by (simp add: same_below_def)

lemma same_below_refl [simp]: "same_below n \<alpha> \<alpha>"
  by (simp add: same_below_def)

lemma same_below_trans: "same_below n \<alpha> \<beta> \<Longrightarrow> same_below n \<beta> \<gamma> \<Longrightarrow> same_below n \<alpha> \<gamma>"
  by (simp add: same_below_def)

text \<open>A literal whose value depends on the variables below a number only.\<close>

definition depends_below :: "'l sat_lib \<Rightarrow> nat \<Rightarrow> 'l \<Rightarrow> bool" where
  "depends_below L n l \<longleftrightarrow> (\<forall>\<alpha> \<beta>. same_below n \<alpha> \<beta> \<longrightarrow> lit_value L \<alpha> l = lit_value L \<beta> l)"

definition clauses_below :: "'l sat_lib \<Rightarrow> nat \<Rightarrow> 'l list list \<Rightarrow> bool" where
  "clauses_below L n cs \<longleftrightarrow> (\<forall>c \<in> set cs. \<forall>l \<in> set c. depends_below L n l)"

context sat_library
begin

abbreviation supported :: "nat \<Rightarrow> 'l \<Rightarrow> bool" where
  "supported \<equiv> depends_below L"

abbreviation supported_clauses :: "nat \<Rightarrow> 'l list list \<Rightarrow> bool" where
  "supported_clauses \<equiv> clauses_below L"

definition supported_vec :: "nat \<Rightarrow> 'l list \<Rightarrow> bool" where
  "supported_vec n bv \<longleftrightarrow> (\<forall>l \<in> set bv. supported n l)"

definition equals_lit :: "'l list \<Rightarrow> nat \<Rightarrow> 'l \<Rightarrow> bool" where
  "equals_lit vec s l \<longleftrightarrow> (\<forall>\<beta>. lit_value L \<beta> l \<longleftrightarrow> bv_value L \<beta> vec = s)"

lemma supported_mono: "supported n l \<Longrightarrow> n \<le> m \<Longrightarrow> supported m l"
  unfolding depends_below_def using same_below_le by blast

lemma supported_vec_mono: "supported_vec n bv \<Longrightarrow> n \<le> m \<Longrightarrow> supported_vec m bv"
  unfolding supported_vec_def using supported_mono by blast

lemma supported_vec_value:
  assumes "supported_vec n bv" "same_below n \<alpha> \<beta>"
  shows "map (lit_value L \<alpha>) bv = map (lit_value L \<beta>) bv"
  using assms by (auto simp: supported_vec_def depends_below_def intro!: map_cong)

lemma supported_and: "supported n l \<Longrightarrow> supported n k \<Longrightarrow> supported n (lit_and L l k)"
  unfolding depends_below_def value_and by blast

lemma supported_or: "supported n l \<Longrightarrow> supported n k \<Longrightarrow> supported n (lit_or L l k)"
  unfolding depends_below_def value_or by blast

lemma supported_invert: "supported n l \<Longrightarrow> supported n (lit_invert L l)"
  unfolding depends_below_def value_invert by blast

lemma supported_lits_or: "(\<And>l. l \<in> set ls \<Longrightarrow> supported n l) \<Longrightarrow> supported n (lits_or L ls)"
  unfolding depends_below_def value_lits_or by blast

lemma supported_const: "supported n (lit_const L c)"
  by (simp add: depends_below_def)

lemma supported_var: "v < n \<Longrightarrow> supported n (lit_var L v)"
  by (simp add: depends_below_def same_below_def)

lemmas supported_intros = supported_and supported_or supported_invert supported_lits_or supported_const supported_var

lemma supported_equal:
  assumes "length a = length b" "supported_vec n a" "supported_vec n b"
  shows "supported n (bv_equal L a b)"
  unfolding depends_below_def [of L n "bv_equal L a b"] value_equal [OF assms(1)]
  using supported_vec_value [OF assms(2)] supported_vec_value [OF assms(3)] by metis

lemma equals_lit_supported: "equals_lit vec s l \<Longrightarrow> supported_vec n vec \<Longrightarrow> supported n l"
  unfolding depends_below_def equals_lit_def bv_value_def using supported_vec_value by metis

lemma equals_constant:
  assumes "length vec = w" "s < 2 ^ w"
  shows "equals_lit vec s (bv_equal L vec (map (lit_const L) (build_constant L s w)))"
proof -
  have "lit_value L \<beta> (bv_equal L vec (map (lit_const L) (build_constant L s w))) \<longleftrightarrow> bv_value L \<beta> vec = s" for \<beta>
    using bits_value_inject [of "map (lit_value L \<beta>) vec" "build_constant L s w"] assms
    by (simp add: value_equal comp_def value_constant bv_value_def)
  then show ?thesis by (simp add: equals_lit_def)
qed

text \<open>The caches hold what they are to hold.\<close>

definition caches_ok :: "nat \<Rightarrow> 'l list \<Rightarrow> 'l enc_state \<Rightarrow> bool" where
  "caches_ok w next_state st \<longleftrightarrow> length (prev_state st) = w
     \<and> (\<forall>s bv. bv_cache st s = Some bv \<longrightarrow> bv = map (lit_const L) (build_constant L s w))
     \<and> (\<forall>s l. prev_eq_cache st s = Some l \<longrightarrow> equals_lit (prev_state st) s l)
     \<and> (\<forall>s l. next_eq_cache st s = Some l \<longrightarrow> equals_lit next_state s l)"

lemma state_to_bvt_lookup_correct:
  assumes "caches_ok w nx st"
  obtains c where "state_to_bvt_lookup L w s st = (map (lit_const L) (build_constant L s w), st\<lparr>bv_cache := c\<rparr>)"
    "caches_ok w nx (st\<lparr>bv_cache := c\<rparr>)"
proof (cases "bv_cache st s")
  case None
  then show thesis using assms
    by (intro that [of "(bv_cache st)(s \<mapsto> map (lit_const L) (build_constant L s w))"])
      (auto simp: state_to_bvt_lookup_def caches_ok_def Let_def)
next
  case (Some bv)
  then show thesis using assms
    by (intro that [of "bv_cache st"]) (auto simp: state_to_bvt_lookup_def caches_ok_def)
qed

lemma make_equals_prev_correct:
  assumes "caches_ok w nx st" "s < 2 ^ w"
  obtains l c d where "make_equals_prev L w s st = (l, st\<lparr>bv_cache := c, prev_eq_cache := d\<rparr>)"
    "equals_lit (prev_state st) s l" "caches_ok w nx (st\<lparr>bv_cache := c, prev_eq_cache := d\<rparr>)"
proof (cases "prev_eq_cache st s")
  case None
  obtain c where c: "state_to_bvt_lookup L w s st = (map (lit_const L) (build_constant L s w), st\<lparr>bv_cache := c\<rparr>)"
    "caches_ok w nx (st\<lparr>bv_cache := c\<rparr>)"
    by (rule state_to_bvt_lookup_correct [OF assms(1)])
  let ?l = "bv_equal L (prev_state st) (map (lit_const L) (build_constant L s w))"
  have eq: "equals_lit (prev_state st) s ?l"
    using assms by (intro equals_constant) (auto simp: caches_ok_def)
  have "make_equals_prev L w s st = (?l, st\<lparr>bv_cache := c, prev_eq_cache := (prev_eq_cache st)(s \<mapsto> ?l)\<rparr>)"
    using None c(1) by (simp add: make_equals_prev_def Let_def)
  then show thesis using eq c(2) by (intro that) (auto simp: caches_ok_def split: if_splits)
next
  case (Some l)
  then have "make_equals_prev L w s st = (l, st\<lparr>bv_cache := bv_cache st, prev_eq_cache := prev_eq_cache st\<rparr>)"
    by (simp add: make_equals_prev_def)
  then show thesis using assms Some by (intro that [where c = "bv_cache st" and d = "prev_eq_cache st"]) (auto simp: caches_ok_def)
qed

lemma make_equals_next_correct:
  assumes "caches_ok w nx st" "s < 2 ^ w" "length nx = w"
  obtains l c d where "make_equals_next L w nx s st = (l, st\<lparr>bv_cache := c, next_eq_cache := d\<rparr>)"
    "equals_lit nx s l" "caches_ok w nx (st\<lparr>bv_cache := c, next_eq_cache := d\<rparr>)"
proof (cases "next_eq_cache st s")
  case None
  obtain c where c: "state_to_bvt_lookup L w s st = (map (lit_const L) (build_constant L s w), st\<lparr>bv_cache := c\<rparr>)"
    "caches_ok w nx (st\<lparr>bv_cache := c\<rparr>)"
    by (rule state_to_bvt_lookup_correct [OF assms(1)])
  let ?l = "bv_equal L nx (map (lit_const L) (build_constant L s w))"
  have eq: "equals_lit nx s ?l" using assms by (intro equals_constant)
  have "make_equals_next L w nx s st = (?l, st\<lparr>bv_cache := c, next_eq_cache := (next_eq_cache st)(s \<mapsto> ?l)\<rparr>)"
    using None c(1) by (simp add: make_equals_next_def Let_def)
  then show thesis using eq c(2) by (intro that) (auto simp: caches_ok_def split: if_splits)
next
  case (Some l)
  then have "make_equals_next L w nx s st = (l, st\<lparr>bv_cache := bv_cache st, next_eq_cache := next_eq_cache st\<rparr>)"
    by (simp add: make_equals_next_def)
  then show thesis using assms Some by (intro that [where c = "bv_cache st" and d = "next_eq_cache st"]) (auto simp: caches_ok_def)
qed

text \<open>Encoding transitions changes caches, reached states and records only.\<close>

definition same_core :: "'l enc_state \<Rightarrow> 'l enc_state \<Rightarrow> bool" where
  "same_core st st' \<longleftrightarrow> next_var st' = next_var st \<and> clauses st' = clauses st \<and> prev_state st' = prev_state st"

lemma same_core_trans: "same_core a b \<Longrightarrow> same_core b c \<Longrightarrow> same_core a c"
  by (simp add: same_core_def)

lemma caches_ok_simps [simp]:
  "caches_ok w nx (st\<lparr>reached := r\<rparr>) = caches_ok w nx st"
  "caches_ok w nx (record_goal L env no reps gl e src s eq st) = caches_ok w nx st"
  by (simp_all add: caches_ok_def record_goal_def Let_def)

lemma record_goal_core [simp]:
  "same_core st (record_goal L env no reps gl e src s eq st)"
  "reached (record_goal L env no reps gl e src s eq st) = reached st"
  by (simp_all add: same_core_def record_goal_def Let_def)

lemma encode_dests_correct:
  assumes "caches_ok (width env) nx st" "length nx = width env" "\<forall>s \<in> set dests. s < 2 ^ width env"
  shows "\<exists>eqs st'. encode_dests L env no reps gl e nx src dests st = (eqs, st') \<and> caches_ok (width env) nx st'
    \<and> same_core st st' \<and> set (reached st') = set (reached st) \<union> set dests \<and> list_all2 (equals_lit nx) dests eqs"
  using assms
proof (induction dests arbitrary: st)
  case (Cons s dests)
  have s: "s < 2 ^ width env" using Cons.prems(3) by simp
  obtain l c d where eq: "make_equals_next L (width env) nx s st = (l, st\<lparr>bv_cache := c, next_eq_cache := d\<rparr>)"
    "equals_lit nx s l" "caches_ok (width env) nx (st\<lparr>bv_cache := c, next_eq_cache := d\<rparr>)"
    by (rule make_equals_next_correct [OF Cons.prems(1) s Cons.prems(2)])
  define st1 where "st1 = st\<lparr>bv_cache := c, next_eq_cache := d\<rparr>"
  note eq = eq [folded st1_def]
  define st2 where "st2 = st1\<lparr>reached := insort_insert s (reached st1)\<rparr>"
  define st3 where "st3 = (if map_tg env then record_goal L env no reps gl e src s l st2 else st2)"
  have st3: "caches_ok (width env) nx st3" "same_core st st3" "set (reached st3) = insert s (set (reached st))"
  proof -
    have "caches_ok (width env) nx st2" "same_core st st2" "set (reached st2) = insert s (set (reached st))"
      using eq(3) by (simp_all add: st2_def st1_def caches_ok_def same_core_def set_insort_insert)
    then show "caches_ok (width env) nx st3" "same_core st st3" "set (reached st3) = insert s (set (reached st))"
      using same_core_trans record_goal_core(1) by (auto simp: st3_def)
  qed
  from Cons.IH [OF st3(1) Cons.prems(2)] Cons.prems(3) obtain eqs st' where
    rest: "encode_dests L env no reps gl e nx src dests st3 = (eqs, st')" "caches_ok (width env) nx st'"
      "same_core st3 st'" "set (reached st') = set (reached st3) \<union> set dests" "list_all2 (equals_lit nx) dests eqs" by auto
  have "encode_dests L env no reps gl e nx src (s # dests) st = (l # eqs, st')"
    by (simp only: encode_dests.simps eq(1) prod.case Let_def st2_def [symmetric] st3_def [symmetric] rest(1))
  then show ?case using rest st3 eq(2) same_core_trans by (intro exI conjI) auto
qed (auto simp: same_core_def)

text \<open>The literals of transitions; \<open>prev\<close> and \<open>nx\<close> are the two state vectors.\<close>

definition trans_lits :: "'l list \<Rightarrow> 'l list \<Rightarrow> nat set \<Rightarrow> (nat \<times> nat list) list \<Rightarrow> 'l list \<Rightarrow> bool" where
  "trans_lits prev nx R ts trs \<longleftrightarrow>
     (\<forall>\<beta>. (\<exists>l \<in> set trs. lit_value L \<beta> l) \<longrightarrow> (\<exists>t \<in> set ts. bv_value L \<beta> prev = fst t \<and> bv_value L \<beta> nx \<in> set (snd t)))
     \<and> (\<forall>\<beta>. bv_value L \<beta> prev \<in> R \<longrightarrow> (\<exists>t \<in> set ts. bv_value L \<beta> prev = fst t \<and> bv_value L \<beta> nx \<in> set (snd t))
         \<longrightarrow> (\<exists>l \<in> set trs. lit_value L \<beta> l))
     \<and> (\<forall>n. supported_vec n prev \<longrightarrow> supported_vec n nx \<longrightarrow> (\<forall>l \<in> set trs. supported n l))"

lemma trans_lits_skip: "trans_lits prev nx R ts trs \<Longrightarrow> fst t \<notin> R \<Longrightarrow> trans_lits prev nx R (t # ts) trs"
  unfolding trans_lits_def by fastforce

lemma trans_lits_mono: "trans_lits prev nx R' ts trs \<Longrightarrow> R \<subseteq> R' \<Longrightarrow> trans_lits prev nx R ts trs"
  unfolding trans_lits_def by blast

lemma trans_lits_Cons:
  assumes "trans_lits prev nx R ts trs" "equals_lit prev (fst t) l" "list_all2 (equals_lit nx) (snd t) eqs"
  shows "trans_lits prev nx R (t # ts) (lit_and L l (lits_or L eqs) # trs)"
proof -
  have dest: "(\<exists>k \<in> set eqs. lit_value L \<beta> k) \<longleftrightarrow> bv_value L \<beta> nx \<in> set (snd t)" for \<beta>
    using assms(3) by (induction rule: list_all2_induct) (auto simp: equals_lit_def)
  have val: "lit_value L \<beta> (lit_and L l (lits_or L eqs)) \<longleftrightarrow> bv_value L \<beta> prev = fst t \<and> bv_value L \<beta> nx \<in> set (snd t)" for \<beta>
    using assms(2) dest by (simp add: equals_lit_def)
  have "supported n (lit_and L l (lits_or L eqs))" if "supported_vec n prev" "supported_vec n nx" for n
  proof (intro supported_intros)
    show "supported n l" using equals_lit_supported assms(2) that(1) by blast
    show "supported n k" if "k \<in> set eqs" for k
      using assms(3) that equals_lit_supported \<open>supported_vec n nx\<close> by (metis in_set_conv_nth list_all2_nthD2)
  qed
  then show ?thesis using assms(1) val unfolding trans_lits_def by auto
qed

lemma encode_sources_correct:
  assumes "caches_ok (width env) nx st" "length nx = width env"
    and "\<forall>t \<in> set ts. fst t < 2 ^ width env \<and> (\<forall>s \<in> set (snd t). s < 2 ^ width env)"
  shows "\<exists>trs st'. encode_sources L env no reps gl e nx ts st = (trs, st') \<and> caches_ok (width env) nx st'
    \<and> same_core st st' \<and> set (reached st) \<subseteq> set (reached st')
    \<and> (\<forall>t \<in> set ts. fst t \<in> set (reached st) \<longrightarrow> set (snd t) \<subseteq> set (reached st'))
    \<and> trans_lits (prev_state st) nx (set (reached st)) ts trs"
  using assms
proof (induction ts arbitrary: st)
  case Nil
  then show ?case by (auto simp: same_core_def trans_lits_def)
next
  case (Cons t ts)
  show ?case
  proof (cases "fst t \<in> set (reached st)")
    case False
    have "\<forall>t \<in> set ts. fst t < 2 ^ width env \<and> (\<forall>s \<in> set (snd t). s < 2 ^ width env)" using Cons.prems(3) by simp
    from Cons.IH [OF Cons.prems(1,2) this] obtain trs st' where
      rest: "encode_sources L env no reps gl e nx ts st = (trs, st')" "caches_ok (width env) nx st'" "same_core st st'"
        "set (reached st) \<subseteq> set (reached st')" "\<forall>t \<in> set ts. fst t \<in> set (reached st) \<longrightarrow> set (snd t) \<subseteq> set (reached st')"
        "trans_lits (prev_state st) nx (set (reached st)) ts trs" by (elim exE conjE)
    show ?thesis using rest False trans_lits_skip [OF rest(6) False] by (intro exI [of _ trs] exI [of _ st']) simp
  next
    case True
    have dsts: "\<forall>s \<in> set (snd t). s < 2 ^ width env" and later: "\<forall>t \<in> set ts. fst t < 2 ^ width env \<and> (\<forall>s \<in> set (snd t). s < 2 ^ width env)"
      using Cons.prems(3) by simp_all
    obtain eqs st1 where d: "encode_dests L env no reps gl e nx (fst t) (snd t) st = (eqs, st1)" "caches_ok (width env) nx st1"
      "same_core st st1" "set (reached st1) = set (reached st) \<union> set (snd t)" "list_all2 (equals_lit nx) (snd t) eqs"
      using encode_dests_correct [OF Cons.prems(1,2) dsts, of no reps gl e "fst t"] by (elim exE conjE) (rule that)
    have src: "fst t < 2 ^ width env" using Cons.prems(3) by simp
    obtain l c p where q: "make_equals_prev L (width env) (fst t) st1 = (l, st1\<lparr>bv_cache := c, prev_eq_cache := p\<rparr>)"
      "equals_lit (prev_state st1) (fst t) l" "caches_ok (width env) nx (st1\<lparr>bv_cache := c, prev_eq_cache := p\<rparr>)"
      by (rule make_equals_prev_correct [OF d(2) src])
    define st2 where "st2 = st1\<lparr>bv_cache := c, prev_eq_cache := p\<rparr>"
    have st2: "caches_ok (width env) nx st2" "same_core st st2" "reached st2 = reached st1" "prev_state st2 = prev_state st"
      using q(3) d(3) by (auto simp: st2_def same_core_def)
    obtain trs st3 where rest: "encode_sources L env no reps gl e nx ts st2 = (trs, st3)" "caches_ok (width env) nx st3"
      "same_core st2 st3" "set (reached st2) \<subseteq> set (reached st3)"
      "\<forall>t \<in> set ts. fst t \<in> set (reached st2) \<longrightarrow> set (snd t) \<subseteq> set (reached st3)"
      "trans_lits (prev_state st2) nx (set (reached st2)) ts trs"
      using Cons.IH [OF st2(1) Cons.prems(2) later] by (elim exE conjE) (rule that)
    have "encode_sources L env no reps gl e nx (t # ts) st = (lit_and L l (lits_or L eqs) # trs, st3)"
      using True d(1) q(1) rest(1) by (simp add: st2_def)
    moreover have "trans_lits (prev_state st) nx (set (reached st)) (t # ts) (lit_and L l (lits_or L eqs) # trs)"
    proof (rule trans_lits_Cons [OF _ _ d(5)])
      show "trans_lits (prev_state st) nx (set (reached st)) ts trs"
        using trans_lits_mono [OF rest(6)] d(4) st2 by auto
      show "equals_lit (prev_state st) (fst t) l" using q(2) d(3) by (simp add: same_core_def)
    qed
    moreover have "same_core st st3" by (rule same_core_trans [OF st2(2) rest(3)])
    moreover have sub: "set (reached st) \<subseteq> set (reached st3)" "set (snd t) \<subseteq> set (reached st3)"
      using rest(4) unfolding st2(3) d(4) by auto
    moreover have "\<forall>t' \<in> set (t # ts). fst t' \<in> set (reached st) \<longrightarrow> set (snd t') \<subseteq> set (reached st3)"
      using rest(5) sub(2) unfolding st2(3) d(4) by simp
    ultimately show ?thesis using rest(2) by blast
  qed
qed

section \<open>Reachable automaton states\<close>

text \<open>
  The states that the previous state vector can have in a model of the clauses that extends an
  assignment of the variables below \<open>n\<^sub>0\<close>.
\<close>

definition states_of :: "nat \<Rightarrow> assignment \<Rightarrow> 'l enc_state \<Rightarrow> nat set" where
  "states_of n\<^sub>0 \<alpha> st = {bv_value L \<beta> (prev_state st) |\<beta>. same_below n\<^sub>0 \<alpha> \<beta> \<and> clauses_hold L \<beta> (clauses st)}"

definition enc_ok :: "nat \<Rightarrow> nat \<Rightarrow> 'l enc_state \<Rightarrow> bool" where
  "enc_ok w n\<^sub>0 st \<longleftrightarrow> n\<^sub>0 \<le> next_var st \<and> supported_vec (next_var st) (prev_state st)
     \<and> supported_clauses (next_var st) (clauses st) \<and> next_eq_cache st = Map.empty \<and> caches_ok w [] st"

lemma supported_clauses_hold:
  assumes "supported_clauses n cs" "same_below n \<alpha> \<beta>"
  shows "clauses_hold L \<alpha> cs = clauses_hold L \<beta> cs"
  using assms unfolding clauses_below_def depends_below_def clauses_hold_def list_all_iff list_ex_iff by blast

lemma supported_clauses_mono: "supported_clauses n cs \<Longrightarrow> n \<le> m \<Longrightarrow> supported_clauses m cs"
  unfolding clauses_below_def using supported_mono by blast

lemma vec_equal_value:
  "length a = length b \<Longrightarrow> lit_value L \<beta> (bv_equal L a b) \<longleftrightarrow> bv_value L \<beta> b = bv_value L \<beta> a"
  using bits_value_inject [of "map (lit_value L \<beta>) a" "map (lit_value L \<beta>) b"] by (auto simp: value_equal bv_value_def)

lemma new_vector:
  "length (new_state_vector L env st) = width env"
  "supported_vec (next_var st + width env) (new_state_vector L env st)"
  "bv_value L \<beta> (new_state_vector L env st) < 2 ^ width env"
proof -
  show len: "length (new_state_vector L env st) = width env" by (simp add: new_state_vector_def)
  show "supported_vec (next_var st + width env) (new_state_vector L env st)"
    by (auto simp: supported_vec_def new_state_vector_def intro: supported_var)
  show "bv_value L \<beta> (new_state_vector L env st) < 2 ^ width env"
    using bv_value_less [of \<beta> "new_state_vector L env st"] len by simp
qed

text \<open>The effect of further clauses that relate the vector to a fresh one.\<close>

lemma extend_round:
  assumes ok: "enc_ok (width env) n\<^sub>0 st"
    and char: "\<And>\<beta>. same_below n\<^sub>0 \<alpha> \<beta> \<Longrightarrow> bv_value L \<beta> (prev_state st) \<in> states_of n\<^sub>0 \<alpha> st \<Longrightarrow>
      clauses_hold L \<beta> cs \<longleftrightarrow> R (bv_value L \<beta> (prev_state st)) (bv_value L \<beta> (new_state_vector L env st))"
    and st': "clauses st' = clauses st @ cs" "prev_state st' = new_state_vector L env st"
  shows "states_of n\<^sub>0 \<alpha> st' = {q'. q' < 2 ^ width env \<and> (\<exists>q \<in> states_of n\<^sub>0 \<alpha> st. R q q')}"
proof -
  let ?nx = "new_state_vector L env st" and ?n = "next_var st" and ?w = "width env"
  have prev: "bv_value L \<beta> (prev_state st) \<in> states_of n\<^sub>0 \<alpha> st"
    if "same_below n\<^sub>0 \<alpha> \<beta>" "clauses_hold L \<beta> (clauses st)" for \<beta> using that by (auto simp: states_of_def)
  have "q' < 2 ^ ?w \<and> (\<exists>q \<in> states_of n\<^sub>0 \<alpha> st. R q q')" if mem: "q' \<in> states_of n\<^sub>0 \<alpha> st'" for q'
  proof -
    obtain \<beta> where \<beta>: "same_below n\<^sub>0 \<alpha> \<beta>" "clauses_hold L \<beta> (clauses st)" "clauses_hold L \<beta> cs" "q' = bv_value L \<beta> ?nx"
      using mem unfolding states_of_def st' by auto
    then show ?thesis using char [OF \<beta>(1) prev [OF \<beta>(1,2)]] prev [OF \<beta>(1,2)] new_vector(3) by auto
  qed
  moreover have "q' \<in> states_of n\<^sub>0 \<alpha> st'" if q': "q' < 2 ^ ?w" "q \<in> states_of n\<^sub>0 \<alpha> st" "R q q'" for q q'
  proof -
    obtain \<beta> where \<beta>: "same_below n\<^sub>0 \<alpha> \<beta>" "clauses_hold L \<beta> (clauses st)" "q = bv_value L \<beta> (prev_state st)"
      using q'(2) unfolding states_of_def by auto
    define \<gamma> where "\<gamma> v = (if v < ?n then \<beta> v else build_constant L q' ?w ! (v - ?n))" for v
    have below: "same_below ?n \<beta> \<gamma>" by (simp add: same_below_def \<gamma>_def)
    have \<alpha>\<gamma>: "same_below n\<^sub>0 \<alpha> \<gamma>"
      using \<beta>(1) same_below_le [OF below] ok same_below_trans unfolding enc_ok_def by blast
    have cl: "clauses_hold L \<gamma> (clauses st)"
      using \<beta>(2) supported_clauses_hold [OF _ below] ok unfolding enc_ok_def by blast
    have pv: "bv_value L \<gamma> (prev_state st) = q"
      using supported_vec_value [OF _ below] ok \<beta>(3) unfolding enc_ok_def bv_value_def by metis
    have "map (lit_value L \<gamma>) ?nx = build_constant L q' ?w"
      by (rule nth_equalityI) (simp_all add: new_state_vector_def \<gamma>_def)
    then have nx: "bv_value L \<gamma> ?nx = q'" using q'(1) by (simp add: bv_value_def value_constant)
    have "clauses_hold L \<gamma> cs" using char [OF \<alpha>\<gamma> prev [OF \<alpha>\<gamma> cl]] pv nx q'(3) by simp
    then show ?thesis unfolding states_of_def st' using \<alpha>\<gamma> cl nx by fastforce
  qed
  ultimately show ?thesis by blast
qed

lemma graph_trans_concat:
  "(\<exists>t \<in> set (concat (map (transitions env) graphs)). q = fst t \<and> q' \<in> set (snd t)) \<longleftrightarrow> graph_trans env graphs q q'"
  by (auto simp: graph_trans_def)

lemma encode_graphs_correct:
  assumes "caches_ok (width env) nx st" "length nx = width env" "env_ok env"
  shows "\<exists>trs st'. encode_graphs L env no reps gl e nx graphs st = (trs, st') \<and> caches_ok (width env) nx st'
    \<and> same_core st st' \<and> set (reached st) \<subseteq> set (reached st')
    \<and> (\<forall>q q'. q \<in> set (reached st) \<longrightarrow> graph_trans env graphs q q' \<longrightarrow> q' \<in> set (reached st'))
    \<and> (\<forall>\<beta>. bv_value L \<beta> (prev_state st) \<in> set (reached st) \<longrightarrow>
        (lit_value L \<beta> (lits_or L trs) \<longleftrightarrow> graph_trans env graphs (bv_value L \<beta> (prev_state st)) (bv_value L \<beta> nx)))
    \<and> (\<forall>n. supported_vec n (prev_state st) \<longrightarrow> supported_vec n nx \<longrightarrow> (\<forall>l \<in> set trs. supported n l))"
proof -
  let ?ts = "concat (map (transitions env) graphs)"
  have "\<forall>t \<in> set ?ts. fst t < 2 ^ width env \<and> (\<forall>s \<in> set (snd t). s < 2 ^ width env)"
    using assms(3) by (auto simp: env_ok_def)
  from encode_sources_correct [OF assms(1,2) this, of no reps gl e] obtain trs st' where
    r: "encode_sources L env no reps gl e nx ?ts st = (trs, st')" "caches_ok (width env) nx st'" "same_core st st'"
      "set (reached st) \<subseteq> set (reached st')" "\<forall>t \<in> set ?ts. fst t \<in> set (reached st) \<longrightarrow> set (snd t) \<subseteq> set (reached st')"
      "trans_lits (prev_state st) nx (set (reached st)) ?ts trs" by (elim exE conjE)
  have "q' \<in> set (reached st')" if "q \<in> set (reached st)" "graph_trans env graphs q q'" for q q'
    using that r(5) unfolding graph_trans_concat [symmetric] by blast
  moreover have "lit_value L \<beta> (lits_or L trs) \<longleftrightarrow> graph_trans env graphs (bv_value L \<beta> (prev_state st)) (bv_value L \<beta> nx)"
    if "bv_value L \<beta> (prev_state st) \<in> set (reached st)" for \<beta>
    using r(6) that unfolding trans_lits_def graph_trans_concat [symmetric] value_lits_or by blast
  ultimately show ?thesis using r unfolding encode_graphs_def trans_lits_def by blast
qed

text \<open>The invariant of the loops: the reached states are an over-approximation.\<close>

definition enc_inv :: "enc_env \<Rightarrow> nat \<Rightarrow> assignment \<Rightarrow> 'l enc_state \<Rightarrow> bool" where
  "enc_inv env n\<^sub>0 \<alpha> st \<longleftrightarrow> enc_ok (width env) n\<^sub>0 st \<and> states_of n\<^sub>0 \<alpha> st \<subseteq> set (reached st)"

lemma states_of_less: "enc_ok w n\<^sub>0 st \<Longrightarrow> q \<in> states_of n\<^sub>0 \<alpha> st \<Longrightarrow> q < 2 ^ w"
  using bv_value_less [of _ "prev_state st"] by (auto simp: states_of_def enc_ok_def caches_ok_def)

lemma graph_trans_less: "env_ok env \<Longrightarrow> graph_trans env graphs q q' \<Longrightarrow> q' < 2 ^ width env"
  by (auto simp: env_ok_def graph_trans_def)

lemma caches_ok_next: "enc_ok w n\<^sub>0 st \<Longrightarrow> caches_ok w nx (st\<lparr>next_var := n\<rparr>)"
  by (simp add: enc_ok_def caches_ok_def)

lemma enc_ok_swap:
  assumes "caches_ok w nx st" "length nx = w" "n\<^sub>0 \<le> next_var st" "supported_vec (next_var st) nx"
    "supported_clauses (next_var st) (clauses st)"
  shows "enc_ok w n\<^sub>0 (swap_states nx st)"
  using assms by (simp add: enc_ok_def swap_states_def caches_ok_def)

lemma encode_node_round_correct:
  fixes no reps e graphs
  assumes inv: "enc_inv env n\<^sub>0 \<alpha> st" and env: "env_ok env" and gl: "supported n\<^sub>0 gl"
  defines "st' \<equiv> encode_node_round L env no reps gl e graphs st"
  shows "enc_inv env n\<^sub>0 \<alpha> st'
    \<and> states_of n\<^sub>0 \<alpha> st' = {q'. \<exists>q \<in> states_of n\<^sub>0 \<alpha> st. node_rel (graph_trans env) (lit_value L \<alpha> gl) graphs q q'}"
proof -
  let ?w = "width env" and ?nx = "new_state_vector L env st" and ?n = "next_var st + width env"
  note ok = inv [unfolded enc_inv_def]
  have ok': "enc_ok ?w n\<^sub>0 st" "states_of n\<^sub>0 \<alpha> st \<subseteq> set (reached st)" using ok by auto
  have ns: "n\<^sub>0 \<le> next_var st" "supported_vec (next_var st) (prev_state st)" "supported_clauses (next_var st) (clauses st)"
    "length (prev_state st) = ?w" using ok'(1) by (auto simp: enc_ok_def caches_ok_def)
  have c0: "caches_ok ?w ?nx (st\<lparr>next_var := ?n\<rparr>)" by (rule caches_ok_next [OF ok'(1)])
  obtain trs st1 where g: "encode_graphs L env no reps gl e ?nx graphs (st\<lparr>next_var := ?n\<rparr>) = (trs, st1)"
      "caches_ok ?w ?nx st1" "same_core (st\<lparr>next_var := ?n\<rparr>) st1" "set (reached st) \<subseteq> set (reached st1)"
      "\<forall>q q'. q \<in> set (reached st) \<longrightarrow> graph_trans env graphs q q' \<longrightarrow> q' \<in> set (reached st1)"
      "\<forall>\<beta>. bv_value L \<beta> (prev_state st) \<in> set (reached st) \<longrightarrow>
        (lit_value L \<beta> (lits_or L trs) \<longleftrightarrow> graph_trans env graphs (bv_value L \<beta> (prev_state st)) (bv_value L \<beta> ?nx))"
      "\<forall>n. supported_vec n (prev_state st) \<longrightarrow> supported_vec n ?nx \<longrightarrow> (\<forall>l \<in> set trs. supported n l)"
    using encode_graphs_correct [OF c0 new_vector(1) env, of no reps gl e graphs] by auto
  let ?c = "lit_or L (bv_equal L (prev_state st) ?nx) (lit_and L gl (lits_or L trs))"
  have core: "next_var st1 = ?n" "clauses st1 = clauses st" "prev_state st1 = prev_state st" using g(3) by (simp_all add: same_core_def)
  have st': "st' = swap_states ?nx (st1\<lparr>clauses := clauses st @ [[?c]]\<rparr>)"
    by (simp add: st'_def encode_node_round_def g(1) Let_def core)
  have pv: "supported_vec ?n (prev_state st)" using supported_vec_mono [OF ns(2)] by simp
  have trs: "\<forall>l \<in> set trs. supported ?n l" using g(7) pv new_vector(2) by blast
  have gn: "supported ?n gl" using supported_mono [OF gl] ns(1) by simp
  have sup: "supported ?n ?c"
    using ns(4) gn trs new_vector(1,2) pv by (intro supported_intros supported_equal) simp_all
  have "enc_ok ?w n\<^sub>0 st'" unfolding st'
  proof (rule enc_ok_swap)
    show "supported_clauses (next_var (st1\<lparr>clauses := clauses st @ [[?c]]\<rparr>)) (clauses (st1\<lparr>clauses := clauses st @ [[?c]]\<rparr>))"
      using supported_clauses_mono [OF ns(3), of ?n] sup by (auto simp: core clauses_below_def)
  qed (use g(2) new_vector ns core in \<open>auto simp: caches_ok_def\<close>)
  have "states_of n\<^sub>0 \<alpha> st' = {q'. q' < 2 ^ ?w \<and> (\<exists>q \<in> states_of n\<^sub>0 \<alpha> st. node_rel (graph_trans env) (lit_value L \<alpha> gl) graphs q q')}"
  proof (rule extend_round [OF ok'(1), where cs = "[[?c]]"])
    fix \<beta> assume \<beta>: "same_below n\<^sub>0 \<alpha> \<beta>" "bv_value L \<beta> (prev_state st) \<in> states_of n\<^sub>0 \<alpha> st"
    have "lit_value L \<beta> gl = lit_value L \<alpha> gl" using gl \<beta>(1) by (auto simp: depends_below_def)
    moreover have "lit_value L \<beta> (lits_or L trs) \<longleftrightarrow> graph_trans env graphs (bv_value L \<beta> (prev_state st)) (bv_value L \<beta> ?nx)"
      using g(6) \<beta>(2) ok'(2) by blast
    ultimately show "clauses_hold L \<beta> [[?c]] \<longleftrightarrow>
        node_rel (graph_trans env) (lit_value L \<alpha> gl) graphs (bv_value L \<beta> (prev_state st)) (bv_value L \<beta> ?nx)"
      using ns(4) new_vector(1) by (simp add: vec_equal_value node_rel_def del: value_lits_or)
  qed (simp_all add: st' swap_states_def)
  also have "\<dots> = {q'. \<exists>q \<in> states_of n\<^sub>0 \<alpha> st. node_rel (graph_trans env) (lit_value L \<alpha> gl) graphs q q'}"
    using states_of_less [OF ok'(1)] graph_trans_less [OF env] by (auto simp: node_rel_def)
  finally have states: "states_of n\<^sub>0 \<alpha> st' = {q'. \<exists>q \<in> states_of n\<^sub>0 \<alpha> st. node_rel (graph_trans env) (lit_value L \<alpha> gl) graphs q q'}" .
  have "reached st' = reached st1" by (simp add: st' swap_states_def)
  then have "states_of n\<^sub>0 \<alpha> st' \<subseteq> set (reached st')"
    unfolding states using ok'(2) g(4,5) by (auto simp: node_rel_def)
  then show ?thesis using \<open>enc_ok ?w n\<^sub>0 st'\<close> states by (simp add: enc_inv_def)
qed

lemma encode_nodes_correct:
  assumes inv: "enc_inv env n\<^sub>0 \<alpha> st" and env: "env_ok env" and gl: "supported n\<^sub>0 (guard_literal step)"
  shows "enc_inv env n\<^sub>0 \<alpha> (encode_nodes L env entry no step st)
    \<and> states_of n\<^sub>0 \<alpha> (encode_nodes L env entry no step st)
      = {q'. \<exists>q \<in> states_of n\<^sub>0 \<alpha> st. nodes_rel env (lit_value L \<alpha> (guard_literal step)) entry q q'}"
proof (cases entry)
  case Nil
  then show ?thesis using inv by (simp add: encode_nodes_def nodes_rel_def)
next
  case (Cons en rest)
  obtain n graphs where en: "en = (n, graphs)" by (cases en)
  let ?gs = "local_part (local_target_graphs env) graphs"
  let ?f = "\<lambda>reps. encode_node_round L env no reps (guard_literal step) (n, n) ?gs"
  let ?R = "node_rel (graph_trans env) (lit_value L \<alpha> (guard_literal step)) ?gs"
  have "enc_inv env n\<^sub>0 \<alpha> ((?f reps ^^ k) st)
      \<and> states_of n\<^sub>0 \<alpha> ((?f reps ^^ k) st) = {q'. \<exists>q \<in> states_of n\<^sub>0 \<alpha> st. (?R ^^ k) q q'}" for k reps
  proof (induction k)
    case 0
    then show ?case using inv by simp
  next
    case (Suc k)
    then show ?case
      using encode_node_round_correct [of env n\<^sub>0 \<alpha> "(?f reps ^^ k) st" "guard_literal step" no reps "(n, n)" ?gs] env gl
      by (auto simp: relcompp_apply)
  qed
  then show ?thesis by (simp add: encode_nodes_def nodes_rel_def Cons en local_part_def Let_def)
qed

text \<open>The clauses of a list of edges.\<close>

definition edge_literal :: "'l \<Rightarrow> 'l \<Rightarrow> cfa_edge option \<Rightarrow> cfa_edge \<times> int list \<Rightarrow> 'l" where
  "edge_literal gl goto_guard goto_edge en =
     lit_and L gl (if goto_edge = Some (fst en) then goto_guard else lit_invert L goto_guard)"

lemma encode_edge_list_correct:
  fixes gl gg ge instr no nx
  assumes "caches_ok (width env) nx st" "length nx = width env" "env_ok env"
  shows "\<exists>cs st'. encode_edge_list L env no instr gl gg ge nx entry acc st =
      ((fst acc @ map (edge_literal gl gg ge) entry, if instr \<and> entry \<noteq> [] then bv_equal L (prev_state st) nx else snd acc), st')
    \<and> caches_ok (width env) nx st' \<and> next_var st' = next_var st \<and> prev_state st' = prev_state st \<and> clauses st' = clauses st @ cs
    \<and> set (reached st) \<subseteq> set (reached st')
    \<and> (\<forall>en \<in> set entry. \<forall>q q'. q \<in> set (reached st) \<longrightarrow> graph_trans env (local_part (local_target_graphs env) (snd en)) q q' \<longrightarrow> q' \<in> set (reached st'))
    \<and> (\<forall>\<beta>. bv_value L \<beta> (prev_state st) \<in> set (reached st) \<longrightarrow>
        (clauses_hold L \<beta> cs \<longleftrightarrow> (\<forall>en \<in> set entry. lit_value L \<beta> (edge_literal gl gg ge en) \<longrightarrow>
          graph_trans env (local_part (local_target_graphs env) (snd en)) (bv_value L \<beta> (prev_state st)) (bv_value L \<beta> nx)
          \<or> instr \<and> bv_value L \<beta> nx = bv_value L \<beta> (prev_state st))))
    \<and> (\<forall>n. supported_vec n (prev_state st) \<longrightarrow> supported_vec n nx \<longrightarrow> supported n gl \<longrightarrow> supported n gg \<longrightarrow> supported_clauses n cs)"
  using assms(1)
proof (induction entry arbitrary: acc st)
  case Nil
  then show ?case by (auto simp: clauses_below_def)
next
  case (Cons en entry)
  let ?gs = "local_part (local_target_graphs env) (snd en)" and ?al = "edge_literal gl gg ge en"
  obtain trs st1 where g: "encode_graphs L env no None ?al (fst en) nx ?gs st = (trs, st1)" "caches_ok (width env) nx st1"
      "same_core st st1" "set (reached st) \<subseteq> set (reached st1)"
      "\<forall>q q'. q \<in> set (reached st) \<longrightarrow> graph_trans env ?gs q q' \<longrightarrow> q' \<in> set (reached st1)"
      "\<forall>\<beta>. bv_value L \<beta> (prev_state st) \<in> set (reached st) \<longrightarrow>
        (lit_value L \<beta> (lits_or L trs) \<longleftrightarrow> graph_trans env ?gs (bv_value L \<beta> (prev_state st)) (bv_value L \<beta> nx))"
      "\<forall>n. supported_vec n (prev_state st) \<longrightarrow> supported_vec n nx \<longrightarrow> (\<forall>l \<in> set trs. supported n l)"
    using encode_graphs_correct [OF Cons.prems assms(2,3), of no None ?al "fst en" ?gs] by (elim exE conjE) (rule that)
  have core: "next_var st1 = next_var st" "clauses st1 = clauses st" "prev_state st1 = prev_state st" using g(3) by (simp_all add: same_core_def)
  have len: "length (prev_state st) = width env" using Cons.prems by (simp add: caches_ok_def)
  define eq where "eq = (if instr then bv_equal L (prev_state st) nx else snd acc)"
  define c where "c = lit_or L (lit_invert L ?al) (lits_or L (if instr then trs @ [eq] else trs))"
  define st2 where "st2 = st1\<lparr>clauses := clauses st @ [[c]]\<rparr>"
  have ok2: "caches_ok (width env) nx st2" using g(2) by (simp add: st2_def caches_ok_def)
  obtain cs st' where r: "encode_edge_list L env no instr gl gg ge nx entry (fst acc @ [?al], eq) st2 =
      ((fst (fst acc @ [?al], eq) @ map (edge_literal gl gg ge) entry,
        if instr \<and> entry \<noteq> [] then bv_equal L (prev_state st2) nx else snd (fst acc @ [?al], eq)), st')"
      "caches_ok (width env) nx st'" "next_var st' = next_var st2" "prev_state st' = prev_state st2" "clauses st' = clauses st2 @ cs"
      "set (reached st2) \<subseteq> set (reached st')"
      "\<forall>en \<in> set entry. \<forall>q q'. q \<in> set (reached st2) \<longrightarrow> graph_trans env (local_part (local_target_graphs env) (snd en)) q q' \<longrightarrow> q' \<in> set (reached st')"
      "\<forall>\<beta>. bv_value L \<beta> (prev_state st2) \<in> set (reached st2) \<longrightarrow>
        (clauses_hold L \<beta> cs \<longleftrightarrow> (\<forall>en \<in> set entry. lit_value L \<beta> (edge_literal gl gg ge en) \<longrightarrow>
          graph_trans env (local_part (local_target_graphs env) (snd en)) (bv_value L \<beta> (prev_state st2)) (bv_value L \<beta> nx)
          \<or> instr \<and> bv_value L \<beta> nx = bv_value L \<beta> (prev_state st2)))"
      "\<forall>n. supported_vec n (prev_state st2) \<longrightarrow> supported_vec n nx \<longrightarrow> supported n gl \<longrightarrow> supported n gg \<longrightarrow> supported_clauses n cs"
    using Cons.IH [OF ok2, of "(fst acc @ [?al], eq)"] by (elim exE conjE) (rule that)
  have st2: "next_var st2 = next_var st" "prev_state st2 = prev_state st" "reached st2 = reached st1" "clauses st2 = clauses st @ [[c]]"
    by (simp_all add: st2_def core)
  have run: "encode_edge_list L env no instr gl gg ge nx (en # entry) acc st
      = encode_edge_list L env no instr gl gg ge nx entry (fst acc @ [?al], eq) st2"
    using g(1) by (simp add: edge_literal_def local_part_def core eq_def c_def st2_def Let_def)
  have c: "lit_value L \<beta> c \<longleftrightarrow> (lit_value L \<beta> ?al \<longrightarrow> graph_trans env ?gs (bv_value L \<beta> (prev_state st)) (bv_value L \<beta> nx)
      \<or> instr \<and> bv_value L \<beta> nx = bv_value L \<beta> (prev_state st))" if "bv_value L \<beta> (prev_state st) \<in> set (reached st)" for \<beta>
    using g(6) that vec_equal_value [of "prev_state st" nx \<beta>] len assms(2) by (auto simp: c_def eq_def)
  have cs_n: "supported_clauses n ([[c]] @ cs)"
    if "supported_vec n (prev_state st)" "supported_vec n nx" "supported n gl" "supported n gg" for n
  proof -
    have "supported n ?al" using that(3,4) by (auto simp: edge_literal_def intro: supported_intros)
    moreover have "supported n (bv_equal L (prev_state st) nx)" using that(1,2) len assms(2) by (intro supported_equal) simp_all
    ultimately have "supported n c" using g(7) that(1,2) unfolding c_def eq_def
      by (intro supported_intros) (auto split: if_splits)
    moreover have "supported_clauses n cs" using r(9) that unfolding st2 by blast
    ultimately show ?thesis by (simp add: clauses_below_def)
  qed
  have reach: "set (reached st) \<subseteq> set (reached st')" using r(6) g(4) unfolding st2 by blast
  have reach_t: "q' \<in> set (reached st')"
    if "e \<in> set (en # entry)" "q \<in> set (reached st)" "graph_trans env (local_part (local_target_graphs env) (snd e)) q q'" for e q q'
    using that r(6,7) g(4,5) unfolding st2 by auto
  have hold: "clauses_hold L \<beta> ([[c]] @ cs) \<longleftrightarrow> (\<forall>en \<in> set (en # entry). lit_value L \<beta> (edge_literal gl gg ge en) \<longrightarrow>
          graph_trans env (local_part (local_target_graphs env) (snd en)) (bv_value L \<beta> (prev_state st)) (bv_value L \<beta> nx)
          \<or> instr \<and> bv_value L \<beta> nx = bv_value L \<beta> (prev_state st))" if "bv_value L \<beta> (prev_state st) \<in> set (reached st)" for \<beta>
    using c [OF that] r(8) that g(4) unfolding st2 by auto
  show ?case
  proof (intro exI conjI)
    show "encode_edge_list L env no instr gl gg ge nx (en # entry) acc st =
      ((fst acc @ map (edge_literal gl gg ge) (en # entry), if instr \<and> en # entry \<noteq> [] then bv_equal L (prev_state st) nx else snd acc), st')"
      unfolding run r(1) by (simp add: st2 eq_def)
    show "clauses st' = clauses st @ ([[c]] @ cs)" using r(5) by (simp add: st2)
  qed (use r(2-4) reach reach_t hold cs_n in \<open>simp_all add: st2\<close>)
qed

lemma edge_literal_value: "lit_value L \<alpha> (edge_literal (guard_literal step) gg ge en) = edge_taken L \<alpha> step gg ge en"
  by (simp add: edge_literal_def edge_taken_def)

lemma goto_guard_supported:
  assumes "goto_guard_literal L step rest = Some gg" "\<forall>s \<in> set rest. supported n (guard_literal s)"
  shows "supported n gg"
  using assms by (auto simp: goto_guard_literal_def intro!: supported_intros split: if_splits list.splits)

lemma encode_edges_correct:
  assumes inv: "enc_inv env n\<^sub>0 \<alpha> st" and env: "env_ok env" and gl: "\<forall>s \<in> set (step # rest). supported n\<^sub>0 (guard_literal s)"
    and gg: "goto_guard_literal L step rest = Some gg" and ge: "find_goto_edge gf (source_pc step) entry = Some ge"
    and ne: "entry \<noteq> []"
  shows "\<exists>st'. encode_edges L env gf entry no step rest st = Some st' \<and> enc_inv env n\<^sub>0 \<alpha> st'
    \<and> states_of n\<^sub>0 \<alpha> st' = {q'. \<exists>q \<in> states_of n\<^sub>0 \<alpha> st. edges_rel (graph_trans env) (is_instrumented (source_pc step))
        (map (\<lambda>en. (edge_taken L \<alpha> step gg ge en, local_part (local_target_graphs env) (snd en))) entry) q q'}"
proof -
  let ?w = "width env" and ?nx = "new_state_vector L env st" and ?n = "next_var st + width env"
    and ?gl = "guard_literal step" and ?i = "is_instrumented (source_pc step)"
    and ?es = "map (\<lambda>en. (edge_taken L \<alpha> step gg ge en, local_part (local_target_graphs env) (snd en))) entry"
  have ok: "enc_ok ?w n\<^sub>0 st" "states_of n\<^sub>0 \<alpha> st \<subseteq> set (reached st)" using inv by (auto simp: enc_inv_def)
  have ns: "n\<^sub>0 \<le> next_var st" "supported_vec (next_var st) (prev_state st)" "supported_clauses (next_var st) (clauses st)"
    "length (prev_state st) = ?w" using ok(1) by (auto simp: enc_ok_def caches_ok_def)
  have sgl: "supported n\<^sub>0 ?gl" and sgg: "supported n\<^sub>0 gg" using gl goto_guard_supported [OF gg] by simp_all
  have c0: "caches_ok ?w ?nx (st\<lparr>next_var := ?n\<rparr>)" by (rule caches_ok_next [OF ok(1)])
  let ?eq = "if ?i then bv_equal L (prev_state st) ?nx else lit_const L False"
  obtain cs st1 where r: "encode_edge_list L env no ?i ?gl gg ge ?nx entry ([], lit_const L False) (st\<lparr>next_var := ?n\<rparr>)
        = ((map (edge_literal ?gl gg ge) entry, ?eq), st1)"
      "caches_ok ?w ?nx st1" "next_var st1 = ?n" "prev_state st1 = prev_state st" "clauses st1 = clauses st @ cs"
      "set (reached st) \<subseteq> set (reached st1)"
      "\<forall>en \<in> set entry. \<forall>q q'. q \<in> set (reached st) \<longrightarrow> graph_trans env (local_part (local_target_graphs env) (snd en)) q q' \<longrightarrow> q' \<in> set (reached st1)"
      "\<forall>\<beta>. bv_value L \<beta> (prev_state st) \<in> set (reached st) \<longrightarrow>
        (clauses_hold L \<beta> cs \<longleftrightarrow> (\<forall>en \<in> set entry. lit_value L \<beta> (edge_literal ?gl gg ge en) \<longrightarrow>
          graph_trans env (local_part (local_target_graphs env) (snd en)) (bv_value L \<beta> (prev_state st)) (bv_value L \<beta> ?nx)
          \<or> ?i \<and> bv_value L \<beta> ?nx = bv_value L \<beta> (prev_state st)))"
      "\<forall>n. supported_vec n (prev_state st) \<longrightarrow> supported_vec n ?nx \<longrightarrow> supported n ?gl \<longrightarrow> supported n gg \<longrightarrow> supported_clauses n cs"
    using encode_edge_list_correct [OF c0 new_vector(1) env, of no ?i ?gl gg ge entry "([], lit_const L False)"] ne by auto
  let ?edge = "lits_or L (map (edge_literal ?gl gg ge) entry)"
  define eq' where "eq' = (if \<not> lit_is_true L ?edge \<and> lit_is_false L ?eq then bv_equal L (prev_state st) ?nx else ?eq)"
  let ?c = "lit_or L ?edge eq'"
  define st' where "st' = swap_states ?nx (st1\<lparr>clauses := clauses st @ cs @ [[?c]]\<rparr>)"
  have run: "encode_edges L env gf entry no step rest st = Some st'"
    using gg ge r(1) by (simp add: encode_edges_def st'_def eq'_def r(4,5) Let_def)
  have eqv: "lit_value L \<beta> (bv_equal L (prev_state st) ?nx) \<longleftrightarrow> bv_value L \<beta> ?nx = bv_value L \<beta> (prev_state st)" for \<beta>
    using vec_equal_value ns(4) new_vector(1) by simp
  have c: "lit_value L \<beta> ?c \<longleftrightarrow> lit_value L \<beta> ?edge \<or> bv_value L \<beta> ?nx = bv_value L \<beta> (prev_state st)" for \<beta>
    using eqv value_is_true [of ?edge \<beta>] by (auto simp: eq'_def simp del: value_lits_or)
  have val: "lit_value L \<beta> (edge_literal ?gl gg ge en) = edge_taken L \<alpha> step gg ge en" if "same_below n\<^sub>0 \<alpha> \<beta>" for \<beta> en
    using that sgl sgg unfolding edge_literal_value by (simp add: edge_taken_def depends_below_def)
  have states: "states_of n\<^sub>0 \<alpha> st' = {q'. q' < 2 ^ ?w \<and> (\<exists>q \<in> states_of n\<^sub>0 \<alpha> st. edges_rel (graph_trans env) ?i ?es q q')}"
  proof (rule extend_round [OF ok(1), where cs = "cs @ [[?c]]"])
    fix \<beta> assume \<beta>: "same_below n\<^sub>0 \<alpha> \<beta>" "bv_value L \<beta> (prev_state st) \<in> states_of n\<^sub>0 \<alpha> st"
    then have "bv_value L \<beta> (prev_state st) \<in> set (reached st)" using ok(2) by blast
    then show "clauses_hold L \<beta> (cs @ [[?c]]) \<longleftrightarrow>
        edges_rel (graph_trans env) ?i ?es (bv_value L \<beta> (prev_state st)) (bv_value L \<beta> ?nx)"
      using r(8) c [of \<beta>] val [OF \<beta>(1)] by (simp add: edges_rel_def del: value_or)
  qed (simp_all add: st'_def swap_states_def)
  have less: "q' < 2 ^ ?w" "q' \<in> set (reached st1)" if "q \<in> states_of n\<^sub>0 \<alpha> st" "edges_rel (graph_trans env) ?i ?es q q'" for q q'
  proof -
    have "q' = q \<or> (\<exists>en \<in> set entry. graph_trans env (local_part (local_target_graphs env) (snd en)) q q')"
      using that(2) by (fastforce simp: edges_rel_def)
    then show "q' < 2 ^ ?w" "q' \<in> set (reached st1)"
      using states_of_less [OF ok(1) that(1)] graph_trans_less [OF env] that(1) ok(2) r(6,7) by blast+
  qed
  have pv: "supported_vec ?n (prev_state st)" using supported_vec_mono [OF ns(2)] by simp
  have gn: "supported ?n ?gl" "supported ?n gg" using supported_mono [OF sgl] supported_mono [OF sgg] ns(1) by simp_all
  have "supported ?n (bv_equal L (prev_state st) ?nx)" using pv new_vector(1,2) ns(4) by (intro supported_equal) simp_all
  then have sup: "supported ?n ?c" using gn
    by (intro supported_intros) (auto simp: eq'_def edge_literal_def intro!: supported_intros)
  have "enc_ok ?w n\<^sub>0 st'" unfolding st'_def
  proof (rule enc_ok_swap)
    have "supported_clauses ?n cs" using r(9) pv new_vector(2) gn by blast
    then show "supported_clauses (next_var (st1\<lparr>clauses := clauses st @ cs @ [[?c]]\<rparr>)) (clauses (st1\<lparr>clauses := clauses st @ cs @ [[?c]]\<rparr>))"
      using supported_clauses_mono [OF ns(3), of ?n] sup by (auto simp: r(3) clauses_below_def)
  qed (use r(2,3) new_vector ns in \<open>auto simp: caches_ok_def\<close>)
  moreover have "states_of n\<^sub>0 \<alpha> st' \<subseteq> set (reached st')" unfolding states
    using less(2) by (auto simp: st'_def swap_states_def)
  ultimately show ?thesis using run states less(1) by (auto simp: enc_inv_def)
qed

end

end
