(* ===== verification/Encoding_Exact.thy ===== *)
theory Encoding_Exact
  imports Automaton_Encoding
begin

text \<open>
  What the Boolean encoding of a trace automaton means
  (\<open>Compute_Test_Goals_Boolean::build\<close> in
  \<open>src/fshell2/fql/evaluation/compute_test_goals.cpp\<close>).

  The steps that are encoded define a relation on automaton states under an assignment of the
  equation's variables. Shown is that the clauses are satisfiable together with the assignment
  exactly if this relation leads from the initial state to a final one, that the rounds spent on a
  node are enough for any number of transitions at the node, and that the vector is as wide as the
  state numbers need.
\<close>

section \<open>Rounds at a node\<close>

lemma card_sources:
  fixes r :: "'q \<Rightarrow> 'q \<Rightarrow> bool" and q :: 'q
  defines "A \<equiv> \<lambda>n. {x. ((\<lambda>x y. y = x \<or> r x y) ^^ n) q x}"
  assumes S: "finite S" "\<And>x y. r x y \<Longrightarrow> x \<in> S"
  shows "A (Suc n) = A n \<or> Suc n \<le> card (A n \<inter> S)"
proof (induction n)
  have suc: "A (Suc n) = A n \<union> {y. \<exists>x \<in> A n. r x y}" for n by (auto simp: A_def relcompp_apply)
  {
    case 0
    show ?case
    proof (cases "A (Suc 0) = A 0")
      case False
      have "A 0 = {q}" by (auto simp: A_def)
      then have "q \<in> S" using False S(2) suc [of 0] by auto
      then show ?thesis using \<open>A 0 = {q}\<close> by simp
    qed simp
  next
    case (Suc n)
    show ?case
    proof (cases "A (Suc (Suc n)) = A (Suc n)")
      case False
      then obtain x y where xy: "x \<in> A (Suc n)" "r x y" "y \<notin> A (Suc n)" using suc [of "Suc n"] by auto
      then have x: "x \<notin> A n" "x \<in> S" using suc [of n] S(2) by auto
      then have "Suc n \<le> card (A n \<inter> S)" using Suc xy(1) by auto
      moreover have "card (insert x (A n \<inter> S)) \<le> card (A (Suc n) \<inter> S)"
        using S(1) xy(1) x suc [of n] by (intro card_mono) auto
      ultimately show ?thesis using x S(1) by simp
    qed simp
  }
qed

text \<open>As many optional transitions as there are sources reach whatever can be reached.\<close>

lemma rounds_suffice:
  fixes r :: "'q \<Rightarrow> 'q \<Rightarrow> bool"
  assumes S: "finite S" "\<And>x y. r x y \<Longrightarrow> x \<in> S"
  shows "((\<lambda>x y. y = x \<or> r x y) ^^ card S) q q' \<longleftrightarrow> r\<^sup>*\<^sup>* q q'"
proof -
  let ?step = "\<lambda>x y. y = x \<or> r x y"
  let ?A = "\<lambda>n. {x. (?step ^^ n) q x}"
  have "\<not> Suc (card S) \<le> card (?A (card S) \<inter> S)"
    using card_mono [OF S(1), of "?A (card S) \<inter> S"] by simp
  then have fixed: "?A (Suc (card S)) = ?A (card S)" using card_sources [OF S, where q = q] by meson
  have sound: "r\<^sup>*\<^sup>* q x" if "(?step ^^ n) q x" for n x using that
  proof (induction n arbitrary: x)
    case (Suc n)
    then obtain y where "(?step ^^ n) q y" "x = y \<or> r y x" by (auto simp: relcompp_apply)
    then show ?case using Suc.IH [of y] rtranclp.rtrancl_into_rtrancl [of r q y x] by auto
  qed simp
  have "q' \<in> ?A (card S)" if "r\<^sup>*\<^sup>* q q'" using that
  proof (induction rule: rtranclp_induct)
    case base
    have "(?step ^^ n) q q" for n by (induction n) (auto simp: relcompp_apply)
    then show ?case by simp
  next
    case (step y z)
    then have "z \<in> ?A (Suc (card S))" by (auto simp: relcompp_apply)
    then show ?case using fixed by blast
  qed
  then show ?thesis using sound by blast
qed

definition visit_rel :: "(int list \<Rightarrow> 'q \<Rightarrow> 'q \<Rightarrow> bool) \<Rightarrow> bool \<Rightarrow> int list \<Rightarrow> (cfa_node \<times> int list) list \<Rightarrow> 'q \<Rightarrow> 'q \<Rightarrow> bool" where
  "visit_rel tr executed locals entry =
     (case entry of [] \<Rightarrow> (=) | (n, graphs) # _ \<Rightarrow> if executed then (tr (local_part locals graphs))\<^sup>*\<^sup>* else (=))"

lemma nodes_rel_visit:
  "nodes_rel env executed entry = visit_rel (graph_trans env) executed (local_target_graphs env) entry"
proof (cases entry)
  case (Cons en rest)
  obtain n graphs where en: "en = (n, graphs)" by (cases en)
  let ?gs = "local_part (local_target_graphs env) graphs"
  let ?S = "set (map fst (concat (map (transitions env) ?gs)))"
  have len: "length (remdups (map fst (concat (map (transitions env) ?gs)))) = card ?S" by (simp add: length_remdups_card_conv)
  show ?thesis
  proof (cases executed)
    case True
    have "node_rel (graph_trans env) executed ?gs = (\<lambda>q q'. q' = q \<or> graph_trans env ?gs q q')"
      using True by (auto simp: node_rel_def fun_eq_iff)
    moreover have "((\<lambda>q q'. q' = q \<or> graph_trans env ?gs q q') ^^ card ?S) = (graph_trans env ?gs)\<^sup>*\<^sup>*"
      unfolding fun_eq_iff by (intro allI rounds_suffice) (auto simp: graph_trans_def)
    ultimately show ?thesis using True unfolding nodes_rel_def visit_rel_def Cons en Let_def list.case prod.case len by simp
  next
    case False
    have "node_rel (graph_trans env) executed ?gs = (=)" using False by (auto simp: node_rel_def fun_eq_iff)
    moreover have "((=) ^^ k) = ((=) :: nat \<Rightarrow> nat \<Rightarrow> bool)" for k by (induction k) (auto simp: relcompp_apply fun_eq_iff)
    ultimately show ?thesis using False unfolding nodes_rel_def visit_rel_def Cons en Let_def list.case prod.case by simp
  qed
qed (simp add: nodes_rel_def visit_rel_def)

section \<open>The relation of all steps\<close>

definition step_rel ::
  "'l sat_lib \<Rightarrow> (int list \<Rightarrow> 'q \<Rightarrow> 'q \<Rightarrow> bool) \<Rightarrow> goto_functionst \<Rightarrow> loc_maps \<Rightarrow> assignment
    \<Rightarrow> 'l symex_step \<Rightarrow> 'l symex_step list \<Rightarrow> 'q \<Rightarrow> 'q \<Rightarrow> bool" where
  "step_rel L tr gf m \<alpha> step rest =
     (let i = source_pc step;
          executed = lit_value L \<alpha> (guard_literal step);
          entry = loc_to_edges m (pc i)
      in visit_rel tr executed (local_graphs m) (loc_to_nodes m (pc i)) OO
         (if entry = [] then (\<lambda>q q'. q' = q \<and> (is_instrumented i \<or> \<not> executed))
          else edges_rel tr (is_instrumented i)
            (map (\<lambda>en. (edge_taken L \<alpha> step (the (goto_guard_literal L step rest)) (the (find_goto_edge gf i entry)) en,
               local_part (local_graphs m) (snd en))) entry)))"

text \<open>The steps that are encoded, each with those that follow it in the equation.\<close>

fun selected_steps :: "'l symex_step option \<Rightarrow> 'l symex_step list \<Rightarrow> ('l symex_step \<times> 'l symex_step list) list" where
  "selected_steps previous_pc [] = []"
| "selected_steps previous_pc (s # rest) =
     (if skip_step s then selected_steps previous_pc rest
      else
        (let same = (case previous_pc of None \<Rightarrow> False | Some p \<Rightarrow> pc (source_pc s) = pc (source_pc p)) in
         if same \<and> follow_up (the previous_pc) s then selected_steps previous_pc rest
         else (s, rest) # selected_steps (if same then previous_pc else Some s) rest))"

primrec run_rel ::
  "'l sat_lib \<Rightarrow> (int list \<Rightarrow> 'q \<Rightarrow> 'q \<Rightarrow> bool) \<Rightarrow> goto_functionst \<Rightarrow> loc_maps \<Rightarrow> assignment
    \<Rightarrow> ('l symex_step \<times> 'l symex_step list) list \<Rightarrow> 'q \<Rightarrow> 'q \<Rightarrow> bool" where
  "run_rel L tr gf m \<alpha> [] = (=)"
| "run_rel L tr gf m \<alpha> (s # ss) = step_rel L tr gf m \<alpha> (fst s) (snd s) OO run_rel L tr gf m \<alpha> ss"

text \<open>No step makes the encoding read past the end of the equation or of a function.\<close>

definition step_defined :: "'l sat_lib \<Rightarrow> goto_functionst \<Rightarrow> loc_maps \<Rightarrow> 'l symex_step \<times> 'l symex_step list \<Rightarrow> bool" where
  "step_defined L gf m s \<longleftrightarrow> goto_guard_literal L (fst s) (snd s) \<noteq> None
     \<and> find_goto_edge gf (source_pc (fst s)) (loc_to_edges m (pc (source_pc (fst s)))) \<noteq> None"

context sat_library
begin

lemma states_of_cong: "clauses st' = clauses st \<Longrightarrow> prev_state st' = prev_state st \<Longrightarrow> states_of n\<^sub>0 \<alpha> st' = states_of n\<^sub>0 \<alpha> st"
  by (simp add: states_of_def)

lemma states_of_clause:
  assumes "supported n\<^sub>0 l"
  shows "states_of n\<^sub>0 \<alpha> (st\<lparr>clauses := clauses st @ [[l]]\<rparr>) = {q \<in> states_of n\<^sub>0 \<alpha> st. lit_value L \<alpha> l}"
  using assms unfolding states_of_def depends_below_def by auto

lemma do_step_correct:
  assumes inv: "enc_inv env n\<^sub>0 \<alpha> st" and env: "env_ok env" and gl: "\<forall>s \<in> set (step # rest). supported n\<^sub>0 (guard_literal s)"
    and def: "step_defined L gf m (step, rest)" and loc: "local_graphs m = local_target_graphs env"
  shows "\<exists>st'. do_step L env gf (loc_to_nodes m) (loc_to_edges m) no step rest st = Some st' \<and> enc_inv env n\<^sub>0 \<alpha> st'
    \<and> states_of n\<^sub>0 \<alpha> st' = {q'. \<exists>q \<in> states_of n\<^sub>0 \<alpha> st. step_rel L (graph_trans env) gf m \<alpha> step rest q q'}"
proof -
  let ?i = "source_pc step" and ?x = "lit_value L \<alpha> (guard_literal step)"
  let ?entry = "loc_to_edges m (pc ?i)" and ?nodes = "loc_to_nodes m (pc ?i)"
  obtain gg ge where g: "goto_guard_literal L step rest = Some gg" "find_goto_edge gf ?i ?entry = Some ge"
    using def by (auto simp: step_defined_def)
  define st1 where "st1 = encode_nodes L env ?nodes no step st"
  have st1: "enc_inv env n\<^sub>0 \<alpha> st1"
      "states_of n\<^sub>0 \<alpha> st1 = {q'. \<exists>q \<in> states_of n\<^sub>0 \<alpha> st. visit_rel (graph_trans env) ?x (local_graphs m) ?nodes q q'}"
    using encode_nodes_correct [OF inv env, of step ?nodes no] gl unfolding st1_def nodes_rel_visit loc by simp_all
  show ?thesis
  proof (cases "?entry = []")
    case False
    obtain st' where "encode_edges L env gf ?entry no step rest st1 = Some st'" "enc_inv env n\<^sub>0 \<alpha> st'"
        "states_of n\<^sub>0 \<alpha> st' = {q'. \<exists>q \<in> states_of n\<^sub>0 \<alpha> st1. edges_rel (graph_trans env) (is_instrumented ?i)
          (map (\<lambda>en. (edge_taken L \<alpha> step gg ge en, local_part (local_target_graphs env) (snd en))) ?entry) q q'}"
      using encode_edges_correct [OF st1(1) env gl g False, of no] by blast
    then show ?thesis using g False st1(2)
      by (auto simp: do_step_def st1_def [symmetric] step_rel_def Let_def loc relcompp_apply)
  next
    case True
    let ?l = "lit_invert L (guard_literal step)"
    define st' where "st' = (if is_instrumented ?i then st1 else st1\<lparr>clauses := clauses st1 @ [[?l]]\<rparr>)"
    have run: "do_step L env gf (loc_to_nodes m) (loc_to_edges m) no step rest st = Some st'"
      using g(1) True by (simp add: do_step_def st'_def st1_def Let_def)
    have l: "supported n\<^sub>0 ?l" using gl by (auto intro: supported_intros)
    have states: "states_of n\<^sub>0 \<alpha> st' = {q \<in> states_of n\<^sub>0 \<alpha> st1. is_instrumented ?i \<or> \<not> ?x}"
      using states_of_clause [OF l, of \<alpha> st1] by (simp add: st'_def)
    have "enc_ok (width env) n\<^sub>0 st1" using st1(1) by (simp add: enc_inv_def)
    then have "enc_ok (width env) n\<^sub>0 st'"
      using supported_mono [OF l] by (auto simp: st'_def enc_ok_def caches_ok_def clauses_below_def)
    moreover have "reached st' = reached st1" by (simp add: st'_def)
    ultimately have "enc_inv env n\<^sub>0 \<alpha> st'" using st1(1) states by (auto simp: enc_inv_def)
    then show ?thesis using run True by (intro exI [of _ st']) (auto simp: states st1(2) step_rel_def Let_def relcompp_apply)
  qed
qed

lemma encode_steps_correct:
  assumes "enc_inv env n\<^sub>0 \<alpha> st" "env_ok env" "\<forall>s \<in> set steps. supported n\<^sub>0 (guard_literal s)"
    and "\<forall>s \<in> set (selected_steps previous steps). step_defined L gf m s" "local_graphs m = local_target_graphs env"
  shows "\<exists>st'. encode_steps L env gf m previous no steps st = Some st' \<and> enc_inv env n\<^sub>0 \<alpha> st'
    \<and> states_of n\<^sub>0 \<alpha> st' = {q'. \<exists>q \<in> states_of n\<^sub>0 \<alpha> st. run_rel L (graph_trans env) gf m \<alpha> (selected_steps previous steps) q q'}"
  using assms(1,3,4)
proof (induction steps arbitrary: previous no st)
  case (Cons s rest)
  let ?same = "case previous of None \<Rightarrow> False | Some p \<Rightarrow> pc (source_pc s) = pc (source_pc p)"
  let ?prev = "if ?same then previous else Some s"
  have rest: "\<forall>s \<in> set rest. supported n\<^sub>0 (guard_literal s)" using Cons.prems(2) by simp
  show ?case
  proof (cases "skip_step s \<or> ?same \<and> follow_up (the previous) s")
    case True
    then have eq: "selected_steps previous (s # rest) = selected_steps previous rest"
      "encode_steps L env gf m previous no (s # rest) st = encode_steps L env gf m previous (no + 1) rest st"
      by (auto simp: Let_def)
    show ?thesis unfolding eq by (rule Cons.IH [OF Cons.prems(1) rest Cons.prems(3) [unfolded eq]])
  next
    case False
    then have sel: "selected_steps previous (s # rest) = (s, rest) # selected_steps ?prev rest" by (auto simp: Let_def)
    have def: "step_defined L gf m (s, rest)" "\<forall>s \<in> set (selected_steps ?prev rest). step_defined L gf m s"
      using Cons.prems(3) unfolding sel by simp_all
    obtain st1 where st1: "do_step L env gf (loc_to_nodes m) (loc_to_edges m) no s rest st = Some st1" "enc_inv env n\<^sub>0 \<alpha> st1"
      "states_of n\<^sub>0 \<alpha> st1 = {q'. \<exists>q \<in> states_of n\<^sub>0 \<alpha> st. step_rel L (graph_trans env) gf m \<alpha> s rest q q'}"
      using do_step_correct [OF Cons.prems(1) assms(2) Cons.prems(2) def(1) assms(5)] by blast
    obtain st2 where st2: "encode_steps L env gf m ?prev (no + 1) rest st1 = Some st2" "enc_inv env n\<^sub>0 \<alpha> st2"
      "states_of n\<^sub>0 \<alpha> st2 = {q'. \<exists>q \<in> states_of n\<^sub>0 \<alpha> st1. run_rel L (graph_trans env) gf m \<alpha> (selected_steps ?prev rest) q q'}"
      using Cons.IH [OF st1(2) rest def(2)] by blast
    have "encode_steps L env gf m previous no (s # rest) st = Some st2"
      using False st1(1) st2(1) by (auto simp: Let_def split: if_splits)
    then show ?thesis using st2(2) unfolding sel by (intro exI [of _ st2]) (auto simp: st2(3) st1(3) relcompp_apply)
  qed
qed auto

lemma encode_finals_correct:
  assumes "caches_ok w nx st" "\<forall>s \<in> set finals. s < 2 ^ w"
  shows "\<exists>ls st'. encode_finals L w finals st = (ls, st') \<and> same_core st st' \<and> list_all2 (equals_lit (prev_state st)) finals ls"
  using assms
proof (induction finals arbitrary: st)
  case (Cons s finals)
  obtain l c d where eq: "make_equals_prev L w s st = (l, st\<lparr>bv_cache := c, prev_eq_cache := d\<rparr>)"
    "equals_lit (prev_state st) s l" "caches_ok w nx (st\<lparr>bv_cache := c, prev_eq_cache := d\<rparr>)"
    using Cons.prems by (auto elim: make_equals_prev_correct [of w nx st s])
  obtain ls st' where r: "encode_finals L w finals (st\<lparr>bv_cache := c, prev_eq_cache := d\<rparr>) = (ls, st')"
    "same_core (st\<lparr>bv_cache := c, prev_eq_cache := d\<rparr>) st'" "list_all2 (equals_lit (prev_state st)) finals ls"
    using Cons.IH [OF eq(3)] Cons.prems(2) by auto
  then show ?case using eq(1,2) by (auto simp: same_core_def)
qed (auto simp: same_core_def)

end

section \<open>Width and numbering\<close>

lemma width_loop_bounds:
  "(n + 1) * 2 ^ w \<le> (2 :: nat) ^ width_loop (Suc w) n \<and> (0 < n \<longrightarrow> 2 ^ width_loop (Suc w) n \<le> 2 * n * 2 ^ w)"
proof (induction n arbitrary: w rule: less_induct)
  case (less n)
  show ?case
  proof (cases "n div 2 = 0")
    case True
    then have "n = 0 \<or> n = 1" by auto
    then show ?thesis by (auto simp: width_loop.simps [of _ n])
  next
    case False
    then have step: "width_loop (Suc w) n = width_loop (Suc (Suc w)) (n div 2)" by (simp add: width_loop.simps [of _ n])
    have IH: "(n div 2 + 1) * 2 ^ Suc w \<le> (2 :: nat) ^ width_loop (Suc w) n"
      "2 ^ width_loop (Suc w) n \<le> 2 * (n div 2) * 2 ^ Suc w"
      using less.IH [of "n div 2" "Suc w"] False unfolding step by auto
    have "(n + 1) * 2 ^ w \<le> ((n div 2 + 1) * 2) * 2 ^ w" by (intro mult_right_mono) auto
    moreover have "(n div 2 * 2) * 2 ^ w \<le> n * 2 ^ w" by (intro mult_right_mono) auto
    ultimately show ?thesis using IH by (simp only: power_Suc mult.commute mult.left_commute mult.assoc) linarith
  qed
qed

lemma width_loop_less: "n < 2 ^ width_loop 1 n"
  using width_loop_bounds [of n 0] by simp

lemma smap_update_rel:
  "(\<exists>t \<in> set (smap_update (<) k [] (insort_insert v) m). fst t = k' \<and> x \<in> set (snd t)) \<longleftrightarrow>
    k' = k \<and> x = v \<or> (\<exists>t \<in> set m. fst t = k' \<and> x \<in> set (snd t))" for k :: nat
  by (induction "(<) :: nat \<Rightarrow> nat \<Rightarrow> bool" k "[] :: 'a::linorder list" "insort_insert v" m rule: smap_update.induct)
    (auto simp: set_insort_insert)

lemma smap_update_keys: "fst ` set (smap_update lt k d f m) \<subseteq> insert k (fst ` set m)"
  by (induction lt k d f m rule: smap_update.induct) auto

text \<open>The transitions on numbers that are collected.\<close>

definition tr_rel :: "(int \<Rightarrow> (nat \<times> nat list) list) \<Rightarrow> (nat \<times> int \<times> nat) set" where
  "tr_rel tr = {(q, g, q'). \<exists>t \<in> set (tr g). fst t = q \<and> q' \<in> set (snd t)}"

lemma tr_rel_iff: "(q, g, q') \<in> tr_rel tr \<longleftrightarrow> (\<exists>t \<in> set (tr g). fst t = q \<and> q' \<in> set (snd t))"
  by (simp add: tr_rel_def)

lemma add_transition_rel: "tr_rel (add_transition sm q e tr) = insert (sm q, fst e, sm (snd e)) (tr_rel tr)"
proof -
  have "(p, g, p') \<in> tr_rel (add_transition sm q e tr) \<longleftrightarrow> (p, g, p') = (sm q, fst e, sm (snd e)) \<or> (p, g, p') \<in> tr_rel tr" for p g p'
    by (cases "g = fst e") (simp_all add: tr_rel_iff add_transition_def smap_update_rel)
  then show ?thesis by auto
qed

definition tr_keys :: "(int \<Rightarrow> (nat \<times> nat list) list) \<Rightarrow> nat set" where
  "tr_keys tr = (\<Union>g. fst ` set (tr g))"

lemma add_transition_keys: "tr_keys (add_transition sm q e tr) \<subseteq> insert (sm q) (tr_keys tr)"
  using smap_update_keys [of "(<)" "sm q" "[]" "insort_insert (sm (snd e))" "tr (fst e)"]
  by (fastforce simp: tr_keys_def add_transition_def split: if_splits)

lemma fold_add_transition:
  "tr_rel (fold (add_transition sm q) es tr) = (\<lambda>e. (sm q, fst e, sm (snd e))) ` set es \<union> tr_rel tr"
  "tr_keys (fold (add_transition sm q) es tr) \<subseteq> insert (sm q) (tr_keys tr)"
proof (induction es arbitrary: tr)
  case (Cons e es)
  { case 1 show ?case by (simp add: Cons(1) add_transition_rel) }
  { case 2 show ?case using Cons(2) [of "add_transition sm q e tr"] add_transition_keys [of sm q e tr] by auto }
qed auto

lemma fold_states_transition:
  "tr_rel (fold (\<lambda>q. fold (add_transition sm q) (delta q)) qs tr)
    = (\<Union>q \<in> set qs. (\<lambda>e. (sm q, fst e, sm (snd e))) ` set (delta q)) \<union> tr_rel tr"
  "tr_keys (fold (\<lambda>q. fold (add_transition sm q) (delta q)) qs tr) \<subseteq> sm ` set qs \<union> tr_keys tr"
proof (induction qs arbitrary: tr)
  case (Cons q qs)
  { case 1 show ?case by (simp add: Cons(1) fold_add_transition(1) Un_assoc Un_left_commute) }
  { case 2 show ?case
      using Cons(2) [of "fold (add_transition sm q) (delta q) tr"] fold_add_transition(2) [of sm q "delta q" tr] by auto }
qed auto

section \<open>Transfer to the states of the automaton\<close>

definition transfers :: "('q \<Rightarrow> 'r) \<Rightarrow> 'q set \<Rightarrow> ('q \<Rightarrow> 'q \<Rightarrow> bool) \<Rightarrow> ('r \<Rightarrow> 'r \<Rightarrow> bool) \<Rightarrow> bool" where
  "transfers f Q R R' \<longleftrightarrow> (\<forall>p \<in> Q. (\<forall>q. R p q \<longrightarrow> q \<in> Q) \<and> (\<forall>q'. R' (f p) q' \<longleftrightarrow> (\<exists>q. R p q \<and> q' = f q)))"

lemma transfers_eq: "transfers f Q (=) (=)"
  by (auto simp: transfers_def)

lemma transfers_closed: "transfers f Q R R' \<Longrightarrow> p \<in> Q \<Longrightarrow> R p q \<Longrightarrow> q \<in> Q"
  unfolding transfers_def by blast

lemma transfers_iff: "transfers f Q R R' \<Longrightarrow> p \<in> Q \<Longrightarrow> R' (f p) q' \<longleftrightarrow> (\<exists>q. R p q \<and> q' = f q)"
  unfolding transfers_def by blast

lemma transfers_OO:
  assumes R: "transfers f Q R R'" and S: "transfers f Q S S'"
  shows "transfers f Q (R OO S) (R' OO S')"
proof -
  have "(R' OO S') (f p) q' \<longleftrightarrow> (\<exists>q. (R OO S) p q \<and> q' = f q)" if p: "p \<in> Q" for p q'
  proof -
    have "(R' OO S') (f p) q' \<longleftrightarrow> (\<exists>r. R p r \<and> S' (f r) q')" using transfers_iff [OF R p] by (auto simp: relcompp_apply)
    also have "\<dots> \<longleftrightarrow> (\<exists>r. R p r \<and> (\<exists>q. S r q \<and> q' = f q))"
      by (rule ex_cong1, rule conj_cong [OF refl], rule transfers_iff [OF S transfers_closed [OF R p]])
    finally show ?thesis by (auto simp: relcompp_apply)
  qed
  moreover have "q \<in> Q" if "p \<in> Q" "(R OO S) p q" for p q
    using that transfers_closed [OF R that(1)] transfers_closed [OF S] by (blast elim: relcomppE)
  ultimately show ?thesis unfolding transfers_def by blast
qed

lemma transfers_rtranclp:
  assumes R: "transfers f Q R R'"
  shows "transfers f Q R\<^sup>*\<^sup>* R'\<^sup>*\<^sup>*"
proof -
  have 1: "q \<in> Q \<and> R'\<^sup>*\<^sup>* (f p) (f q)" if "p \<in> Q" "R\<^sup>*\<^sup>* p q" for p q using that(2,1)
  proof (induction rule: rtranclp_induct)
    case (step y z)
    then have y: "y \<in> Q" "R'\<^sup>*\<^sup>* (f p) (f y)" by simp_all
    have "R' (f y) (f z)" using transfers_iff [OF R y(1)] step(2) by blast
    then show ?case using transfers_closed [OF R y(1) step(2)] y(2) rtranclp.rtrancl_into_rtrancl [of R' "f p" "f y" "f z"] by simp
  qed simp
  have 2: "\<exists>q. R\<^sup>*\<^sup>* p q \<and> q' = f q \<and> q \<in> Q" if "p \<in> Q" "R'\<^sup>*\<^sup>* (f p) q'" for p q' using that(2,1)
  proof (induction rule: rtranclp_induct)
    case (step y z)
    then obtain q where q: "R\<^sup>*\<^sup>* p q" "y = f q" "q \<in> Q" by blast
    then obtain r where r: "R q r" "z = f r" using step(2) transfers_iff [OF R q(3)] by blast
    then show ?case using rtranclp.rtrancl_into_rtrancl [OF q(1) r(1)] transfers_closed [OF R q(3) r(1)] by blast
  qed blast
  show ?thesis unfolding transfers_def using 1 2 by blast
qed

lemma transfers_edges:
  assumes inj: "inj_on f Q" and tr: "\<And>gs. transfers f Q (tr gs) (tr' gs)"
  shows "transfers f Q (edges_rel tr i es) (edges_rel tr' i es)"
  unfolding transfers_def
proof (intro ballI conjI allI impI)
  fix p assume p: "p \<in> Q"
  have step: "tr' gs (f p) q' \<longleftrightarrow> (\<exists>q. tr gs p q \<and> q' = f q)" and in_Q: "tr gs p q \<Longrightarrow> q \<in> Q" for gs q q'
    using tr p by (auto simp: transfers_def)
  show "q \<in> Q" if "edges_rel tr i es p q" for q using that in_Q p by (auto simp: edges_rel_def)
  have eq: "tr' gs (f p) (f q) \<longleftrightarrow> tr gs p q" if "q \<in> Q" for gs q
    unfolding step using inj_onD [OF inj _ _ that] in_Q that by metis
  fix q'
  show "edges_rel tr' i es (f p) q' \<longleftrightarrow> (\<exists>q. edges_rel tr i es p q \<and> q' = f q)"
  proof
    assume r: "edges_rel tr' i es (f p) q'"
    then have "q' = f p \<or> (\<exists>e \<in> set es. tr' (snd e) (f p) q')" by (auto simp: edges_rel_def)
    then obtain q where q: "q' = f q" "q \<in> Q" using step in_Q p by blast
    have "f q = f p \<longleftrightarrow> q = p" using inj p q(2) by (auto dest: inj_onD)
    then show "\<exists>q. edges_rel tr i es p q \<and> q' = f q" using r q(1) eq [OF q(2)] by (auto simp: edges_rel_def)
  next
    assume "\<exists>q. edges_rel tr i es p q \<and> q' = f q"
    then obtain q where q: "edges_rel tr i es p q" "q' = f q" by blast
    then have "q \<in> Q" using in_Q p by (auto simp: edges_rel_def)
    then show "edges_rel tr' i es (f p) q'" using q eq by (auto simp: edges_rel_def)
  qed
qed

lemma transfers_step:
  assumes "inj_on f Q" "\<And>gs. transfers f Q (tr gs) (tr' gs)"
  shows "transfers f Q (step_rel L tr gf m \<alpha> s rest) (step_rel L tr' gf m \<alpha> s rest)"
proof -
  have "transfers f Q (visit_rel tr b locals entry) (visit_rel tr' b locals entry)" for b locals entry
    using transfers_rtranclp [OF assms(2)] transfers_eq by (auto simp: visit_rel_def split: list.split prod.split)
  moreover have "transfers f Q (\<lambda>q q'. q' = q \<and> b) (\<lambda>q q'. q' = q \<and> b)" for b by (auto simp: transfers_def)
  ultimately show ?thesis using transfers_edges [OF assms] by (auto simp: step_rel_def Let_def intro!: transfers_OO)
qed

lemma transfers_run:
  assumes "inj_on f Q" "\<And>gs. transfers f Q (tr gs) (tr' gs)"
  shows "transfers f Q (run_rel L tr gf m \<alpha> ss) (run_rel L tr' gf m \<alpha> ss)"
  by (induction ss) (auto intro: transfers_eq transfers_OO transfers_step [OF assms])

section \<open>The whole automaton\<close>

abbreviation aut_trans :: "('a \<Rightarrow> trans) \<Rightarrow> 'a \<Rightarrow> int list \<Rightarrow> state \<Rightarrow> state \<Rightarrow> bool" where
  "aut_trans T A graphs p q \<equiv> \<exists>g \<in> set graphs. (p, g, q) \<in> T A"

lemma graph_trans_rel: "graph_trans env gs q q' \<longleftrightarrow> (\<exists>g \<in> set gs. (q, g, q') \<in> tr_rel (transitions env))"
  by (simp add: graph_trans_def tr_rel_iff)

lemma build_transitions_correct:
  assumes A: "astl_nfa N ok T" "ok A" and sm: "compact_state_numbers N A = (sm, rm, fin)"
  defines "f \<equiv> the \<circ> sm" and "Q \<equiv> set (a_states N A)"
  shows "inj_on f Q" "q \<in> Q \<Longrightarrow> f q < length (a_states N A)" "fin = f ` a_finals N A"
    and "tr_rel (build_transitions N A f) = (\<lambda>(p, g, q). (f p, g, f q)) ` T A" (is ?rel)
    and "tr_keys (build_transitions N A f) \<subseteq> f ` Q" (is ?keys)
proof -
  note maps = compact_state_numbers_maps [OF A sm]
  have f: "f q < length (a_states N A) \<and> a_states N A ! f q = q" if "q \<in> Q" for q
  proof -
    obtain i where i: "i < length (a_states N A)" "a_states N A ! i = q" using \<open>q \<in> Q\<close> by (auto simp: Q_def in_set_conv_nth)
    then have "sm q = Some i" using maps(1) by blast
    then show ?thesis using i by (simp add: f_def)
  qed
  show "inj_on f Q" using f by (metis inj_onI)
  show "q \<in> Q \<Longrightarrow> f q < length (a_states N A)" using f by blast
  have d: "distinct (a_states N A)" by (rule astl_nfa.states_distinct [OF A])
  show "fin = f ` a_finals N A"
  proof (intro set_eqI iffI)
    fix i assume "i \<in> fin"
    then have i: "i < length (a_states N A)" "a_final N A (a_states N A ! i)" using maps(3) by auto
    moreover have "f (a_states N A ! i) = i" using f [of "a_states N A ! i"] i(1) d by (auto simp: Q_def nth_eq_iff_index_eq)
    ultimately show "i \<in> f ` a_finals N A" by (force simp: a_finals_def image_iff)
  next
    fix i assume "i \<in> f ` a_finals N A"
    then show "i \<in> fin" using f maps(3) by (auto simp: a_finals_def Q_def)
  qed
  have states: "p \<in> Q \<and> q \<in> Q" if "(p, g, q) \<in> T A" for p g q using astl_nfa.trans_states [OF A that] by (simp add: Q_def)
  have empty: "tr_rel (\<lambda>g. []) = {}" "tr_keys (\<lambda>g. []) = {}" by (auto simp: tr_rel_def tr_keys_def)
  have "tr_rel (build_transitions N A f) = (\<Union>p \<in> Q. (\<lambda>e. (f p, fst e, f (snd e))) ` set (a_delta2 N A p))"
    by (simp add: build_transitions_def fold_states_transition(1) empty Q_def)
  also have "\<dots> = (\<Union>p \<in> Q. (\<lambda>e. (f p, fst e, f (snd e))) ` {(g, q). (p, g, q) \<in> T A})"
    using astl_nfa.delta2(1) [OF A] by (simp add: Q_def)
  also have "\<dots> = (\<lambda>(p, g, q). (f p, g, f q)) ` T A" using states by (force simp: image_iff)
  finally show ?rel .
  show ?keys using fold_states_transition(2) [of f "a_delta2 N A" "a_states N A" "\<lambda>g. []"]
    by (simp add: build_transitions_def empty Q_def)
qed

lemma aut_trans_transfers:
  assumes A: "astl_nfa N ok T" "ok A" and sm: "compact_state_numbers N A = (sm, rm, fin)"
    and env: "transitions env = build_transitions N A (the \<circ> sm)"
  shows "transfers (the \<circ> sm) (set (a_states N A)) (aut_trans T A gs) (graph_trans env gs)"
proof -
  note b = build_transitions_correct [OF A sm]
  have states: "p \<in> set (a_states N A) \<and> q \<in> set (a_states N A)" if "(p, g, q) \<in> T A" for p g q
    using astl_nfa.trans_states [OF A that] .
  have iff: "((the \<circ> sm) p, g, q') \<in> (\<lambda>(p, g, q). ((the \<circ> sm) p, g, (the \<circ> sm) q)) ` T A \<longleftrightarrow> (\<exists>q. (p, g, q) \<in> T A \<and> q' = (the \<circ> sm) q)"
    if p: "p \<in> set (a_states N A)" for p g q'
  proof
    assume "((the \<circ> sm) p, g, q') \<in> (\<lambda>(p, g, q). ((the \<circ> sm) p, g, (the \<circ> sm) q)) ` T A"
    then obtain r q where q: "(r, g, q) \<in> T A" "(the \<circ> sm) r = (the \<circ> sm) p" "q' = (the \<circ> sm) q" by auto
    then have "r = p" using inj_onD [OF b(1) q(2)] states [OF q(1)] p by blast
    then show "\<exists>q. (p, g, q) \<in> T A \<and> q' = (the \<circ> sm) q" using q by blast
  qed force
  have "(\<exists>g \<in> set gs. ((the \<circ> sm) p, g, q') \<in> tr_rel (transitions env)) \<longleftrightarrow> (\<exists>q. aut_trans T A gs p q \<and> q' = (the \<circ> sm) q)"
    if p: "p \<in> set (a_states N A)" for p q'
    unfolding env b(4) using iff [OF p] by auto
  then show ?thesis unfolding transfers_def graph_trans_rel using states by blast
qed

lemma env_ok_build:
  assumes A: "astl_nfa N ok T" "ok A" and sm: "compact_state_numbers N A = (sm, rm, fin)"
    and env: "transitions env = build_transitions N A (the \<circ> sm)" "width env = width_loop 1 (length (a_states N A))"
  shows "env_ok env"
proof -
  note b = build_transitions_correct [OF A sm]
  have less: "(the \<circ> sm) q < 2 ^ width env" if "q \<in> set (a_states N A)" for q
    using b(2) [OF that] width_loop_less [of "length (a_states N A)"] env(2) by simp
  have "fst t < 2 ^ width env \<and> (\<forall>s \<in> set (snd t). s < 2 ^ width env)" if t: "t \<in> set (transitions env g)" for t g
  proof
    have "fst t \<in> tr_keys (transitions env)" using t by (auto simp: tr_keys_def)
    then have "fst t \<in> (the \<circ> sm) ` set (a_states N A)" using b(5) unfolding env(1) by (rule subsetD [rotated])
    then show "fst t < 2 ^ width env" using less by auto
    show "\<forall>s \<in> set (snd t). s < 2 ^ width env"
    proof
      fix s assume "s \<in> set (snd t)"
      then have "(fst t, g, s) \<in> tr_rel (transitions env)" using t by (auto simp: tr_rel_iff)
      then obtain p q where "(p, g, q) \<in> T A" "s = (the \<circ> sm) q" unfolding env(1) b(4) by auto
      then show "s < 2 ^ width env" using less astl_nfa.trans_states [OF A, of p g q] by simp
    qed
  qed
  then show ?thesis by (auto simp: env_ok_def)
qed

context sat_library
begin

lemma start_correct:
  assumes "init < 2 ^ w" "supported_clauses n cnf"
  defines "st0 \<equiv> \<lparr>next_var = n, clauses = cnf, prev_state = [], reached = [init], bv_cache = Map.empty,
      prev_eq_cache = Map.empty, next_eq_cache = Map.empty, tg_to_lit = [], step_to_trans = []\<rparr>"
  shows "\<exists>bv st1. state_to_bvt_lookup L w init st0 = (bv, st1) \<and> enc_ok w n (st1\<lparr>prev_state := bv\<rparr>)
    \<and> states_of n \<alpha> (st1\<lparr>prev_state := bv\<rparr>) = (if clauses_hold L \<alpha> cnf then {init} else {})
    \<and> reached (st1\<lparr>prev_state := bv\<rparr>) = [init]"
proof -
  let ?bv = "map (lit_const L) (build_constant L init w)"
  let ?st1 = "st0\<lparr>bv_cache := [init \<mapsto> ?bv]\<rparr>"
  have run: "state_to_bvt_lookup L w init st0 = (?bv, ?st1)" by (simp add: state_to_bvt_lookup_def st0_def Let_def)
  have val: "bv_value L \<beta> ?bv = init" for \<beta>
    using assms(1) by (simp add: bv_value_def comp_def value_constant)
  have ok: "enc_ok w n (?st1\<lparr>prev_state := ?bv\<rparr>)"
    using assms(2) by (auto simp: enc_ok_def caches_ok_def st0_def supported_vec_def supported_const)
  have "states_of n \<alpha> (?st1\<lparr>prev_state := ?bv\<rparr>) = (if clauses_hold L \<alpha> cnf then {init} else {})"
  proof -
    have "states_of n \<alpha> (?st1\<lparr>prev_state := ?bv\<rparr>) = {init |\<beta>. same_below n \<alpha> \<beta> \<and> clauses_hold L \<beta> cnf}"
      by (simp add: states_of_def val st0_def)
    also have "\<dots> = {init |\<beta>. same_below n \<alpha> \<beta> \<and> clauses_hold L \<alpha> cnf}"
      using supported_clauses_hold [OF assms(2)] by blast
    also have "\<dots> = (if clauses_hold L \<alpha> cnf then {init} else {})" by (auto intro: exI [of _ \<alpha>])
    finally show ?thesis .
  qed
  moreover have "reached (?st1\<lparr>prev_state := ?bv\<rparr>) = [init]" by (simp add: st0_def)
  ultimately show ?thesis using run ok by (intro exI [of _ ?bv] exI [of _ ?st1] conjI)
qed

lemma final_clause_correct:
  assumes "enc_ok w n st" "\<forall>s \<in> set finals. s < 2 ^ w"
  shows "\<exists>ls st'. encode_finals L w finals st = (ls, st')
    \<and> ((\<exists>\<beta>. same_below n \<alpha> \<beta> \<and> clauses_hold L \<beta> (clauses st' @ [[lits_or L ls]])) \<longleftrightarrow> states_of n \<alpha> st \<inter> set finals \<noteq> {})"
proof -
  obtain ls st' where r: "encode_finals L w finals st = (ls, st')" "same_core st st'" "list_all2 (equals_lit (prev_state st)) finals ls"
    using encode_finals_correct [of w "[]" st finals] assms by (auto simp: enc_ok_def)
  have "(\<exists>l \<in> set ls. lit_value L \<beta> l) \<longleftrightarrow> bv_value L \<beta> (prev_state st) \<in> set finals" for \<beta>
    using r(3) by (induction rule: list_all2_induct) (auto simp: equals_lit_def)
  then show ?thesis using r(1,2) by (auto simp: states_of_def same_core_def)
qed

lemma meets_image: "{x. c \<and> (\<exists>q. R q \<and> x = g q)} \<inter> X \<noteq> {} \<longleftrightarrow> c \<and> (\<exists>q. R q \<and> g q \<in> X)"
  by auto

lemma build_correct:
  assumes A: "astl_nfa N ok T" "ok A" "a_initial N A = {i}" "i \<in> set (a_states N A)"
    and cnf: "clauses_below L n cnf" and guards: "\<forall>s \<in> set steps. depends_below L n (guard_literal s)"
    and def: "\<forall>s \<in> set (selected_steps None steps). step_defined L gf (collect_graphs N A lookup m) s"
  shows "\<exists>st. build L N A lookup is_tgs map_tgs gf steps m n cnf = Some (collect_graphs N A lookup m, st)
    \<and> (\<forall>\<alpha>. (\<exists>\<beta>. same_below n \<alpha> \<beta> \<and> clauses_hold L \<beta> (clauses st)) \<longleftrightarrow>
        clauses_hold L \<alpha> cnf \<and> (\<exists>q \<in> a_finals N A.
          run_rel L (aut_trans T A) gf (collect_graphs N A lookup m) \<alpha> (selected_steps None steps) i q))"
proof -
  let ?m = "collect_graphs N A lookup m" and ?w = "width_loop 1 (length (a_states N A))" and ?Q = "set (a_states N A)"
  obtain sm rm fin where sm: "compact_state_numbers N A = (sm, rm, fin)" by (metis surj_pair)
  let ?f = "the \<circ> sm"
  note b = build_transitions_correct [OF A(1,2) sm]
  define env where "env = \<lparr>width = ?w, map_tg = map_tgs, reverse_state_map = rm, is_test_goal_state = is_tgs,
      transitions = build_transitions N A ?f, local_target_graphs = local_graphs ?m\<rparr>"
  have env: "env_ok env" by (rule env_ok_build [OF A(1,2) sm]) (simp_all add: env_def)
  have less: "?f q < 2 ^ ?w" if "q \<in> ?Q" for q using b(2) [OF that] width_loop_less [of "length (a_states N A)"] by simp
  define st0 where "st0 = \<lparr>next_var = n, clauses = cnf, prev_state = [] :: 'l list, reached = [?f i], bv_cache = Map.empty,
      prev_eq_cache = Map.empty, next_eq_cache = Map.empty, tg_to_lit = [], step_to_trans = []\<rparr>"
  obtain bv st1 where st1: "state_to_bvt_lookup L ?w (?f i) st0 = (bv, st1)"
    using surj_pair by metis
  have start: "enc_inv env n \<alpha> (st1\<lparr>prev_state := bv\<rparr>)"
      "states_of n \<alpha> (st1\<lparr>prev_state := bv\<rparr>) = (if clauses_hold L \<alpha> cnf then {?f i} else {})" for \<alpha>
    using start_correct [OF less [OF A(4)] cnf, of \<alpha>] st1 unfolding st0_def [symmetric] by (auto simp: enc_inv_def env_def)
  have loc: "local_graphs ?m = local_target_graphs env" by (simp add: env_def)
  note steps = encode_steps_correct [OF start(1) env guards def loc, where no = 0]
  obtain st2 where st2: "encode_steps L env gf ?m None 0 steps (st1\<lparr>prev_state := bv\<rparr>) = Some st2" using steps by blast
  then have ok2: "enc_ok ?w n st2" using steps [of undefined] by (auto simp: enc_inv_def env_def)
  have states: "states_of n \<alpha> st2 = {q'. clauses_hold L \<alpha> cnf
      \<and> run_rel L (graph_trans env) gf ?m \<alpha> (selected_steps None steps) (?f i) q'}" for \<alpha>
    using steps [of \<alpha>] st2 start(2) [of \<alpha>] by auto
  have fin: "set (sorted_list_of_set fin) = ?f ` a_finals N A" unfolding b(3) by (simp add: a_finals_def)
  then have "\<forall>s \<in> set (sorted_list_of_set fin). s < 2 ^ ?w" using less by (auto simp: a_finals_def)
  note final = final_clause_correct [OF ok2 this]
  obtain ls st3 where st3: "encode_finals L ?w (sorted_list_of_set fin) st2 = (ls, st3)" using surj_pair by metis
  have "build L N A lookup is_tgs map_tgs gf steps m n cnf = Some (?m, st3\<lparr>clauses := clauses st3 @ [[lits_or L ls]]\<rparr>)"
    using st1 st2 st3 unfolding build_def sm A(3) env_def st0_def by (simp add: Let_def)
  moreover have "(\<exists>\<beta>. same_below n \<alpha> \<beta> \<and> clauses_hold L \<beta> (clauses st3 @ [[lits_or L ls]])) \<longleftrightarrow>
        clauses_hold L \<alpha> cnf \<and> (\<exists>q \<in> a_finals N A. run_rel L (aut_trans T A) gf ?m \<alpha> (selected_steps None steps) i q)" for \<alpha>
  proof -
    have "transfers ?f ?Q (aut_trans T A gs) (graph_trans env gs)" for gs
      using aut_trans_transfers [OF A(1,2) sm] by (simp add: env_def)
    note tr = transfers_run [where tr = "aut_trans T A" and tr' = "graph_trans env" and L = L and gf = gf and m = ?m and \<alpha> = \<alpha> and ss = "selected_steps None steps", OF b(1) this]
    have "states_of n \<alpha> st2 \<inter> ?f ` a_finals N A \<noteq> {} \<longleftrightarrow> clauses_hold L \<alpha> cnf
        \<and> (\<exists>q. run_rel L (aut_trans T A) gf ?m \<alpha> (selected_steps None steps) i q \<and> ?f q \<in> ?f ` a_finals N A)"
      unfolding states transfers_iff [OF tr A(4)] by (rule meets_image)
    also have "\<dots> \<longleftrightarrow> clauses_hold L \<alpha> cnf \<and> (\<exists>q \<in> a_finals N A. run_rel L (aut_trans T A) gf ?m \<alpha> (selected_steps None steps) i q)"
    proof -
      have "a_finals N A \<subseteq> ?Q" by (auto simp: a_finals_def)
      then have "?f q \<in> ?f ` a_finals N A \<longleftrightarrow> q \<in> a_finals N A"
        if "run_rel L (aut_trans T A) gf ?m \<alpha> (selected_steps None steps) i q" for q
        by (rule inj_on_image_mem_iff [OF b(1) transfers_closed [OF tr A(4) that]])
      then show ?thesis by blast
    qed
    finally show ?thesis using final [of \<alpha>] st3 fin by auto
  qed
  ultimately show ?thesis by simp
qed

end

section \<open>The graphs at a location\<close>

lemma smap_update_correct:
  fixes g :: int
  assumes C: "slo lt C" "k \<in> C" and "fst ` set m \<subseteq> C" "sorted_wrt lt (map fst m)"
  defines "m' \<equiv> smap_update lt k [] (insort_insert g) m"
  shows "sorted_wrt lt (map fst m')" "fst ` set m' \<subseteq> insert k (fst ` set m)"
    and "(\<exists>t \<in> set m'. fst t = k' \<and> x \<in> set (snd t)) \<longleftrightarrow> k' = k \<and> x = g \<or> (\<exists>t \<in> set m. fst t = k' \<and> x \<in> set (snd t))"
    and "\<forall>t \<in> set m. snd t \<noteq> [] \<Longrightarrow> \<forall>t \<in> set m'. snd t \<noteq> []"
proof -
  show keys: "fst ` set m' \<subseteq> insert k (fst ` set m)" unfolding m'_def by (rule smap_update_keys)
  have ne: "insort_insert g v \<noteq> []" for v by (auto simp: insort_insert_key_def)
  show "\<forall>t \<in> set m. snd t \<noteq> [] \<Longrightarrow> \<forall>t \<in> set m'. snd t \<noteq> []"
    unfolding m'_def list_all_iff [symmetric] by (induction m) (auto simp: ne [symmetric] ne)
  show "sorted_wrt lt (map fst m')" using assms(3,4) unfolding m'_def
  proof (induction m)
    case (Cons t m)
    have t: "fst t \<in> C" "fst ` set m \<subseteq> C" using Cons.prems(1) by auto
    note tri = slo_trichotomy [OF C t(1)]
    have tr: "lt k y" if "lt k (fst t)" "y \<in> fst ` set m" for y
      using slo_trans [OF C(1) that(1) _ C(2) t(1)] that(2) t(2) Cons.prems(2) by auto
    have "lt (fst t) y" if "lt (fst t) k" "y \<in> fst ` set (smap_update lt k [] (insort_insert g) m)" for y
    proof -
      have "y = k \<or> y \<in> fst ` set m" using that(2) smap_update_keys [of lt k "[]" "insort_insert g" m] by blast
      then show ?thesis using that(1) Cons.prems(2) by auto
    qed
    then show ?case using Cons tri tr t(2) by (cases t) (auto simp: image_iff)
  qed simp
  show "(\<exists>t \<in> set m'. fst t = k' \<and> x \<in> set (snd t)) \<longleftrightarrow> k' = k \<and> x = g \<or> (\<exists>t \<in> set m. fst t = k' \<and> x \<in> set (snd t))"
    using assms(3) unfolding m'_def
  proof (induction m)
    case (Cons t m)
    then show ?case using slo_eq_iff [OF C(1,2), of "fst t"] by (cases t) (auto simp: set_insort_insert)
  qed (auto simp: set_insort_insert)
qed

definition loc_rel :: "(targett \<Rightarrow> ('k \<times> int list) list) \<Rightarrow> (targett \<times> 'k \<times> int) set" where
  "loc_rel mp = {(p, k, g). \<exists>t \<in> set (mp p). fst t = k \<and> g \<in> set (snd t)}"

definition loc_ok :: "('k \<Rightarrow> 'k \<Rightarrow> bool) \<Rightarrow> 'k set \<Rightarrow> (targett \<Rightarrow> ('k \<times> int list) list) \<Rightarrow> bool" where
  "loc_ok lt C mp \<longleftrightarrow> (\<forall>p. sorted_wrt lt (map fst (mp p)) \<and> fst ` set (mp p) \<subseteq> C \<and> (\<forall>t \<in> set (mp p). snd t \<noteq> []))"

lemma loc_update_correct:
  fixes g :: int and p :: targett
  assumes C: "slo lt C" "k \<in> C" and ok: "loc_ok lt C mp"
  defines "mp' \<equiv> mp(p := smap_update lt k [] (insort_insert g) (mp p))"
  shows "loc_ok lt C mp'" "loc_rel mp' = insert (p, k, g) (loc_rel mp)"
proof -
  have p: "fst ` set (mp p) \<subseteq> C" "sorted_wrt lt (map fst (mp p))" "\<forall>t \<in> set (mp p). snd t \<noteq> []" using ok by (auto simp: loc_ok_def)
  note u = smap_update_correct [OF C p(1,2), of g]
  have "fst ` set (smap_update lt k [] (insort_insert g) (mp p)) \<subseteq> C" using u(2) p(1) C(2) by blast
  then show "loc_ok lt C mp'" using ok u(1) u(4) [OF p(3)] by (simp add: loc_ok_def mp'_def)
  have "(q, k', x) \<in> loc_rel mp' \<longleftrightarrow> (q, k', x) = (p, k, g) \<or> (q, k', x) \<in> loc_rel mp" for q k' x
    using u(3) [of k' x] by (cases "q = p") (simp_all add: loc_rel_def mp'_def)
  then show "loc_rel mp' = insert (p, k, g) (loc_rel mp)" by auto
qed

lemma loc_fold_correct:
  fixes g :: int and key :: "'k \<Rightarrow> targett"
  assumes C: "slo lt C" "set es \<subseteq> C" and ok: "loc_ok lt C mp"
  defines "mp' \<equiv> fold (\<lambda>e mp. mp(key e := smap_update lt e [] (insort_insert g) (mp (key e)))) es mp"
  shows "loc_ok lt C mp' \<and> loc_rel mp' = loc_rel mp \<union> {(key e, e, g) |e. e \<in> set es}"
  using C(2) ok unfolding mp'_def
proof (induction es arbitrary: mp)
  case (Cons e es)
  have e: "e \<in> C" "set es \<subseteq> C" using Cons.prems(1) by auto
  note u = loc_update_correct [OF C(1) e(1) Cons.prems(2), of "key e" g]
  show ?case using Cons.IH [OF e(2) u(1)] u(2) by (auto simp del: fun_upd_apply)
qed auto

text \<open>The graphs collected so far relate the locations of their nodes and edges to them.\<close>

definition collected :: "(int \<Rightarrow> cfa) \<Rightarrow> loc_maps \<Rightarrow> loc_maps \<Rightarrow> bool" where
  "collected lookup m\<^sub>0 m \<longleftrightarrow> loc_ok node_lt cfa_nodes (loc_to_nodes m) \<and> loc_ok edge_lt cfa_edges (loc_to_edges m)
     \<and> loc_rel (loc_to_edges m) = loc_rel (loc_to_edges m\<^sub>0)
         \<union> {(snd (fst e), e, g) |e g. g \<in> set (local_graphs m) \<and> e \<in> set (m_edges (lookup g))}
     \<and> loc_rel (loc_to_nodes m) = loc_rel (loc_to_nodes m\<^sub>0)
         \<union> {(snd n, n, g) |n g. g \<in> set (local_graphs m) \<and> n \<in> set (m_disconnected_nodes (lookup g))}"

lemma collect_graph_correct:
  assumes m: "collected lookup m\<^sub>0 m" and g: "cfa_inv (lookup g)"
  shows "collected lookup m\<^sub>0 (collect_graph lookup g m)
    \<and> set (local_graphs (collect_graph lookup g m)) = insert g (set (local_graphs m))"
proof (cases "g \<in> set (local_graphs m)")
  case False
  have c: "set (m_edges (lookup g)) \<subseteq> cfa_edges" "set (m_disconnected_nodes (lookup g)) \<subseteq> cfa_nodes"
    using g by (auto simp: cfa_inv_def node_set.ordered_def edge_set.ordered_def)
  have ok: "loc_ok node_lt cfa_nodes (loc_to_nodes m)" "loc_ok edge_lt cfa_edges (loc_to_edges m)"
    using m by (auto simp: collected_def)
  note e = loc_fold_correct [OF slo_edge_lt c(1) ok(2), of "\<lambda>e. snd (fst e)" g]
    and n = loc_fold_correct [OF slo_node_lt c(2) ok(1), of snd g]
  let ?es = "m_edges (lookup g)" and ?ns = "m_disconnected_nodes (lookup g)"
  let ?E = "fold (\<lambda>e mp. mp(snd (fst e) := smap_update edge_lt e [] (insort_insert g) (mp (snd (fst e))))) ?es (loc_to_edges m)"
    and ?N = "fold (\<lambda>n mp. mp(snd n := smap_update node_lt n [] (insort_insert g) (mp (snd n)))) ?ns (loc_to_nodes m)"
  have eq: "collect_graph lookup g m = m\<lparr>local_graphs := insort_insert g (local_graphs m), loc_to_nodes := ?N, loc_to_edges := ?E\<rparr>"
    using False by (simp add: collect_graph_def Let_def)
  have "loc_rel ?E = loc_rel (loc_to_edges m\<^sub>0)
      \<union> {(snd (fst e), e, h) |e h. h \<in> insert g (set (local_graphs m)) \<and> e \<in> set (m_edges (lookup h))}"
    unfolding conjunct2 [OF e] using m by (auto simp: collected_def)
  moreover have "loc_rel ?N = loc_rel (loc_to_nodes m\<^sub>0)
      \<union> {(snd n, n, h) |n h. h \<in> insert g (set (local_graphs m)) \<and> n \<in> set (m_disconnected_nodes (lookup h))}"
    unfolding conjunct2 [OF n] using m by (auto simp: collected_def)
  ultimately show ?thesis using e n by (simp add: eq collected_def set_insort_insert)
qed (use m in \<open>auto simp: collect_graph_def\<close>)

lemma collect_fold_correct:
  assumes g: "\<forall>g. cfa_inv (lookup g)"
  shows "collected lookup m\<^sub>0 m \<Longrightarrow> collected lookup m\<^sub>0 (fold (\<lambda>e. collect_graph lookup (fst e)) es m)
      \<and> set (local_graphs (fold (\<lambda>e. collect_graph lookup (fst e)) es m)) = fst ` set es \<union> set (local_graphs m)"
    and "collected lookup m\<^sub>0 m \<Longrightarrow> collected lookup m\<^sub>0 (fold (\<lambda>q. fold (\<lambda>e. collect_graph lookup (fst e)) (delta q)) qs m)
      \<and> set (local_graphs (fold (\<lambda>q. fold (\<lambda>e. collect_graph lookup (fst e)) (delta q)) qs m))
        = (\<Union>q \<in> set qs. fst ` set (delta q)) \<union> set (local_graphs m)"
proof -
  show inner: "collected lookup m\<^sub>0 m \<Longrightarrow> collected lookup m\<^sub>0 (fold (\<lambda>e. collect_graph lookup (fst e)) es m)
      \<and> set (local_graphs (fold (\<lambda>e. collect_graph lookup (fst e)) es m)) = fst ` set es \<union> set (local_graphs m)" for m es
    by (induction es arbitrary: m) (use collect_graph_correct g in \<open>auto\<close>)
  show "collected lookup m\<^sub>0 m \<Longrightarrow> collected lookup m\<^sub>0 (fold (\<lambda>q. fold (\<lambda>e. collect_graph lookup (fst e)) (delta q)) qs m)
      \<and> set (local_graphs (fold (\<lambda>q. fold (\<lambda>e. collect_graph lookup (fst e)) (delta q)) qs m))
        = (\<Union>q \<in> set qs. fst ` set (delta q)) \<union> set (local_graphs m)"
  proof (induction qs arbitrary: m)
    case (Cons q qs)
    note i = inner [OF Cons.prems, of "delta q"]
    show ?case using Cons.IH [OF conjunct1 [OF i]] conjunct2 [OF i] by (simp add: Un_assoc Un_left_commute)
  qed simp
qed

section \<open>Properties\<close>

text \<open>
  C4. The Boolean encoding of a trace automaton along the steps of the equation is exact: an
  assignment of the equation's variables extends to a model of the clauses exactly if it satisfies
  the given clauses and the relation of the selected steps under it, read over the states and
  transitions of the automaton, leads from the initial state to a final one. At a node any number
  of transitions may be made; the truth values of the steps' guards and of the branches decide
  which edges must be taken. The numbering of states, the width of the vector, the caches, the
  restriction to states that may have been reached and the number of rounds at a node do not show.
\<close>

theorem encoding_exact:
  assumes "sat_library L" "astl_nfa N ok T" "ok A" "a_initial N A = {i}" "i \<in> set (a_states N A)"
    and "clauses_below L n cnf" "\<forall>s \<in> set steps. depends_below L n (guard_literal s)"
    and "\<forall>s \<in> set (selected_steps None steps). step_defined L gf (collect_graphs N A lookup m) s"
  shows "\<exists>st. build L N A lookup is_tgs map_tgs gf steps m n cnf = Some (collect_graphs N A lookup m, st)
    \<and> (\<forall>\<alpha>. (\<exists>\<beta>. same_below n \<alpha> \<beta> \<and> clauses_hold L \<beta> (clauses st)) \<longleftrightarrow>
        clauses_hold L \<alpha> cnf \<and> (\<exists>q \<in> a_finals N A.
          run_rel L (aut_trans T A) gf (collect_graphs N A lookup m) \<alpha> (selected_steps None steps) i q))"
  by (rule sat_library.build_correct [OF assms])

definition sample_single :: lnfa where
  "sample_single = \<lparr>l_states = [1, 2], l_trans = [(1, 0, 2)], l_initial = {1}, l_final = {2}, l_next = 3\<rparr>"

definition sample_lookup :: "int \<Rightarrow> cfa" where
  "sample_lookup g = \<lparr>m_disconnected_nodes = [], m_edges = [(sample_node 1, sample_node 2)], m_initial = [sample_node 1]\<rparr>"

definition sample_steps :: "formula symex_step list" where
  "sample_steps = [\<lparr>source_pc = sample_instruction ASSIGN ''main'' 1 (Code_Assign (Exprt ''symbol'' ''x'' []) (Exprt ''symbol'' ''y'' [])),
     guard_literal = P_Var 0, guard_unused = False, step_kind = ASSIGNMENT_STEP STATE_ASSIGN\<rparr>]"

definition no_locs :: loc_maps where
  "no_locs = \<lparr>local_graphs = [], loc_to_nodes = (\<lambda>p. []), loc_to_edges = (\<lambda>p. [])\<rparr>"

lemma sample_collect:
  "collect_graphs list_astl sample_single sample_lookup no_locs = \<lparr>local_graphs = [0], loc_to_nodes = (\<lambda>p. []),
     loc_to_edges = (\<lambda>p. [])(\<lparr>t_function = ''main'', location_number = 1\<rparr> := [((sample_node 1, sample_node 2), [0])])\<rparr>"
  by (simp add: collect_graphs_def collect_graph_def list_astl_def sample_single_def sample_lookup_def no_locs_def
      sample_node_def insort_insert_key_def)

lemma sample_selected: "selected_steps None sample_steps = [(hd sample_steps, [])]"
  by (simp add: sample_steps_def skip_step_def ignore_function_of_def ignore_instruction_def sample_instruction_def ID__start_def
      builtin_library_def)

theorem encoding_exact_witness:
  "\<exists>st. build formula_lib list_astl sample_single sample_lookup (\<lambda>q. q = 2) True [] sample_steps no_locs 1 []
      = Some (collect_graphs list_astl sample_single sample_lookup no_locs, st)
    \<and> (\<forall>\<alpha>. (\<exists>\<beta>. same_below 1 \<alpha> \<beta> \<and> clauses_hold formula_lib \<beta> (clauses st)) \<longleftrightarrow> \<alpha> 0)"
proof -
  let ?m = "collect_graphs list_astl sample_single sample_lookup no_locs"
  have inv: "lnfa_inv sample_single" by (auto simp: lnfa_inv_def sample_single_def within_def)
  have ini: "a_initial list_astl sample_single = {1}" "1 \<in> set (a_states list_astl sample_single)"
    by (simp_all add: list_astl_def sample_single_def)
  have fin: "a_finals list_astl sample_single = {2}" by (auto simp: a_finals_def list_astl_def sample_single_def)
  have below: "clauses_below formula_lib 1 []" "\<forall>s \<in> set sample_steps. depends_below formula_lib 1 (guard_literal s)"
    by (simp_all add: clauses_below_def depends_below_def sample_steps_def formula_lib_def same_below_def)
  have def: "\<forall>s \<in> set (selected_steps None sample_steps). step_defined formula_lib [] ?m s"
    by (simp add: sample_selected step_defined_def goto_guard_literal_def find_goto_edge_def sample_steps_def sample_instruction_def)
  have run: "run_rel formula_lib (aut_trans lnfa_T sample_single) [] ?m \<alpha> [(hd sample_steps, [])] 1 2 \<longleftrightarrow> \<alpha> 0" for \<alpha>
  proof -
    have tr: "(1, 0, 2) \<in> lnfa_T sample_single" by (simp add: lnfa_T_def sample_single_def)
    show ?thesis unfolding sample_collect
      by (simp add: step_rel_def visit_rel_def edges_rel_def edge_taken_def local_part_def sample_steps_def Let_def
        sample_instruction_def pc_def goto_guard_literal_def find_goto_edge_def formula_lib_def is_instrumented_def
        tr [simplified] relcompp_apply)
  qed
  show ?thesis
    using encoding_exact [OF formula.sat_library_axioms list_nfa.astl_nfa_axioms inv ini below def, of "\<lambda>q. q = 2" True]
    by (simp only: sample_selected fin run bex_simps simp_thms clauses_hold_simps)
qed

text \<open>
  C33. The graphs collected for an automaton are those of its transitions, and each location is
  related to exactly the edges that start there, and to the disconnected nodes there, with the graphs
  that contain them, in addition to what the maps held before. The maps stay ordered.
\<close>

theorem collect_graphs_exact:
  assumes "astl_nfa N ok T" "ok A" "\<forall>g. cfa_inv (lookup g)"
    and "loc_ok node_lt cfa_nodes (loc_to_nodes m)" "loc_ok edge_lt cfa_edges (loc_to_edges m)"
  defines "m' \<equiv> collect_graphs N A lookup m"
  shows "set (local_graphs m') = {g. \<exists>p q. (p, g, q) \<in> T A}
    \<and> loc_ok node_lt cfa_nodes (loc_to_nodes m') \<and> loc_ok edge_lt cfa_edges (loc_to_edges m')
    \<and> loc_rel (loc_to_edges m') = loc_rel (loc_to_edges m)
        \<union> {(snd (fst e), e, g) |e g. (\<exists>p q. (p, g, q) \<in> T A) \<and> e \<in> set (m_edges (lookup g))}
    \<and> loc_rel (loc_to_nodes m') = loc_rel (loc_to_nodes m)
        \<union> {(snd n, n, g) |n g. (\<exists>p q. (p, g, q) \<in> T A) \<and> n \<in> set (m_disconnected_nodes (lookup g))}"
proof -
  have start: "collected lookup m (m\<lparr>local_graphs := []\<rparr>)" using assms(4,5) by (simp add: collected_def)
  have "(\<Union>q \<in> set (a_states N A). fst ` set (a_delta2 N A q)) = (\<Union>q \<in> set (a_states N A). fst ` {(a, r). (q, a, r) \<in> T A})"
    using astl_nfa.delta2(1) [OF assms(1,2)] by simp
  also have "\<dots> = {g. \<exists>p q. (p, g, q) \<in> T A}"
    using astl_nfa.trans_states [OF assms(1,2)] by (fastforce simp: image_iff)
  finally show ?thesis
    using collect_fold_correct(2) [OF assms(3) start, of "a_delta2 N A" "a_states N A"]
    by (simp add: m'_def collect_graphs_def collected_def)
qed

theorem collect_graphs_exact_witness:
  "loc_rel (loc_to_edges (collect_graphs list_astl sample_loop (\<lambda>g. sample_cfa) no_locs))
    = {(snd (fst e), e, g) |e g. (\<exists>p q. (p, g, q) \<in> lnfa_T sample_loop) \<and> e \<in> set (m_edges sample_cfa)}"
proof -
  have inv: "lnfa_inv sample_loop" by (auto simp: lnfa_inv_def sample_loop_def within_def)
  have g: "\<forall>g :: int. cfa_inv sample_cfa" using sample_cfa_inv by simp
  have ok: "loc_ok node_lt cfa_nodes (loc_to_nodes no_locs)" "loc_ok edge_lt cfa_edges (loc_to_edges no_locs)"
    by (simp_all add: loc_ok_def no_locs_def)
  have "loc_rel (loc_to_edges no_locs) = {}" by (simp add: loc_rel_def no_locs_def)
  then show ?thesis using collect_graphs_exact [OF list_nfa.astl_nfa_axioms inv g ok] by simp
qed

text \<open>
  The loop that computes the width of the state vector ends with enough bits for the number of
  states, and one bit less would not be enough to count them.
\<close>

theorem state_vector_width:
  "num_states < 2 ^ width_loop 1 num_states \<and> 2 ^ width_loop 1 num_states \<le> 2 * max 1 num_states"
  using width_loop_bounds [of num_states 0] by (cases "num_states = 0") (auto simp: width_loop.simps [of _ 0])


definition back_jump :: instructiont where
  "back_jump = (sample_instruction GOTO ''main'' 1 (Code_Statement ''goto''))
     \<lparr>guard := Guard_Cond (Exprt ''symbol'' ''c'' []), targets := [Some \<lparr>t_function = ''main'', location_number = 0\<rparr>]\<rparr>"


end
