(* ===== verification/Coverage_Pattern.thy ===== *)
theory Coverage_Pattern
  imports Path_Pattern
begin

text \<open>
  Evaluation of coverage patterns to the test goal automaton
  (\<open>src/fshell2/fql/evaluation/evaluate_coverage_pattern.cpp\<close>).

  The automata of the path patterns are glued together along the coverage pattern: the final
  states reached so far are the ends to which the next automaton is linked, and the automaton is
  simplified after each link. The tree of test goal states follows the coverage pattern. The
  current node of the tree, a pointer in the code, is an argument and a result here.

  Shown is which words the test goal automaton accepts and that the tree and the set of all test
  goal states agree. A simplification that is applied to a partly built automaton must not lose
  states that are still needed, so the theory first shows that the removal of dead states keeps
  every set of states that support each other.
\<close>

section \<open>State\<close>

datatype 'e test_goal_states =
  Test_Goal_States (m_cp: "'e fql_node option") (m_tg_states: "state set") (m_children: "'e test_goal_states list")

record 'a cp_state =
  m_test_goal_automaton :: 'a
  m_current_final :: "state set"
  m_all_test_goal_states :: "state set"

fun is_test_goal_state_rec :: "'e test_goal_states \<Rightarrow> state \<Rightarrow> bool" where
  "is_test_goal_state_rec (Test_Goal_States cp tg subs) q \<longleftrightarrow>
     (if q \<in> tg then True
      else if subs = [] then False
      else list_ex (\<lambda>t. is_test_goal_state_rec t q) subs)"

definition is_test_goal_state :: "'a cp_state \<Rightarrow> state \<Rightarrow> bool" where
  "is_test_goal_state st q \<longleftrightarrow> q \<in> m_all_test_goal_states st"

section \<open>Linking a path pattern\<close>

definition trans_count :: "'a astl \<Rightarrow> 'a \<Rightarrow> nat" where
  "trans_count N A = sum_list (map (\<lambda>q. length (a_delta2 N A q)) (a_states N A))"

definition single_edge :: "'a astl \<Rightarrow> 'a \<Rightarrow> bool" where
  "single_edge N ta \<longleftrightarrow> 2 = length (a_states N ta) \<and> 1 = trans_count N ta"

text \<open>An automaton with a single edge.\<close>

definition append_edge ::
  "'a astl \<Rightarrow> 'a \<Rightarrow> 'e test_goal_states \<Rightarrow> 'a cp_state \<Rightarrow> 'e test_goal_states \<times> 'a cp_state" where
  "append_edge N ta t st =
     (let prev_final = m_current_final st;
          (new_state, aut) = a_new_state N (m_test_goal_automaton st);
          aut = a_set_final N new_state True aut;
          idx = fst (hd (a_delta2 N ta (hd (a_states N ta))));
          aut = for_states (\<lambda>q aut. a_set_final N q False (a_set_trans N q idx new_state aut)) prev_final aut
      in (Test_Goal_States (m_cp t) (insert new_state (m_tg_states t)) (m_children t),
          \<lparr>m_test_goal_automaton = aut, m_current_final = {new_state},
           m_all_test_goal_states = insert new_state (m_all_test_goal_states st)\<rparr>))"

text \<open>Any other automaton; \<open>None\<close> stands for a simplification that does not end.\<close>

definition append_automaton ::
  "'a astl \<Rightarrow> 'a \<Rightarrow> 'e test_goal_states \<Rightarrow> 'a cp_state \<Rightarrow> ('e test_goal_states \<times> 'a cp_state) option" where
  "append_automaton N ta t st =
     (case copy_automaton N ta (m_test_goal_automaton st) of ((ini, fin), aut) \<Rightarrow>
        let prev_final = m_current_final st;
            aut = for_states (\<lambda>q aut. a_set_final N q False
              (a_set_trans N q epsilon (hd (sorted_list_of_set ini)) aut)) prev_final aut;
            ex_final = a_finals N aut;
            aut = for_states (\<lambda>q. a_set_final N q True) fin aut
        in case simplify_automaton N False aut of
             None \<Rightarrow> None
           | Some aut \<Rightarrow>
               (let current = a_finals N aut - ex_final
                in Some (Test_Goal_States (m_cp t) current (m_children t),
                  \<lparr>m_test_goal_automaton = aut, m_current_final = current,
                   m_all_test_goal_states = m_all_test_goal_states st \<union> current\<rparr>)))"

definition copy_from_path_pattern ::
  "'a astl \<Rightarrow> (addr \<rightharpoonup> 'a) \<Rightarrow> 'e fql_node \<Rightarrow> 'e test_goal_states \<Rightarrow> 'a cp_state
    \<Rightarrow> ('e test_goal_states \<times> 'a cp_state) option" where
  "copy_from_path_pattern N pp_get n t st =
     (case pp_get (node_addr n) of
        None \<Rightarrow> None
      | Some ta \<Rightarrow> (if single_edge N ta then Some (append_edge N ta t st) else append_automaton N ta t st))"

section \<open>The visitor\<close>

text \<open>The end of both binary operators: the current node gets the final states and its two children.\<close>

definition close_node ::
  "'e test_goal_states \<Rightarrow> 'e test_goal_states \<Rightarrow> 'e test_goal_states \<Rightarrow> 'a cp_state \<Rightarrow> 'e test_goal_states \<times> 'a cp_state" where
  "close_node t ta tb st =
     (Test_Goal_States (m_cp t) (m_current_final st) (m_children t @ [ta, tb]),
      st\<lparr>m_all_test_goal_states := m_all_test_goal_states st \<union> m_current_final st\<rparr>)"

fun visit_cover ::
  "'a astl \<Rightarrow> (addr \<rightharpoonup> 'a) \<Rightarrow> 'e fql_node \<Rightarrow> 'e test_goal_states \<Rightarrow> 'a cp_state
    \<Rightarrow> ('e test_goal_states \<times> 'a cp_state) option" where
  "visit_cover N pp_get (CP_Alternative p a b) t st =
     (let final_bak = m_current_final st in
      case visit_cover N pp_get a (Test_Goal_States (Some a) {} []) st of
        None \<Rightarrow> None
      | Some (ta, st1) \<Rightarrow>
          (case visit_cover N pp_get b (Test_Goal_States (Some b) {} []) (st1\<lparr>m_current_final := final_bak\<rparr>) of
             None \<Rightarrow> None
           | Some (tb, st2) \<Rightarrow>
               Some (close_node t ta tb (st2\<lparr>m_current_final := m_current_final st2 \<union> m_current_final st1\<rparr>))))"
| "visit_cover N pp_get (CP_Concat p a b) t st =
     (case visit_cover N pp_get a (Test_Goal_States (Some a) {} []) st of
        None \<Rightarrow> None
      | Some (ta, st1) \<Rightarrow>
          (case visit_cover N pp_get b (Test_Goal_States (Some b) {} []) st1 of
             None \<Rightarrow> None
           | Some (tb, st2) \<Rightarrow> Some (close_node t ta tb st2)))"
| "visit_cover N pp_get (Quote p q) t st = copy_from_path_pattern N pp_get q t st"
| "visit_cover N pp_get (Edgecov p f) t st = copy_from_path_pattern N pp_get (Edgecov p f) t st"
| "visit_cover N pp_get (Nodecov p f) t st = copy_from_path_pattern N pp_get (Nodecov p f) t st"
| "visit_cover N pp_get (Pathcov p f k) t st = copy_from_path_pattern N pp_get (Pathcov p f k) t st"
| "visit_cover N pp_get (Predicate p e) t st = copy_from_path_pattern N pp_get (Predicate p e) t st"
| "visit_cover N pp_get n t st = Some (t, st)"

definition visit_cover_query ::
  "'a astl \<Rightarrow> (addr \<rightharpoonup> 'a) \<Rightarrow> 'e fql_node \<Rightarrow> 'a cp_state \<Rightarrow> ('e test_goal_states \<times> 'a cp_state) option" where
  "visit_cover_query N pp_get cover st =
     (case a_new_state N (m_test_goal_automaton st) of (q, aut) \<Rightarrow>
        let aut = a_set_initial N (insert q (a_initial N aut)) aut;
            aut = a_set_final N q True aut
        in visit_cover N pp_get cover (Test_Goal_States (Some cover) {} [])
             (st\<lparr>m_test_goal_automaton := aut, m_current_final := insert q (m_current_final st)\<rparr>))"

definition clear_cover :: "'a astl \<Rightarrow> 'a cp_state \<Rightarrow> 'a cp_state" where
  "clear_cover N st =
     \<lparr>m_test_goal_automaton = fold (a_del_state N) (a_states N (m_test_goal_automaton st)) (m_test_goal_automaton st),
      m_current_final = {}, m_all_test_goal_states = {}\<rparr>"

text \<open>The whole evaluation, with the one of the path patterns.\<close>

definition cover_do_query ::
  "'a pp_env \<Rightarrow> addr \<Rightarrow> 'e fql_node \<Rightarrow> 'a pp_state \<Rightarrow> 'a cp_state
    \<Rightarrow> ('a pp_state \<times> 'e test_goal_states \<times> 'a cp_state) out" where
  "cover_do_query env id_addr query pst st =
     (let st = clear_cover (env_astl env) st in
      obind (pp_do_query env id_addr query pst) (\<lambda>pst.
        case query of
          Query p pre cover passing \<Rightarrow>
            (case visit_cover_query (env_astl env) (m_pp_map pst) cover st of
               None \<Rightarrow> None
             | Some (t, st) \<Rightarrow> Some (Inr (pst, t, st)))
        | _ \<Rightarrow> None))"

section \<open>The words of a coverage pattern\<close>

text \<open>The words of a pattern, and the ones the automaton accepts: an alternative keeps the empty
  word of its second operand only.\<close>

fun cp_lang :: "(addr \<Rightarrow> 'w list set) \<Rightarrow> 'e fql_node \<Rightarrow> 'w list set" where
  "cp_lang G (CP_Alternative p a b) = cp_lang G a \<union> cp_lang G b"
| "cp_lang G (CP_Concat p a b) = conc (cp_lang G a) (cp_lang G b)"
| "cp_lang G (Quote p q) = G (node_addr q)"
| "cp_lang G n = G (node_addr n)"

fun cp_accepted :: "(addr \<Rightarrow> 'w list set) \<Rightarrow> 'e fql_node \<Rightarrow> 'w list set" where
  "cp_accepted G (CP_Alternative p a b) = cp_accepted G a - {[]} \<union> cp_accepted G b"
| "cp_accepted G (CP_Concat p a b) = conc (cp_lang G a) (cp_accepted G b)"
| "cp_accepted G (Quote p q) = G (node_addr q)"
| "cp_accepted G n = G (node_addr n)"

text \<open>The path patterns of a coverage pattern.\<close>

fun cp_leaves :: "'e fql_node \<Rightarrow> addr set" where
  "cp_leaves (CP_Alternative p a b) = cp_leaves a \<union> cp_leaves b"
| "cp_leaves (CP_Concat p a b) = cp_leaves a \<union> cp_leaves b"
| "cp_leaves (Quote p q) = {node_addr q}"
| "cp_leaves n = {node_addr n}"

fun no_depcov :: "'e fql_node \<Rightarrow> bool" where
  "no_depcov (CP_Alternative p a b) \<longleftrightarrow> no_depcov a \<and> no_depcov b"
| "no_depcov (CP_Concat p a b) \<longleftrightarrow> no_depcov a \<and> no_depcov b"
| "no_depcov (Quote p q) \<longleftrightarrow> True"
| "no_depcov (Edgecov p f) \<longleftrightarrow> True"
| "no_depcov (Nodecov p f) \<longleftrightarrow> True"
| "no_depcov (Pathcov p f k) \<longleftrightarrow> True"
| "no_depcov (Predicate p e) \<longleftrightarrow> True"
| "no_depcov n \<longleftrightarrow> False"

section \<open>Runs through a part of a transition relation\<close>

definition edges :: "trans \<Rightarrow> (state \<times> state) set" where
  "edges T = {(p, q). \<exists>a. (p, a, q) \<in> T}"

lemma run_edges: "run T p w q \<Longrightarrow> (p, q) \<in> (edges T)\<^sup>*"
  by (induction rule: run.induct) (auto simp: edges_def intro: converse_rtrancl_into_rtrancl)

lemma accepts_mono: "T \<subseteq> V \<Longrightarrow> X \<subseteq> Y \<Longrightarrow> accepts T I X \<subseteq> accepts V I Y"
  using run_mono [of T _ _ _ V] unfolding accepts_def by blast

lemma run_between:
  assumes "run T p w q" "\<And>x. (p, x) \<in> (edges T)\<^sup>* \<Longrightarrow> (x, q) \<in> (edges T)\<^sup>* \<Longrightarrow> x \<in> U"
    and part: "\<And>p a q. (p, a, q) \<in> T \<Longrightarrow> p \<in> U \<Longrightarrow> q \<in> U \<Longrightarrow> (p, a, q) \<in> V"
  shows "run V p w q"
  using assms(1,2)
proof (induction rule: run.induct)
  case (run_eps p q w r)
  have e: "(p, q) \<in> edges T" "(q, r) \<in> (edges T)\<^sup>*" using run_eps.hyps run_edges by (auto simp: edges_def)
  have "p \<in> U" "q \<in> U" using e run_eps.prems converse_rtrancl_into_rtrancl [OF e] by auto
  moreover have "run V q w r" using e(1) by (intro run_eps.IH run_eps.prems) (auto intro: converse_rtrancl_into_rtrancl)
  ultimately show ?case using part run_eps.hyps(1) run.run_eps by blast
next
  case (run_step p a q w r)
  have e: "(p, q) \<in> edges T" "(q, r) \<in> (edges T)\<^sup>*" using run_step.hyps run_edges by (auto simp: edges_def)
  have "p \<in> U" "q \<in> U" using e run_step.prems converse_rtrancl_into_rtrancl [OF e] by auto
  moreover have "run V q w r" using e(1) by (intro run_step.IH run_step.prems) (auto intro: converse_rtrancl_into_rtrancl)
  ultimately show ?case using part run_step.hyps(1,2) run.run_step by blast
qed (rule run.run_refl)

text \<open>Transitions from the states \<open>F\<close> of \<open>T0\<close> into a part \<open>T1\<close> on other states.\<close>

definition bridge :: "trans \<Rightarrow> state set \<Rightarrow> (int \<times> state) set \<Rightarrow> trans \<Rightarrow> trans" where
  "bridge T0 F ways T1 = T0 \<union> T1 \<union> {(p, a, q) |p a q. p \<in> F \<and> (a, q) \<in> ways}"

lemma bridge_iff: "(p, a, q) \<in> bridge T0 F ways T1 \<longleftrightarrow> (p, a, q) \<in> T0 \<or> (p, a, q) \<in> T1 \<or> p \<in> F \<and> (a, q) \<in> ways"
  by (auto simp: bridge_def)

definition bridged :: "trans \<Rightarrow> state set \<Rightarrow> trans \<Rightarrow> state set \<Rightarrow> state set \<Rightarrow> (int \<times> state) set \<Rightarrow> bool" where
  "bridged T0 S0 T1 S1 F ways \<longleftrightarrow> within T0 S0 \<and> within T1 S1 \<and> S0 \<inter> S1 = {} \<and> F \<subseteq> S0 \<and> snd ` ways \<subseteq> S1
     \<and> (\<forall>q. (epsilon, q) \<notin> ways)"

lemma bridge_step:
  assumes "bridged T0 S0 T1 S1 F ways" "(p, a, q) \<in> bridge T0 F ways T1"
  shows "p \<in> S0 \<and> q \<in> S0 \<and> (p, a, q) \<in> T0 \<or> p \<in> S1 \<and> q \<in> S1 \<and> (p, a, q) \<in> T1
    \<or> p \<in> F \<and> p \<in> S0 \<and> q \<in> S1 \<and> (a, q) \<in> ways \<and> a \<noteq> epsilon"
proof -
  have ways: "q \<in> S1 \<and> a \<noteq> epsilon" if "(a, q) \<in> ways" for a q
    using that assms(1) imageI [OF that, of snd] by (auto simp: bridged_def)
  consider "(p, a, q) \<in> T0" | "(p, a, q) \<in> T1" | "p \<in> F" "(a, q) \<in> ways" using assms(2) unfolding bridge_iff by blast
  then show ?thesis
    using assms(1) ways withinD [of T0 S0 p a q] withinD [of T1 S1 p a q] unfolding bridged_def by cases blast+
qed

lemma into_old: "run (bridge T0 F ways T1) p w q \<Longrightarrow> bridged T0 S0 T1 S1 F ways \<Longrightarrow> q \<in> S0 \<Longrightarrow> p \<in> S0 \<and> run T0 p w q"
proof (induction rule: run.induct)
  case (run_eps p q w r)
  then show ?case using bridge_step [OF run_eps.prems(1) run_eps.hyps(1)] by (auto simp: bridged_def intro: run.run_eps)
next
  case (run_step p a q w r)
  then show ?case using bridge_step [OF run_step.prems(1) run_step.hyps(1)] by (auto simp: bridged_def intro: run.run_step)
qed (auto intro: run.run_refl)

lemma from_new: "run (bridge T0 F ways T1) p w q \<Longrightarrow> bridged T0 S0 T1 S1 F ways \<Longrightarrow> p \<in> S1 \<Longrightarrow> q \<in> S1 \<and> run T1 p w q"
proof (induction rule: run.induct)
  case (run_eps p q w r)
  then show ?case using bridge_step [OF run_eps.prems(1) run_eps.hyps(1)] by (auto simp: bridged_def intro: run.run_eps)
next
  case (run_step p a q w r)
  then show ?case using bridge_step [OF run_step.prems(1) run_step.hyps(1)] by (auto simp: bridged_def intro: run.run_step)
qed (auto intro: run.run_refl)

lemma into_new:
  "run (bridge T0 F ways T1) p w q \<Longrightarrow> bridged T0 S0 T1 S1 F ways \<Longrightarrow> p \<in> S0 \<Longrightarrow> q \<in> S1 \<Longrightarrow>
    \<exists>u a v f r. w = u @ a # v \<and> f \<in> F \<and> (a, r) \<in> ways \<and> run T0 p u f \<and> run T1 r v q"
proof (induction rule: run.induct)
  case (run_refl p)
  then show ?case by (auto simp: bridged_def)
next
  case (run_eps p q w r)
  then have "(p, epsilon, q) \<in> T0" "q \<in> S0"
    using bridge_step [OF run_eps.prems(1) run_eps.hyps(1)] by (auto simp: bridged_def)
  then show ?case using run_eps.IH run_eps.prems run.run_eps by meson
next
  case (run_step p a q w r)
  then consider (old) "(p, a, q) \<in> T0" "q \<in> S0" | (way) "p \<in> F" "(a, q) \<in> ways" "q \<in> S1"
    using bridge_step [OF run_step.prems(1) run_step.hyps(1)] by (auto simp: bridged_def)
  then show ?case
  proof cases
    case old
    then obtain u b v f s where ih: "w = u @ b # v" "f \<in> F" "(b, s) \<in> ways" "run T0 q u f" "run T1 s v r"
      using run_step.IH run_step.prems by meson
    then have "run T0 p (a # u) f" using old run_step.hyps(2) run.run_step by blast
    moreover have "a # w = (a # u) @ b # v" using ih(1) by simp
    ultimately show ?thesis using ih by blast
  next
    case way
    then have "run T1 q w r" using from_new [OF run_step.hyps(3) run_step.prems(1)] by blast
    moreover have "run T0 p [] p" "a # w = [] @ a # w" by (auto intro: run.run_refl)
    ultimately show ?thesis using way by blast
  qed
qed

lemma accepts_old:
  assumes b: "bridged T0 S0 T1 S1 F ways" and "X \<subseteq> S0"
  shows "accepts (bridge T0 F ways T1) {i} X = accepts T0 {i} X"
proof (intro equalityI subsetI)
  fix w assume "w \<in> accepts (bridge T0 F ways T1) {i} X"
  then obtain x where x: "x \<in> X" "run (bridge T0 F ways T1) i w x" by (auto simp: accepts_def)
  then have "run T0 i w x" using into_old [OF x(2) b] assms(2) by blast
  then show "w \<in> accepts T0 {i} X" using x(1) by (auto simp: accepts_def)
next
  fix w assume "w \<in> accepts T0 {i} X"
  then obtain x where x: "x \<in> X" "run T0 i w x" by (auto simp: accepts_def)
  have "run (bridge T0 F ways T1) i w x" by (rule run_mono [OF x(2)]) (auto simp: bridge_def)
  then show "w \<in> accepts (bridge T0 F ways T1) {i} X" using x(1) by (auto simp: accepts_def)
qed

lemma accepts_new:
  assumes b: "bridged T0 S0 T1 S1 F ways" and "i \<in> S0" "Y \<subseteq> S1"
  shows "accepts (bridge T0 F ways T1) {i} Y = conc (accepts T0 {i} F) {a # v |a v. \<exists>q y. (a, q) \<in> ways \<and> y \<in> Y \<and> run T1 q v y}"
proof (intro equalityI subsetI)
  fix w assume "w \<in> accepts (bridge T0 F ways T1) {i} Y"
  then obtain y where y: "y \<in> Y" "run (bridge T0 F ways T1) i w y" by (auto simp: accepts_def)
  then obtain u a v f r where "w = u @ a # v" "f \<in> F" "(a, r) \<in> ways" "run T0 i u f" "run T1 r v y"
    using into_new [OF y(2) b] assms by blast
  then show "w \<in> conc (accepts T0 {i} F) {a # v |a v. \<exists>q y. (a, q) \<in> ways \<and> y \<in> Y \<and> run T1 q v y}"
    using y(1) by (auto simp: accepts_def intro!: concI)
next
  fix w assume "w \<in> conc (accepts T0 {i} F) {a # v |a v. \<exists>q y. (a, q) \<in> ways \<and> y \<in> Y \<and> run T1 q v y}"
  then obtain u a v f q y where w: "w = u @ a # v" "f \<in> F" "run T0 i u f" "(a, q) \<in> ways" "y \<in> Y" "run T1 q v y"
    by (auto simp: conc_def accepts_def)
  let ?T = "bridge T0 F ways T1"
  have "run ?T i u f" "run ?T q v y" using w(3,6) by (auto intro: run_mono simp: bridge_def)
  moreover have "(f, a, q) \<in> ?T" "a \<noteq> epsilon" using w(2,4) b by (auto simp: bridge_iff bridged_def)
  ultimately have "run ?T i (u @ a # v) y" by (intro run_append) (auto intro: run.run_step)
  then show "w \<in> accepts ?T {i} Y" using w by (auto simp: accepts_def)
qed

text \<open>Without epsilon transitions: the words that start with a transition of one state.\<close>

lemma run_Nil_iff: "(\<And>p q. (p, epsilon, q) \<notin> T) \<Longrightarrow> run T p [] q \<longleftrightarrow> p = q"
  by (auto intro: run.run_refl elim: run.cases)

lemma run_Cons_iff: "(\<And>p q. (p, epsilon, q) \<notin> T) \<Longrightarrow> run T p (a # w) r \<longleftrightarrow> (\<exists>q. (p, a, q) \<in> T \<and> a \<noteq> epsilon \<and> run T q w r)"
  by (auto intro: run.run_step elim: run.cases)

lemma accepts_first:
  assumes "\<And>p q. (p, epsilon, q) \<notin> T"
  shows "{a # v |a v. \<exists>q y. (a, q) \<in> {(a, q). (i, a, q) \<in> T} \<and> y \<in> Y \<and> run T q v y} = accepts T {i} Y - {[]}"
proof (rule set_eqI)
  fix w
  show "w \<in> {a # v |a v. \<exists>q y. (a, q) \<in> {(a, q). (i, a, q) \<in> T} \<and> y \<in> Y \<and> run T q v y} \<longleftrightarrow> w \<in> accepts T {i} Y - {[]}"
  proof (cases w)
    case (Cons a v)
    have "w \<in> accepts T {i} Y - {[]} \<longleftrightarrow> (\<exists>y \<in> Y. \<exists>q. (i, a, q) \<in> T \<and> run T q v y)"
      unfolding Cons accepts_def by (simp add: run_Cons_iff [OF assms]) (use assms in blast)
    then show ?thesis by (auto simp: Cons)
  qed simp
qed

lemma Nil_accepts: "(\<And>p q. (p, epsilon, q) \<notin> T) \<Longrightarrow> [] \<in> accepts T {i} Y \<longleftrightarrow> i \<in> Y"
  by (simp add: accepts_def run_Nil_iff)

section \<open>States between two ends\<close>

text \<open>Elimination of the epsilon transitions that link an automaton to a part on other states.\<close>

lemma eps_T_links:
  assumes "within T0 S0" "within U S1" "S0 \<inter> S1 = {}" "F \<subseteq> S0" "i \<in> S1"
    and "\<And>p q. (p, epsilon, q) \<notin> T0" "\<And>p q. (p, epsilon, q) \<notin> U"
  shows "eps_T (T0 \<union> U \<union> links F {i}) i = bridge T0 F {(a, q). (i, a, q) \<in> U} U"
proof -
  have "(i, a, q) \<notin> T0" "(i, a, q) \<notin> links F {i}" for a q
    using withinD [OF assms(1), of i a q] assms(3-5) by auto
  moreover have "i \<notin> F" using assms(3-5) by blast
  ultimately show ?thesis using assms(6,7) by (auto simp: eps_T_def bridge_iff)
qed

lemma bridged_links:
  assumes "within T0 S0" "within U S1" "S0 \<inter> S1 = {}" "F \<subseteq> S0" "\<And>p q. (p, epsilon, q) \<notin> U"
  shows "bridged T0 S0 U S1 F {(a, q). (i, a, q) \<in> U}"
  using assms withinD [OF assms(2)] by (force simp: bridged_def)

text \<open>The states of the part that lie between the old states and \<open>Y\<close>.\<close>

definition inner :: "trans \<Rightarrow> state set \<Rightarrow> state set \<Rightarrow> state set \<Rightarrow> state set" where
  "inner T S0 S1 Y = {x \<in> S1. (\<exists>p \<in> S0. (p, x) \<in> (edges T)\<^sup>*) \<and> (\<exists>y \<in> Y. (x, y) \<in> (edges T)\<^sup>*)}"

lemma inner_before:
  assumes "x \<in> inner T S0 S1 Y" "S0 \<inter> S1 = {}" "within T (S0 \<union> S1)"
  shows "\<exists>p \<in> S0 \<union> inner T S0 S1 Y. \<exists>a. (p, a, x) \<in> T"
proof -
  obtain p y where p: "p \<in> S0" "(p, x) \<in> (edges T)\<^sup>*" "y \<in> Y" "(x, y) \<in> (edges T)\<^sup>*" "x \<in> S1"
    using assms(1) by (auto simp: inner_def)
  then have "p \<noteq> x" using assms(2) by auto
  then obtain q where q: "(p, q) \<in> (edges T)\<^sup>*" "(q, x) \<in> edges T" using p(2) by (auto elim: rtranclE)
  then obtain a where a: "(q, a, x) \<in> T" by (auto simp: edges_def)
  have "q \<in> S0 \<union> S1" using withinD [OF assms(3) a] by simp
  moreover have "(q, y) \<in> (edges T)\<^sup>*" using q(2) p(4) by (rule converse_rtrancl_into_rtrancl)
  ultimately have "q \<in> S0 \<union> inner T S0 S1 Y" using p(1,3) q(1) by (auto simp: inner_def)
  then show ?thesis using a by blast
qed

lemma inner_after:
  assumes "x \<in> inner T S0 S1 Y" "within T (S0 \<union> S1)"
  shows "x \<in> Y \<or> (\<exists>q \<in> S0 \<union> inner T S0 S1 Y. \<exists>a. (x, a, q) \<in> T)"
proof -
  obtain p y where p: "p \<in> S0" "(p, x) \<in> (edges T)\<^sup>*" "y \<in> Y" "(x, y) \<in> (edges T)\<^sup>*" "x \<in> S1"
    using assms(1) by (auto simp: inner_def)
  show ?thesis
  proof (cases "x = y")
    case False
    then obtain q where q: "(x, q) \<in> edges T" "(q, y) \<in> (edges T)\<^sup>*" using p(4) by (auto elim: converse_rtranclE)
    then obtain a where a: "(x, a, q) \<in> T" by (auto simp: edges_def)
    have "q \<in> S0 \<union> S1" using withinD [OF assms(2) a] by simp
    moreover have "(p, q) \<in> (edges T)\<^sup>*" using p(2) q(1) by (rule rtrancl_into_rtrancl)
    ultimately have "q \<in> S0 \<union> inner T S0 S1 Y" using p(1,3) q(2) by (auto simp: inner_def)
    then show ?thesis using a by blast
  qed (use p(3) in simp)
qed

text \<open>A run between two states of which one is old or inner stays among such states.\<close>

lemma run_inner:
  assumes "run T p w y" "p \<in> S0" "y \<in> Y" "Y \<subseteq> S1" "within T (S0 \<union> S1)"
    and part: "\<And>p a q. (p, a, q) \<in> T \<Longrightarrow> p \<in> S0 \<union> inner T S0 S1 Y \<Longrightarrow> q \<in> S0 \<union> inner T S0 S1 Y \<Longrightarrow> (p, a, q) \<in> V"
  shows "run V p w y \<and> y \<in> inner T S0 S1 Y"
proof
  have "x \<in> S0 \<union> S1" if "(p, x) \<in> (edges T)\<^sup>*" for x
    using that by (induction rule: rtrancl_induct) (use assms(2) withinD [OF assms(5)] in \<open>auto simp: edges_def\<close>)
  then show "run V p w y" using assms(2,3) part
    by (intro run_between [OF assms(1), where U = "S0 \<union> inner T S0 S1 Y"]) (auto simp: inner_def)
  show "y \<in> inner T S0 S1 Y" using run_edges [OF assms(1)] assms(2-4) by (auto simp: inner_def)
qed

text \<open>Old states lead on and are reached as before, inner ones lie on a run.\<close>

lemma linked_supported:
  assumes w: "within T0 S0" "within U S1" "S0 \<inter> S1 = {}" "within (bridge T0 S {(a, q). (j, a, q) \<in> U} U) (S0 \<union> S1)"
    and u: "u \<in> S0 \<union> inner (bridge T0 S {(a, q). (j, a, q) \<in> U} U) S0 S1 Y"
    and old: "\<And>q. q \<in> S0 \<Longrightarrow> q = i \<or> (\<exists>p a. (p, a, q) \<in> T0) \<and> (q \<in> S \<or> fin q \<or> (\<exists>r a. (q, a, r) \<in> T0))"
    and Y: "accepts U {j} Y \<noteq> {}"
  defines "V \<equiv> bridge T0 S {(a, q). (j, a, q) \<in> U} U"
  defines "I \<equiv> inner V S0 S1 Y"
  shows "u = i \<or> (\<exists>p \<in> S0 \<union> I. \<exists>a. (p, a, u) \<in> V)
    \<and> (u \<in> S0 \<and> fin u \<and> u \<notin> S \<or> u \<in> Y \<or> u \<in> S \<and> j \<in> Y \<or> (\<exists>q \<in> S0 \<union> I. \<exists>a. (u, a, q) \<in> V))"
proof (cases "u \<in> S0")
  case True
  have mono: "edges U \<subseteq> edges V" by (auto simp: V_def edges_def bridge_def)
  have after: "\<exists>q \<in> S0 \<union> I. \<exists>a. (u, a, q) \<in> V" if "u \<in> S" "j \<notin> Y"
  proof -
    obtain w y where y: "run U j w y" "y \<in> Y" using Y by (auto simp: accepts_def)
    have "(j, y) \<in> (edges U)\<^sup>*" "j \<noteq> y" using run_edges [OF y(1)] y(2) that(2) by auto
    then obtain q where q: "(j, q) \<in> edges U" "(q, y) \<in> (edges U)\<^sup>*" by (auto elim: converse_rtranclE)
    then obtain a where a: "(j, a, q) \<in> U" by (auto simp: edges_def)
    have uq: "(u, a, q) \<in> V" using a that(1) by (auto simp: V_def bridge_iff)
    then have "(u, q) \<in> (edges V)\<^sup>*" by (auto simp: edges_def)
    moreover have "(q, y) \<in> (edges V)\<^sup>*" using q(2) rtrancl_mono [OF mono] by blast
    ultimately have "q \<in> I" using True y(2) withinD [OF w(2) a] by (auto simp: I_def inner_def)
    then show ?thesis using uq by blast
  qed
  have T0: "p \<in> S0 \<and> q \<in> S0 \<and> (p, a, q) \<in> V" if "(p, a, q) \<in> T0" for p a q
    using that withinD [OF w(1) that] by (auto simp: V_def bridge_iff)
  from old [OF True] show ?thesis using after T0 True by blast
next
  case False
  then have "u \<in> I" using u by (auto simp: I_def V_def)
  then show ?thesis using inner_before inner_after w(3,4) unfolding I_def V_def by blast
qed

section \<open>Sets of states that support each other\<close>

context astl_nfa
begin

definition supports :: "'a \<Rightarrow> state set \<Rightarrow> bool" where
  "supports A U \<longleftrightarrow> U \<subseteq> set (a_states N A) \<and> (\<forall>u \<in> U. u \<in> a_initial N A
     \<or> (\<exists>p \<in> U. \<exists>a. (p, a, u) \<in> T A) \<and> (a_final N A u \<or> (\<exists>q \<in> U. \<exists>a. (u, a, q) \<in> T A)))"

definition alive :: "'a \<Rightarrow> state \<Rightarrow> bool" where
  "alive A u \<longleftrightarrow> u \<in> a_initial N A
     \<or> (\<exists>p a. (p, a, u) \<in> T A) \<and> (a_final N A u \<or> (\<exists>q a. (u, a, q) \<in> T A))"

text \<open>A part of an automaton.\<close>

definition part_of :: "'a \<Rightarrow> 'a \<Rightarrow> state set \<Rightarrow> bool" where
  "part_of B A U \<longleftrightarrow> inv B \<and> T B \<subseteq> T A \<and> U \<subseteq> set (a_states N B) \<and> set (a_states N B) \<subseteq> set (a_states N A)
     \<and> a_initial N B = a_initial N A \<and> (\<forall>q \<in> set (a_states N B). a_final N B q = a_final N A q)
     \<and> (\<forall>p a q. (p, a, q) \<in> T A \<longrightarrow> p \<in> U \<longrightarrow> q \<in> U \<longrightarrow> (p, a, q) \<in> T B)"

lemma part_ofD:
  assumes "part_of B A U"
  shows "inv B" "T B \<subseteq> T A" "U \<subseteq> set (a_states N B)" "set (a_states N B) \<subseteq> set (a_states N A)"
    "a_initial N B = a_initial N A" "q \<in> set (a_states N B) \<Longrightarrow> a_final N B q = a_final N A q"
    "(p, a, q) \<in> T A \<Longrightarrow> p \<in> U \<Longrightarrow> q \<in> U \<Longrightarrow> (p, a, q) \<in> T B"
  using assms unfolding part_of_def by simp_all

lemma part_of_refl: "inv A \<Longrightarrow> U \<subseteq> set (a_states N A) \<Longrightarrow> part_of A A U"
  by (auto simp: part_of_def)

lemma part_of_trans:
  assumes C: "part_of C B U" and B: "part_of B A U"
  shows "part_of C A U"
proof -
  have "\<forall>q \<in> set (a_states N C). a_final N C q = a_final N A q"
    using part_ofD(6) [OF C] part_ofD(4) [OF C] part_ofD(6) [OF B] by auto
  then show ?thesis using part_ofD(1-5,7) [OF C] part_ofD(2,4,5,7) [OF B] unfolding part_of_def by blast
qed

lemma supports_part:
  assumes A: "supports A U" and B: "part_of B A U"
  shows "supports B U"
  unfolding supports_def
proof (intro conjI ballI)
  show "U \<subseteq> set (a_states N B)" by (rule part_ofD(3) [OF B])
  fix u assume u: "u \<in> U"
  have "a_final N B u = a_final N A u" using part_ofD(3,6) [OF B] u by auto
  then show "u \<in> a_initial N B \<or> (\<exists>p \<in> U. \<exists>a. (p, a, u) \<in> T B) \<and> (a_final N B u \<or> (\<exists>q \<in> U. \<exists>a. (u, a, q) \<in> T B))"
    using A u part_ofD(7) [OF B] unfolding supports_def part_ofD(5) [OF B] by meson
qed

text \<open>Removing one state that is not alive.\<close>

lemma remove_part:
  assumes A: "inv A" "s \<notin> a_initial N A" "\<not> alive A s" and U: "supports A U"
    and B: "inv B" "set (a_states N B) = set (a_states N A) - {s}" "T B = without_state (T A) s"
      "a_initial N B = a_initial N A" "\<And>q. q \<noteq> s \<Longrightarrow> a_final N B q = a_final N A q"
  shows "part_of B A U"
proof -
  have s: "s \<notin> U" using A(2,3) U by (auto simp: supports_def alive_def)
  show ?thesis
    unfolding part_of_def
  proof (intro conjI allI impI ballI)
    show "U \<subseteq> set (a_states N B)" using U s B(2) by (auto simp: supports_def)
    show "(p, a, q) \<in> T B" if "(p, a, q) \<in> T A" "p \<in> U" "q \<in> U" for p a q
      using that s B(3) by (auto simp: without_state_def)
    show "T B \<subseteq> T A" using B(3) by (auto simp: without_state_def)
  qed (use B in auto)
qed

text \<open>The step of the next proof.\<close>

lemma remove_alive:
  assumes "q \<noteq> s" "q \<notin> set new" "T B = without_state (T A) s" "a_initial N B = a_initial N A" "a_final N B q = a_final N A q"
    and new: "\<And>q a. (s, a, q) \<in> T A \<or> (q, a, s) \<in> T A \<Longrightarrow> q \<in> set new"
  shows "alive B q = alive A q"
proof -
  have "(p, a, q) \<in> T B \<longleftrightarrow> (p, a, q) \<in> T A" "(q, a, p) \<in> T B \<longleftrightarrow> (q, a, p) \<in> T A" for p a
    using assms(1-3) new by (auto simp: without_state_def)
  then show ?thesis using assms(4,5) by (simp add: alive_def)
qed

lemma alive_code:
  assumes "inv A" "s \<in> set (a_states N A)"
  shows "alive A s \<longleftrightarrow> s \<in> a_initial N A \<or> a_delta2_backwards N A s \<noteq> [] \<and> (a_final N A s \<or> a_delta2 N A s \<noteq> [])"
proof -
  have "a_delta2_backwards N A s \<noteq> [] \<longleftrightarrow> (\<exists>p a. (p, a, s) \<in> T A)" "a_delta2 N A s \<noteq> [] \<longleftrightarrow> (\<exists>q a. (s, a, q) \<in> T A)"
    using delta2(1) [OF assms] delta2_backwards(1) [OF assms] by (auto simp: set_empty [symmetric] simp del: set_empty)
  then show ?thesis by (auto simp: alive_def)
qed

text \<open>One round of the queue removes a state that is not alive and queues its neighbours.\<close>

lemma remove_dead_step:
  assumes A: "inv A" "s \<in> set (a_states N A)" "s \<notin> dead" "\<not> alive A s"
  shows "\<exists>B new. remove_dead N (s # rest) dead A = remove_dead N (rest @ new) (insert s dead) B \<and> inv B
    \<and> set (a_states N B) = set (a_states N A) - {s} \<and> T B = without_state (T A) s \<and> card (T B) + length new = card (T A)
    \<and> a_initial N B = a_initial N A \<and> (\<forall>q. q \<noteq> s \<longrightarrow> a_final N B q = a_final N A q)
    \<and> set new = {q. \<exists>a. (s, a, q) \<in> T A \<or> (q, a, s) \<in> T A}"
proof -
  have s: "s \<notin> a_initial N A" using A(4) by (simp add: alive_def)
  note ins = delta2_backwards [OF A(1,2)] and outs = delta2 [OF A(1,2)]
  show ?thesis
  proof (cases "a_delta2_backwards N A s = []")
    case True
    let ?f = "\<lambda>e :: int \<times> state. (s, fst e, snd e)"
    let ?B = "a_del_state N s (fold (\<lambda>e. a_del_trans N s (fst e) (snd e)) (a_delta2 N A s) A)"
    have none: "(r, a, s) \<notin> T A" for r a using ins(1) True by auto
    have img: "?f ` set (a_delta2 N A s) = {(p, a, q) \<in> T A. p = s \<or> q = s}"
      using none outs(1) by (auto simp: image_iff)
    have inj: "inj_on ?f (set (a_delta2 N A s))" by (auto simp: inj_on_def prod_eq_iff)
    have dead: "(\<forall>r a. (r, a, s) \<notin> T A) \<or> \<not> a_final N A s \<and> (\<forall>r a. (s, a, r) \<notin> T A)" using none by blast
    note R = remove_state_correct [OF A(1,2) s dead outs(2) inj img, unfolded prod.case]
    have "set (map snd (a_delta2 N A s)) = {q. \<exists>a. (s, a, q) \<in> T A \<or> (q, a, s) \<in> T A}"
      using none outs(1) by force
    moreover have "remove_dead N (s # rest) dead A = remove_dead N (rest @ map snd (a_delta2 N A s)) (insert s dead) ?B"
      using A(3) s True by (subst remove_dead.simps) (simp add: Let_def)
    ultimately show ?thesis using R by (intro exI [of _ ?B] exI [of _ "map snd (a_delta2 N A s)"]) simp
  next
    case False
    then have out: "a_delta2 N A s = []" "\<not> a_final N A s" using alive_code [OF A(1,2)] s A(4) by auto
    let ?f = "\<lambda>e :: int \<times> state. (snd e, fst e, s)"
    let ?B = "a_del_state N s (fold (\<lambda>e. a_del_trans N (snd e) (fst e) s) (a_delta2_backwards N A s) A)"
    have none: "(s, a, r) \<notin> T A" for r a using outs(1) out by auto
    have img: "?f ` set (a_delta2_backwards N A s) = {(p, a, q) \<in> T A. p = s \<or> q = s}"
      using none ins(1) by (auto simp: image_iff)
    have inj: "inj_on ?f (set (a_delta2_backwards N A s))" by (auto simp: inj_on_def prod_eq_iff)
    have dead: "(\<forall>r a. (r, a, s) \<notin> T A) \<or> \<not> a_final N A s \<and> (\<forall>r a. (s, a, r) \<notin> T A)" using none out(2) by blast
    note R = remove_state_correct [OF A(1,2) s dead ins(2) inj img, unfolded prod.case]
    have "set (map snd (a_delta2_backwards N A s)) = {q. \<exists>a. (s, a, q) \<in> T A \<or> (q, a, s) \<in> T A}"
      using none ins(1) by force
    moreover have "remove_dead N (s # rest) dead A = remove_dead N (rest @ map snd (a_delta2_backwards N A s)) (insert s dead) ?B"
      using A(3) s False out by (subst remove_dead.simps) (simp add: Let_def)
    ultimately show ?thesis using R by (intro exI [of _ ?B] exI [of _ "map snd (a_delta2_backwards N A s)"]) simp
  qed
qed

lemma remove_dead_skip:
  assumes "inv A" "s \<in> dead \<or> s \<in> set (a_states N A) \<and> alive A s"
  shows "remove_dead N (s # rest) dead A = remove_dead N rest dead A"
  using assms alive_code [OF assms(1), of s] by (subst remove_dead.simps) (auto simp: Let_def)

lemma remove_dead_part:
  assumes "inv A" "set queue \<subseteq> dead \<union> set (a_states N A)" "dead \<inter> set (a_states N A) = {}" "supports A U"
    and "\<forall>q \<in> set (a_states N A). alive A q \<or> q \<in> set queue"
  shows "\<exists>B. remove_dead N queue dead A = Some B \<and> part_of B A U \<and> (\<forall>q \<in> set (a_states N B). alive B q)"
  using assms
proof (induction "card (T A) + length queue" arbitrary: queue dead A rule: less_induct)
  case less
  show ?case
  proof (cases queue)
    case Nil
    have "part_of A A U" using part_of_refl less.prems(1,4) by (simp add: supports_def)
    then show ?thesis using less.prems(5) Nil by (simp add: remove_dead.simps)
  next
    case (Cons s rest)
    show ?thesis
    proof (cases "s \<in> dead \<or> alive A s")
      case True
      then have skip: "remove_dead N queue dead A = remove_dead N rest dead A"
        unfolding Cons using less.prems(1,2) Cons by (intro remove_dead_skip) auto
      have "\<forall>q \<in> set (a_states N A). alive A q \<or> q \<in> set rest" using less.prems(3,5) True Cons by auto
      then show ?thesis unfolding skip using less.hyps [of A rest dead] less.prems(1-4) Cons by simp
    next
      case False
      then have s: "s \<in> set (a_states N A)" "s \<notin> dead" "\<not> alive A s" using less.prems(2) Cons by auto
      then have ini: "s \<notin> a_initial N A" by (simp add: alive_def)
      obtain B new where eq: "remove_dead N (s # rest) dead A = remove_dead N (rest @ new) (insert s dead) B"
        and B: "inv B" "set (a_states N B) = set (a_states N A) - {s}" "T B = without_state (T A) s"
          "card (T B) + length new = card (T A)" "a_initial N B = a_initial N A" "\<forall>q. q \<noteq> s \<longrightarrow> a_final N B q = a_final N A q"
        and new: "set new = {q. \<exists>a. (s, a, q) \<in> T A \<or> (q, a, s) \<in> T A}"
        using remove_dead_step [OF less.prems(1) s, of rest] by (elim exE conjE) (rule that)
      have part: "part_of B A U" by (rule remove_part [OF less.prems(1) ini s(3) less.prems(4) B(1-3,5)]) (use B(6) in simp)
      have 1: "card (T B) + length (rest @ new) < card (T A) + length queue" using B(4) Cons by simp
      have 2: "set (rest @ new) \<subseteq> insert s dead \<union> set (a_states N B)"
        using less.prems(2) Cons B(2) new trans_states [OF less.prems(1)] by auto
      have 3: "insert s dead \<inter> set (a_states N B) = {}" using less.prems(3) B(2) by auto
      have 4: "\<forall>q \<in> set (a_states N B). alive B q \<or> q \<in> set (rest @ new)"
      proof (intro ballI disjCI)
        fix q assume q: "q \<in> set (a_states N B)" "q \<notin> set (rest @ new)"
        then have "alive B q = alive A q"
          using B(2,3,5,6) new by (intro remove_alive [where new = new and s = s]) auto
        then show "alive B q" using q less.prems(5) B(2) Cons by auto
      qed
      from less.hyps [OF 1 B(1) 2 3 supports_part [OF less.prems(4) part] 4]
      show ?thesis unfolding Cons eq using part_of_trans [OF _ part] by auto
    qed
  qed
qed

section \<open>Linking keeps the words\<close>

text \<open>The words that lead to some states, and what a link does: it keeps the words of the old
  states and adds states that are reached by the words of \<open>S\<close> followed by those of \<open>L\<close>.\<close>

abbreviation reach :: "'a \<Rightarrow> state set \<Rightarrow> int list set" where
  "reach A X \<equiv> accepts (T A) (a_initial N A) X"

definition live :: "'a \<Rightarrow> state \<Rightarrow> bool" where
  "live A i \<longleftrightarrow> inv A \<and> a_initial N A = {i} \<and> i \<in> set (a_states N A) \<and> (\<forall>p q. (p, epsilon, q) \<notin> T A)
     \<and> (\<forall>q \<in> set (a_states N A). alive A q)"

definition grows :: "'a \<Rightarrow> 'a \<Rightarrow> bool" where
  "grows A B \<longleftrightarrow> set (a_states N A) \<subseteq> set (a_states N B) \<and> (\<forall>X. X \<subseteq> set (a_states N A) \<longrightarrow> reach B X = reach A X)"

definition covers :: "'a \<Rightarrow> state set \<Rightarrow> 'a \<Rightarrow> state set \<Rightarrow> int list set \<Rightarrow> bool" where
  "covers A S B X L \<longleftrightarrow> X \<subseteq> set (a_states N B) \<and> X \<inter> set (a_states N A) = (if [] \<in> L then S else {})
     \<and> reach B (X - set (a_states N A)) = conc (reach A S) (L - {[]})"

lemma reach_Un: "accepts U I (X \<union> Y) = accepts U I X \<union> accepts U I Y"
  by (auto simp: accepts_def)

lemma growsD: "grows A B \<Longrightarrow> X \<subseteq> set (a_states N A) \<Longrightarrow> reach B X = reach A X"
  by (simp add: grows_def)

lemma conc_Nil_split: "conc R L = (if [] \<in> L then R else {}) \<union> conc R (L - {[]})"
proof -
  have "L = (if [] \<in> L then {[]} else {}) \<union> (L - {[]})" by auto
  then have "conc R L = conc R (if [] \<in> L then {[]} else {}) \<union> conc R (L - {[]})" using conc_Un(1) by metis
  then show ?thesis by (simp add: conc_def)
qed

lemma grows_trans: "grows A B \<Longrightarrow> grows B C \<Longrightarrow> grows A C"
  by (auto simp: grows_def)

lemma covers_reach:
  assumes "grows A B" "covers A S B X L" "S \<subseteq> set (a_states N A)"
  shows "reach B X = conc (reach A S) L"
proof -
  have "X = (X \<inter> set (a_states N A)) \<union> (X - set (a_states N A))" by auto
  then have "reach B X = reach B (X \<inter> set (a_states N A)) \<union> reach B (X - set (a_states N A))" using reach_Un by metis
  also have "reach B (X \<inter> set (a_states N A)) = reach A (X \<inter> set (a_states N A))" by (rule growsD [OF assms(1)]) simp
  also have "\<dots> \<union> reach B (X - set (a_states N A)) = (if [] \<in> L then reach A S else {}) \<union> conc (reach A S) (L - {[]})"
    using assms(2) by (auto simp: covers_def accepts_def)
  finally show ?thesis by (simp only: conc_Nil_split [of "reach A S" L])
qed

lemma covers_conc:
  assumes "grows A A1" "covers A S A1 S1 L1" "grows A1 A2" "covers A1 S1 A2 X L2" "S \<subseteq> set (a_states N A)"
  shows "covers A S A2 X (conc L1 L2)"
proof -
  let ?old = "set (a_states N A)" and ?mid = "set (a_states N A1)"
  have S1: "S1 \<subseteq> ?mid" "S1 \<inter> ?old = (if [] \<in> L1 then S else {})" "reach A1 (S1 - ?old) = conc (reach A S) (L1 - {[]})"
    using assms(2) by (auto simp: covers_def)
  have X: "X \<subseteq> set (a_states N A2)" "X \<inter> ?mid = (if [] \<in> L2 then S1 else {})" "reach A2 (X - ?mid) = conc (reach A1 S1) (L2 - {[]})"
    using assms(4) by (auto simp: covers_def)
  have sub: "?old \<subseteq> ?mid" using assms(1) by (simp add: grows_def)
  have empty: "[] \<in> conc L1 L2 \<longleftrightarrow> [] \<in> L1 \<and> [] \<in> L2" by (auto simp: conc_def)
  have "X \<inter> ?old = X \<inter> ?mid \<inter> ?old" using sub by auto
  then have 1: "X \<inter> ?old = (if [] \<in> conc L1 L2 then S else {})" unfolding X(2) empty using S1(2) by auto
  have "X - ?old = (X - ?mid) \<union> (X \<inter> ?mid - ?old)" using sub by auto
  then have "reach A2 (X - ?old) = reach A2 (X - ?mid) \<union> reach A2 (X \<inter> ?mid - ?old)" by (simp only: reach_Un)
  also have "reach A2 (X \<inter> ?mid - ?old) = reach A1 (X \<inter> ?mid - ?old)" by (rule growsD [OF assms(3)]) auto
  also have "\<dots> = (if [] \<in> L2 then conc (reach A S) (L1 - {[]}) else {})" unfolding X(2) using S1(3) by (auto simp: accepts_def)
  also have "reach A2 (X - ?mid) = conc (reach A S) (conc L1 (L2 - {[]}))"
    unfolding X(3) covers_reach [OF assms(1,2,5)] by (simp add: conc_assoc)
  also have "\<dots> \<union> (if [] \<in> L2 then conc (reach A S) (L1 - {[]}) else {})
      = conc (reach A S) (conc L1 (L2 - {[]}) \<union> (if [] \<in> L2 then L1 - {[]} else {}))"
    by (cases "[] \<in> L2") (simp_all add: conc_Un conc_def [of _ "{}"])
  also have "conc L1 (L2 - {[]}) \<union> (if [] \<in> L2 then L1 - {[]} else {}) = conc L1 L2 - {[]}"
  proof -
    have "[] \<notin> conc L1 (L2 - {[]})" by (auto simp: conc_def)
    then show ?thesis unfolding conc_Nil_split [of L1 L2] by auto
  qed
  finally show ?thesis using X(1) 1 by (simp add: covers_def)
qed

lemma covers_mono: "covers A S B X L \<Longrightarrow> grows A B \<Longrightarrow> grows B C \<Longrightarrow> covers A S C X L"
  unfolding covers_def grows_def by (metis Diff_subset order_trans)

text \<open>A second link at the same states.\<close>

lemma covers_again:
  assumes "grows A B" "covers B S C Y L" "S \<subseteq> set (a_states N A)"
  shows "covers A S C Y L"
proof -
  have Y: "Y \<inter> set (a_states N B) = (if [] \<in> L then S else {})" "reach C (Y - set (a_states N B)) = conc (reach B S) (L - {[]})"
    "Y \<subseteq> set (a_states N C)" using assms(2) by (auto simp: covers_def)
  have sub: "set (a_states N A) \<subseteq> set (a_states N B)" "reach B S = reach A S" using assms(1,3) by (auto simp: grows_def)
  have "Y - set (a_states N A) = Y - set (a_states N B)" "Y \<inter> set (a_states N A) = Y \<inter> set (a_states N B)"
    using Y(1) sub(1) assms(3) by (auto split: if_splits)
  then show ?thesis using Y sub(2) by (simp add: covers_def)
qed

lemma covers_Un:
  assumes "covers A S B X L" "covers A S B Y M"
  shows "covers A S B (X \<union> Y) (L \<union> M)"
proof -
  let ?old = "set (a_states N A)"
  have "X \<union> Y - ?old = (X - ?old) \<union> (Y - ?old)" by auto
  then have "reach B (X \<union> Y - ?old) = conc (reach A S) ((L - {[]}) \<union> (M - {[]}))"
    using assms unfolding covers_def by (simp only: reach_Un conc_Un)
  moreover have "(L - {[]}) \<union> (M - {[]}) = (L \<union> M) - {[]}" by auto
  moreover have "(X \<union> Y) \<inter> ?old = (X \<inter> ?old) \<union> (Y \<inter> ?old)" by auto
  ultimately show ?thesis using assms unfolding covers_def by simp
qed

lemma covers_Diff:
  assumes "covers A S B X L" "S \<subseteq> set (a_states N A)"
  shows "covers A S B (X - S) (L - {[]})"
proof -
  have "(X - S) \<inter> set (a_states N A) = {}" "X - S - set (a_states N A) = X - set (a_states N A)"
    using assms by (auto simp: covers_def split: if_splits)
  then show ?thesis using assms(1) by (auto simp: covers_def)
qed

text \<open>The loop over the previous final states.\<close>

lemma link_states:
  fixes k :: int
  assumes "inv A" "t \<in> set (a_states N A)" "set qs \<subseteq> set (a_states N A)"
  defines "B \<equiv> fold (\<lambda>q aut. a_set_final N q False (a_set_trans N q k t aut)) qs A"
  shows "inv B \<and> a_states N B = a_states N A \<and> a_initial N B = a_initial N A
    \<and> T B = T A \<union> {(q, k, t) |q. q \<in> set qs} \<and> (\<forall>q. a_final N B q \<longleftrightarrow> a_final N A q \<and> q \<notin> set qs)"
  using assms(1-3) unfolding B_def
proof (induction qs arbitrary: A)
  case (Cons q qs)
  have sub: "{q, t} \<subseteq> set (a_states N A)" using Cons.prems by auto
  note t = set_trans [OF Cons.prems(1) sub, of k]
  let ?A = "a_set_final N q False (a_set_trans N q k t A)"
  note f = set_final [where A = "a_set_trans N q k t A" and q = q and b = False]
  have "inv ?A" "a_states N ?A = a_states N A" using t f by simp_all
  then show ?case using Cons.IH [of ?A] Cons.prems(2,3) t f by auto
qed simp

text \<open>The fast path applies to an automaton of one word of length one.\<close>

definition atom_ok :: "'a \<Rightarrow> bool" where
  "atom_ok ta \<longleftrightarrow> inv ta \<and> (\<forall>p q. (p, epsilon, q) \<notin> T ta) \<and> (\<exists>j. initials ta = {j}) \<and> lang ta \<noteq> {}
     \<and> (single_edge N ta \<longrightarrow> initials ta = {hd (a_states N ta)} \<and> \<not> a_final N ta (hd (a_states N ta)))"

lemma edge_lang:
  assumes "atom_ok ta" "single_edge N ta"
  shows "lang ta = {[fst (hd (a_delta2 N ta (hd (a_states N ta))))]}" "fst (hd (a_delta2 N ta (hd (a_states N ta)))) \<noteq> epsilon"
proof -
  have ok: "inv ta" "\<And>p q. (p, epsilon, q) \<notin> T ta" "lang ta \<noteq> {}" "initials ta = {hd (a_states N ta)}"
    "\<not> a_final N ta (hd (a_states N ta))"
    using assms by (auto simp: atom_ok_def)
  have "length (a_states N ta) = Suc (Suc 0)" using assms(2) by (simp add: single_edge_def)
  then obtain p q where st: "a_states N ta = [p, q]" by (auto simp: length_Suc_conv)
  have "p \<noteq> q" using states_distinct [OF ok(1)] st by auto
  have fin: "a_finals N ta \<subseteq> {q}" using ok(5) st by (auto simp: a_finals_def)
  have d: "set (a_delta2 N ta p) = {(a, r). (p, a, r) \<in> T ta}" "set (a_delta2 N ta q) = {(a, r). (q, a, r) \<in> T ta}"
    using delta2(1) [OF ok(1)] st by auto
  obtain w where w: "run (T ta) p w q" "q \<in> a_finals N ta"
    using ok(3) fin ok(4) st by (auto simp: ta_lang_def accepts_def)
  have "a_delta2 N ta p \<noteq> []" using w(1) d(1) \<open>p \<noteq> q\<close> by (auto elim: run.cases)
  moreover have "length (a_delta2 N ta p) + length (a_delta2 N ta q) = 1"
    using assms(2) by (simp add: single_edge_def trans_count_def st)
  ultimately have "length (a_delta2 N ta p) = 1" and dq: "a_delta2 N ta q = []"
    by (cases "a_delta2 N ta p"; simp)+
  then obtain k r where dp: "a_delta2 N ta p = [(k, r)]" by (auto simp: length_Suc_conv)
  have "(x, a, y) \<in> T ta \<longleftrightarrow> (x, a, y) = (p, k, r)" for x a y
    using d dp dq trans_states [OF ok(1), of x a y] st by auto
  then have TA: "T ta = {(p, k, r)}" by auto
  have "r = q"
  proof (rule ccontr)
    assume "r \<noteq> q"
    then have "r = p" using trans_states [OF ok(1), of p k r] TA st by auto
    then have "edges (T ta) = {(p, p)}" using TA by (auto simp: edges_def)
    moreover have "(p, q) \<in> {(p, p)}\<^sup>* \<Longrightarrow> q = p" by (induction rule: rtrancl_induct) auto
    ultimately show False using run_edges [OF w(1)] \<open>p \<noteq> q\<close> by simp
  qed
  moreover have k: "k \<noteq> epsilon" using ok(2) TA by auto
  moreover have "a_finals N ta = {q}" "initials ta = {p}" using fin w(2) ok(4) st by auto
  ultimately have "lang ta = {[k]}" using accepts_single [OF k \<open>p \<noteq> q\<close>] TA by (simp add: ta_lang_def)
  then show "lang ta = {[fst (hd (a_delta2 N ta (hd (a_states N ta))))]}" "fst (hd (a_delta2 N ta (hd (a_states N ta)))) \<noteq> epsilon"
    using dp st k by auto
qed

text \<open>What a visit does to the state.\<close>

definition glued :: "'a cp_state \<Rightarrow> 'a cp_state \<Rightarrow> int list set \<Rightarrow> int list set \<Rightarrow> bool" where
  "glued st st' L L' \<longleftrightarrow> grows (m_test_goal_automaton st) (m_test_goal_automaton st')
     \<and> covers (m_test_goal_automaton st) (m_current_final st) (m_test_goal_automaton st') (m_current_final st') L
     \<and> (\<exists>X \<subseteq> m_current_final st'. covers (m_test_goal_automaton st) (m_current_final st) (m_test_goal_automaton st') X L'
         \<and> a_finals N (m_test_goal_automaton st') = a_finals N (m_test_goal_automaton st) - m_current_final st \<union> X)
     \<and> m_all_test_goal_states st' \<subseteq> m_all_test_goal_states st \<union> set (a_states N (m_test_goal_automaton st'))"

definition ready :: "state \<Rightarrow> 'a cp_state \<Rightarrow> bool" where
  "ready i st \<longleftrightarrow> live (m_test_goal_automaton st) i \<and> m_current_final st \<subseteq> set (a_states N (m_test_goal_automaton st))
     \<and> reach (m_test_goal_automaton st) (m_current_final st) \<noteq> {}"

lemma append_edge_correct:
  assumes st: "ready i st" and ta: "atom_ok ta" "single_edge N ta" and eq: "append_edge N ta t st = (t', st')"
  shows "live (m_test_goal_automaton st') i" "glued st st' (lang ta) (lang ta)"
proof -
  define A where "A = m_test_goal_automaton st"
  define S where "S = m_current_final st"
  define k where "k = fst (hd (a_delta2 N ta (hd (a_states N ta))))"
  have L: "lang ta = {[k]}" "k \<noteq> epsilon" using edge_lang [OF ta] by (simp_all add: k_def)
  have A: "live A i" "inv A" "S \<subseteq> set (a_states N A)" "S \<noteq> {}" "a_initial N A = {i}" "i \<in> set (a_states N A)"
    using st by (auto simp: ready_def live_def A_def S_def accepts_def)
  have fin: "finite S" using A(3) by (rule finite_subset) simp
  obtain s A1 where new: "a_new_state N A = (s, A1)" by (cases "a_new_state N A")
  note n = new_state [OF A(2) new]
  let ?A2 = "a_set_final N s True A1"
  let ?B = "for_states (\<lambda>q aut. a_set_final N q False (a_set_trans N q k s aut)) S ?A2"
  have st': "m_test_goal_automaton st' = ?B" "m_current_final st' = {s}" "m_all_test_goal_states st' = insert s (m_all_test_goal_states st)"
    using eq by (auto simp: append_edge_def Let_def new A_def [symmetric] S_def [symmetric] k_def [symmetric])
  have 2: "inv ?A2" "s \<in> set (a_states N ?A2)" "set (sorted_list_of_set S) \<subseteq> set (a_states N ?A2)"
    using n(1,3) A(3) fin by (auto simp: set_final)
  from link_states [OF 2, of k]
  have B: "inv ?B" "set (a_states N ?B) = insert s (set (a_states N A))" "a_initial N ?B = {i}"
    "T ?B = T A \<union> {(q, k, s) |q. q \<in> S}" "\<And>q. a_final N ?B q \<longleftrightarrow> (q = s \<or> a_final N A q) \<and> q \<notin> S"
    using n A(5) fin by (auto simp: set_final)
  have s: "s \<notin> set (a_states N A)" "s \<notin> S" using n(2) A(3) by auto
  have TB: "T ?B = bridge (T A) S {(k, s)} {}" using B(4) by (auto simp: bridge_def)
  have br: "bridged (T A) (set (a_states N A)) {} {s} S {(k, s)}"
    using within_T [OF A(2)] s A(3) L(2) by (auto simp: bridged_def within_def)
  have grows: "grows A ?B" unfolding grows_def B(2,3) TB A(5) using accepts_old [OF br] by auto
  have "accepts (T ?B) {i} {s} = conc (accepts (T A) {i} S) {[k]}"
    unfolding TB accepts_new [OF br A(6) subset_refl] by (auto simp: conc_def intro: run.run_refl elim: run.cases)
  moreover have "{s} - set (a_states N A) = {s}" "{s} \<inter> set (a_states N A) = {}" using s by auto
  ultimately have covers: "covers A S ?B {s} (lang ta)" unfolding covers_def B(2,3) A(5) L(1) by simp
  have "a_finals N ?B = a_finals N A - S \<union> {s}" using s B(2,5) by (auto simp: a_finals_def)
  then show "glued st st' (lang ta) (lang ta)"
    using grows covers B(2) unfolding glued_def st' A_def [symmetric] S_def [symmetric] by (auto intro!: exI [of _ "{s}"])
  have "alive ?B q" if q: "q \<in> set (a_states N ?B)" for q
  proof (cases "q = s")
    case True
    obtain p where "p \<in> S" using A(4) by auto
    then show ?thesis using True s B(4,5) by (auto simp: alive_def)
  next
    case False
    then have "alive A q" using q B(2) A(1) by (auto simp: live_def)
    then show ?thesis using False A(5) B(3-5) by (auto simp: alive_def)
  qed
  then show "live (m_test_goal_automaton st') i"
    using A(1) L(2) B(1-4) unfolding st' live_def by auto
qed

text \<open>The simplification of an automaton to which a part has been linked.\<close>

lemma simplify_linked:
  assumes A: "inv A" "a_initial N A = {i}" "i \<in> S0" "set (a_states N A) = S0 \<union> S1" "S0 \<inter> S1 = {}"
    and old: "within T0 S0" "\<And>p q. (p, epsilon, q) \<notin> T0" "S \<subseteq> S0"
      "\<And>q. q \<in> S0 \<Longrightarrow> q = i \<or> (\<exists>p a. (p, a, q) \<in> T0) \<and> (q \<in> S \<or> a_final N A q \<or> (\<exists>r a. (q, a, r) \<in> T0))"
    and part: "within U S1" "\<And>p q. (p, epsilon, q) \<notin> U" "j \<in> S1" "accepts U {j} Y \<noteq> {}"
    and Y: "Y \<subseteq> S1" "a_finals N A = G \<union> Y" "G \<inter> S1 = {}" and TA: "T A = T0 \<union> U \<union> links S {j}"
  shows "\<exists>B. simplify_automaton N False A = Some B \<and> live B i \<and> S0 \<subseteq> set (a_states N B)
    \<and> set (a_states N B) \<subseteq> S0 \<union> S1 \<and> a_finals N B = G \<union> (if j \<in> Y then S else {}) \<union> Y \<inter> set (a_states N B)
    \<and> (\<forall>X \<subseteq> S0. reach B X = accepts T0 {i} X)
    \<and> reach B (Y \<inter> set (a_states N B)) = conc (accepts T0 {i} S) (accepts U {j} Y - {[]})"
proof -
  let ?E = "eps_state N j A" and ?V = "bridge T0 S {(a, q). (j, a, q) \<in> U} U"
  let ?I = "inner ?V S0 S1 Y"
  have j: "j \<in> set (a_states N A)" using part(3) A(4) by simp
  have elim: "eps_elim N A = ?E"
    by (rule eps_elim_single [OF A(1) j]) (use old(2) part(2) TA in auto)
  have TE: "T ?E = ?V"
    unfolding eps_state_correct(4) [OF A(1) j] TA by (rule eps_T_links) (use old part A(5) in auto)
  note E = eps_state_correct(1-3) [OF A(1) j]
  have jT: "(p, epsilon, j) \<in> T A \<longleftrightarrow> p \<in> S" for p using old(2) part(2) unfolding TA by auto
  have GS: "G \<subseteq> S0" using Y A(4) by (auto simp: a_finals_def)
  have "j \<in> a_finals N A \<longleftrightarrow> j \<in> Y" using Y part(3) by auto
  then have FE: "a_finals N ?E = G \<union> Y \<union> (if j \<in> Y then S else {})"
    unfolding eps_state_correct(5) [OF A(1) j] using jT by (auto simp: eps_F_def Y(2))
  have fE: "a_final N ?E q \<longleftrightarrow> q \<in> G \<union> Y \<union> (if j \<in> Y then S else {})" if "q \<in> S0 \<union> S1" for q
    using that FE E(2) A(4) unfolding a_finals_def by auto
  have br: "bridged T0 S0 U S1 S {(a, q). (j, a, q) \<in> U}" by (rule bridged_links [OF old(1) part(1) A(5) old(3) part(2)])
  have wV: "within ?V (S0 \<union> S1)" using within_T [OF E(1)] unfolding TE E(2) A(4) .
  have finals: "a_final N ?E u" if "u \<in> S0 \<and> a_final N A u \<and> u \<notin> S \<or> u \<in> Y \<or> u \<in> S \<and> j \<in> Y" for u
    using that fE [of u] Y A(4) old(3) by (auto simp: a_finals_def)
  have "supports ?E (S0 \<union> ?I)"
    unfolding supports_def TE E(2,3) A(2,4)
  proof (intro conjI ballI)
    show "S0 \<union> ?I \<subseteq> S0 \<union> S1" by (auto simp: inner_def)
    show "u \<in> {i} \<or> (\<exists>p \<in> S0 \<union> ?I. \<exists>a. (p, a, u) \<in> ?V) \<and> (a_final N ?E u \<or> (\<exists>q \<in> S0 \<union> ?I. \<exists>a. (u, a, q) \<in> ?V))"
      if "u \<in> S0 \<union> ?I" for u
      using linked_supported [OF old(1) part(1) A(5) wV that old(4) part(4)] finals by blast
  qed
  from remove_dead_part [OF E(1) _ _ this, of "a_states N ?E" "{}"]
  obtain B where B: "remove_dead N (a_states N ?E) {} ?E = Some B" "part_of B ?E (S0 \<union> ?I)" "\<forall>q \<in> set (a_states N B). alive B q"
    by auto
  note P = part_ofD [OF B(2)]
  have TB: "T B \<subseteq> ?V" and sB: "S0 \<subseteq> set (a_states N B)" "?I \<subseteq> set (a_states N B)" "set (a_states N B) \<subseteq> S0 \<union> S1" and iB: "a_initial N B = {i}"
    using P(2-5) E(2,3) TE A(2,4) by auto
  have simp: "simplify_automaton N False A = Some B"
    using B(1) by (simp add: simplify_automaton_def elim dedup_id [OF P(1)])
  have no: "(p, epsilon, q) \<notin> ?V" for p q using old(2) part(2) by (auto simp: bridge_iff)
  have "(p, epsilon, q) \<notin> T B" for p q using TB no [of p q] by blast
  then have live: "live B i" unfolding live_def iB using P(1) subsetD [OF sB(1) A(3)] B(3) by simp
  have "a_finals N B = set (a_states N B) \<inter> a_finals N ?E"
    using P(4,6) by (auto simp: a_finals_def)
  then have fB: "a_finals N B = G \<union> (if j \<in> Y then S else {}) \<union> Y \<inter> set (a_states N B)"
    unfolding FE using sB(1) GS old(3) by auto
  have old: "reach B X = accepts T0 {i} X" if X: "X \<subseteq> S0" for X
  proof
    show "reach B X \<subseteq> accepts T0 {i} X"
      unfolding iB accepts_old [OF br X, symmetric] by (rule accepts_mono [OF TB subset_refl])
    have "T0 \<subseteq> T B"
    proof
      fix e assume "e \<in> T0"
      then show "e \<in> T B" using P(7) withinD [OF old(1)] by (cases e) (auto simp: TE bridge_iff)
    qed
    then show "accepts T0 {i} X \<subseteq> reach B X" unfolding iB by (rule accepts_mono [OF _ subset_refl])
  qed
  have "reach B (Y \<inter> set (a_states N B)) = accepts ?V {i} Y"
  proof
    show "reach B (Y \<inter> set (a_states N B)) \<subseteq> accepts ?V {i} Y"
      unfolding iB by (rule accepts_mono [OF TB]) simp
    show "accepts ?V {i} Y \<subseteq> reach B (Y \<inter> set (a_states N B))"
    proof
      fix w assume "w \<in> accepts ?V {i} Y"
      then obtain y where y: "y \<in> Y" "run ?V i w y" by (auto simp: accepts_def)
      have "run (T B) i w y \<and> y \<in> ?I"
        by (rule run_inner [OF y(2) A(3) y(1) Y(1) wV]) (use P(7) TE in auto)
      then show "w \<in> reach B (Y \<inter> set (a_states N B))" using y(1) sB(2) by (auto simp: accepts_def iB)
    qed
  qed
  also have "\<dots> = conc (accepts T0 {i} S) (accepts U {j} Y - {[]})"
    unfolding accepts_new [OF br A(3) Y(1)] accepts_first [of U, OF part(2)] ..
  finally show ?thesis using simp live sB fB old by blast
qed

lemma append_automaton_correct:
  assumes st: "ready i st" and ta: "atom_ok ta"
  shows "\<exists>t' st'. append_automaton N ta t st = Some (t', st') \<and> live (m_test_goal_automaton st') i
    \<and> glued st st' (lang ta) (lang ta)"
proof -
  define A where "A = m_test_goal_automaton st"
  define S where "S = m_current_final st"
  let ?S0 = "set (a_states N A)"
  have A: "inv A" "S \<subseteq> ?S0" "a_initial N A = {i}" "i \<in> ?S0" "\<And>p q. (p, epsilon, q) \<notin> T A" "\<And>q. q \<in> ?S0 \<Longrightarrow> alive A q"
    using st by (auto simp: ready_def live_def A_def S_def)
  obtain j0 where ta: "inv ta" "\<And>p q. (p, epsilon, q) \<notin> T ta" "initials ta = {j0}" "lang ta \<noteq> {}"
    using ta by (auto simp: atom_ok_def)
  obtain ini Y A1 where copy: "copy_automaton N ta A = ((ini, Y), A1)" by (metis surj_pair)
  obtain f where f: "is_copy ta A ini Y A1 f" using copy_automaton_correct [OF ta(1) A(1) copy] by blast
  note c = f [unfolded is_copy_def]
  define j where "j = f j0"
  define S1 where "S1 = f ` set (a_states N ta)"
  define U where "U = image_T f (T ta)"
  have ini: "ini = {j}" using c ta(3) by (simp add: j_def)
  have j: "j \<in> S1" using ta(3) by (auto simp: j_def S1_def)
  have dis: "?S0 \<inter> S1 = {}" using c by (auto simp: S1_def)
  have U: "within U S1" "\<And>p q. (p, epsilon, q) \<notin> U"
    using within_image [OF within_T [OF ta(1)]] ta(2) by (auto simp: U_def S1_def image_T_def)
  have Y: "Y \<subseteq> S1" using c by (auto simp: S1_def a_finals_def)
  have lang: "lang ta = accepts U {j} Y"
    using c within_T [OF ta(1)] accepts_image [of "T ta" "set (a_states N ta)" f "initials ta" "a_finals N ta"] ini
    by (auto simp: ta_lang_def U_def a_finals_def)
  have fin: "finite S" "finite Y" using A(2) Y by (auto simp: S1_def intro: finite_subset)
  let ?A2 = "for_states (\<lambda>q aut. a_set_final N q False (a_set_trans N q epsilon j aut)) S A1"
  let ?A3 = "for_states (\<lambda>q. a_set_final N q True) Y ?A2"
  have A1: "inv A1" "set (a_states N A1) = ?S0 \<union> S1" "T A1 = T A \<union> U" "a_initial N A1 = {i}" "a_finals N A1 = a_finals N A"
    using c A(3) dis by (auto simp: S1_def U_def a_finals_def)
  have "j \<in> set (a_states N A1)" "set (sorted_list_of_set S) \<subseteq> set (a_states N A1)" using A1(2) j A(2) fin by auto
  from link_states [OF A1(1) this, of epsilon]
  have A2: "inv ?A2" "set (a_states N ?A2) = ?S0 \<union> S1" "T ?A2 = T A \<union> U \<union> links S {j}" "a_initial N ?A2 = {i}"
    "a_finals N ?A2 = a_finals N A - S"
    using A1 fin by (auto simp: links_def a_finals_def)
  have "set (sorted_list_of_set Y) \<subseteq> set (a_states N ?A2)" using A2(2) Y fin by auto
  from set_final_fold [OF A2(1) this]
  have A3: "inv ?A3" "a_initial N ?A3 = {i}" "set (a_states N ?A3) = ?S0 \<union> S1" "T ?A3 = T A \<union> U \<union> links S {j}"
    "a_finals N ?A3 = (a_finals N A - S) \<union> Y"
    using A2 fin by auto
  have G: "(a_finals N A - S) \<inter> S1 = {}" using dis by (auto simp: a_finals_def)
  have alive: "q = i \<or> (\<exists>p a. (p, a, q) \<in> T A) \<and> (q \<in> S \<or> a_final N ?A3 q \<or> (\<exists>r a. (q, a, r) \<in> T A))" if "q \<in> ?S0" for q
  proof -
    have "a_final N ?A3 q" if "a_final N A q" "q \<notin> S" using that \<open>q \<in> ?S0\<close> A3(3,5) by (auto simp: a_finals_def)
    then show ?thesis using A(6) [OF that] A(3) unfolding alive_def by blast
  qed
  obtain B where B: "simplify_automaton N False ?A3 = Some B" "live B i" "?S0 \<subseteq> set (a_states N B)"
    "a_finals N B = (a_finals N A - S) \<union> (if j \<in> Y then S else {}) \<union> Y \<inter> set (a_states N B)"
    "\<forall>X \<subseteq> ?S0. reach B X = accepts (T A) {i} X"
    "reach B (Y \<inter> set (a_states N B)) = conc (accepts (T A) {i} S) (accepts U {j} Y - {[]})"
    using simplify_linked [OF A3(1,2) A(4) A3(3) dis within_T [OF A(1)] A(5,2) alive U j _ Y A3(5) G A3(4)] ta(4) lang by auto
  let ?X = "(if j \<in> Y then S else {}) \<union> Y \<inter> set (a_states N B)"
  have cur: "a_finals N B - a_finals N ?A2 = ?X" unfolding B(4) A2(5) using G Y A(2) dis by auto
  have "[] \<in> lang ta \<longleftrightarrow> j \<in> Y" unfolding lang by (rule Nil_accepts [OF U(2)])
  moreover have "?X \<inter> ?S0 = (if j \<in> Y then S else {})" "?X - ?S0 = Y \<inter> set (a_states N B)" "?X \<subseteq> set (a_states N B)"
    using Y A(2) dis B(3) by auto
  ultimately have "covers A S B ?X (lang ta)" using B(6) unfolding covers_def A(3) lang by simp
  moreover have "grows A B" unfolding grows_def A(3) using B(3,5) by simp
  moreover have "append_automaton N ta t st = Some (Test_Goal_States (m_cp t) ?X (m_children t),
      \<lparr>m_test_goal_automaton = B, m_current_final = ?X, m_all_test_goal_states = m_all_test_goal_states st \<union> ?X\<rparr>)"
    using B(1) cur unfolding append_automaton_def A_def [symmetric] S_def [symmetric] copy ini by (simp add: Let_def)
  ultimately show ?thesis using B(2,4) \<open>?X \<subseteq> set (a_states N B)\<close>
    by (auto simp: glued_def A_def [symmetric] S_def [symmetric] Un_assoc intro!: exI [of _ ?X])
qed

text \<open>The end of one visit is the start of the next one.\<close>

lemma ready_after:
  assumes "ready i st" "live (m_test_goal_automaton st') i" "glued st st' L L'" "L \<noteq> {}"
  shows "ready i st'"
  using assms covers_reach [of "m_test_goal_automaton st" "m_test_goal_automaton st'" "m_current_final st" "m_current_final st'" L]
  by (auto simp: ready_def glued_def covers_def)

lemma ready_again:
  assumes "ready i st" "live (m_test_goal_automaton st') i" "glued st st' L L'"
  shows "ready i (st'\<lparr>m_current_final := m_current_final st\<rparr>)"
proof -
  have g: "grows (m_test_goal_automaton st) (m_test_goal_automaton st')" using assms(3) by (simp add: glued_def)
  have s: "m_current_final st \<subseteq> set (a_states N (m_test_goal_automaton st))" using assms(1) by (simp add: ready_def)
  have "m_current_final st \<subseteq> set (a_states N (m_test_goal_automaton st'))" using g s unfolding grows_def by blast
  then show ?thesis using assms(1,2) growsD [OF g s] by (simp add: ready_def)
qed

lemma glued_concat:
  assumes "ready i st" "glued st st1 L1 M1" "glued st1 st2 L2 M2"
  shows "glued st st2 (conc L1 L2) (conc L1 M2)"
proof -
  let ?A = "m_test_goal_automaton st" and ?B = "m_test_goal_automaton st1" and ?C = "m_test_goal_automaton st2"
  let ?S = "m_current_final st" and ?S1 = "m_current_final st1" and ?S2 = "m_current_final st2"
  have S: "?S \<subseteq> set (a_states N ?A)" using assms(1) by (simp add: ready_def)
  have 1: "grows ?A ?B" "covers ?A ?S ?B ?S1 L1" "m_all_test_goal_states st1 \<subseteq> m_all_test_goal_states st \<union> set (a_states N ?B)"
    using assms(2) by (auto simp: glued_def)
  obtain X where X: "X \<subseteq> ?S1" "a_finals N ?B = a_finals N ?A - ?S \<union> X" using assms(2) by (auto simp: glued_def)
  have 2: "grows ?B ?C" "covers ?B ?S1 ?C ?S2 L2" "m_all_test_goal_states st2 \<subseteq> m_all_test_goal_states st1 \<union> set (a_states N ?C)"
    using assms(3) by (auto simp: glued_def)
  obtain Z where Z: "Z \<subseteq> ?S2" "covers ?B ?S1 ?C Z M2" "a_finals N ?C = a_finals N ?B - ?S1 \<union> Z"
    using assms(3) by (auto simp: glued_def)
  have "?S1 \<inter> set (a_states N ?A) \<subseteq> ?S" using 1(2) by (auto simp: covers_def split: if_splits)
  then have fin: "a_finals N ?C = a_finals N ?A - ?S \<union> Z" unfolding Z(3) X(2) using X(1) by (auto simp: a_finals_def)
  have "set (a_states N ?B) \<subseteq> set (a_states N ?C)" using 2(1) by (simp add: grows_def)
  then have tg: "m_all_test_goal_states st2 \<subseteq> m_all_test_goal_states st \<union> set (a_states N ?C)" using 1(3) 2(3) by blast
  show ?thesis
    unfolding glued_def
    using grows_trans [OF 1(1) 2(1)] covers_conc [OF 1(1,2) 2(1,2) S] covers_conc [OF 1(1,2) 2(1) Z(2) S] Z(1) fin tg by blast
qed

lemma glued_alternative:
  assumes "ready i st" "glued st st1 L1 M1" "glued (st1\<lparr>m_current_final := m_current_final st\<rparr>) st2 L2 M2"
  shows "glued st (st2\<lparr>m_current_final := m_current_final st2 \<union> m_current_final st1\<rparr>) (L1 \<union> L2) (M1 - {[]} \<union> M2)"
proof -
  let ?A = "m_test_goal_automaton st" and ?B = "m_test_goal_automaton st1" and ?C = "m_test_goal_automaton st2"
  let ?S = "m_current_final st" and ?S1 = "m_current_final st1" and ?S2 = "m_current_final st2"
  have S: "?S \<subseteq> set (a_states N ?A)" using assms(1) by (simp add: ready_def)
  have 1: "grows ?A ?B" "covers ?A ?S ?B ?S1 L1" "m_all_test_goal_states st1 \<subseteq> m_all_test_goal_states st \<union> set (a_states N ?B)"
    using assms(2) by (auto simp: glued_def)
  obtain X where X: "X \<subseteq> ?S1" "covers ?A ?S ?B X M1" "a_finals N ?B = a_finals N ?A - ?S \<union> X"
    using assms(2) by (auto simp: glued_def)
  have 2: "grows ?B ?C" "covers ?B ?S ?C ?S2 L2" "m_all_test_goal_states st2 \<subseteq> m_all_test_goal_states st1 \<union> set (a_states N ?C)"
    using assms(3) by (auto simp: glued_def)
  obtain Z where Z: "Z \<subseteq> ?S2" "covers ?B ?S ?C Z M2" "a_finals N ?C = a_finals N ?B - ?S \<union> Z"
    using assms(3) by (auto simp: glued_def)
  have fin: "a_finals N ?C = a_finals N ?A - ?S \<union> ((X - ?S) \<union> Z)" unfolding Z(3) X(3) by auto
  have "covers ?A ?S ?C (X - ?S) (M1 - {[]})" by (rule covers_mono [OF covers_Diff [OF X(2) S] 1(1) 2(1)])
  from covers_Un [OF this covers_again [OF 1(1) Z(2) S]]
  have F: "covers ?A ?S ?C ((X - ?S) \<union> Z) (M1 - {[]} \<union> M2)" .
  have L: "covers ?A ?S ?C (?S1 \<union> ?S2) (L1 \<union> L2)"
    by (rule covers_Un [OF covers_mono [OF 1(2,1) 2(1)] covers_again [OF 1(1) 2(2) S]])
  have "set (a_states N ?B) \<subseteq> set (a_states N ?C)" using 2(1) by (simp add: grows_def)
  then have tg: "m_all_test_goal_states st2 \<subseteq> m_all_test_goal_states st \<union> set (a_states N ?C)" using 1(3) 2(3) by blast
  have "(X - ?S) \<union> Z \<subseteq> ?S2 \<union> ?S1" using X(1) Z(1) by auto
  then show ?thesis
    unfolding glued_def using grows_trans [OF 1(1) 2(1)] L F fin tg by (auto simp: Un_commute intro!: exI [of _ "(X - ?S) \<union> Z"])
qed

lemma glued_close:
  assumes "glued st st' L L'"
  shows "glued st (snd (close_node t ta tb st')) L L'"
  using assms by (auto simp: glued_def close_node_def covers_def)

section \<open>The visitor\<close>

definition patterns_ok :: "(addr \<rightharpoonup> 'a) \<Rightarrow> (addr \<Rightarrow> int list set) \<Rightarrow> 'e fql_node \<Rightarrow> bool" where
  "patterns_ok pp_get G c \<longleftrightarrow> (\<forall>n \<in> cp_leaves c. \<exists>ta. pp_get n = Some ta \<and> atom_ok ta \<and> lang ta = G n)"

definition visit_done :: "state \<Rightarrow> 'a cp_state \<Rightarrow> ('e test_goal_states \<times> 'a cp_state) option \<Rightarrow> int list set \<Rightarrow> int list set \<Rightarrow> bool" where
  "visit_done i st r L L' \<longleftrightarrow> (\<exists>t' st'. r = Some (t', st') \<and> live (m_test_goal_automaton st') i \<and> glued st st' L L')"

lemma copy_from_path_pattern_correct:
  assumes "ready i st" "pp_get m = Some ta" "atom_ok ta" "lang ta = L" "node_addr n = m"
  shows "visit_done i st (copy_from_path_pattern N pp_get n t st) L L"
proof (cases "single_edge N ta")
  case True
  obtain t' st' where "append_edge N ta t st = (t', st')" by (metis surj_pair)
  then show ?thesis
    using append_edge_correct [OF assms(1,3) True] assms(2,4,5) True by (auto simp: visit_done_def copy_from_path_pattern_def)
next
  case False
  then show ?thesis
    using append_automaton_correct [OF assms(1,3)] assms(2,4,5) by (auto simp: visit_done_def copy_from_path_pattern_def)
qed

lemma cp_lang_nonempty: "no_depcov c \<Longrightarrow> patterns_ok pp_get G c \<Longrightarrow> cp_lang G c \<noteq> {}"
  by (induction c) (auto simp: patterns_ok_def atom_ok_def)

lemma visit_cover_correct:
  "no_depcov c \<Longrightarrow> patterns_ok pp_get G c \<Longrightarrow> ready i st \<Longrightarrow> visit_done i st (visit_cover N pp_get c t st) (cp_lang G c) (cp_accepted G c)"
proof (induction c arbitrary: t st)
  case (CP_Alternative p a b)
  have ok: "patterns_ok pp_get G a" "patterns_ok pp_get G b" "no_depcov a" "no_depcov b" using CP_Alternative.prems by (auto simp: patterns_ok_def)
  obtain ta st1 where 1: "visit_cover N pp_get a (Test_Goal_States (Some a) {} []) st = Some (ta, st1)"
    "live (m_test_goal_automaton st1) i" "glued st st1 (cp_lang G a) (cp_accepted G a)"
    using CP_Alternative.IH(1) [OF ok(3,1) CP_Alternative.prems(3), of "Test_Goal_States (Some a) {} []"] by (auto simp: visit_done_def)
  let ?st = "st1\<lparr>m_current_final := m_current_final st\<rparr>"
  have "ready i ?st" by (rule ready_again [OF CP_Alternative.prems(3) 1(2,3)])
  from CP_Alternative.IH(2) [OF ok(4,2) this, of "Test_Goal_States (Some b) {} []"]
  obtain tb st2 where 2: "visit_cover N pp_get b (Test_Goal_States (Some b) {} []) ?st = Some (tb, st2)"
    "live (m_test_goal_automaton st2) i" "glued ?st st2 (cp_lang G b) (cp_accepted G b)"
    by (auto simp: visit_done_def)
  have "live (m_test_goal_automaton (snd (close_node t ta tb (st2\<lparr>m_current_final := m_current_final st2 \<union> m_current_final st1\<rparr>)))) i"
    using 2(2) by (simp add: close_node_def)
  then show ?case
    using 1(1) 2(1) glued_close [OF glued_alternative [OF CP_Alternative.prems(3) 1(3) 2(3)], of t ta tb]
    by (simp add: visit_done_def Let_def) (metis surjective_pairing)
next
  case (CP_Concat p a b)
  have ok: "patterns_ok pp_get G a" "patterns_ok pp_get G b" "no_depcov a" "no_depcov b" using CP_Concat.prems by (auto simp: patterns_ok_def)
  obtain ta st1 where 1: "visit_cover N pp_get a (Test_Goal_States (Some a) {} []) st = Some (ta, st1)"
    "live (m_test_goal_automaton st1) i" "glued st st1 (cp_lang G a) (cp_accepted G a)"
    using CP_Concat.IH(1) [OF ok(3,1) CP_Concat.prems(3), of "Test_Goal_States (Some a) {} []"] by (auto simp: visit_done_def)
  have "ready i st1" by (rule ready_after [OF CP_Concat.prems(3) 1(2,3) cp_lang_nonempty [OF ok(3,1)]])
  from CP_Concat.IH(2) [OF ok(4,2) this, of "Test_Goal_States (Some b) {} []"]
  obtain tb st2 where 2: "visit_cover N pp_get b (Test_Goal_States (Some b) {} []) st1 = Some (tb, st2)"
    "live (m_test_goal_automaton st2) i" "glued st1 st2 (cp_lang G b) (cp_accepted G b)"
    by (auto simp: visit_done_def)
  have "live (m_test_goal_automaton (snd (close_node t ta tb st2))) i" using 2(2) by (simp add: close_node_def)
  then show ?case
    using 1(1) 2(1) glued_close [OF glued_concat [OF CP_Concat.prems(3) 1(3) 2(3)], of t ta tb]
    by (simp add: visit_done_def) (metis surjective_pairing)
qed (auto simp: patterns_ok_def intro!: copy_from_path_pattern_correct)

text \<open>The whole pattern, from an automaton without states.\<close>

lemma visit_cover_query_correct:
  assumes "blank (m_test_goal_automaton st)" "m_current_final st = {}" "m_all_test_goal_states st = {}"
    and "no_depcov c" "patterns_ok pp_get G c"
  shows "\<exists>t st'. visit_cover_query N pp_get c st = Some (t, st') \<and> inv (m_test_goal_automaton st')
    \<and> lang (m_test_goal_automaton st') = cp_accepted G c
    \<and> accepts (T (m_test_goal_automaton st')) (initials (m_test_goal_automaton st')) (m_current_final st') = cp_lang G c
    \<and> m_all_test_goal_states st' \<subseteq> set (a_states N (m_test_goal_automaton st'))"
proof -
  let ?A = "m_test_goal_automaton st"
  note A = blankD [OF assms(1)]
  obtain q A1 where new: "a_new_state N ?A = (q, A1)" by (cases "a_new_state N ?A")
  note n = new_state [OF conjunct1 [OF A] new]
  let ?A2 = "a_set_final N q True (a_set_initial N (insert q (a_initial N A1)) A1)"
  let ?st = "st\<lparr>m_test_goal_automaton := ?A2, m_current_final := insert q (m_current_final st)\<rparr>"
  have A2: "inv ?A2" "set (a_states N ?A2) = {q}" "a_initial N ?A2 = {q}" "T ?A2 = {}" "a_finals N ?A2 = {q}"
    using A n by (auto simp: set_initial set_final a_finals_def)
  have R: "reach ?A2 {q} = {[]}" unfolding A2(3,4) by (rule accepts_no_trans)
  have "ready q ?st" using A2 R assms(2) by (auto simp: ready_def live_def alive_def)
  from visit_cover_correct [OF assms(4,5) this, of "Test_Goal_States (Some c) {} []"]
  obtain t st' where v: "visit_cover_query N pp_get c st = Some (t, st')" "live (m_test_goal_automaton st') q"
    "glued ?st st' (cp_lang G c) (cp_accepted G c)"
    by (auto simp: visit_done_def visit_cover_query_def new Let_def)
  let ?B = "m_test_goal_automaton st'"
  have g: "grows ?A2 ?B" "covers ?A2 {q} ?B (m_current_final st') (cp_lang G c)"
    "m_all_test_goal_states st' \<subseteq> set (a_states N ?B)"
    using v(3) assms(2,3) by (auto simp: glued_def)
  obtain X where X: "covers ?A2 {q} ?B X (cp_accepted G c)" "a_finals N ?B = X"
    using v(3) assms(2) A2(5) by (auto simp: glued_def)
  have sub: "{q} \<subseteq> set (a_states N ?A2)" using A2(2) by simp
  have i: "inv ?B" "initials ?B = {q}" "a_initial N ?B = {q}" using v(2) by (auto simp: live_def)
  have "accepts (T ?B) {q} (m_current_final st') = cp_lang G c" "accepts (T ?B) {q} X = cp_accepted G c"
    using covers_reach [OF g(1,2) sub] covers_reach [OF g(1) X(1) sub] unfolding R i(3) by simp_all
  then show ?thesis using v(1) i g(3) X(2) by (auto simp: ta_lang_def)
qed

end

section \<open>The tree of test goal states\<close>

lemma obind_Inr_D: "obind x f = Some (Inr z) \<Longrightarrow> \<exists>y. x = Some (Inr y) \<and> f y = Some (Inr z)"
  by (cases x; cases "the x") auto

lemma rec_node: "is_test_goal_state_rec (Test_Goal_States cp tg subs) q \<longleftrightarrow> q \<in> tg \<or> (\<exists>t \<in> set subs. is_test_goal_state_rec t q)"
  by (auto simp: list_ex_iff)

lemma rec_close_node:
  "is_test_goal_state_rec (fst (close_node (Test_Goal_States cp {} []) ta tb st)) q
    \<longleftrightarrow> q \<in> m_current_final st \<or> is_test_goal_state_rec ta q \<or> is_test_goal_state_rec tb q"
  by (simp only: close_node_def fst_conv test_goal_states.sel rec_node) auto

declare is_test_goal_state_rec.simps [simp del]

lemma copy_from_path_pattern_tree:
  assumes "copy_from_path_pattern N pp_get n (Test_Goal_States cp {} []) st = Some (t', st')"
  shows "q \<in> m_all_test_goal_states st' \<longleftrightarrow> q \<in> m_all_test_goal_states st \<or> is_test_goal_state_rec t' q"
  using assms
  by (auto simp: copy_from_path_pattern_def append_edge_def append_automaton_def rec_node Let_def
      split: option.splits if_splits prod.splits)

lemma visit_cover_tree:
  "visit_cover N pp_get c (Test_Goal_States cp {} []) st = Some (t', st') \<Longrightarrow>
    q \<in> m_all_test_goal_states st' \<longleftrightarrow> q \<in> m_all_test_goal_states st \<or> is_test_goal_state_rec t' q"
proof (induction c arbitrary: cp st t' st')
  case (CP_Alternative p a b)
  obtain ta st1 tb st2 where v: "visit_cover N pp_get a (Test_Goal_States (Some a) {} []) st = Some (ta, st1)"
    "visit_cover N pp_get b (Test_Goal_States (Some b) {} []) (st1\<lparr>m_current_final := m_current_final st\<rparr>) = Some (tb, st2)"
    "(t', st') = close_node (Test_Goal_States cp {} []) ta tb (st2\<lparr>m_current_final := m_current_final st2 \<union> m_current_final st1\<rparr>)"
    using CP_Alternative.prems by (auto simp: Let_def split: option.splits)
  have "t' = fst (close_node (Test_Goal_States cp {} []) ta tb (st2\<lparr>m_current_final := m_current_final st2 \<union> m_current_final st1\<rparr>))"
    using v(3) by (metis fst_conv)
  then show ?case
    using CP_Alternative.IH(1) [OF v(1)] CP_Alternative.IH(2) [OF v(2)] v(3) unfolding rec_close_node
    by (auto simp: close_node_def rec_node)
next
  case (CP_Concat p a b)
  obtain ta st1 tb st2 where v: "visit_cover N pp_get a (Test_Goal_States (Some a) {} []) st = Some (ta, st1)"
    "visit_cover N pp_get b (Test_Goal_States (Some b) {} []) st1 = Some (tb, st2)"
    "(t', st') = close_node (Test_Goal_States cp {} []) ta tb st2"
    using CP_Concat.prems by (auto split: option.splits)
  then show ?case
    using CP_Concat.IH(1) [OF v(1)] CP_Concat.IH(2) [OF v(2)] by (auto simp: close_node_def rec_node)
qed (auto simp: rec_node dest: copy_from_path_pattern_tree)

section \<open>Properties\<close>

definition cp_start :: "'a \<Rightarrow> 'a cp_state" where
  "cp_start A = \<lparr>m_test_goal_automaton = A, m_current_final = {}, m_all_test_goal_states = {}\<rparr>"

text \<open>
  C5. From an automaton without states, the evaluation of a coverage pattern without
  \<open>DEPCOV\<close> returns, and the test goal automaton accepts the words of the pattern, except that an
  alternative loses the empty word of its first operand. The path patterns' automata must be the
  ones the code asserts: simplified, with one initial state and some word.
\<close>

theorem coverage_automaton_exact:
  assumes "astl_nfa N ok T" "astl_nfa.blank N ok A" "no_depcov c" "astl_nfa.patterns_ok N ok T pp_get G c"
  shows "\<exists>t st. visit_cover_query N pp_get c (cp_start A) = Some (t, st)
    \<and> ta_lang N T (m_test_goal_automaton st) = cp_accepted G c"
  using astl_nfa.visit_cover_query_correct [OF assms(1), of "cp_start A" c pp_get G] assms(2-4)
  by (auto simp: cp_start_def)

text \<open>An alternative of a quoted loop, which accepts the empty word, and an edge pattern.\<close>

definition sample_edge_ta :: lnfa where
  "sample_edge_ta = \<lparr>l_states = [1, 2], l_trans = [(1, 5, 2)], l_initial = {1}, l_final = {2}, l_next = 3\<rparr>"

definition sample_loop_ta :: lnfa where
  "sample_loop_ta = \<lparr>l_states = [1], l_trans = [(1, 7, 1)], l_initial = {1}, l_final = {1}, l_next = 2\<rparr>"

definition sample_patterns :: "addr \<rightharpoonup> lnfa" where
  "sample_patterns = [1 \<mapsto> sample_loop_ta, 2 \<mapsto> sample_edge_ta]"

definition sample_words :: "addr \<Rightarrow> int list set" where
  "sample_words n = (case sample_patterns n of None \<Rightarrow> {} | Some ta \<Rightarrow> ta_lang list_astl lnfa_T ta)"

definition sample_quote :: "int fql_node" where
  "sample_quote = Quote 4 (Repeat 1 (Predicate 6 (Some 1)) 0 (- 1))"

definition sample_edgecov :: "int fql_node" where
  "sample_edgecov = Edgecov 2 (Filter_Function 5 F_IDENTITY 0 [])"

lemma sample_edge_ok: "list_nfa.atom_ok sample_edge_ta" "[] \<notin> ta_lang list_astl lnfa_T sample_edge_ta"
proof -
  have T: "lnfa_T sample_edge_ta = {(1, 5, 2)}" by (simp add: lnfa_T_def sample_edge_ta_def)
  have "ta_lang list_astl lnfa_T sample_edge_ta = accepts {(1, 5, 2)} {1} {2}"
    unfolding ta_lang_def T by (simp add: sample_edge_ta_def list_astl_def a_finals_def conj_disj_distribR Collect_disj_eq cong: conj_cong)
  then have lang: "ta_lang list_astl lnfa_T sample_edge_ta = {[5]}" using list_nfa.accepts_single [of 5 1 2] by simp
  then show "[] \<notin> ta_lang list_astl lnfa_T sample_edge_ta" by simp
  show "list_nfa.atom_ok sample_edge_ta"
    unfolding list_nfa.atom_ok_def lang T
    by (auto simp: sample_edge_ta_def list_astl_def lnfa_inv_def within_def)
qed

lemma sample_loop_ok: "list_nfa.atom_ok sample_loop_ta" "[] \<in> ta_lang list_astl lnfa_T sample_loop_ta"
proof -
  have T: "lnfa_T sample_loop_ta = {(1, 7, 1)}" by (simp add: lnfa_T_def sample_loop_ta_def)
  show lang: "[] \<in> ta_lang list_astl lnfa_T sample_loop_ta"
    unfolding ta_lang_def accepts_def by (auto simp: sample_loop_ta_def list_astl_def a_finals_def intro: run.run_refl)
  then have "ta_lang list_astl lnfa_T sample_loop_ta \<noteq> {}" by auto
  then show "list_nfa.atom_ok sample_loop_ta"
    unfolding list_nfa.atom_ok_def T
    by (auto simp: sample_loop_ta_def list_astl_def lnfa_inv_def within_def single_edge_def)
qed

lemma sample_patterns_ok: "list_nfa.patterns_ok sample_patterns sample_words (CP_Alternative 3 sample_quote sample_edgecov)"
  using sample_edge_ok(1) sample_loop_ok(1)
  by (simp add: list_nfa.patterns_ok_def sample_quote_def sample_edgecov_def sample_patterns_def sample_words_def)

theorem coverage_automaton_exact_witness:
  "\<exists>t st. visit_cover_query list_astl sample_patterns (CP_Alternative 3 sample_quote sample_edgecov) (cp_start lnfa_empty) = Some (t, st)
    \<and> ta_lang list_astl lnfa_T (m_test_goal_automaton st) = sample_words 1 - {[]} \<union> sample_words 2"
  using coverage_automaton_exact [OF list_nfa.astl_nfa_axioms _ _ sample_patterns_ok, of lnfa_empty] list_nfa.blank_empty
  by (simp add: list_astl_def sample_quote_def sample_edgecov_def)

text \<open>
  C35. The final states the evaluation of a coverage pattern ends with are reached by exactly the
  words of the pattern, and every recorded test goal state is still a state of the automaton: the
  simplification after each link removes none of them.
\<close>

theorem coverage_final_states_exact:
  assumes "astl_nfa N ok T" "astl_nfa.blank N ok A" "no_depcov c" "astl_nfa.patterns_ok N ok T pp_get G c"
  shows "\<exists>t st. visit_cover_query N pp_get c (cp_start A) = Some (t, st)
    \<and> accepts (T (m_test_goal_automaton st)) (a_initial N (m_test_goal_automaton st) \<inter> set (a_states N (m_test_goal_automaton st)))
        (m_current_final st) = cp_lang G c
    \<and> m_all_test_goal_states st \<subseteq> set (a_states N (m_test_goal_automaton st))"
  using astl_nfa.visit_cover_query_correct [OF assms(1), of "cp_start A" c pp_get G] assms(2-4)
  by (auto simp: cp_start_def)

theorem coverage_final_states_exact_witness:
  "\<exists>t st. visit_cover_query list_astl sample_patterns (CP_Alternative 3 sample_quote sample_edgecov) (cp_start lnfa_empty) = Some (t, st)
    \<and> accepts (lnfa_T (m_test_goal_automaton st)) (l_initial (m_test_goal_automaton st) \<inter> set (l_states (m_test_goal_automaton st)))
        (m_current_final st) = sample_words 1 \<union> sample_words 2
    \<and> m_all_test_goal_states st \<subseteq> set (l_states (m_test_goal_automaton st))"
  using coverage_final_states_exact [OF list_nfa.astl_nfa_axioms _ _ sample_patterns_ok, of lnfa_empty] list_nfa.blank_empty
  by (simp add: list_astl_def sample_quote_def sample_edgecov_def)

text \<open>
  C36. When the first operand of an alternative has the empty word and the second one does not,
  the automaton rejects the empty word, although it leads to one of the final states the
  evaluation ends with: linking the second operand clears the final flag of the shared states.
\<close>

theorem alternative_drops_empty_word:
  assumes "astl_nfa N ok T" "astl_nfa.blank N ok A" "no_depcov (CP_Alternative p a b)"
    and "astl_nfa.patterns_ok N ok T pp_get G (CP_Alternative p a b)" "[] \<in> cp_lang G a" "[] \<notin> cp_lang G b"
  shows "\<exists>t st. visit_cover_query N pp_get (CP_Alternative p a b) (cp_start A) = Some (t, st)
    \<and> [] \<notin> ta_lang N T (m_test_goal_automaton st)
    \<and> [] \<in> accepts (T (m_test_goal_automaton st)) (a_initial N (m_test_goal_automaton st) \<inter> set (a_states N (m_test_goal_automaton st)))
        (m_current_final st)"
proof -
  have "cp_accepted G c \<subseteq> cp_lang G c" for c :: "'e fql_node" by (induction c) (auto simp: conc_def)
  then have "[] \<notin> cp_accepted G (CP_Alternative p a b)" "[] \<in> cp_lang G (CP_Alternative p a b)" using assms(5,6) by auto
  then show ?thesis
    using astl_nfa.visit_cover_query_correct [OF assms(1), of "cp_start A" "CP_Alternative p a b" pp_get G] assms(2-4)
    by (fastforce simp: cp_start_def)
qed

theorem alternative_drops_empty_word_witness:
  "\<exists>t st. visit_cover_query list_astl sample_patterns (CP_Alternative 3 sample_quote sample_edgecov) (cp_start lnfa_empty) = Some (t, st)
    \<and> [] \<notin> ta_lang list_astl lnfa_T (m_test_goal_automaton st)
    \<and> [] \<in> accepts (lnfa_T (m_test_goal_automaton st)) (l_initial (m_test_goal_automaton st) \<inter> set (l_states (m_test_goal_automaton st)))
        (m_current_final st)"
proof -
  have "[] \<in> cp_lang sample_words sample_quote" "[] \<notin> cp_lang sample_words sample_edgecov" "no_depcov (CP_Alternative 3 sample_quote sample_edgecov)"
    using sample_edge_ok(2) sample_loop_ok(2) by (simp_all add: sample_quote_def sample_edgecov_def sample_words_def sample_patterns_def)
  then show ?thesis
    using alternative_drops_empty_word [OF list_nfa.astl_nfa_axioms _ _ sample_patterns_ok, of lnfa_empty] list_nfa.blank_empty
    by (simp add: list_astl_def)
qed

text \<open>
  C37. Whatever the automata, after the evaluation of a query a state is in the tree of test goal
  states exactly if it is in the set of all test goal states, which the code asserts in
  \<open>is_test_goal_state\<close>.
\<close>

theorem test_goal_tree_consistent:
  assumes "cover_do_query env id_addr query pst st = Some (Inr (pst', t, st'))"
  shows "is_test_goal_state_rec t q \<longleftrightarrow> is_test_goal_state st' q"
proof -
  obtain get cover where "visit_cover_query (env_astl env) get cover (clear_cover (env_astl env) st) = Some (t, st')"
    using obind_Inr_D [OF assms [unfolded cover_do_query_def Let_def]]
    by (cases query) (auto split: option.splits intro: that)
  then show ?thesis
    using visit_cover_tree [of "env_astl env" get cover "Some cover" _ t st' q]
    by (auto simp: visit_cover_query_def Let_def clear_cover_def is_test_goal_state_def split: prod.splits)
qed

lemma remove_dead_code [code]:
  "remove_dead N [] dead A = Some A"
  "remove_dead N (s # queue) dead A =
    (if s \<in> dead \<or> s \<in> a_initial N A then remove_dead N queue dead A
     else if a_delta2_backwards N A s = [] then
       remove_dead N (queue @ map snd (a_delta2 N A s)) (insert s dead)
         (a_del_state N s (fold (\<lambda>e. a_del_trans N s (fst e) (snd e)) (a_delta2 N A s) A))
     else if a_delta2 N A s = [] \<and> \<not> a_final N A s then
       remove_dead N (queue @ map snd (a_delta2_backwards N A s)) (insert s dead)
         (a_del_state N s (fold (\<lambda>e. a_del_trans N (snd e) (fst e) s) (a_delta2_backwards N A s) A))
     else remove_dead N queue dead A)"
  by (subst remove_dead.simps; simp add: Let_def)+

definition sample_query :: "int fql_node" where
  "sample_query = Query 10 None (CP_Alternative 3 (Edgecov 2 (Filter_Function 5 F_IDENTITY 0 [])) (Predicate 6 (Some 1))) (Some sample_passing)"

theorem test_goal_tree_consistent_witness:
  "\<exists>pst t st. cover_do_query sample_env 5 sample_query sample_state (cp_start lnfa_empty) = Some (Inr (pst, t, st))
    \<and> is_test_goal_state_rec t 2 \<and> \<not> is_test_goal_state_rec t 1"
proof -
  have "case cover_do_query sample_env 5 sample_query sample_state (cp_start lnfa_empty) of
      Some (Inr (pst, t, st)) \<Rightarrow> is_test_goal_state st 2 \<and> \<not> is_test_goal_state st 1 | _ \<Rightarrow> False"
    by code_simp
  then obtain pst t st where "cover_do_query sample_env 5 sample_query sample_state (cp_start lnfa_empty) = Some (Inr (pst, t, st))"
    "is_test_goal_state st 2" "\<not> is_test_goal_state st 1"
    by (auto split: option.splits sum.splits)
  then show ?thesis using test_goal_tree_consistent by blast
qed

end
