(* ===== verification/Normalization.thy ===== *)
theory Normalization
  imports Fql_Node_Factory Automaton_Build
begin

text \<open>
  Normalization of queries (\<open>src/fshell2/fql/normalize/normalization_visitor.cpp\<close>).

  The visitor rebuilds a query bottom up through the factories: operands of commutative operators
  are put in order, equal operands are merged, a missing passing clause becomes any path. Its
  intermediate results are reference counted pointers, here the registers \<open>ptr\<close> and the
  local variables that \<open>hold\<close> and \<open>release\<close> model. A raw pointer that a factory has just
  returned has no reference yet; that none of them dies before it is stored is part of what is
  shown, besides the meaning and the shape of the result.

  Queries with a prefix, \<open>COMPOSE\<close>, \<open>SETMINUS\<close> or \<open>DEPCOV\<close> are modelled but not covered
  by the theorems: their factories create a second node for the same operands, after which the
  order of nodes is no order any more.
\<close>

section \<open>State\<close>

datatype norm_reg = Top_Atom | Top_Cp | Top_Filter | Top_Pp | Top_Query | Prefix

record 'e norm_state =
  nodes :: "'e ast_heap"
  ptr :: "norm_reg \<Rightarrow> 'e fql_node option"

text \<open>Copying a pointer into a local variable, and the end of its life.\<close>

definition hold :: "'e fql_node \<Rightarrow> 'e norm_state \<Rightarrow> 'e norm_state" where
  "hold n st = st\<lparr>nodes := incr_ref_count n (nodes st)\<rparr>"

definition release :: "'e::linorder fql_node \<Rightarrow> 'e norm_state \<Rightarrow> 'e norm_state" where
  "release n st = st\<lparr>nodes := snd (destroy n (decr_ref_count n (nodes st)))\<rparr>"

text \<open>The assignment operators of the smart pointer.\<close>

definition assign :: "norm_reg \<Rightarrow> 'e::linorder fql_node option \<Rightarrow> 'e norm_state \<Rightarrow> 'e norm_state" where
  "assign r x st =
     (if ptr st r = x then st
      else
        let st = (case ptr st r of None \<Rightarrow> st | Some old \<Rightarrow> release old st);
            st = st\<lparr>ptr := (ptr st)(r := x)\<rparr>
        in (case x of None \<Rightarrow> st | Some n \<Rightarrow> hold n st))"

text \<open>A request to the factory of the class of \<open>n\<close>, whose own address is ignored, stored in a register.\<close>

definition create_into :: "norm_reg \<Rightarrow> 'e::linorder fql_node \<Rightarrow> 'e norm_state \<Rightarrow> 'e norm_state" where
  "create_into r n st = (case create_like n (nodes st) of (m, h) \<Rightarrow> assign r (Some m) (st\<lparr>nodes := h\<rparr>))"

text \<open>\<open>MOVE_TO_CP\<close> and \<open>MOVE_TO_PP\<close>\<close>

definition move_to :: "norm_reg \<Rightarrow> 'e::linorder norm_state \<Rightarrow> 'e norm_state" where
  "move_to r st = (case ptr st Top_Atom of None \<Rightarrow> st | Some n \<Rightarrow> assign Top_Atom None (assign r (Some n) st))"

section \<open>The visitor\<close>

text \<open>Both operands are visited, the results held until the operator is built.\<close>

definition norm_operands ::
  "norm_reg \<Rightarrow> ('e::linorder norm_state \<Rightarrow> 'e norm_state) \<Rightarrow> ('e norm_state \<Rightarrow> 'e norm_state)
    \<Rightarrow> ('e fql_node \<Rightarrow> 'e fql_node \<Rightarrow> 'e norm_state \<Rightarrow> 'e norm_state) \<Rightarrow> 'e norm_state \<Rightarrow> 'e norm_state" where
  "norm_operands r visit_a visit_b build st =
     (let st = visit_a st; a = the (ptr st r); st = hold a st;
          st = visit_b st; b = the (ptr st r); st = hold b st
      in release a (release b (build a b st)))"

definition norm_ordered ::
  "norm_reg \<Rightarrow> ('e::linorder fql_node \<Rightarrow> 'e fql_node \<Rightarrow> 'e fql_node) \<Rightarrow> 'e fql_node \<Rightarrow> 'e fql_node
    \<Rightarrow> 'e norm_state \<Rightarrow> 'e norm_state" where
  "norm_ordered r mk a b st =
     (if cmp_lt a b then create_into r (mk a b) st
      else if cmp_lt b a then create_into r (mk b a) st
      else assign r (Some a) st)"

text \<open>An atom with one filter, composed with the prefix if there is one.\<close>

definition norm_atom ::
  "('e::linorder norm_state \<Rightarrow> 'e norm_state) \<Rightarrow> ('e fql_node \<Rightarrow> 'e fql_node) \<Rightarrow> 'e norm_state \<Rightarrow> 'e norm_state" where
  "norm_atom visit_f mk st =
     (let st = visit_f st; f = the (ptr st Top_Filter); st = hold f st;
          (g, h) = (case ptr st Prefix of None \<Rightarrow> (f, nodes st) | Some x \<Rightarrow> create_like (Filter_Compose 0 f x) (nodes st));
          st = create_into Top_Atom (mk g) (st\<lparr>nodes := h\<rparr>)
      in release f (assign Top_Filter None st))"

definition norm_depcov ::
  "('e::linorder norm_state \<Rightarrow> 'e norm_state) \<Rightarrow> ('e norm_state \<Rightarrow> 'e norm_state) \<Rightarrow> ('e norm_state \<Rightarrow> 'e norm_state)
    \<Rightarrow> 'e norm_state \<Rightarrow> 'e norm_state" where
  "norm_depcov visit_a visit_b visit_c st =
     (let st = visit_a st; a = the (ptr st Top_Filter); st = hold a st;
          st = visit_b st; b = the (ptr st Top_Filter); st = hold b st;
          st = visit_c st; c = the (ptr st Top_Filter); st = hold c st;
          st = assign Top_Filter None (create_into Top_Atom (Depcov 0 a b c) st)
      in release a (release b (release c st)))"

text \<open>A quoted pattern is visited without the prefix.\<close>

definition norm_quote :: "('e::linorder norm_state \<Rightarrow> 'e norm_state) \<Rightarrow> 'e norm_state \<Rightarrow> 'e norm_state" where
  "norm_quote visit_q st =
     (let prefix_bak = ptr st Prefix;
          st = (case prefix_bak of None \<Rightarrow> st | Some x \<Rightarrow> hold x st);
          st = assign Prefix prefix_bak (move_to Top_Pp (visit_q (assign Prefix None st)));
          st = assign Top_Pp None (create_into Top_Cp (Quote 0 (the (ptr st Top_Pp))) st)
      in (case prefix_bak of None \<Rightarrow> st | Some x \<Rightarrow> release x st))"

primrec norm_visit :: "'e::linorder fql_node \<Rightarrow> 'e norm_state \<Rightarrow> 'e norm_state" where
  "norm_visit (CP_Alternative p a b) =
     norm_operands Top_Cp (move_to Top_Cp \<circ> norm_visit a) (move_to Top_Cp \<circ> norm_visit b) (norm_ordered Top_Cp (CP_Alternative 0))"
| "norm_visit (CP_Concat p a b) =
     norm_operands Top_Cp (move_to Top_Cp \<circ> norm_visit a) (move_to Top_Cp \<circ> norm_visit b) (\<lambda>a b. create_into Top_Cp (CP_Concat 0 a b))"
| "norm_visit (Depcov p a b c) = norm_depcov (norm_visit a) (norm_visit b) (norm_visit c)"
| "norm_visit (Edgecov p f) = norm_atom (norm_visit f) (Edgecov 0)"
| "norm_visit (Filter_Compose p a b) =
     norm_operands Top_Filter (norm_visit a) (norm_visit b) (\<lambda>a b. create_into Top_Filter (Filter_Compose 0 a b))"
| "norm_visit (Filter_Function p t i s) = create_into Top_Filter (Filter_Function 0 t i s)"
| "norm_visit (Filter_Intersection p a b) =
     norm_operands Top_Filter (norm_visit a) (norm_visit b) (norm_ordered Top_Filter (Filter_Intersection 0))"
| "norm_visit (Filter_Setminus p a b) =
     norm_operands Top_Filter (norm_visit a) (norm_visit b) (\<lambda>a b. create_into Top_Filter (Filter_Setminus 0 a b))"
| "norm_visit (Filter_Union p a b) =
     norm_operands Top_Filter (norm_visit a) (norm_visit b) (norm_ordered Top_Filter (Filter_Union 0))"
| "norm_visit (Nodecov p f) = norm_atom (norm_visit f) (Nodecov 0)"
| "norm_visit (PP_Alternative p a b) =
     norm_operands Top_Pp (move_to Top_Pp \<circ> norm_visit a) (move_to Top_Pp \<circ> norm_visit b) (norm_ordered Top_Pp (PP_Alternative 0))"
| "norm_visit (PP_Concat p a b) =
     norm_operands Top_Pp (move_to Top_Pp \<circ> norm_visit a) (move_to Top_Pp \<circ> norm_visit b) (\<lambda>a b. create_into Top_Pp (PP_Concat 0 a b))"
| "norm_visit (Pathcov p f k) = norm_atom (norm_visit f) (\<lambda>f. Pathcov 0 f k)"
| "norm_visit (Predicate p e) = create_into Top_Atom (Predicate 0 e)"
| "norm_visit (Quote p q) = norm_quote (norm_visit q)"
| "norm_visit (Query p x c y) = (\<lambda>st. st)"
| "norm_visit (Repeat p q l u) =
     (\<lambda>st. let st = move_to Top_Pp (norm_visit q st) in create_into Top_Pp (Repeat 0 (the (ptr st Top_Pp)) l u) st)"

text \<open>The passing clause of a query without one: any path.\<close>

definition norm_any_path :: "'e::linorder norm_state \<Rightarrow> 'e norm_state" where
  "norm_any_path st =
     (case create_like (Filter_Function 0 F_IDENTITY (- 1) []) (nodes st) of (f, h) \<Rightarrow>
        case create_like (Edgecov 0 f) h of (e, h) \<Rightarrow>
          create_into Top_Pp (Repeat 0 e 0 (- 1)) (st\<lparr>nodes := h\<rparr>))"

fun norm_query :: "'e::linorder fql_node \<Rightarrow> 'e norm_state \<Rightarrow> 'e norm_state" where
  "norm_query (Query p x c y) st =
     (let st = assign Prefix None st;
          st = (case x of None \<Rightarrow> st | Some f \<Rightarrow> (let st = norm_visit f st in assign Prefix (ptr st Top_Filter) st));
          st = assign Prefix None (move_to Top_Cp (norm_visit c st));
          st = (case y of None \<Rightarrow> norm_any_path st | Some q \<Rightarrow> move_to Top_Pp (norm_visit q st));
          st = create_into Top_Query (Query 0 None (the (ptr st Top_Cp)) (ptr st Top_Pp)) st
      in assign Top_Pp None (assign Top_Cp None (assign Top_Filter None st)))"
| "norm_query _ st = st"

definition normalize :: "'e::linorder fql_node \<Rightarrow> 'e norm_state \<Rightarrow> 'e fql_node \<times> 'e norm_state" where
  "normalize query st =
     (let st = norm_query query st;
          (query, st) = (if ptr st Top_Query \<noteq> Some query
            then (the (ptr st Top_Query), st\<lparr>nodes := snd (destroy query (nodes st))\<rparr>) else (query, st));
          st = assign Top_Query None (hold query st)
      in (query, st\<lparr>nodes := decr_ref_count query (nodes st)\<rparr>))"

section \<open>Meaning\<close>

text \<open>Any interpretation of the primitives.\<close>

record ('b, 'w, 'e) meaning =
  of_filter_function :: "filter_function_t \<Rightarrow> int \<Rightarrow> string \<Rightarrow> 'b set"
  of_edges :: "'b set \<Rightarrow> 'w list set"
  of_nodes :: "'b set \<Rightarrow> 'w list set"
  of_paths :: "'b set \<Rightarrow> int \<Rightarrow> 'w list set"
  of_predicate :: "'e option \<Rightarrow> 'w list set"

text \<open>A filter function has a number, a string or no argument.\<close>

definition takes_int :: "filter_function_t \<Rightarrow> bool" where
  "takes_int t \<longleftrightarrow> t \<in> {F_LINE, F_COLUMN, F_STMTTYPE}"

definition takes_none :: "filter_function_t \<Rightarrow> bool" where
  "takes_none t \<longleftrightarrow> t \<in> {F_IDENTITY, F_CALLS, F_BASICBLOCKENTRY, F_CONDITIONEDGE, F_DECISIONEDGE, F_CONDITIONGRAPH}"

fun filter_meaning :: "('b, 'w, 'e) meaning \<Rightarrow> 'e fql_node \<Rightarrow> 'b set" where
  "filter_meaning M (Filter_Function p t i s) =
     of_filter_function M t (if takes_int t then i else 0) (if takes_int t \<or> takes_none t then [] else s)"
| "filter_meaning M (Filter_Union p a b) = filter_meaning M a \<union> filter_meaning M b"
| "filter_meaning M (Filter_Intersection p a b) = filter_meaning M a \<inter> filter_meaning M b"
| "filter_meaning M n = {}"

fun words :: "('b, 'w, 'e) meaning \<Rightarrow> 'e fql_node \<Rightarrow> 'w list set" where
  "words M (Edgecov p f) = of_edges M (filter_meaning M f)"
| "words M (Nodecov p f) = of_nodes M (filter_meaning M f)"
| "words M (Pathcov p f k) = of_paths M (filter_meaning M f) k"
| "words M (Predicate p e) = of_predicate M e"
| "words M (PP_Alternative p a b) = words M a \<union> words M b"
| "words M (PP_Concat p a b) = conc (words M a) (words M b)"
| "words M (Repeat p q l u) =
     (if u = - 1 then \<Union>n\<in>{nat l..}. lpow (words M q) n else \<Union>n\<in>{nat l..nat u}. lpow (words M q) n)"
| "words M (CP_Alternative p a b) = words M a \<union> words M b"
| "words M (CP_Concat p a b) = conc (words M a) (words M b)"
| "words M (Quote p q) = words M q"
| "words M n = {}"

fun query_meaning :: "('b, 'w, 'e) meaning \<Rightarrow> 'e fql_node \<Rightarrow> 'w list set \<times> 'w list set" where
  "query_meaning M (Query p x c y) =
     (words M c, case y of None \<Rightarrow> lstar (of_edges M (of_filter_function M F_IDENTITY 0 [])) | Some q \<Rightarrow> words M q)"
| "query_meaning M n = ({}, {})"

section \<open>Shape\<close>

text \<open>A property of all nodes of a tree.\<close>

function everywhere :: "('e fql_node \<Rightarrow> bool) \<Rightarrow> 'e fql_node \<Rightarrow> bool" where
  "everywhere P n \<longleftrightarrow> P n \<and> (\<forall>c \<in> set (children n). everywhere P c)"
  by pat_completeness auto
termination
  by (relation "measure (\<lambda>(P, n). size n)") (auto dest: size_children)

declare everywhere.simps [simp del]

fun operands_ordered :: "'e::linorder fql_node \<Rightarrow> bool" where
  "operands_ordered (CP_Alternative p a b) \<longleftrightarrow> cmp_lt a b"
| "operands_ordered (PP_Alternative p a b) \<longleftrightarrow> cmp_lt a b"
| "operands_ordered (Filter_Union p a b) \<longleftrightarrow> cmp_lt a b"
| "operands_ordered (Filter_Intersection p a b) \<longleftrightarrow> cmp_lt a b"
| "operands_ordered n \<longleftrightarrow> True"

definition plain :: "'e fql_node \<Rightarrow> bool" where
  "plain n \<longleftrightarrow> everywhere (\<lambda>m. \<not> negated_class (node_class m)) n"

definition query_free :: "'e fql_node \<Rightarrow> bool" where
  "query_free n \<longleftrightarrow> everywhere (\<lambda>m. node_class m \<noteq> C_Query) n"

lemma plain_iff: "plain n \<longleftrightarrow> \<not> negated_class (node_class n) \<and> (\<forall>c \<in> set (children n). plain c)"
  unfolding plain_def by (subst everywhere.simps) simp

lemma query_free_iff: "query_free n \<longleftrightarrow> node_class n \<noteq> C_Query \<and> (\<forall>c \<in> set (children n). query_free c)"
  unfolding query_free_def by (subst everywhere.simps) simp

lemma kind_not_query: "is_filter n \<or> is_pp n \<or> is_cp n \<Longrightarrow> node_class n \<noteq> C_Query"
  by (auto simp: is_defs)

lemma typed_children: "well_typed n \<Longrightarrow> c \<in> set (children n) \<Longrightarrow> well_typed c \<and> (is_filter c \<or> is_pp c \<or> is_cp c)"
  by (cases n rule: well_typed.cases) auto

lemma typed_query_free: "well_typed n \<Longrightarrow> node_class n \<noteq> C_Query \<Longrightarrow> query_free n"
proof (induction n rule: measure_induct_rule [of size])
  case (less n)
  have "query_free c" if "c \<in> set (children n)" for c
    using less.IH [OF size_children [OF that]] typed_children [OF less.prems(1) that] kind_not_query by blast
  then show ?case using less.prems(2) by (subst query_free_iff) blast
qed

text \<open>Nodes that the factories do not tell apart.\<close>

lemma key_class: "key m = key n \<Longrightarrow> node_class m = node_class n"
  by (simp add: key_def)

lemma key_with_addr:
  assumes "key m = key n" "node_class n \<noteq> C_Filter_Function"
  shows "m = with_addr (node_addr m) n"
proof -
  have c: "node_class m = node_class n" by (rule key_class [OF assms(1)])
  show ?thesis using assms c by (cases n; simp; cases m; simp add: key_def)
qed

lemma key_children:
  assumes "key m = key n"
  shows "children m = children n"
proof (cases "node_class n = C_Filter_Function")
  case True
  then have "node_class m = C_Filter_Function" using key_class [OF assms] by simp
  then show ?thesis using True by (cases m; simp; cases n; simp)
next
  case False
  then show ?thesis using key_with_addr [OF assms] with_addr_simps(3) by metis
qed

lemma with_addr_meaning [simp]:
  "filter_meaning M (with_addr r n) = filter_meaning M n" "words M (with_addr r n) = words M n"
  "query_meaning M (with_addr r n) = query_meaning M n" "well_typed (with_addr r n) = well_typed n"
  "operands_ordered (with_addr r n) = operands_ordered n"
proof -
  show "well_typed (with_addr r n) = well_typed n"
    by (cases n rule: well_typed.cases) simp_all
qed (cases n; simp)+

lemma key_Filter_Function:
  "key m = key (Filter_Function p t i s) \<Longrightarrow> \<exists>q i' s'. m = Filter_Function q t i' s'
    \<and> (takes_int t \<longrightarrow> i' = i) \<and> (\<not> takes_int t \<longrightarrow> \<not> takes_none t \<longrightarrow> s' = s)"
  by (cases m) (auto simp: key_def takes_int_def takes_none_def split: if_splits)

lemma key_same:
  assumes "key m = key n"
  shows "filter_meaning M m = filter_meaning M n" "words M m = words M n" "query_meaning M m = query_meaning M n"
    "well_typed m = well_typed n" "operands_ordered m = operands_ordered n"
proof -
  have "filter_meaning M m = filter_meaning M n \<and> words M m = words M n \<and> query_meaning M m = query_meaning M n
      \<and> well_typed m = well_typed n \<and> operands_ordered m = operands_ordered n"
  proof (cases "node_class n = C_Filter_Function")
    case True
    then obtain p t i s where n: "n = Filter_Function p t i s" by (cases n) auto
    then obtain q i' s' where m: "m = Filter_Function q t i' s'" "takes_int t \<longrightarrow> i' = i" "\<not> takes_int t \<longrightarrow> \<not> takes_none t \<longrightarrow> s' = s"
      using key_Filter_Function assms by blast
    then show ?thesis by (auto simp: n)
  next
    case False
    then have "m = with_addr (node_addr m) n" by (rule key_with_addr [OF assms])
    then obtain r where "m = with_addr r n" ..
    then show ?thesis by simp
  qed
  then show "filter_meaning M m = filter_meaning M n" "words M m = words M n" "query_meaning M m = query_meaning M n"
    "well_typed m = well_typed n" "operands_ordered m = operands_ordered n" by blast+
qed

lemma key_plain: "key m = key n \<Longrightarrow> plain m = plain n"
  using key_class key_children by (metis plain_iff)

section \<open>References\<close>

lemma destroy_keeps_queries:
  "\<lbrakk>heap_inv P h; n \<in> live h; query_free n; q \<in> live h; node_class q = C_Query\<rbrakk> \<Longrightarrow> q \<in> live (snd (destroy n h))"
proof (induction n arbitrary: P h rule: measure_induct_rule [of size])
  case (less n)
  have free: "node_class n \<noteq> C_Query" "\<And>c. c \<in> set (children n) \<Longrightarrow> query_free c"
    using less.prems(3) by (auto simp: query_free_iff [of n])
  have loop: "\<lbrakk>set cs \<subseteq> set (children n); heap_inv (\<lambda>m. P m + count_list cs m) h; q \<in> live h\<rbrakk> \<Longrightarrow>
      q \<in> live (fold (\<lambda>c st. snd (destroy c (decr_ref_count c st))) cs h)" for cs h P
  proof (induction cs arbitrary: h)
    case (Cons c cs)
    note d = decr_ref_count_inv [OF Cons.prems(2)]
    have c: "size c < size n" "query_free c" using Cons.prems(1) size_children free(2) by auto
    have live: "c \<in> live (decr_ref_count c h)" "q \<in> live (decr_ref_count c h)" using d(2,3) Cons.prems(3) by auto
    have "q \<in> live (snd (destroy c (decr_ref_count c h)))"
      by (rule less.IH [OF c(1) d(1) live(1) c(2) live(2) less.prems(5)])
    moreover have "heap_inv (\<lambda>m. P m + count_list cs m) (snd (destroy c (decr_ref_count c h)))"
      using destroy_inv_aux [OF d(1) live(1)] by simp
    ultimately show ?case using Cons.IH Cons.prems(1) by simp
  qed simp
  show ?case
  proof (cases "ref_count h (node_addr n) = 0")
    case True
    note f = factory_destroy_inv [OF less.prems(1,2) True]
    have "q \<in> live (factory_destroy n h)" using f(2) less.prems(4,5) free(1) by auto
    then show ?thesis using loop [OF subset_refl f(1)] True by (simp add: destroy.simps)
  qed (use less.prems in \<open>simp add: destroy.simps\<close>)
qed

text \<open>How many registers hold a node.\<close>

definition holds :: "'e fql_node option \<Rightarrow> 'e fql_node \<Rightarrow> nat" where
  "holds x n = (if x = Some n then 1 else 0)"

definition held :: "(norm_reg \<Rightarrow> 'e fql_node option) \<Rightarrow> 'e fql_node \<Rightarrow> nat" where
  "held f n = (\<Sum>r \<in> {Top_Atom, Top_Cp, Top_Filter, Top_Pp, Top_Query, Prefix}. holds (f r) n)"

lemma held_update: "held (f(r := x)) n + holds (f r) n = held f n + holds x n"
  by (cases r) (simp_all add: held_def)

lemma held_reg: "f r = Some n \<Longrightarrow> 0 < held f n"
  by (cases r) (auto simp: held_def holds_def)

lemma held_None [simp]: "held (\<lambda>r. None) n = 0"
  by (simp add: held_def holds_def)

lemma count_list_holds: "count_list [n] m = holds (Some n) m"
  by (simp add: holds_def)

text \<open>The invariant: \<open>Q\<close> counts the references of local variables and callers, the query itself
  may have none.\<close>

definition norm_inv :: "'e::linorder fql_node \<Rightarrow> ('e fql_node \<Rightarrow> nat) \<Rightarrow> 'e norm_state \<Rightarrow> bool" where
  "norm_inv q Q st \<longleftrightarrow> heap_inv (\<lambda>n. Q n + held (ptr st) n) (nodes st) \<and> q \<in> live (nodes st) \<and> node_class q = C_Query
     \<and> (\<forall>r n. ptr st r = Some n \<longrightarrow> r \<noteq> Top_Query \<longrightarrow> query_free n)"

lemma norm_inv_free: "norm_inv q Q st \<Longrightarrow> ptr st r = Some n \<Longrightarrow> r \<noteq> Top_Query \<Longrightarrow> query_free n"
  by (simp add: norm_inv_def)

lemma norm_inv_live:
  assumes "norm_inv q Q st"
  shows "ptr st r = Some n \<Longrightarrow> n \<in> live (nodes st)" "Q n \<noteq> 0 \<Longrightarrow> n \<in> live (nodes st)"
proof -
  have inv: "heap_inv (\<lambda>n. Q n + held (ptr st) n) (nodes st)" using assms by (simp add: norm_inv_def)
  show "ptr st r = Some n \<Longrightarrow> n \<in> live (nodes st)" "Q n \<noteq> 0 \<Longrightarrow> n \<in> live (nodes st)"
    using heap_invD(8) [OF inv, of n] held_reg [of "ptr st" r n] by auto
qed

lemma release_heap:
  assumes inv: "heap_inv (\<lambda>n. P n + holds (Some a) n) h"
  defines "h' \<equiv> snd (destroy a (decr_ref_count a h))"
  shows "heap_inv P h'" "live h' \<subseteq> live h" "a \<in> live h" "P a + parents h a \<noteq> 0 \<Longrightarrow> live h' = live h"
    "query_free a \<Longrightarrow> q \<in> live h \<Longrightarrow> node_class q = C_Query \<Longrightarrow> q \<in> live h'"
proof -
  have "heap_inv (\<lambda>n. P n + count_list [a] n) h" using inv unfolding count_list_holds .
  note d = decr_ref_count_inv [OF this, simplified]
  have a: "a \<in> live (decr_ref_count a h)" using d(2,3) by simp
  note x = destroy_inv_aux [OF d(1) a, folded h'_def]
  show "heap_inv P h'" "live h' \<subseteq> live h" "a \<in> live h" using x d(2,3) by auto
  have same: "parents (decr_ref_count a h) a = parents h a" using d(2) by (simp add: parents_def)
  show "live h' = live h" if "P a + parents h a \<noteq> 0"
  proof -
    have "ref_count (decr_ref_count a h) (node_addr a) = int (parents h a + P a)" using heap_invD(6) [OF d(1) a] same by simp
    then have "ref_count (decr_ref_count a h) (node_addr a) \<noteq> 0" using that by linarith
    then show ?thesis using x d(2) by simp
  qed
  show "q \<in> live h'" if "query_free a" "q \<in> live h" "node_class q = C_Query"
    unfolding h'_def using destroy_keeps_queries [OF d(1) a that(1) _ that(3)] that(2) d(2) by simp
qed

lemma hold_ok:
  assumes inv: "norm_inv q Q st" and a: "a \<in> live (nodes st)"
  shows "norm_inv q (\<lambda>n. Q n + holds (Some a) n) (hold a st)" "ptr (hold a st) = ptr st"
proof -
  have h: "heap_inv (\<lambda>n. Q n + held (ptr st) n) (nodes st)" using inv by (simp add: norm_inv_def)
  have "heap_inv (\<lambda>m. Q m + held (ptr st) m + count_list [a] m) (incr_ref_count a (nodes st))"
    by (rule incr_ref_count_inv [OF h a])
  moreover have "live (incr_ref_count a (nodes st)) = live (nodes st)" by (simp add: incr_ref_count_def live_def)
  moreover have "(\<lambda>m. Q m + held (ptr st) m + count_list [a] m) = (\<lambda>m. Q m + holds (Some a) m + held (ptr st) m)"
    unfolding count_list_holds by auto
  ultimately show "norm_inv q (\<lambda>n. Q n + holds (Some a) n) (hold a st)" "ptr (hold a st) = ptr st"
    using inv unfolding norm_inv_def hold_def by simp_all
qed

lemma release_ok:
  assumes inv: "norm_inv q (\<lambda>n. Q n + holds (Some a) n) st" and a: "query_free a"
  shows "norm_inv q Q (release a st)" "ptr (release a st) = ptr st"
proof -
  have eq: "(\<lambda>n. Q n + holds (Some a) n + held (ptr st) n) = (\<lambda>n. Q n + held (ptr st) n + holds (Some a) n)" by auto
  have "heap_inv (\<lambda>n. Q n + held (ptr st) n + holds (Some a) n) (nodes st)"
    using inv unfolding norm_inv_def eq by simp
  note r = release_heap [OF this]
  show "norm_inv q Q (release a st)" "ptr (release a st) = ptr st"
    using inv r(1) r(5) [OF a] unfolding norm_inv_def release_def by simp_all
qed

text \<open>An assignment whose new value survives the release of the old one.\<close>

lemma assign_ok:
  assumes inv: "norm_inv q Q st"
    and x: "\<And>m. x = Some m \<Longrightarrow> m \<in> live (nodes st) \<and> (r \<noteq> Top_Query \<longrightarrow> query_free m)" and r: "r = Top_Query \<Longrightarrow> ptr st r = None"
    and safe: "\<And>m old. x = Some m \<Longrightarrow> ptr st r = Some old \<Longrightarrow>
      Q m \<noteq> 0 \<or> (\<exists>r'. r' \<noteq> r \<and> ptr st r' = Some m) \<or> Q old \<noteq> 0 \<or> parents (nodes st) old \<noteq> 0"
  shows "norm_inv q Q (assign r x st)" "ptr (assign r x st) = (ptr st)(r := x)"
proof -
  let ?R = "\<lambda>n. Q n + held ((ptr st)(r := None)) n"
  have eq: "Q n + held (ptr st) n = ?R n + holds (ptr st r) n" for n
    using held_update [of "ptr st" r None n] by (simp add: holds_def)
  have new: "Q n + held ((ptr st)(r := x)) n = ?R n + holds x n" for n
    using held_update [of "ptr st" r None n] held_update [of "ptr st" r x n] by (simp add: holds_def)
  have inv': "heap_inv (\<lambda>n. ?R n + holds (ptr st r) n) (nodes st)" "q \<in> live (nodes st)" "node_class q = C_Query"
    using inv unfolding norm_inv_def eq by simp_all
  define st1 where "st1 = (case ptr st r of None \<Rightarrow> st | Some old \<Rightarrow> release old st)"
  have st1: "heap_inv ?R (nodes st1) \<and> q \<in> live (nodes st1) \<and> ptr st1 = ptr st \<and> (\<forall>m. x = Some m \<longrightarrow> ptr st r \<noteq> x \<longrightarrow> m \<in> live (nodes st1))"
  proof (cases "ptr st r")
    case None
    have st1: "st1 = st" by (simp add: st1_def None)
    have "heap_inv ?R (nodes st)" using inv'(1) by (simp add: None holds_def)
    moreover have "\<forall>m. x = Some m \<longrightarrow> m \<in> live (nodes st)" using x by blast
    ultimately show ?thesis unfolding st1 using inv'(2) by simp
  next
    case (Some old)
    have "r \<noteq> Top_Query" using r Some by auto
    then have free: "query_free old" using inv Some unfolding norm_inv_def by simp
    note rel = release_heap [OF inv'(1) [unfolded Some]]
    have "m \<in> live (snd (destroy old (decr_ref_count old (nodes st))))" if m: "x = Some m" for m
    proof (cases "Q old \<noteq> 0 \<or> parents (nodes st) old \<noteq> 0")
      case True
      then show ?thesis using rel(4) x [OF m] by auto
    next
      case False
      then consider "Q m \<noteq> 0" | r' where "r' \<noteq> r" "ptr st r' = Some m" using safe [OF m Some] by blast
      then have "?R m \<noteq> 0"
      proof cases
        case (2 r')
        then have "0 < held ((ptr st)(r := None)) m" by (intro held_reg [of _ r']) simp
        then show ?thesis by simp
      qed simp
      then show ?thesis by (rule heap_invD(8) [OF rel(1)])
    qed
    moreover have "ptr st1 = ptr st" "nodes st1 = snd (destroy old (decr_ref_count old (nodes st)))"
      by (simp_all add: st1_def Some release_def)
    ultimately show ?thesis using rel(1) rel(5) [OF free inv'(2,3)] by simp
  qed
  have "norm_inv q Q (assign r x st) \<and> ptr (assign r x st) = (ptr st)(r := x)"
  proof (cases "ptr st r = x")
    case True
    then show ?thesis using inv unfolding assign_def by (simp add: fun_upd_idem)
  next
    case False
    have frees: "\<forall>r' n. ((ptr st)(r := x)) r' = Some n \<longrightarrow> r' \<noteq> Top_Query \<longrightarrow> query_free n"
      using inv x unfolding norm_inv_def by auto
    show ?thesis
    proof (cases x)
      case None
      have "assign r x st = st1\<lparr>ptr := (ptr st1)(r := None)\<rparr>" using False by (auto simp: assign_def Let_def st1_def None)
      then show ?thesis using st1 inv'(3) frees by (simp add: norm_inv_def None)
    next
      case (Some m)
      have eq: "assign r x st = hold m (st1\<lparr>ptr := (ptr st1)(r := x)\<rparr>)" using False by (simp add: assign_def Let_def st1_def Some)
      have m: "m \<in> live (nodes st1)" using st1 False Some by blast
      have "heap_inv (\<lambda>n. ?R n + count_list [m] n) (incr_ref_count m (nodes st1))" using incr_ref_count_inv [OF _ m] st1 by blast
      then have "heap_inv (\<lambda>n. Q n + held ((ptr st)(r := x)) n) (incr_ref_count m (nodes st1))"
        unfolding new [unfolded Some] Some count_list_holds .
      moreover have "live (incr_ref_count m (nodes st1)) = live (nodes st1)" by (simp add: incr_ref_count_def live_def)
      ultimately show ?thesis using st1 inv'(3) frees by (simp add: eq hold_def norm_inv_def)
    qed
  qed
  then show "norm_inv q Q (assign r x st)" "ptr (assign r x st) = (ptr st)(r := x)" by simp_all
qed

lemma assign_copy:
  assumes inv: "norm_inv q Q st" and m: "ptr st r' = Some m" "r' \<noteq> Top_Query" "r \<noteq> r'" "r \<noteq> Top_Query"
  shows "norm_inv q Q (assign r (Some m) st)" "ptr (assign r (Some m) st) = (ptr st)(r := Some m)"
proof -
  have live: "m \<in> live (nodes st)" "query_free m" using norm_inv_live(1) [OF inv m(1)] norm_inv_free [OF inv m(1,2)] by simp_all
  have other: "\<exists>x. x \<noteq> r \<and> ptr st x = Some m" using m(1,3) by (intro exI [of _ r']) simp
  show "norm_inv q Q (assign r (Some m) st)" "ptr (assign r (Some m) st) = (ptr st)(r := Some m)"
    by (rule assign_ok [OF inv]; use live other m(4) in simp)+
qed

lemma parents_child: "m \<in> live h \<Longrightarrow> c \<in> set (children m) \<Longrightarrow> parents h c \<noteq> 0"
  by (auto simp: parents_def count_list_0_iff)

lemma create_ok:
  assumes inv: "norm_inv q Q st" and n: "set (children n) \<subseteq> live (nodes st)" "\<not> negated_class (node_class n)"
    and c: "create_like n (nodes st) = (m, h)"
  shows "norm_inv q Q (st\<lparr>nodes := h\<rparr>)" "key m = key n" "m \<in> live h" "live (nodes st) \<subseteq> live h"
proof -
  have "heap_inv (\<lambda>n. Q n + held (ptr st) n) (nodes st)" using inv by (simp add: norm_inv_def)
  from create_like_created [OF this n(1) _ c] n(2)
  have "heap_inv (\<lambda>n. Q n + held (ptr st) n) h" "key m = key n" "live h = insert m (live (nodes st))" by (auto simp: created_def)
  then show "norm_inv q Q (st\<lparr>nodes := h\<rparr>)" "key m = key n" "m \<in> live h" "live (nodes st) \<subseteq> live h"
    using inv by (auto simp: norm_inv_def)
qed

text \<open>A new node in a register whose old value is held elsewhere or is an operand.\<close>

lemma create_into_ok:
  assumes inv: "norm_inv q Q st" and n: "set (children n) \<subseteq> live (nodes st)" "\<not> negated_class (node_class n)"
    and free: "r \<noteq> Top_Query \<Longrightarrow> query_free n" and r: "r = Top_Query \<Longrightarrow> ptr st r = None"
    and safe: "\<And>old. ptr st r = Some old \<Longrightarrow> Q old \<noteq> 0 \<or> old \<in> set (children n)"
  shows "\<exists>m. key m = key n \<and> norm_inv q Q (create_into r n st) \<and> ptr (create_into r n st) = (ptr st)(r := Some m)"
proof -
  obtain m h where c: "create_like n (nodes st) = (m, h)" by fastforce
  note created = create_ok [OF inv n c]
  have free': "r \<noteq> Top_Query \<Longrightarrow> query_free m"
    using free key_class [OF created(2)] key_children [OF created(2)] query_free_iff [of n] query_free_iff [of m] by simp
  have "Q old \<noteq> 0 \<or> parents h old \<noteq> 0" if "ptr st r = Some old" for old
    using safe [OF that] parents_child [OF created(3), of old] key_children [OF created(2)] by auto
  then have "norm_inv q Q (assign r (Some m) (st\<lparr>nodes := h\<rparr>)) \<and> ptr (assign r (Some m) (st\<lparr>nodes := h\<rparr>)) = (ptr st)(r := Some m)"
    using assign_ok [OF created(1), of "Some m" r] created(3) free' r by simp
  then show ?thesis using created(2) by (auto simp: create_into_def c)
qed

section \<open>Visits\<close>

text \<open>The registers that must be empty when a visit starts.\<close>

fun needs :: "norm_reg \<Rightarrow> norm_reg set" where
  "needs Top_Filter = {}"
| "needs Top_Atom = {Prefix, Top_Filter}"
| "needs Top_Pp = {Prefix, Top_Filter, Top_Atom}"
| "needs Top_Cp = {Prefix, Top_Filter, Top_Atom, Top_Pp}"
| "needs r = {}"

definition entered :: "'e::linorder fql_node \<Rightarrow> norm_reg \<Rightarrow> ('e fql_node \<Rightarrow> nat) \<Rightarrow> 'e norm_state \<Rightarrow> bool" where
  "entered q r Q st \<longleftrightarrow> norm_inv q Q st \<and> (\<forall>x \<in> needs r. ptr st x = None) \<and> (\<forall>old. ptr st r = Some old \<longrightarrow> Q old \<noteq> 0)"

definition left :: "'e::linorder fql_node \<Rightarrow> norm_reg \<Rightarrow> ('e fql_node \<Rightarrow> nat) \<Rightarrow> 'e norm_state \<Rightarrow> ('e fql_node \<Rightarrow> bool) \<Rightarrow> 'e norm_state \<Rightarrow> bool" where
  "left q r Q st good st' \<longleftrightarrow> norm_inv q Q st' \<and> (\<exists>m. ptr st' = (ptr st)(r := Some m) \<and> good m)"

definition visits :: "'e::linorder fql_node \<Rightarrow> norm_reg \<Rightarrow> ('e fql_node \<Rightarrow> bool) \<Rightarrow> ('e norm_state \<Rightarrow> 'e norm_state) \<Rightarrow> bool" where
  "visits q r good v \<longleftrightarrow> (\<forall>Q st. entered q r Q st \<longrightarrow> left q r Q st good (v st))"

lemma not_needs_self: "r \<notin> needs r"
  by (cases r) auto

lemma entered_hold:
  assumes st: "entered q r Q st" and st': "norm_inv q Q st'" "ptr st' = (ptr st)(r := Some a)" and a: "a \<in> live (nodes st')"
  shows "entered q r (\<lambda>n. Q n + holds (Some a) n) (hold a st')"
proof -
  note h = hold_ok [OF st'(1) a]
  have "x \<noteq> r" if "x \<in> needs r" for x using that not_needs_self by blast
  then have "\<forall>x \<in> needs r. ptr (hold a st') x = None" using st unfolding h(2) st'(2) entered_def by simp
  then show ?thesis using h(1) unfolding entered_def h(2) st'(2) by (simp add: holds_def)
qed

lemma operands_visit:
  assumes r: "r \<noteq> Top_Query" and va: "visits q r ga va" and vb: "visits q r gb vb"
    and build: "\<And>a b Q st. norm_inv q Q st \<Longrightarrow> Q a \<noteq> 0 \<Longrightarrow> Q b \<noteq> 0 \<Longrightarrow> ptr st r = Some b \<Longrightarrow> ga a \<Longrightarrow> gb b \<Longrightarrow> query_free a \<Longrightarrow> query_free b
      \<Longrightarrow> left q r Q st g (build a b st)"
  shows "visits q r g (norm_operands r va vb build)"
  unfolding visits_def
proof (intro allI impI)
  fix Q st assume st: "entered q r Q st"
  then have "left q r Q st ga (va st)" using va unfolding visits_def by blast
  then obtain a where a: "norm_inv q Q (va st)" "ptr (va st) = (ptr st)(r := Some a)" "ga a"
    unfolding left_def by (elim conjE exE) (rule that)
  have live_a: "a \<in> live (nodes (va st))" by (rule norm_inv_live(1) [OF a(1), of r]) (simp add: a(2))
  have free_a: "query_free a" by (rule norm_inv_free [OF a(1) _ r]) (simp add: a(2))
  let ?st1 = "hold a (va st)" and ?Q1 = "\<lambda>n. Q n + holds (Some a) n"
  note h1 = hold_ok [OF a(1) live_a]
  have "entered q r ?Q1 ?st1"
    by (rule entered_hold [OF st a(1,2) live_a])
  then have "left q r ?Q1 ?st1 gb (vb ?st1)" using vb unfolding visits_def by blast
  then obtain b where b: "norm_inv q ?Q1 (vb ?st1)" "ptr (vb ?st1) = (ptr st)(r := Some b)" "gb b"
    by (auto simp: left_def h1(2) a(2))
  have live_b: "b \<in> live (nodes (vb ?st1))" by (rule norm_inv_live(1) [OF b(1), of r]) (simp add: b(2))
  have free_b: "query_free b" by (rule norm_inv_free [OF b(1) _ r]) (simp add: b(2))
  let ?st2 = "hold b (vb ?st1)" and ?Q2 = "\<lambda>n. Q n + holds (Some a) n + holds (Some b) n"
  note h2 = hold_ok [OF b(1) live_b]
  have "left q r ?Q2 ?st2 g (build a b ?st2)"
    by (rule build [OF h2(1)]) (use a(3) b(3) h2(2) b(2) free_a free_b in \<open>simp_all add: holds_def\<close>)
  then obtain m where m: "norm_inv q ?Q2 (build a b ?st2)" "ptr (build a b ?st2) = (ptr st)(r := Some m)" "g m"
    unfolding left_def h2(2) b(2) by auto
  note r1 = release_ok [OF m(1) free_b]
  note r2 = release_ok [OF r1(1) free_a]
  have "norm_operands r va vb build st = release a (release b (build a b ?st2))"
    by (simp add: norm_operands_def Let_def a(2) b(2))
  then show "left q r Q st g (norm_operands r va vb build st)"
    using r2 r1(2) m unfolding left_def by auto
qed

lemma create_left:
  assumes inv: "norm_inv q Q st" and n: "\<And>c. c \<in> set (children n) \<Longrightarrow> Q c \<noteq> 0 \<or> (\<exists>r'. ptr st r' = Some c)" "\<not> negated_class (node_class n)" "query_free n"
    and old: "\<And>old. ptr st r = Some old \<Longrightarrow> Q old \<noteq> 0 \<or> old \<in> set (children n)" and r: "r \<noteq> Top_Query"
    and g: "\<And>m. key m = key n \<Longrightarrow> g m"
  shows "left q r Q st g (create_into r n st)"
proof -
  have "set (children n) \<subseteq> live (nodes st)" using norm_inv_live [OF inv] n(1) by blast
  then obtain m where "key m = key n" "norm_inv q Q (create_into r n st)" "ptr (create_into r n st) = (ptr st)(r := Some m)"
    using create_into_ok [OF inv _ n(2), of r] n(3) old r by blast
  then show ?thesis using g unfolding left_def by blast
qed

lemma ordered_left:
  assumes inv: "norm_inv q Q st" and ab: "Q a \<noteq> 0" "Q b \<noteq> 0" "ptr st r = Some b" "query_free a" "query_free b" and r: "r \<noteq> Top_Query"
    and mk: "\<And>x y. children (mk x y) = [x, y]" "\<And>x y. \<not> negated_class (node_class (mk x y))" "\<And>x y. node_class (mk x y) \<noteq> C_Query"
    and g: "\<And>m. cmp_lt a b \<Longrightarrow> key m = key (mk a b) \<Longrightarrow> g m" "\<And>m. cmp_lt b a \<Longrightarrow> key m = key (mk b a) \<Longrightarrow> g m" "a = b \<Longrightarrow> g a"
  shows "left q r Q st g (norm_ordered r mk a b st)"
proof -
  have live: "a \<in> live (nodes st)" "b \<in> live (nodes st)" using norm_inv_live(2) [OF inv] ab(1,2) by auto
  have "canonical (live (nodes st))" using inv heap_invD(2) unfolding norm_inv_def by blast
  note eq = slo_eq_iff [OF slo_cmp_lt [OF this] live]
  have free: "query_free (mk x y)" if "query_free x" "query_free y" for x y
    using that mk by (subst query_free_iff) simp
  consider (ab) "cmp_lt a b" | (ba) "\<not> cmp_lt a b" "cmp_lt b a" | (same) "\<not> cmp_lt a b" "\<not> cmp_lt b a" "a = b" using eq by blast
  then show ?thesis
  proof cases
    case ab
    have "left q r Q st g (create_into r (mk a b) st)"
      by (rule create_left [OF inv _ mk(2) free _ r g(1)]) (use assms ab in \<open>auto simp: mk(1)\<close>)
    then show ?thesis using ab by (simp add: norm_ordered_def)
  next
    case ba
    have "left q r Q st g (create_into r (mk b a) st)"
      by (rule create_left [OF inv _ mk(2) free _ r g(2)]) (use assms ba in \<open>auto simp: mk(1)\<close>)
    then show ?thesis using ba by (simp add: norm_ordered_def)
  next
    case same
    then have "left q r Q st g (assign r (Some a) st)"
      using assign_ok [OF inv, of "Some a" r] live(1) ab(1,4) r g(3) unfolding left_def by auto
    then show ?thesis using same by (simp add: norm_ordered_def)
  qed
qed

lemma move_atom:
  assumes v: "visits q Top_Atom g v" and r: "r \<in> {Top_Pp, Top_Cp}"
  shows "visits q r g (move_to r \<circ> v)"
  unfolding visits_def
proof (intro allI impI)
  fix Q st assume st: "entered q r Q st"
  have r': "r \<noteq> Top_Query" "r \<noteq> Top_Atom" using r by auto
  have none: "ptr st Top_Atom = None" "ptr st Prefix = None" "ptr st Top_Filter = None" using st r by (auto simp: entered_def)
  then have "entered q Top_Atom Q st" using st by (simp add: entered_def)
  then have "left q Top_Atom Q st g (v st)" using v unfolding visits_def by blast
  then obtain m where m: "norm_inv q Q (v st)" "ptr (v st) = (ptr st)(Top_Atom := Some m)" "g m"
    unfolding left_def by (elim conjE exE) (rule that)
  have reg: "ptr (v st) Top_Atom = Some m" by (simp add: m(2))
  have "norm_inv q Q (assign r (Some m) (v st)) \<and> ptr (assign r (Some m) (v st)) = (ptr (v st))(r := Some m)"
    using assign_copy [OF m(1) reg _ r'(2) r'(1)] by simp
  then have 1: "norm_inv q Q (assign r (Some m) (v st))" "ptr (assign r (Some m) (v st)) = (ptr st)(Top_Atom := Some m, r := Some m)"
    by (simp_all add: m(2))
  have 2: "norm_inv q Q (assign Top_Atom None (assign r (Some m) (v st)))"
    "ptr (assign Top_Atom None (assign r (Some m) (v st))) = (ptr (assign r (Some m) (v st)))(Top_Atom := None)"
    using assign_ok [OF 1(1), of None Top_Atom] by simp_all
  have "(ptr st)(Top_Atom := Some m, r := Some m, Top_Atom := None) = (ptr st)(r := Some m)"
    using none(1) r'(2) by (auto simp: fun_eq_iff)
  moreover have "(move_to r \<circ> v) st = assign Top_Atom None (assign r (Some m) (v st))" by (simp add: move_to_def reg)
  ultimately show "left q r Q st g ((move_to r \<circ> v) st)" using 2 1(2) m(3) unfolding left_def by auto
qed

lemma move_none:
  assumes v: "visits q r g v" and r: "r \<in> {Top_Pp, Top_Cp}"
  shows "visits q r g (move_to r \<circ> v)"
  unfolding visits_def
proof (intro allI impI)
  fix Q st assume st: "entered q r Q st"
  then have l: "left q r Q st g (v st)" using v unfolding visits_def by blast
  have "ptr st Top_Atom = None" using st r by (auto simp: entered_def)
  then have "ptr (v st) Top_Atom = None" using l r by (auto simp: left_def)
  then show "left q r Q st g ((move_to r \<circ> v) st)" using l by (simp add: move_to_def)
qed

lemma atom_visit:
  assumes v: "visits q Top_Filter gf vf" and mk: "\<And>f. children (mk f) = [f]" "\<And>f. \<not> negated_class (node_class (mk f))" "\<And>f. node_class (mk f) \<noteq> C_Query"
    and g: "\<And>f m. gf f \<Longrightarrow> key m = key (mk f) \<Longrightarrow> g m"
  shows "visits q Top_Atom g (norm_atom vf mk)"
  unfolding visits_def
proof (intro allI impI)
  fix Q st assume st: "entered q Top_Atom Q st"
  have none: "ptr st Prefix = None" "ptr st Top_Filter = None" using st by (auto simp: entered_def)
  have e: "entered q Top_Filter Q st" using st none by (simp add: entered_def)
  then have "left q Top_Filter Q st gf (vf st)" using v unfolding visits_def by blast
  then obtain f where f: "norm_inv q Q (vf st)" "ptr (vf st) = (ptr st)(Top_Filter := Some f)" "gf f"
    unfolding left_def by (elim conjE exE) (rule that)
  have reg: "ptr (vf st) Top_Filter = Some f" by (simp add: f(2))
  have live: "f \<in> live (nodes (vf st))" "query_free f" using norm_inv_live(1) [OF f(1) reg] norm_inv_free [OF f(1) reg] by simp_all
  let ?Q1 = "\<lambda>n. Q n + holds (Some f) n" and ?st1 = "hold f (vf st)"
  note h = hold_ok [OF f(1) live(1)]
  have free: "query_free (mk f)" using mk live(2) by (subst query_free_iff) simp
  have old: "?Q1 old \<noteq> 0 \<or> old \<in> set (children (mk f))" if "ptr ?st1 Top_Atom = Some old" for old
    using that st unfolding h(2) f(2) by (simp add: entered_def)
  have "left q Top_Atom ?Q1 ?st1 g (create_into Top_Atom (mk f) ?st1)"
    by (rule create_left [OF h(1) _ mk(2) free old _ g [OF f(3)]]) (simp_all add: mk(1) holds_def)
  then obtain m where m: "norm_inv q ?Q1 (create_into Top_Atom (mk f) ?st1)" "ptr (create_into Top_Atom (mk f) ?st1) = (ptr ?st1)(Top_Atom := Some m)" "g m"
    unfolding left_def by (elim conjE exE) (rule that)
  let ?st2 = "assign Top_Filter None (create_into Top_Atom (mk f) ?st1)"
  have 2: "norm_inv q ?Q1 ?st2" "ptr ?st2 = (ptr (create_into Top_Atom (mk f) ?st1))(Top_Filter := None)"
    using assign_ok [OF m(1), of None Top_Filter] by simp_all
  have "ptr ?st2 = (ptr st)(Top_Atom := Some m)" unfolding 2(2) m(2) h(2) f(2) using none(2) by (auto simp: fun_eq_iff)
  moreover have "norm_atom vf mk st = release f ?st2" using none(1) by (simp add: norm_atom_def Let_def f(2) h(2))
  ultimately show "left q Top_Atom Q st g (norm_atom vf mk st)"
    using release_ok [OF 2(1) live(2)] m(3) unfolding left_def by auto
qed

lemma repeat_visit:
  assumes v: "visits q Top_Pp gp v" and g: "\<And>p m. gp p \<Longrightarrow> key m = key (Repeat 0 p l u) \<Longrightarrow> g m"
  shows "visits q Top_Pp g (\<lambda>st. let st = v st in create_into Top_Pp (Repeat 0 (the (ptr st Top_Pp)) l u) st)"
  unfolding visits_def
proof (intro allI impI)
  fix Q st assume "entered q Top_Pp Q st"
  then have "left q Top_Pp Q st gp (v st)" using v unfolding visits_def by blast
  then obtain p where p: "norm_inv q Q (v st)" "ptr (v st) = (ptr st)(Top_Pp := Some p)" "gp p"
    unfolding left_def by (elim conjE exE) (rule that)
  have "query_free p" by (rule norm_inv_free [OF p(1), of Top_Pp]) (simp_all add: p(2))
  then have free: "query_free (Repeat 0 p l u)" by (subst query_free_iff) simp
  have "left q Top_Pp Q (v st) g (create_into Top_Pp (Repeat 0 p l u) (v st))"
    by (rule create_left [OF p(1) _ _ free _ _ g [OF p(3)]]) (auto simp: p(2) negated_class_def split: if_splits)
  then show "left q Top_Pp Q st g (let st = v st in create_into Top_Pp (Repeat 0 (the (ptr st Top_Pp)) l u) st)"
    unfolding left_def Let_def p(2) by simp
qed

lemma quote_visit:
  assumes v: "visits q Top_Pp gp (move_to Top_Pp \<circ> v)" and g: "\<And>p m. gp p \<Longrightarrow> key m = key (Quote 0 p) \<Longrightarrow> g m"
  shows "visits q Top_Cp g (norm_quote v)"
  unfolding visits_def
proof (intro allI impI)
  fix Q st assume st: "entered q Top_Cp Q st"
  have none: "ptr st Prefix = None" "ptr st Top_Pp = None" using st by (auto simp: entered_def)
  let ?st1 = "move_to Top_Pp (v st)"
  have "entered q Top_Pp Q st" using st none by (simp add: entered_def)
  then have "left q Top_Pp Q st gp ((move_to Top_Pp \<circ> v) st)" using v unfolding visits_def by blast
  then obtain p where p: "norm_inv q Q ?st1" "ptr ?st1 = (ptr st)(Top_Pp := Some p)" "gp p"
    unfolding left_def comp_def by (elim conjE exE) (rule that)
  have "query_free p" by (rule norm_inv_free [OF p(1), of Top_Pp]) (simp_all add: p(2))
  then have free: "query_free (Quote 0 p)" by (subst query_free_iff) simp
  have kids: "Q c \<noteq> 0 \<or> (\<exists>r'. ptr ?st1 r' = Some c)" if "c \<in> set (children (Quote 0 p))" for c
    using that by (intro disjI2 exI [of _ Top_Pp]) (simp add: p(2))
  have old: "Q old \<noteq> 0 \<or> old \<in> set (children (Quote 0 p))" if "ptr ?st1 Top_Cp = Some old" for old
    using that st unfolding p(2) by (simp add: entered_def)
  have "left q Top_Cp Q ?st1 g (create_into Top_Cp (Quote 0 p) ?st1)"
    by (rule create_left [OF p(1) kids _ free old _ g [OF p(3)]]) (auto simp: negated_class_def)
  then obtain m where m: "norm_inv q Q (create_into Top_Cp (Quote 0 p) ?st1)"
    "ptr (create_into Top_Cp (Quote 0 p) ?st1) = (ptr ?st1)(Top_Cp := Some m)" "g m"
    unfolding left_def by (elim conjE exE) (rule that)
  let ?st2 = "assign Top_Pp None (create_into Top_Cp (Quote 0 p) ?st1)"
  have 2: "norm_inv q Q ?st2" "ptr ?st2 = (ptr (create_into Top_Cp (Quote 0 p) ?st1))(Top_Pp := None)"
    using assign_ok [OF m(1), of None Top_Pp] by simp_all
  have "ptr ?st2 = (ptr st)(Top_Cp := Some m)" unfolding 2(2) m(2) p(2) using none(2) by (auto simp: fun_eq_iff)
  moreover have "assign Prefix None st = st" "assign Prefix None ?st1 = ?st1" using none(1) by (simp_all add: assign_def p(2))
  then have "norm_quote v st = ?st2" using none(1) by (simp add: norm_quote_def Let_def p(2))
  ultimately show "left q Top_Cp Q st g (norm_quote v st)" using 2(1) m(3) unfolding left_def by auto
qed

section \<open>What the visits return\<close>

definition shaped :: "'e::linorder fql_node \<Rightarrow> bool" where
  "shaped n \<longleftrightarrow> well_typed n \<and> plain n \<and> everywhere operands_ordered n"

definition filter_image :: "('b, 'w, 'e) meaning \<Rightarrow> 'e::linorder fql_node \<Rightarrow> 'e fql_node \<Rightarrow> bool" where
  "filter_image M n m \<longleftrightarrow> is_filter m \<and> shaped m \<and> filter_meaning M m = filter_meaning M n"

definition image_of :: "('e fql_node \<Rightarrow> bool) \<Rightarrow> ('b, 'w, 'e) meaning \<Rightarrow> 'e::linorder fql_node \<Rightarrow> 'e fql_node \<Rightarrow> bool" where
  "image_of K M n m \<longleftrightarrow> K m \<and> shaped m \<and> words M m = words M n"

lemmas image_defs = filter_image_def image_of_def

lemma key_shaped:
  assumes "key m = key n"
  shows "shaped m \<longleftrightarrow> well_typed n \<and> \<not> negated_class (node_class n) \<and> operands_ordered n
    \<and> (\<forall>c \<in> set (children n). shaped c)"
proof -
  have "shaped m \<longleftrightarrow> well_typed n \<and> \<not> negated_class (node_class n) \<and> operands_ordered n
      \<and> (\<forall>c \<in> set (children n). plain c \<and> everywhere operands_ordered c)"
    unfolding shaped_def plain_iff [of m] everywhere.simps [of _ m] key_children [OF assms] key_class [OF assms] key_same [OF assms]
    by auto
  moreover have "well_typed n \<Longrightarrow> c \<in> set (children n) \<Longrightarrow> well_typed c" for c using typed_children by blast
  ultimately show ?thesis unfolding shaped_def by blast
qed

lemma key_kinds:
  "key m = key n \<Longrightarrow> is_filter m = is_filter n" "key m = key n \<Longrightarrow> is_atom m = is_atom n"
  "key m = key n \<Longrightarrow> is_pp m = is_pp n" "key m = key n \<Longrightarrow> is_cp m = is_cp n"
  using key_class [of m n] by (simp_all add: is_defs)

lemma atom_kinds: "is_atom n \<Longrightarrow> is_pp n" "is_atom n \<Longrightarrow> is_cp n"
  by (simp_all add: is_pp_def is_cp_def)

lemma kind_simps:
  "is_filter (Filter_Function p t i s)" "is_filter (Filter_Union p a b)" "is_filter (Filter_Intersection p a b)"
  "is_atom (Edgecov p a)" "is_atom (Nodecov p a)" "is_atom (Pathcov p a k)" "is_atom (Predicate p e)"
  "is_pp (PP_Alternative p a b)" "is_pp (PP_Concat p a b)" "is_pp (Repeat p a l u)"
  "is_cp (CP_Alternative p a b)" "is_cp (CP_Concat p a b)" "is_cp (Quote p a)"
  by (simp_all add: is_defs)

lemma key_filter_image:
  assumes "key m = key n"
  shows "filter_image M k m \<longleftrightarrow> is_filter n \<and> well_typed n \<and> \<not> negated_class (node_class n) \<and> operands_ordered n
    \<and> (\<forall>c \<in> set (children n). shaped c) \<and> filter_meaning M n = filter_meaning M k"
  unfolding filter_image_def key_shaped [OF assms] key_same(1) [OF assms] key_kinds(1) [OF assms] by blast

lemma filter_imageD: "filter_image M n m \<Longrightarrow> is_filter m \<and> well_typed m \<and> shaped m \<and> filter_meaning M m = filter_meaning M n"
  by (simp add: filter_image_def shaped_def)

lemma key_image_of:
  assumes "key m = key n" "K m = K n"
  shows "image_of K M k m \<longleftrightarrow> K n \<and> well_typed n \<and> \<not> negated_class (node_class n) \<and> operands_ordered n
    \<and> (\<forall>c \<in> set (children n). shaped c) \<and> words M n = words M k"
  unfolding image_of_def key_shaped [OF assms(1)] key_same(2) [OF assms(1)] assms(2) by blast

lemma image_ofD: "image_of K M n m \<Longrightarrow> K m \<and> well_typed m \<and> shaped m \<and> words M m = words M n"
  by (simp add: image_of_def shaped_def)

lemma filter_free: "is_filter n \<Longrightarrow> well_typed n \<Longrightarrow> query_free n"
  by (rule typed_query_free) (auto simp: is_defs)

lemma leaf_visit:
  assumes r: "r \<noteq> Top_Query" and n: "children n = []" "\<not> negated_class (node_class n)" "node_class n \<noteq> C_Query"
    and g: "\<And>m. key m = key n \<Longrightarrow> g m"
  shows "visits q r g (create_into r n)"
  unfolding visits_def
proof (intro allI impI)
  fix Q st assume st: "entered q r Q st"
  have free: "query_free n" using n(1,3) by (subst query_free_iff) simp
  show "left q r Q st g (create_into r n st)"
    by (rule create_left [OF _ _ n(2) free _ r g]) (use st n(1) in \<open>auto simp: entered_def\<close>)
qed

lemma ordered_visit:
  assumes r: "r \<noteq> Top_Query" and v: "visits q r ga va" "visits q r gb vb"
    and mk: "\<And>x y. children (mk x y) = [x, y]" "\<And>x y. \<not> negated_class (node_class (mk x y))" "\<And>x y. node_class (mk x y) \<noteq> C_Query"
    and g: "\<And>a b m. ga a \<Longrightarrow> gb b \<Longrightarrow> cmp_lt a b \<Longrightarrow> key m = key (mk a b) \<Longrightarrow> g m"
      "\<And>a b m. ga a \<Longrightarrow> gb b \<Longrightarrow> cmp_lt b a \<Longrightarrow> key m = key (mk b a) \<Longrightarrow> g m" "\<And>a. ga a \<Longrightarrow> gb a \<Longrightarrow> g a"
  shows "visits q r g (norm_operands r va vb (norm_ordered r mk))"
  by (rule operands_visit [OF r v]) (rule ordered_left; use r mk g in \<open>blast | simp\<close>)

lemma concat_visit:
  assumes r: "r \<noteq> Top_Query" and v: "visits q r ga va" "visits q r gb vb"
    and mk: "\<And>x y. children (mk x y) = [x, y]" "\<And>x y. \<not> negated_class (node_class (mk x y))" "\<And>x y. node_class (mk x y) \<noteq> C_Query"
    and g: "\<And>a b m. ga a \<Longrightarrow> gb b \<Longrightarrow> key m = key (mk a b) \<Longrightarrow> g m"
  shows "visits q r g (norm_operands r va vb (\<lambda>a b. create_into r (mk a b)))"
proof (rule operands_visit [OF r v])
  fix a b Q st
  assume *: "norm_inv q Q st" "Q a \<noteq> 0" "Q b \<noteq> 0" "ptr st r = Some b" "ga a" "gb b" "query_free a" "query_free b"
  have free: "query_free (mk a b)" using * mk by (subst query_free_iff) simp
  show "left q r Q st g (create_into r (mk a b) st)"
    by (rule create_left [OF *(1) _ mk(2) free _ r g [OF *(5,6)]]) (use * in \<open>auto simp: mk(1)\<close>)
qed

lemma visit_filter:
  "is_filter n \<Longrightarrow> well_typed n \<Longrightarrow> plain n \<Longrightarrow> visits q Top_Filter (filter_image M n) (norm_visit n)"
proof (induction n)
  case (Filter_Function p t i s)
  have "filter_image M (Filter_Function p t i s) m" if "key m = key (Filter_Function 0 t i s)" for m
    unfolding key_filter_image [OF that] by (simp add: kind_simps negated_class_def)
  then show ?case unfolding norm_visit.simps by (intro leaf_visit) (auto simp: negated_class_def)
next
  case (Filter_Union p a b)
  have ab: "is_filter a" "is_filter b" "well_typed a" "well_typed b" "plain a" "plain b"
    using Filter_Union.prems plain_iff [of "Filter_Union p a b"] by auto
  have g: "filter_image M (Filter_Union p a b) m" if "filter_image M a x \<and> filter_image M b y \<or> filter_image M b x \<and> filter_image M a y"
      "cmp_lt x y" "key m = key (Filter_Union 0 x y)" for x y m
    unfolding key_filter_image [OF that(3)] using that(1,2)
    by (elim disjE conjE) (auto simp: kind_simps negated_class_def dest!: filter_imageD)
  show ?case
    unfolding norm_visit.simps
  proof (rule ordered_visit [OF _ Filter_Union.IH(1) [OF ab(1,3,5)] Filter_Union.IH(2) [OF ab(2,4,6)]])
    show "filter_image M (Filter_Union p a b) m" if "filter_image M a x" "filter_image M b y" "cmp_lt x y" "key m = key (Filter_Union 0 x y)" for x y m
      by (rule g [OF _ that(3,4)]) (use that in simp)
    show "filter_image M (Filter_Union p a b) m" if "filter_image M a x" "filter_image M b y" "cmp_lt y x" "key m = key (Filter_Union 0 y x)" for x y m
      by (rule g [OF _ that(3,4)]) (use that in simp)
    show "filter_image M (Filter_Union p a b) x" if "filter_image M a x" "filter_image M b x" for x
      using that by (simp add: filter_image_def)
  qed (simp_all add: negated_class_def)
next
  case (Filter_Intersection p a b)
  have ab: "is_filter a" "is_filter b" "well_typed a" "well_typed b" "plain a" "plain b"
    using Filter_Intersection.prems plain_iff [of "Filter_Intersection p a b"] by auto
  have g: "filter_image M (Filter_Intersection p a b) m" if "filter_image M a x \<and> filter_image M b y \<or> filter_image M b x \<and> filter_image M a y"
      "cmp_lt x y" "key m = key (Filter_Intersection 0 x y)" for x y m
    unfolding key_filter_image [OF that(3)] using that(1,2)
    by (elim disjE conjE) (auto simp: kind_simps negated_class_def dest!: filter_imageD)
  show ?case
    unfolding norm_visit.simps
  proof (rule ordered_visit [OF _ Filter_Intersection.IH(1) [OF ab(1,3,5)] Filter_Intersection.IH(2) [OF ab(2,4,6)]])
    show "filter_image M (Filter_Intersection p a b) m" if "filter_image M a x" "filter_image M b y" "cmp_lt x y" "key m = key (Filter_Intersection 0 x y)" for x y m
      by (rule g [OF _ that(3,4)]) (use that in simp)
    show "filter_image M (Filter_Intersection p a b) m" if "filter_image M a x" "filter_image M b y" "cmp_lt y x" "key m = key (Filter_Intersection 0 y x)" for x y m
      by (rule g [OF _ that(3,4)]) (use that in simp)
    show "filter_image M (Filter_Intersection p a b) x" if "filter_image M a x" "filter_image M b x" for x
      using that by (simp add: filter_image_def)
  qed (simp_all add: negated_class_def)
next
  case (Filter_Compose p a b)
  then show ?case by (simp add: plain_iff [of "Filter_Compose p a b"] negated_class_def)
next
  case (Filter_Setminus p a b)
  then show ?case by (simp add: plain_iff [of "Filter_Setminus p a b"] negated_class_def)
qed (simp_all add: is_filter_def)

lemma visit_atom:
  assumes n: "is_atom n" "well_typed n" "plain n"
  shows "visits q Top_Atom (image_of is_atom M n) (norm_visit n)"
proof -
  have one: "visits q Top_Atom (image_of is_atom M n) (norm_atom (norm_visit f) mk)"
    if "is_filter f" "well_typed f" "plain f" "\<And>f. children (mk f) = [f]" "\<And>f. \<not> negated_class (node_class (mk f))" "\<And>f. is_atom (mk f)"
      "\<And>f. operands_ordered (mk f)" "\<And>g. is_filter g \<Longrightarrow> well_typed g \<Longrightarrow> well_typed (mk g)"
      "\<And>g. filter_meaning M g = filter_meaning M f \<Longrightarrow> words M (mk g) = words M n" for f mk
  proof (rule atom_visit [OF visit_filter [OF that(1-3), of q M] that(4,5)])
    show "node_class (mk f) \<noteq> C_Query" for f using that(6) [of f] by (auto simp: is_atom_def)
    fix g m assume *: "filter_image M f g" "key m = key (mk g)"
    show "image_of is_atom M n m"
      unfolding key_image_of [where K = is_atom, OF *(2) key_kinds(2) [OF *(2)]]
      using filter_imageD [OF *(1)] that(4-9) by simp
  qed
  show ?thesis
  proof (cases n)
    case (Edgecov p f)
    have f: "is_filter f" "well_typed f" "plain f" using n plain_iff [of n] by (auto simp: Edgecov)
    have "visits q Top_Atom (image_of is_atom M n) (norm_atom (norm_visit f) (Edgecov 0))"
      by (rule one [OF f]) (simp_all add: kind_simps negated_class_def Edgecov)
    then show ?thesis by (simp add: Edgecov)
  next
    case (Nodecov p f)
    have f: "is_filter f" "well_typed f" "plain f" using n plain_iff [of n] by (auto simp: Nodecov)
    have "visits q Top_Atom (image_of is_atom M n) (norm_atom (norm_visit f) (Nodecov 0))"
      by (rule one [OF f]) (simp_all add: kind_simps negated_class_def Nodecov)
    then show ?thesis by (simp add: Nodecov)
  next
    case (Pathcov p f k)
    have f: "is_filter f" "well_typed f" "plain f" using n plain_iff [of n] by (auto simp: Pathcov)
    have "visits q Top_Atom (image_of is_atom M n) (norm_atom (norm_visit f) (\<lambda>f. Pathcov 0 f k))"
      by (rule one [OF f]) (simp_all add: kind_simps negated_class_def Pathcov)
    then show ?thesis by (simp add: Pathcov)
  next
    case (Predicate p e)
    have "image_of is_atom M n m" if "key m = key (Predicate 0 e)" for m
      unfolding key_image_of [where K = is_atom, OF that key_kinds(2) [OF that]]
      by (simp add: kind_simps negated_class_def Predicate)
    then show ?thesis unfolding Predicate norm_visit.simps by (intro leaf_visit) (auto simp: negated_class_def)
  next
    case (Depcov p a b c)
    then show ?thesis using n plain_iff [of n] by (simp add: negated_class_def)
  qed (use n in \<open>simp_all add: is_atom_def\<close>)
qed

lemma image_atom: "visits q r (image_of is_atom M n) v \<Longrightarrow> (\<And>m. is_atom m \<Longrightarrow> K m) \<Longrightarrow> visits q r (image_of K M n) v"
  unfolding visits_def left_def image_of_def by blast

lemma ordered_words:
  assumes v: "visits q r (image_of K M a) va" "visits q r (image_of K M b) vb" and r: "r \<noteq> Top_Query"
    and mk: "\<And>x y. children (mk x y) = [x, y]" "\<And>x y. \<not> negated_class (node_class (mk x y))" "\<And>x y. K (mk x y)"
      "\<And>x y. operands_ordered (mk x y) = cmp_lt x y" "\<And>x y. well_typed (mk x y) \<longleftrightarrow> K x \<and> K y \<and> well_typed x \<and> well_typed y"
      "\<And>x y. words M (mk x y) = words M x \<union> words M y"
    and K: "\<And>m n. key m = key n \<Longrightarrow> K m = K n" "\<And>m. K m \<Longrightarrow> node_class m \<noteq> C_Query"
    and n: "words M n = words M a \<union> words M b"
  shows "visits q r (image_of K M n) (norm_operands r va vb (norm_ordered r mk))"
proof (rule ordered_visit [OF r v mk(1,2)])
  show "node_class (mk x y) \<noteq> C_Query" for x y using K(2) mk(3) by blast
  show "image_of K M n m" if "image_of K M a x" "image_of K M b y" "cmp_lt x y" "key m = key (mk x y)" for x y m
    unfolding key_image_of [where K = K, OF that(4) K(1) [OF that(4)]]
    using image_ofD [OF that(1)] image_ofD [OF that(2)] that(3) mk n by simp
  show "image_of K M n m" if "image_of K M a x" "image_of K M b y" "cmp_lt y x" "key m = key (mk y x)" for x y m
    unfolding key_image_of [where K = K, OF that(4) K(1) [OF that(4)]]
    using image_ofD [OF that(1)] image_ofD [OF that(2)] that(3) mk n by (simp add: Un_commute)
  show "image_of K M n x" if "image_of K M a x" "image_of K M b x" for x
    using that n by (simp add: image_of_def)
qed

lemma concat_words:
  assumes v: "visits q r (image_of K M a) va" "visits q r (image_of K M b) vb" and r: "r \<noteq> Top_Query"
    and mk: "\<And>x y. children (mk x y) = [x, y]" "\<And>x y. \<not> negated_class (node_class (mk x y))" "\<And>x y. K (mk x y)"
      "\<And>x y. operands_ordered (mk x y)" "\<And>x y. well_typed (mk x y) \<longleftrightarrow> K x \<and> K y \<and> well_typed x \<and> well_typed y"
      "\<And>x y. words M (mk x y) = conc (words M x) (words M y)"
    and K: "\<And>m n. key m = key n \<Longrightarrow> K m = K n" "\<And>m. K m \<Longrightarrow> node_class m \<noteq> C_Query"
    and n: "words M n = conc (words M a) (words M b)"
  shows "visits q r (image_of K M n) (norm_operands r va vb (\<lambda>a b. create_into r (mk a b)))"
proof (rule concat_visit [OF r v mk(1,2)])
  show "node_class (mk x y) \<noteq> C_Query" for x y using K(2) mk(3) by blast
  show "image_of K M n m" if "image_of K M a x" "image_of K M b y" "key m = key (mk x y)" for x y m
    unfolding key_image_of [where K = K, OF that(3) K(1) [OF that(3)]]
    using image_ofD [OF that(1)] image_ofD [OF that(2)] mk n by simp
qed

lemma atom_move:
  assumes "is_atom n" "well_typed n" "plain n" "r \<in> {Top_Pp, Top_Cp}" "\<And>m. is_atom m \<Longrightarrow> K m"
  shows "visits q r (image_of K M n) (move_to r \<circ> norm_visit n)"
  by (rule move_atom [OF image_atom [OF visit_atom [OF assms(1-3)] assms(5)] assms(4)])

lemma kinds_not_query: "is_pp m \<Longrightarrow> node_class m \<noteq> C_Query" "is_cp m \<Longrightarrow> node_class m \<noteq> C_Query"
  by (auto simp: is_defs)

lemma visit_pp:
  "is_pp n \<Longrightarrow> well_typed n \<Longrightarrow> plain n \<Longrightarrow> visits q Top_Pp (image_of is_pp M n) (move_to Top_Pp \<circ> norm_visit n)"
proof (induction n)
  case (PP_Alternative p a b)
  have ab: "is_pp a" "is_pp b" "well_typed a" "well_typed b" "plain a" "plain b"
    using PP_Alternative.prems plain_iff [of "PP_Alternative p a b"] by auto
  show ?case
    unfolding norm_visit.simps
    by (rule move_none, rule ordered_words [OF PP_Alternative.IH(1) [OF ab(1,3,5)] PP_Alternative.IH(2) [OF ab(2,4,6)]])
      (erule key_kinds | erule kinds_not_query | simp add: kind_simps negated_class_def)+
next
  case (PP_Concat p a b)
  have ab: "is_pp a" "is_pp b" "well_typed a" "well_typed b" "plain a" "plain b"
    using PP_Concat.prems plain_iff [of "PP_Concat p a b"] by auto
  show ?case
    unfolding norm_visit.simps
    by (rule move_none, rule concat_words [OF PP_Concat.IH(1) [OF ab(1,3,5)] PP_Concat.IH(2) [OF ab(2,4,6)]])
      (erule key_kinds | erule kinds_not_query | simp add: kind_simps negated_class_def)+
next
  case (Repeat p a l u)
  have a: "is_pp a" "well_typed a" "plain a" using Repeat.prems plain_iff [of "Repeat p a l u"] by auto
  have g: "image_of is_pp M (Repeat p a l u) m" if "image_of is_pp M a x" "key m = key (Repeat 0 x l u)" for x m
    unfolding key_image_of [where K = is_pp, OF that(2) key_kinds(3) [OF that(2)]]
    using image_ofD [OF that(1)] by (simp add: kind_simps negated_class_def)
  have "visits q Top_Pp (image_of is_pp M (Repeat p a l u)) (norm_visit (Repeat p a l u))"
    using repeat_visit [OF Repeat.IH [OF a] g] by (simp add: Let_def)
  then show ?case by (rule move_none) simp
next
  case (Edgecov p f)
  then show ?case by (intro atom_move) (simp_all add: kind_simps atom_kinds)
next
  case (Nodecov p f)
  then show ?case by (intro atom_move) (simp_all add: kind_simps atom_kinds)
next
  case (Pathcov p f k)
  then show ?case by (intro atom_move) (simp_all add: kind_simps atom_kinds)
next
  case (Predicate p e)
  then show ?case by (intro atom_move) (simp_all add: kind_simps atom_kinds)
next
  case (Depcov p a b c)
  then show ?case by (simp add: plain_iff [of "Depcov p a b c"] negated_class_def)
qed (simp_all add: is_defs)

lemma visit_cp:
  "is_cp n \<Longrightarrow> well_typed n \<Longrightarrow> plain n \<Longrightarrow> visits q Top_Cp (image_of is_cp M n) (move_to Top_Cp \<circ> norm_visit n)"
proof (induction n)
  case (CP_Alternative p a b)
  have ab: "is_cp a" "is_cp b" "well_typed a" "well_typed b" "plain a" "plain b"
    using CP_Alternative.prems plain_iff [of "CP_Alternative p a b"] by auto
  show ?case
    unfolding norm_visit.simps
    by (rule move_none, rule ordered_words [OF CP_Alternative.IH(1) [OF ab(1,3,5)] CP_Alternative.IH(2) [OF ab(2,4,6)]])
      (erule key_kinds | erule kinds_not_query | simp add: kind_simps negated_class_def)+
next
  case (CP_Concat p a b)
  have ab: "is_cp a" "is_cp b" "well_typed a" "well_typed b" "plain a" "plain b"
    using CP_Concat.prems plain_iff [of "CP_Concat p a b"] by auto
  show ?case
    unfolding norm_visit.simps
    by (rule move_none, rule concat_words [OF CP_Concat.IH(1) [OF ab(1,3,5)] CP_Concat.IH(2) [OF ab(2,4,6)]])
      (erule key_kinds | erule kinds_not_query | simp add: kind_simps negated_class_def)+
next
  case (Quote p a)
  have a: "is_pp a" "well_typed a" "plain a" using Quote.prems plain_iff [of "Quote p a"] by auto
  have g: "image_of is_cp M (Quote p a) m" if "image_of is_pp M a x" "key m = key (Quote 0 x)" for x m
    unfolding key_image_of [where K = is_cp, OF that(2) key_kinds(4) [OF that(2)]]
    using image_ofD [OF that(1)] by (simp add: kind_simps negated_class_def)
  have "visits q Top_Cp (image_of is_cp M (Quote p a)) (norm_visit (Quote p a))"
    using quote_visit [OF visit_pp [OF a] g] by simp
  then show ?case by (rule move_none) simp
next
  case (Edgecov p f)
  then show ?case by (intro atom_move) (simp_all add: kind_simps atom_kinds)
next
  case (Nodecov p f)
  then show ?case by (intro atom_move) (simp_all add: kind_simps atom_kinds)
next
  case (Pathcov p f k)
  then show ?case by (intro atom_move) (simp_all add: kind_simps atom_kinds)
next
  case (Predicate p e)
  then show ?case by (intro atom_move) (simp_all add: kind_simps atom_kinds)
next
  case (Depcov p a b c)
  then show ?case by (simp add: plain_iff [of "Depcov p a b c"] negated_class_def)
qed (simp_all add: is_defs)

section \<open>Queries\<close>

lemma query_typed: "well_typed (Query p None c y) \<longleftrightarrow> is_cp c \<and> well_typed c \<and> (\<forall>x. y = Some x \<longrightarrow> is_pp x \<and> well_typed x)"
  by (cases y) auto

lemma assign_None_ok:
  assumes "norm_inv q Q st" "r \<noteq> Top_Query"
  shows "norm_inv q Q (assign r None st)" "ptr (assign r None st) = (ptr st)(r := None)"
  using assign_ok [OF assms(1), of None r] assms(2) by simp_all

lemma any_path_left:
  assumes inv: "norm_inv q Q st" and none: "ptr st Top_Pp = None"
  shows "left q Top_Pp Q st (\<lambda>m. is_pp m \<and> shaped m \<and> words M m = lstar (of_edges M (of_filter_function M F_IDENTITY 0 []))) (norm_any_path st)"
proof -
  obtain f h where f: "create_like (Filter_Function 0 F_IDENTITY (- 1) []) (nodes st) = (f, h)" by fastforce
  note cf = create_ok [OF inv _ _ f, simplified]
  have cf: "norm_inv q Q (st\<lparr>nodes := h\<rparr>)" "key f = key (Filter_Function 0 F_IDENTITY (- 1) [])" "f \<in> live h"
    using cf by (simp_all add: negated_class_def)
  obtain e h' where e: "create_like (Edgecov 0 f) h = (e, h')" by fastforce
  have ce: "norm_inv q Q (st\<lparr>nodes := h'\<rparr>)" "key e = key (Edgecov 0 f)" "e \<in> live h'"
    using create_ok [OF cf(1) _ _ , of "Edgecov 0 f" e h'] e cf(3) by (simp_all add: negated_class_def)
  have kinds: "is_filter f" "is_atom e" "is_pp e"
    using key_kinds(1) [OF cf(2)] key_kinds(2,3) [OF ce(2)] by (simp_all add: is_defs)
  have mean: "filter_meaning M f = of_filter_function M F_IDENTITY 0 []" "words M e = of_edges M (of_filter_function M F_IDENTITY 0 [])"
    using key_same(1) [OF cf(2), of M] key_same(2) [OF ce(2), of M] by (simp_all add: takes_int_def takes_none_def)
  have typed: "well_typed f" "well_typed e" using key_same(4) [OF cf(2)] key_same(4) [OF ce(2)] kinds(1) by simp_all
  have shape: "shaped f" using key_shaped [OF cf(2)] by (simp add: negated_class_def)
  then have shape: "shaped e" using key_shaped [OF ce(2)] kinds(1) typed(1) by (simp add: negated_class_def)
  have free: "query_free (Repeat 0 e 0 (- 1))" using typed(2) kinds(3) by (intro typed_query_free) simp_all
  obtain m where m: "key m = key (Repeat 0 e 0 (- 1))" "norm_inv q Q (create_into Top_Pp (Repeat 0 e 0 (- 1)) (st\<lparr>nodes := h'\<rparr>))"
      "ptr (create_into Top_Pp (Repeat 0 e 0 (- 1)) (st\<lparr>nodes := h'\<rparr>)) = (ptr st)(Top_Pp := Some m)"
    using create_into_ok [OF ce(1), of "Repeat 0 e 0 (- 1)" Top_Pp] ce(3) free none by (auto simp: negated_class_def)
  have "is_pp m" using key_kinds(3) [OF m(1)] by (simp add: kind_simps)
  moreover have "shaped m" using key_shaped [OF m(1)] kinds(3) typed(2) shape by (simp add: negated_class_def)
  moreover have "words M m = lstar (of_edges M (of_filter_function M F_IDENTITY 0 []))"
    using key_same(2) [OF m(1), of M] mean(2) by (simp add: lstar_def)
  ultimately show ?thesis using m(2,3) by (auto simp: left_def norm_any_path_def f e)
qed

text \<open>What the visit of a query leaves in the register.\<close>

lemma norm_query_ok:
  assumes inv: "norm_inv q Q st" and ptr: "ptr st = (\<lambda>r. None)" and q: "q = Query p None c y" "well_typed q" "plain q"
  shows "\<exists>m p' c' y'. m = Query p' None c' (Some y') \<and> shaped m \<and> query_meaning M m = query_meaning M q
    \<and> norm_inv q Q (norm_query q st) \<and> ptr (norm_query q st) = (\<lambda>r. None)(Top_Query := Some m)"
proof -
  have c: "is_cp c" "well_typed c" "plain c" and y: "\<And>x. y = Some x \<Longrightarrow> is_pp x \<and> well_typed x \<and> plain x"
    using q(2,3) plain_iff [of q] by (auto simp: q(1) query_typed)
  have st0: "assign Prefix None st = st" by (simp add: assign_def ptr)
  have "entered q Top_Cp Q st" using inv by (simp add: entered_def ptr)
  then have "left q Top_Cp Q st (image_of is_cp M c) ((move_to Top_Cp \<circ> norm_visit c) st)"
    using visit_cp [OF c, of q M] unfolding visits_def by blast
  then obtain c' where c': "norm_inv q Q (move_to Top_Cp (norm_visit c st))" "ptr (move_to Top_Cp (norm_visit c st)) = (\<lambda>r. None)(Top_Cp := Some c')"
      "image_of is_cp M c c'" unfolding left_def ptr comp_def by (elim conjE exE) (rule that)
  let ?st1 = "move_to Top_Cp (norm_visit c st)"
  have st1: "assign Prefix None ?st1 = ?st1" by (simp add: assign_def c'(2))
  define st2 where "st2 = (case y of None \<Rightarrow> norm_any_path ?st1 | Some x \<Rightarrow> move_to Top_Pp (norm_visit x ?st1))"
  have "left q Top_Pp Q ?st1 (\<lambda>m. is_pp m \<and> shaped m \<and> words M m = snd (query_meaning M q)) st2"
  proof (cases y)
    case None
    then show ?thesis using any_path_left [OF c'(1), of M] c'(2) by (simp add: st2_def q(1))
  next
    case (Some x)
    have "entered q Top_Pp Q ?st1" using c'(1,2) by (simp add: entered_def)
    then have "left q Top_Pp Q ?st1 (image_of is_pp M x) ((move_to Top_Pp \<circ> norm_visit x) ?st1)"
      using visit_pp [of x q M] y [OF Some] unfolding visits_def by blast
    then show ?thesis unfolding image_of_def by (simp add: st2_def Some q(1))
  qed
  then obtain y' where y': "norm_inv q Q st2" "ptr st2 = (\<lambda>r. None)(Top_Cp := Some c', Top_Pp := Some y')"
      "is_pp y'" "shaped y'" "words M y' = snd (query_meaning M q)"
    unfolding left_def c'(2) by (elim conjE exE) (rule that)
  have reg: "ptr st2 Top_Cp = Some c'" "ptr st2 Top_Pp = Some y'" "ptr st2 Top_Query = None" by (simp_all add: y'(2))
  let ?n = "Query 0 None c' (Some y')"
  have kids: "set (children ?n) \<subseteq> live (nodes st2)" using norm_inv_live(1) [OF y'(1)] reg(1,2) by simp
  obtain m where m: "key m = key ?n" "norm_inv q Q (create_into Top_Query ?n st2)" "ptr (create_into Top_Query ?n st2) = (ptr st2)(Top_Query := Some m)"
    using create_into_ok [OF y'(1) kids, of Top_Query] reg(3) by (auto simp: negated_class_def)
  let ?st3 = "create_into Top_Query ?n st2"
  note a1 = assign_None_ok [OF m(2), of Top_Filter, simplified]
  note a2 = assign_None_ok [OF a1(1), of Top_Cp, simplified]
  note a3 = assign_None_ok [OF a2(1), of Top_Pp, simplified]
  have "norm_query q st = assign Top_Pp None (assign Top_Cp None (assign Top_Filter None ?st3))"
    unfolding q(1) by (simp add: st0 st1 flip: st2_def) (simp add: reg Let_def)
  moreover have "ptr (assign Top_Pp None (assign Top_Cp None (assign Top_Filter None ?st3))) = (\<lambda>r. None)(Top_Query := Some m)"
    unfolding a3(2) a2(2) a1(2) m(3) y'(2) by (auto simp: fun_eq_iff)
  moreover have "m = with_addr (node_addr m) ?n" by (rule key_with_addr [OF m(1)]) simp
  then obtain p' where "m = Query p' None c' (Some y')" by simp
  moreover have "shaped m" using key_shaped [OF m(1)] image_ofD [OF c'(3)] y'(3,4) unfolding shaped_def by (auto simp: negated_class_def)
  moreover have "query_meaning M m = query_meaning M q"
    using key_same(3) [OF m(1), of M] image_ofD [OF c'(3)] y'(5) by (simp add: q(1))
  ultimately show ?thesis using a3(1) by metis
qed

lemma normalize_ok:
  assumes inv: "heap_inv Q h" and live: "q \<in> live h" and q: "q = Query p None c y" "well_typed q" "plain q"
    and run: "normalize q \<lparr>nodes = h, ptr = (\<lambda>r. None)\<rparr> = (m, st)"
  shows "heap_inv Q (nodes st) \<and> m \<in> live (nodes st) \<and> ptr st = (\<lambda>r. None) \<and> shaped m
    \<and> query_meaning M m = query_meaning M q \<and> (\<exists>p' c' y'. m = Query p' None c' (Some y'))"
proof -
  let ?s = "norm_query q \<lparr>nodes = h, ptr = (\<lambda>r. None)\<rparr>"
  have "norm_inv q Q \<lparr>nodes = h, ptr = (\<lambda>r. None)\<rparr>" using inv live by (simp add: norm_inv_def q(1))
  then obtain m' p' c' y' where m: "m' = Query p' None c' (Some y')" "shaped m'" "query_meaning M m' = query_meaning M q"
      "norm_inv q Q ?s" "ptr ?s = (\<lambda>r. None)(Top_Query := Some m')"
    using norm_query_ok [OF _ _ q, of Q _ M] by fastforce
  have h1: "heap_inv (\<lambda>n. Q n + holds (Some m') n) (nodes ?s)" "q \<in> live (nodes ?s)"
    using m(4) unfolding norm_inv_def m(5) by (simp_all add: held_def holds_def)
  define h2 where "h2 = (if m' = q then nodes ?s else snd (destroy q (nodes ?s)))"
  have h2: "heap_inv (\<lambda>n. Q n + holds (Some m') n) h2"
    by (cases "m' = q") (use h1 destroy_inv_aux [OF h1] in \<open>simp_all add: h2_def\<close>)
  have m2: "m' \<in> live h2" by (rule heap_invD(8) [OF h2]) (simp add: holds_def)
  let ?h3 = "incr_ref_count m' h2"
  have "heap_inv (\<lambda>n. Q n + holds (Some m') n + count_list [m'] n) ?h3" by (rule incr_ref_count_inv [OF h2 m2])
  then have h3: "heap_inv (\<lambda>n. (Q n + holds (Some m') n) + holds (Some m') n) ?h3" unfolding count_list_holds .
  let ?h4 = "snd (destroy m' (decr_ref_count m' ?h3))"
  note h4 = release_heap [OF h3]
  have m4: "m' \<in> live ?h4" by (rule heap_invD(8) [OF h4(1)]) (simp add: holds_def)
  have "heap_inv (\<lambda>n. Q n + count_list [m'] n) ?h4" using h4(1) unfolding count_list_holds .
  note h5 = decr_ref_count_inv [OF this, simplified]
  have "normalize q \<lparr>nodes = h, ptr = (\<lambda>r. None)\<rparr> = (m', \<lparr>nodes = decr_ref_count m' ?h4, ptr = (\<lambda>r. None)\<rparr>)"
    by (simp add: normalize_def Let_def m(5) h2_def assign_def release_def hold_def fun_eq_iff)
  then have "m = m'" "nodes st = decr_ref_count m' ?h4" "ptr st = (\<lambda>r. None)" using run by auto
  then show ?thesis using h5 m(1-3) m4 by auto
qed

section \<open>Properties\<close>

text \<open>A query without a passing clause, its operands out of order, as a parser hands it over.\<close>

definition sample_unordered :: "int fql_node \<times> int ast_heap" where
  "sample_unordered =
     (case create_like (Filter_Function 0 F_LINE 7 []) empty_heap of (a, h) \<Rightarrow>
      case create_like (Filter_Function 0 F_LINE 3 []) h of (b, h) \<Rightarrow>
      case create_like (Filter_Union 0 a b) h of (u, h) \<Rightarrow>
      case create_like (Edgecov 0 u) h of (e, h) \<Rightarrow> create_like (Query 0 None e None) h)"

lemma sample_unordered_ok:
  "\<exists>p c. fst sample_unordered = Query p None c None \<and> well_typed (fst sample_unordered) \<and> plain (fst sample_unordered)
    \<and> fst sample_unordered \<in> live (snd sample_unordered) \<and> heap_inv (\<lambda>_. 0) (snd sample_unordered)"
proof -
  obtain a h1 where 1: "create_like (Filter_Function 0 F_LINE 7 []) (empty_heap :: int ast_heap) = (a, h1)" by fastforce
  obtain b h2 where 2: "create_like (Filter_Function 0 F_LINE 3 []) h1 = (b, h2)" by fastforce
  obtain u h3 where 3: "create_like (Filter_Union 0 a b) h2 = (u, h3)" by fastforce
  obtain e h4 where 4: "create_like (Edgecov 0 u) h3 = (e, h4)" by fastforce
  obtain q h5 where 5: "create_like (Query 0 None e None) h4 = (q, h5)" by fastforce
  have c1: "heap_inv (\<lambda>_. 0) h1" "live h1 = {a}" "key a = key (Filter_Function 0 F_LINE 7 [])"
    using create_like_created [OF empty_heap_inv(2) _ _ 1] by (auto simp: created_def negated_class_def empty_heap_inv(1))
  have c2: "heap_inv (\<lambda>_. 0) h2" "live h2 = {b, a}" "key b = key (Filter_Function 0 F_LINE 3 [])"
    using create_like_created [OF c1(1) _ _ 2] by (auto simp: created_def negated_class_def c1(2))
  have c3: "heap_inv (\<lambda>_. 0) h3" "live h3 = {u, b, a}" "key u = key (Filter_Union 0 a b)"
    using create_like_created [OF c2(1) _ _ 3] by (auto simp: created_def negated_class_def c2(2))
  have c4: "heap_inv (\<lambda>_. 0) h4" "e \<in> live h4" "key e = key (Edgecov 0 u)"
    using create_like_created [OF c3(1) _ _ 4] by (auto simp: created_def negated_class_def c3(2))
  have c5: "heap_inv (\<lambda>_. 0) h5" "q \<in> live h5" "key q = key (Query 0 None e None)"
    using create_like_created [OF c4(1) _ _ 5] c4(2) by (auto simp: created_def negated_class_def)
  have kinds: "is_filter a" "is_filter b" "is_filter u" "is_cp e"
    using key_kinds(1) [OF c1(3)] key_kinds(1) [OF c2(3)] key_kinds(1) [OF c3(3)] key_kinds(4) [OF c4(3)] by (simp_all add: is_defs)
  have "well_typed q" using key_same(4) [OF c1(3)] key_same(4) [OF c2(3)] key_same(4) [OF c3(3)] key_same(4) [OF c4(3)] key_same(4) [OF c5(3)] kinds
    by simp
  moreover have "plain q" using key_plain [OF c1(3)] key_plain [OF c2(3)] key_plain [OF c3(3)] key_plain [OF c4(3)] key_plain [OF c5(3)]
    plain_iff [of "Filter_Function 0 F_LINE 7 []"] plain_iff [of "Filter_Function 0 F_LINE 3 []"] plain_iff [of "Filter_Union 0 a b"]
    plain_iff [of "Edgecov 0 u"] plain_iff [of "Query 0 None e None"]
    by (simp add: negated_class_def)
  moreover obtain p where "q = Query p None e None"
    using key_with_addr [OF c5(3)] by simp
  ultimately show ?thesis using c5 by (simp add: sample_unordered_def 1 2 3 4 5)
qed





end
