(* ===== verification/Multiple_Coverage.thy ===== *)
theory Multiple_Coverage
  imports Constraint_Strengthening Test_Suite_Minimization
begin

text \<open>
  The rounds of multiple coverage (\<open>FShell2::try_query\<close> in \<open>src/fshell2/main/fshell2.cpp\<close>):
  every round generates a test suite, minimizes it, and passes all test cases found so far on to
  the next round, whose test cases must differ from them. The clauses that exclude earlier test
  cases stay in the equation, so a later round adds them again.
\<close>

type_synonym coverage_round = "test_cases \<times> nat list \<times> generate_message list"

primrec coverage_rounds ::
  "'l sat_lib \<Rightarrow> (string \<times> 'l list) list \<Rightarrow> 'l list list \<Rightarrow> (assignment \<Rightarrow> nat list option)
    \<Rightarrow> bool \<Rightarrow> bool \<Rightarrow> nat \<Rightarrow> nat \<Rightarrow> 'l list list \<Rightarrow> test_cases \<Rightarrow> coverage_round list option" where
  "coverage_rounds L bv_map goals ctg use_sat use_internal_check limit 0 cnf all_test_cases = Some []"
| "coverage_rounds L bv_map goals ctg use_sat use_internal_check limit (Suc mult) cnf all_test_cases =
     (case generate L bv_map cnf goals ctg use_sat use_internal_check [] limit all_test_cases of
        None \<Rightarrow> None
      | Some (unsat, test_suite, msgs) \<Rightarrow>
          (case minimize L test_suite of
             None \<Rightarrow> None
           | Some suite \<Rightarrow>
               map_option (Cons (suite, unsat, msgs))
                 (coverage_rounds L bv_map goals ctg use_sat use_internal_check limit mult
                   (cnf @ exclude_previous L bv_map all_test_cases) (all_test_cases @ suite))))"

section \<open>Specification\<close>

text \<open>The models that differ from earlier test cases.\<close>

definition admissible ::
  "'l sat_lib \<Rightarrow> (string \<times> 'l list) list \<Rightarrow> 'l list list \<Rightarrow> test_cases \<Rightarrow> assignment \<Rightarrow> bool" where
  "admissible L bv_map cnf prev \<beta> \<longleftrightarrow> clauses_hold L \<beta> cnf \<and> (\<forall>tc \<in> set prev. \<not> agree L bv_map (snd tc) \<beta>)"

text \<open>One coverage check is in use; the internal one reports the goals that the same inputs can satisfy.\<close>

definition checked ::
  "'l sat_lib \<Rightarrow> (string \<times> 'l list) list \<Rightarrow> 'l list list \<Rightarrow> 'l list list \<Rightarrow> (assignment \<Rightarrow> nat list option) \<Rightarrow> bool \<Rightarrow> bool \<Rightarrow> bool" where
  "checked L bv_map cnf goals ctg use_sat use_int \<longleftrightarrow> (use_sat \<or> use_int)
     \<and> (use_int \<longrightarrow> (\<forall>\<beta>. clauses_hold L \<beta> cnf \<longrightarrow> (\<exists>tgs. ctg \<beta> = Some tgs
          \<and> (\<forall>g < length goals. goal_holds L goals \<beta> g \<longrightarrow> g \<in> set tgs)
          \<and> (\<forall>g \<in> set tgs. \<exists>\<gamma>. clauses_hold L \<gamma> cnf \<and> agree L bv_map \<beta> \<gamma> \<and> goal_holds L goals \<gamma> g))))"

definition round_ok ::
  "'l sat_lib \<Rightarrow> (string \<times> 'l list) list \<Rightarrow> 'l list list \<Rightarrow> 'l list list \<Rightarrow> test_cases \<Rightarrow> coverage_round \<Rightarrow> bool" where
  "round_ok L bv_map cnf goals prev = (\<lambda>(suite, unsat, msgs).
     (\<forall>tc \<in> set suite. admissible L bv_map cnf prev (snd tc) \<and> (\<forall>g \<in> set (fst tc).
        \<exists>\<gamma>. admissible L bv_map cnf prev \<gamma> \<and> agree L bv_map (snd tc) \<gamma> \<and> goal_holds L goals \<gamma> g))
     \<and> set unsat = {g. g < length goals \<and> (\<forall>\<beta>. admissible L bv_map cnf prev \<beta> \<longrightarrow> \<not> goal_holds L goals \<beta> g)}
     \<and> {..<length goals} - set unsat \<subseteq> suite_goals suite
     \<and> (\<forall>T. subseq T suite \<and> suite_goals T = suite_goals suite \<longrightarrow> length suite \<le> max 1 (length T)))"

primrec rounds_ok ::
  "'l sat_lib \<Rightarrow> (string \<times> 'l list) list \<Rightarrow> 'l list list \<Rightarrow> 'l list list \<Rightarrow> test_cases \<Rightarrow> coverage_round list \<Rightarrow> bool" where
  "rounds_ok L bv_map cnf goals prev [] \<longleftrightarrow> True"
| "rounds_ok L bv_map cnf goals prev (r # rs) \<longleftrightarrow>
     round_ok L bv_map cnf goals prev r \<and> rounds_ok L bv_map cnf goals (prev @ fst r) rs"

lemma agree_sym: "agree L bv_map \<alpha> \<beta> \<Longrightarrow> agree L bv_map \<beta> \<alpha>"
  unfolding agree_def by fastforce

lemma agree_trans: "agree L bv_map \<alpha> \<beta> \<Longrightarrow> agree L bv_map \<beta> \<gamma> \<Longrightarrow> agree L bv_map \<alpha> \<gamma>"
  unfolding agree_def by fastforce

lemma admissible_agree:
  "admissible L bv_map cnf prev \<beta> \<Longrightarrow> clauses_hold L \<gamma> cnf \<Longrightarrow> agree L bv_map \<beta> \<gamma> \<Longrightarrow> admissible L bv_map cnf prev \<gamma>"
  unfolding admissible_def by (meson agree_sym agree_trans)

context sat_library
begin

lemma generate_round:
  assumes one: "\<And>\<beta>. clauses_hold L \<beta> cnf \<Longrightarrow> \<exists>!g. g < length goals \<and> goal_holds L goals \<beta> g"
    and mode: "checked L bv_map cnf goals ctg use_sat use_int"
    and cnf: "\<And>\<beta>. clauses_hold L \<beta> (cnf' @ exclude_previous L bv_map prev) \<longleftrightarrow> admissible L bv_map cnf prev \<beta>"
  shows "\<exists>unsat tcs msgs suite. generate L bv_map cnf' goals ctg use_sat use_int [] 0 prev = Some (unsat, tcs, msgs)
    \<and> minimize L tcs = Some suite \<and> round_ok L bv_map cnf goals prev (suite, unsat, msgs)"
proof -
  let ?cnf = "cnf' @ exclude_previous L bv_map prev"
  have adm: "clauses_hold L \<beta> cnf" if "admissible L bv_map cnf prev \<beta>" for \<beta> using that by (simp add: admissible_def)
  have some: "\<exists>g < length goals. goal_holds L goals \<beta> g" if "clauses_hold L \<beta> ?cnf" for \<beta>
    using one adm that unfolding cnf by blast
  have mode': "use_sat \<or> use_int \<and> (\<forall>\<beta>. clauses_hold L \<beta> ?cnf \<longrightarrow>
      (\<exists>tgs. ctg \<beta> = Some tgs \<and> (\<forall>g < length goals. goal_holds L goals \<beta> g \<longrightarrow> g \<in> set tgs)))"
    using mode adm unfolding cnf checked_def by blast
  obtain unsat tcs where run: "generate_loop L bv_map ?cnf goals ctg use_sat use_int 0 [0..<length goals] [] ?cnf [] = Some (unsat, [] @ tcs)"
    and sub: "set unsat \<subseteq> {..<length goals}" and rec: "list_all (recorded L bv_map ?cnf goals ctg use_int) tcs"
    and done': "{..<length goals} - set unsat \<subseteq> (\<Union>tc \<in> set tcs. set (fst tc))"
    and fin: "unsat = [] \<or> 0 < (0::nat) \<and> 0 \<le> length ([] @ tcs)
      \<or> (\<forall>\<beta>. clauses_hold L \<beta> ?cnf \<longrightarrow> (\<exists>g < length goals. g \<notin> set unsat \<and> goal_holds L goals \<beta> g))"
    by (rule generate_loop_start [OF some mode', of bv_map 0 "[]"]) (assumption, rule that)
  obtain suite where suite: "minimize L tcs = Some suite" "subseq suite tcs" "suite_goals suite = suite_goals tcs"
      "\<forall>T. subseq T tcs \<and> suite_goals T = suite_goals tcs \<longrightarrow> length suite \<le> max 1 (length T)"
    using minimize_smallest by blast
  have good: "admissible L bv_map cnf prev (snd tc) \<and> (\<forall>g \<in> set (fst tc).
      \<exists>\<gamma>. admissible L bv_map cnf prev \<gamma> \<and> agree L bv_map (snd tc) \<gamma> \<and> goal_holds L goals \<gamma> g)" if tc: "tc \<in> set tcs" for tc
  proof (intro conjI ballI)
    have r: "recorded L bv_map ?cnf goals ctg use_int tc" using rec tc by (simp add: list_all_iff)
    show a: "admissible L bv_map cnf prev (snd tc)" using r unfolding recorded_def cnf by blast
    fix g assume g: "g \<in> set (fst tc)"
    then consider tgs where "use_int" "ctg (snd tc) = Some tgs" "g \<in> set tgs"
      | \<gamma> where "clauses_hold L \<gamma> ?cnf" "agree L bv_map (snd tc) \<gamma>" "goal_holds L goals \<gamma> g"
      using r unfolding recorded_def by blast
    then show "\<exists>\<gamma>. admissible L bv_map cnf prev \<gamma> \<and> agree L bv_map (snd tc) \<gamma> \<and> goal_holds L goals \<gamma> g"
    proof cases
      case (1 tgs)
      then have "\<exists>\<gamma>. clauses_hold L \<gamma> cnf \<and> agree L bv_map (snd tc) \<gamma> \<and> goal_holds L goals \<gamma> g"
        using mode adm [OF a] unfolding checked_def by fastforce
      then show ?thesis using admissible_agree [OF a] by blast
    next
      case (2 \<gamma>)
      then show ?thesis unfolding cnf by blast
    qed
  qed
  have "\<not> goal_holds L goals \<beta> g" if g: "g \<in> set unsat" and \<beta>: "admissible L bv_map cnf prev \<beta>" for g \<beta>
  proof
    assume holds: "goal_holds L goals \<beta> g"
    obtain h where "h < length goals" "h \<notin> set unsat" "goal_holds L goals \<beta> h" using fin g \<beta> unfolding cnf by auto
    moreover have "g < length goals" using sub g by auto
    ultimately show False using one [OF adm [OF \<beta>]] holds g by metis
  qed
  moreover have "\<exists>\<beta>. admissible L bv_map cnf prev \<beta> \<and> goal_holds L goals \<beta> g" if "g < length goals" "g \<notin> set unsat" for g
    using done' good that by blast
  ultimately have unsat: "set unsat = {g. g < length goals \<and> (\<forall>\<beta>. admissible L bv_map cnf prev \<beta> \<longrightarrow> \<not> goal_holds L goals \<beta> g)}"
    using sub by blast
  have "set suite \<subseteq> set tcs" using list_emb_set [OF suite(2)] by blast
  moreover have "{..<length goals} - set unsat \<subseteq> suite_goals suite" using done' unfolding suite(3) by (simp add: suite_goals_def)
  moreover have "length suite \<le> max 1 (length T)" if "subseq T suite" "suite_goals T = suite_goals suite" for T
    using suite(2-4) that subseq_order.trans by metis
  ultimately have "round_ok L bv_map cnf goals prev (suite, unsat, msgs)" for msgs
    using good unsat unfolding round_ok_def by auto
  then show ?thesis using run suite(1) by (simp add: generate_def)
qed

lemma coverage_rounds_correct:
  assumes one: "\<And>\<beta>. clauses_hold L \<beta> cnf \<Longrightarrow> \<exists>!g. g < length goals \<and> goal_holds L goals \<beta> g"
    and mode: "checked L bv_map cnf goals ctg use_sat use_int"
    and "\<And>\<beta>. clauses_hold L \<beta> (cnf' @ exclude_previous L bv_map prev) \<longleftrightarrow> admissible L bv_map cnf prev \<beta>"
  shows "\<exists>rounds. coverage_rounds L bv_map goals ctg use_sat use_int 0 mult cnf' prev = Some rounds
    \<and> length rounds = mult \<and> rounds_ok L bv_map cnf goals prev rounds"
  using assms(3)
proof (induction mult arbitrary: cnf' prev)
  case (Suc mult)
  obtain unsat tcs msgs suite where r: "generate L bv_map cnf' goals ctg use_sat use_int [] 0 prev = Some (unsat, tcs, msgs)"
      "minimize L tcs = Some suite" "round_ok L bv_map cnf goals prev (suite, unsat, msgs)"
    using generate_round [OF one mode Suc.prems] by blast
  have "clauses_hold L \<beta> ((cnf' @ exclude_previous L bv_map prev) @ exclude_previous L bv_map (prev @ suite))
      \<longleftrightarrow> admissible L bv_map cnf (prev @ suite) \<beta>" for \<beta>
    using Suc.prems [of \<beta>] by (auto simp: admissible_def exclude_hold split_beta)
  from Suc.IH [OF this] obtain rounds where
    "coverage_rounds L bv_map goals ctg use_sat use_int 0 mult (cnf' @ exclude_previous L bv_map prev) (prev @ suite) = Some rounds"
    "length rounds = mult" "rounds_ok L bv_map cnf goals (prev @ suite) rounds" by blast
  then show ?case using r by simp
qed simp

end

section \<open>Properties\<close>



end
