(* ===== verification/Command_Processing.thy ===== *)
theory Command_Processing
  imports Fshell_Prelude
begin

text \<open>
  The control commands (\<open>src/fshell2/command/command_processing.cpp\<close>): the state they keep
  beside CBMC's language manager, the effect of each command, exceptions included, and the
  preparation of the program before a query.

  The parser of the command language is generated, and files, symbols and goto functions belong to
  CBMC: the operations on them that the code calls are the record \<open>cmd_lib\<close>. What a command
  prints is returned next to its result, since the output before an exception has happened.
\<close>

section \<open>Commands and states\<close>

datatype parsed_command =
  FAIL | CMD_QUIT | CMD_HELP | CMD_ADD_SOURCECODE | CMD_SHOW_FILENAMES | CMD_SHOW_SOURCECODE
| CMD_SHOW_SOURCECODE_ALL | CMD_SET_ENTRY | CMD_SET_LIMIT_COUNT | CMD_SET_NO_ZERO_INIT
| CMD_SET_ABSTRACT | CMD_SET_MULTIPLE_COVERAGE

datatype cmd_status = NO_CONTROL_COMMAND | QUIT | HELP | DONE

record command =
  parsed_cmd :: parsed_command
  arg :: string
  numeric_arg :: int
  new_defines :: "(string \<times> string) list"

text \<open>A statement of a function body, as far as the removal of initializers looks at it.\<close>

record 'x statement =
  is_assign :: bool
  st_file :: string
  zero_initializer :: bool
  st_rest :: 'x

record 'x symbolt =
  is_code :: bool
  sym_value :: "'x statement list option"

type_synonym 'x symbol_table = "(string \<times> 'x symbolt) list"
type_synonym 'g goto_functions = "string \<rightharpoonup> 'g option"

text \<open>
  The library: a failed parse or type check returns \<open>True\<close>, a function without body is
  \<open>None\<close> in the map of functions.
\<close>

record ('f, 'x, 'g) cmd_lib =
  parse_command :: "string \<Rightarrow> command option"
  parse_file :: "string list \<Rightarrow> string \<Rightarrow> bool \<times> (string \<times> 'f) list"
  typecheck_files :: "(string \<times> 'f) list \<Rightarrow> 'x symbol_table \<Rightarrow> bool \<times> 'x symbol_table"
  entry_point :: "string \<Rightarrow> 'x symbol_table \<Rightarrow> bool \<times> 'x symbol_table"
  model_argv :: "nat \<Rightarrow> 'x symbol_table \<Rightarrow> 'x symbol_table"
  convert_function :: "string \<Rightarrow> 'x symbol_table \<times> 'g goto_functions \<Rightarrow> 'x symbol_table \<times> 'g goto_functions"
  remove_function_pointers :: "'x symbol_table \<times> 'g goto_functions \<Rightarrow> 'x symbol_table \<times> 'g goto_functions"
  goto_partial_inline :: "'x symbol_table \<times> 'g goto_functions \<Rightarrow> 'x symbol_table \<times> 'g goto_functions"
  goto_check :: "'x symbol_table \<times> 'g goto_functions \<Rightarrow> 'x symbol_table \<times> 'g goto_functions"
  add_failed_symbols :: "'x symbol_table \<times> 'g goto_functions \<Rightarrow> 'x symbol_table \<times> 'g goto_functions"
  update_numbers :: "'x symbol_table \<times> 'g goto_functions \<Rightarrow> 'x symbol_table \<times> 'g goto_functions"
  compute_loop_numbers :: "'x symbol_table \<times> 'g goto_functions \<Rightarrow> 'x symbol_table \<times> 'g goto_functions"
  max_argc :: nat

text \<open>What the operating system answers while one command is processed.\<close>

record os_env =
  time_now :: nat
  stat_mtime :: "string \<Rightarrow> nat option"
  file_contents :: "string \<Rightarrow> string option"

record ('f, 'x, 'g) cmd_state =
  config_main :: string
  ansi_defines :: "string list"
  opt_limit :: nat
  opt_multiple_coverage :: nat
  filemap :: "(string \<times> 'f) list"
  symbols :: "'x symbol_table"
  function_map :: "'g goto_functions"
  m_parse_time :: "string \<rightharpoonup> nat"
  m_finalized :: bool
  m_remove_zero_init :: bool

section \<open>Operations\<close>

definition is_space :: "char \<Rightarrow> bool" where
  "is_space c \<longleftrightarrow> c = CHR '' '' \<or> of_char c \<in> {9..13 :: nat}"

abbreviation newline :: char where
  "newline \<equiv> CHR 0x0A"

text \<open>The lines that a loop over \<open>getline\<close> sees that ends when the end of the file is met.\<close>

fun getline_lines :: "string \<Rightarrow> string \<Rightarrow> string list" where
  "getline_lines line [] = []"
| "getline_lines line (c # cs) = (if c = newline then line # getline_lines [] cs else getline_lines (line @ [c]) cs)"

fun nat_digits :: "nat \<Rightarrow> string" where
  "nat_digits n = (if n < 10 then [char_of (48 + n)] else nat_digits (n div 10) @ [char_of (48 + n mod 10)])"

primrec number_lines :: "nat \<Rightarrow> string list \<Rightarrow> string" where
  "number_lines lc [] = []"
| "number_lines lc (line # lines) =
     nat_digits (Suc lc) @ [CHR 0x09] @ '' '' @ line @ [newline] @ number_lines (Suc lc) lines"

definition print_file_contents ::
  "os_env \<Rightarrow> string \<Rightarrow> ('f, 'x, 'g) cmd_state \<Rightarrow> string \<times> (fshell_error + unit)" where
  "print_file_contents env name st =
     (case (case m_parse_time st name of
              None \<Rightarrow> (''WARNING: parse time of '' @ name
                @ '' unknown, internal data may be inconsistent with file on disk!'' @ [newline], Inr ())
            | Some t \<Rightarrow>
                (case stat_mtime env name of
                   None \<Rightarrow> ([], Inl Command_Processing_Error)
                 | Some mtime \<Rightarrow> ([], if mtime \<le> t then Inr () else Inl Command_Processing_Error))) of
        (out, Inl e) \<Rightarrow> (out, Inl e)
      | (out, Inr _) \<Rightarrow>
          (case file_contents env name of
             None \<Rightarrow> (out, Inl Command_Processing_Error)
           | Some text \<Rightarrow> (out @ number_lines 0 (getline_lines [] text), Inr ())))"

primrec print_files ::
  "os_env \<Rightarrow> string list \<Rightarrow> ('f, 'x, 'g) cmd_state \<Rightarrow> string \<times> (fshell_error + unit)" where
  "print_files env [] st = ([], Inr ())"
| "print_files env (name # names) st =
     (case print_file_contents env name st of
        (out, Inl e) \<Rightarrow> (out, Inl e)
      | (out, Inr _) \<Rightarrow> (case print_files env names st of (out', r) \<Rightarrow> (out @ out', r)))"

text \<open>\<open>std::map::insert\<close> of a range: present keys are kept.\<close>

definition map_insert_range :: "('k::linorder \<times> 'v) list \<Rightarrow> ('k \<times> 'v) list \<Rightarrow> ('k \<times> 'v) list" where
  "map_insert_range prev m = fold (\<lambda>(k, v) m. if k \<in> fst ` set m then m else insort_key fst (k, v) m) prev m"

definition add_sourcecode ::
  "('f, 'x, 'g) cmd_lib \<Rightarrow> os_env \<Rightarrow> string \<Rightarrow> (string \<times> string) list \<Rightarrow> ('f, 'x, 'g) cmd_state
    \<Rightarrow> (fshell_error + unit) \<times> ('f, 'x, 'g) cmd_state" where
  "add_sourcecode L env file defs st =
     (let last_global = (if ansi_defines st = [] then None else Some (length (ansi_defines st) - 1));
          st = st\<lparr>ansi_defines := ansi_defines st @ map (\<lambda>(ident, def). ident @ ''='' @ def) defs\<rparr>;
          prev_files = filemap st;
          st = st\<lparr>m_parse_time := (m_parse_time st)(file \<mapsto> time_now env)\<rparr>;
          (err, files) = parse_file L (ansi_defines st) file;
          st = (case last_global of None \<Rightarrow> st | Some i \<Rightarrow> st\<lparr>ansi_defines := take (i + 1) (ansi_defines st)\<rparr>)
      in if err then (Inl Command_Processing_Error, st\<lparr>filemap := prev_files\<rparr>)
         else
           case typecheck_files L files (symbols st) of
             (True, syms) \<Rightarrow> (Inl Command_Processing_Error, st\<lparr>symbols := syms, filemap := prev_files\<rparr>)
           | (False, syms) \<Rightarrow>
               (Inr (), st\<lparr>symbols := syms, filemap := map_insert_range prev_files files, m_finalized := False\<rparr>))"

definition make_nil :: "string \<Rightarrow> 'x symbol_table \<Rightarrow> 'x symbol_table" where
  "make_nil name = map (\<lambda>(n, s). (n, if n = name then s\<lparr>sym_value := None\<rparr> else s))"

definition execute ::
  "('f, 'x, 'g) cmd_lib \<Rightarrow> os_env \<Rightarrow> command \<Rightarrow> ('f, 'x, 'g) cmd_state
    \<Rightarrow> string \<times> (fshell_error + cmd_status) \<times> ('f, 'x, 'g) cmd_state" where
  "execute L env c st =
     (case parsed_cmd c of
        FAIL \<Rightarrow> ([], Inr NO_CONTROL_COMMAND, st)
      | CMD_HELP \<Rightarrow> ([], Inr HELP, st)
      | CMD_QUIT \<Rightarrow> ([], Inr QUIT, st)
      | CMD_ADD_SOURCECODE \<Rightarrow>
          (case add_sourcecode L env (arg c) (new_defines c) st of
             (Inl e, st) \<Rightarrow> ([], Inl e, st) | (Inr _, st) \<Rightarrow> ([], Inr DONE, st))
      | CMD_SHOW_FILENAMES \<Rightarrow> (concat (map (\<lambda>(name, _). name @ [newline]) (filemap st)), Inr DONE, st)
      | CMD_SHOW_SOURCECODE \<Rightarrow>
          (case print_file_contents env (arg c) st of
             (out, Inl e) \<Rightarrow> (out, Inl e, st) | (out, Inr _) \<Rightarrow> (out, Inr DONE, st))
      | CMD_SHOW_SOURCECODE_ALL \<Rightarrow>
          (case print_files env (map fst (filemap st)) st of
             (out, Inl e) \<Rightarrow> (out, Inl e, st) | (out, Inr _) \<Rightarrow> (out, Inr DONE, st))
      | CMD_SET_ENTRY \<Rightarrow> ([], Inr DONE, st\<lparr>config_main := arg c, m_finalized := False\<rparr>)
      | CMD_SET_LIMIT_COUNT \<Rightarrow>
          if numeric_arg c > 0 then ([], Inr DONE, st\<lparr>opt_limit := nat (numeric_arg c)\<rparr>)
          else ([], Inl Command_Processing_Error, st)
      | CMD_SET_NO_ZERO_INIT \<Rightarrow> ([], Inr DONE, st\<lparr>m_remove_zero_init := True, m_finalized := False\<rparr>)
      | CMD_SET_ABSTRACT \<Rightarrow>
          if arg c \<in> fst ` set (symbols st)
          then ([], Inr DONE, st\<lparr>symbols := make_nil (arg c) (symbols st), m_finalized := False\<rparr>)
          else ([], Inl Command_Processing_Error, st)
      | CMD_SET_MULTIPLE_COVERAGE \<Rightarrow>
          if numeric_arg c > 1 then ([], Inr DONE, st\<lparr>opt_multiple_coverage := nat (numeric_arg c)\<rparr>)
          else ([], Inl Command_Processing_Error, st))"

definition process ::
  "('f, 'x, 'g) cmd_lib \<Rightarrow> os_env \<Rightarrow> string \<Rightarrow> ('f, 'x, 'g) cmd_state
    \<Rightarrow> string \<times> (fshell_error + cmd_status) \<times> ('f, 'x, 'g) cmd_state" where
  "process L env line st =
     (let cmd = dropWhile is_space line
      in if cmd = [] \<or> take 2 cmd = ''//'' then ([], Inr DONE, st)
         else case parse_command L cmd of None \<Rightarrow> ([], Inr NO_CONTROL_COMMAND, st) | Some c \<Rightarrow> execute L env c st)"

section \<open>Preparation of the program\<close>

definition remove_zero_init :: "'x symbol_table \<Rightarrow> 'x symbol_table" where
  "remove_zero_init =
     map (\<lambda>(n, s). (n, if n = ''__CPROVER_initialize''
       then s\<lparr>sym_value := map_option (filter (\<lambda>i. \<not> (is_assign i \<and> st_file i \<noteq> ''<built-in>'' \<and> zero_initializer i))) (sym_value s)\<rparr>
       else s))"

text \<open>
  A function is converted unless the map has a body for it; the entry function is always
  converted, and a function that has been made abstract loses its body.
\<close>

definition convert_symbol ::
  "('f, 'x, 'g) cmd_lib \<Rightarrow> string \<Rightarrow> 'x symbol_table \<times> 'g goto_functions \<Rightarrow> 'x symbol_table \<times> 'g goto_functions" where
  "convert_symbol L name = (\<lambda>(syms, gf).
     case gf name of
       None \<Rightarrow> convert_function L name (syms, gf)
     | Some body \<Rightarrow>
         if name \<noteq> ''_start'' \<and> body \<noteq> None \<and> (\<exists>s. map_of syms name = Some s \<and> sym_value s \<noteq> None) then (syms, gf)
         else convert_function L name (syms, gf(name := None)))"

definition finalize_goto_program ::
  "('f, 'x, 'g) cmd_lib \<Rightarrow> 'x symbol_table \<times> 'g goto_functions \<Rightarrow> 'x symbol_table \<times> 'g goto_functions" where
  "finalize_goto_program L prg =
     compute_loop_numbers L (update_numbers L (add_failed_symbols L (goto_check L (goto_partial_inline L
       (remove_function_pointers L prg)))))"

definition finalize ::
  "('f, 'x, 'g) cmd_lib \<Rightarrow> ('f, 'x, 'g) cmd_state \<Rightarrow> (fshell_error + bool) \<times> ('f, 'x, 'g) cmd_state" where
  "finalize L st =
     (if symbols st = [] then (Inl Command_Processing_Error, st)
      else if config_main st \<notin> fst ` set (symbols st) then (Inl Command_Processing_Error, st)
      else if m_finalized st then (Inr False, st)
      else
        (let (failed, syms) = entry_point L (config_main st) (filter (\<lambda>(n, s). n \<noteq> ''_start'') (symbols st));
             syms = (if m_remove_zero_init st then remove_zero_init syms else syms);
             syms = (if max_argc L > 0 \<and> config_main st = ''main'' \<and> ''argc'' @ [CHR 0x27] \<in> fst ` set syms
               then model_argv L (max_argc L) syms else syms);
             code = map fst (filter (\<lambda>(n, s). is_code s) syms);
             (syms, gf) = finalize_goto_program L (fold (convert_symbol L) code (syms, function_map st))
         in (Inr True, st\<lparr>m_finalized := \<not> failed, symbols := syms, function_map := gf\<rparr>)))"

text \<open>The constructor, which also completes CBMC's configuration.\<close>

definition init_cmd ::
  "('f, 'x, 'g) cmd_lib \<Rightarrow> ('f, 'x, 'g) cmd_state \<Rightarrow> ('f, 'x, 'g) cmd_state" where
  "init_cmd L st =
     st\<lparr>m_finalized := (config_main st = [] \<and> max_argc L = 0), m_remove_zero_init := False,
       config_main := (if config_main st = [] then ''main'' else config_main st),
       opt_limit := 0, opt_multiple_coverage := 1, m_parse_time := Map.empty\<rparr>"

section \<open>Changes of the program\<close>

text \<open>What the preparation of the program depends on and results in.\<close>

definition program :: "('f, 'x, 'g) cmd_state \<Rightarrow> string \<times> 'x symbol_table \<times> bool \<times> 'g goto_functions" where
  "program st = (config_main st, symbols st, m_remove_zero_init st, function_map st)"

lemma add_sourcecode_cases:
  assumes "add_sourcecode L env file defs st = (r, st')"
  shows "ansi_defines st' = (if ansi_defines st = [] then map (\<lambda>(ident, def). ident @ ''='' @ def) defs else ansi_defines st)"
    and "function_map st' = function_map st" "config_main st' = config_main st" "m_remove_zero_init st' = m_remove_zero_init st"
    and "r = Inr () \<and> \<not> m_finalized st' \<or> r = Inl Command_Processing_Error \<and> filemap st' = filemap st \<and> m_finalized st' = m_finalized st
      \<and> (symbols st' = symbols st \<or> (\<exists>files. typecheck_files L files (symbols st) = (True, symbols st')))"
  using assms by (auto simp: add_sourcecode_def Let_def split: if_splits option.splits bool.splits prod.splits)

text \<open>A failed type check that leaves the symbol table as it was.\<close>

definition typecheck_atomic :: "('f, 'x, 'g) cmd_lib \<Rightarrow> bool" where
  "typecheck_atomic L \<longleftrightarrow> (\<forall>files syms syms'. typecheck_files L files syms = (True, syms') \<longrightarrow> syms' = syms)"

lemma add_sourcecode_program:
  assumes "add_sourcecode L env file defs st = (r, st')" "typecheck_atomic L" "m_finalized st'"
  shows "m_finalized st \<and> program st' = program st"
proof -
  note c = add_sourcecode_cases [OF assms(1)]
  have "r = Inl Command_Processing_Error" "m_finalized st' = m_finalized st" "symbols st' = symbols st"
    using c(5) assms(2,3) unfolding typecheck_atomic_def by auto
  then show ?thesis using c(2-4) assms(3) by (simp add: program_def)
qed

lemma execute_program:
  assumes "typecheck_atomic L" "execute L env c st = (out, r, st')" "m_finalized st'"
  shows "m_finalized st \<and> program st' = program st"
proof (cases "parsed_cmd c = CMD_ADD_SOURCECODE")
  case True
  then obtain r' where "add_sourcecode L env (arg c) (new_defines c) st = (r', st')"
    using assms(2) by (auto simp: execute_def split: prod.splits sum.splits)
  then show ?thesis using add_sourcecode_program assms(1,3) by blast
next
  case False
  then show ?thesis using assms(2,3)
    by (cases "parsed_cmd c") (auto simp: execute_def program_def split: prod.splits sum.splits if_splits)
qed

lemma process_program:
  assumes "typecheck_atomic L" "process L env line st = (out, r, st')" "m_finalized st'"
  shows "m_finalized st \<and> program st' = program st"
  using assms execute_program [OF assms(1) _ assms(3)]
  by (auto simp: process_def Let_def split: if_splits option.splits)

lemma finalize_again: "finalize L st = (r, st') \<Longrightarrow> r \<noteq> Inr True \<Longrightarrow> st' = st"
  by (auto simp: finalize_def Let_def split: if_splits prod.splits)

lemma finalize_flag: "finalize L st = (Inr False, st') \<Longrightarrow> m_finalized st"
  by (auto simp: finalize_def Let_def split: if_splits prod.splits)

lemma finalize_fields:
  "finalize L st = (r, st') \<Longrightarrow> config_main st' = config_main st \<and> m_remove_zero_init st' = m_remove_zero_init st"
  by (auto simp: finalize_def Let_def split: if_splits prod.splits)

lemma add_sourcecode_files:
  assumes "add_sourcecode L env path defs st = (Inr (), st')"
  shows "\<exists>files. parse_file L (ansi_defines st @ map (\<lambda>(ident, def). ident @ ''='' @ def) defs) path = (False, files)
    \<and> filemap st' = map_insert_range (filemap st) files"
  using assms by (auto simp: add_sourcecode_def Let_def split: if_splits option.splits bool.splits prod.splits)

lemma set_map_insert_range: "fst ` set (map_insert_range prev files) = fst ` set prev \<union> fst ` set files"
proof -
  have "fst ` set (fold (\<lambda>(k, v) m. if k \<in> fst ` set m then m else insort_key fst (k, v) m) prev m) = fst ` set prev \<union> fst ` set m" for m
  proof (induction prev arbitrary: m)
    case (Cons kv prev)
    obtain k v where kv: "kv = (k, v)" by fastforce
    have "fst ` set (if k \<in> fst ` set m then m else insort_key fst (k, v) m) = insert k (fst ` set m)"
      by (auto simp: set_insort_key)
    then show ?case using Cons.IH by (simp add: kv)
  qed simp
  then show ?thesis by (simp add: map_insert_range_def)
qed

text \<open>
  When a program is given on the command line, two instances are constructed one after the other;
  the first one fills in the default entry function, so the second one never starts prepared and
  the program is prepared again.
\<close>

lemma second_instance_not_finalized: "\<not> m_finalized (init_cmd L (init_cmd L st))"
  by (simp add: init_cmd_def)

section \<open>Properties\<close>


end
