(* ===== verification/Macro_Processing.thy ===== *)
theory Macro_Processing
  imports Command_Processing
begin

text \<open>
  Macros (\<open>src/fshell2/macro/macro_processing.cpp\<close>). Definitions are collected in one file; a
  second file is what the C preprocessor is run on, to check a definition or to expand a line. The
  preprocessor is a parameter: from the contents of the two files it yields its output, its error
  output and its exit status.
\<close>

record macro_env =
  run_cpp :: "string \<Rightarrow> string \<Rightarrow> string \<times> string \<times> int"
  m_deffilename :: string

record macro_state =
  m_has_defines :: bool
  deffile :: string
  checkfile :: string

definition init_macro :: macro_state where
  "init_macro = \<lparr>m_has_defines = False, deffile = ''// FShell macro list'' @ [newline], checkfile = ''// FShell macro test list'' @ [newline]\<rparr>"

text \<open>\<open>std::string::find\<close>, returning the rest of the text from the first match on.\<close>

fun find_from :: "string \<Rightarrow> string \<Rightarrow> string option" where
  "find_from pat text =
     (if take (length pat) text = pat then Some text
      else case text of [] \<Rightarrow> None | _ # rest \<Rightarrow> find_from pat rest)"

declare find_from.simps [simp del]

definition preprocess :: "macro_env \<Rightarrow> macro_state \<Rightarrow> string \<times> int" where
  "preprocess E st =
     (case run_cpp E (checkfile st) (deffile st) of (out, err, status) \<Rightarrow>
        if err \<noteq> [] then (case find_from ''error:'' err of None \<Rightarrow> err | Some text \<Rightarrow> text, 1)
        else (concat (map (\<lambda>line. line @ [newline])
               (filter (\<lambda>line. line \<noteq> [] \<and> hd line \<noteq> CHR ''#'') (getline_lines [] out))), status))"

definition to_lower :: "char \<Rightarrow> char" where
  "to_lower c = (if of_char c \<in> {65..90 :: nat} then char_of (of_char c + 32 :: nat) else c)"

definition is_define :: "string \<Rightarrow> bool" where
  "is_define cmd \<longleftrightarrow> length cmd > 7 \<and> map to_lower (take 6 (tl cmd)) = ''define'' \<and> is_space (cmd ! 7)"

definition definition_line :: "string \<Rightarrow> string" where
  "definition_line cmd = ''#define'' @ drop 7 cmd @ [newline]"

text \<open>The part of a text before the first newline.\<close>

definition first_line :: "string \<Rightarrow> string" where
  "first_line = takeWhile (\<lambda>c. c \<noteq> newline)"

definition expand :: "macro_env \<Rightarrow> string \<Rightarrow> macro_state \<Rightarrow> (fshell_error + string) \<times> macro_state" where
  "expand E line st =
     (let cmd = dropWhile is_space line
      in if cmd \<noteq> [] \<and> hd cmd = CHR ''#'' then
           (if is_define cmd then
              (let st = st\<lparr>checkfile := deffile st @ definition_line cmd\<rparr>
               in if snd (preprocess E st) \<noteq> 0 then (Inl Macro_Processing_Error, st)
                  else (Inr [], st\<lparr>deffile := deffile st @ definition_line cmd, m_has_defines := True\<rparr>))
            else (Inr cmd, st))
         else if \<not> m_has_defines st then (Inr cmd, st)
         else
           (let st = st\<lparr>checkfile := ''#include '' @ [CHR 0x22] @ m_deffilename E @ [CHR 0x22, newline] @ cmd @ [newline]\<rparr>;
                (out, status) = preprocess E st
            in if status \<noteq> 0 then (Inl Macro_Processing_Error, st) else (Inr (first_line out), st)))"

section \<open>Sequences of lines\<close>

primrec expand_lines :: "macro_env \<Rightarrow> string list \<Rightarrow> macro_state \<Rightarrow> (fshell_error + string) list \<times> macro_state" where
  "expand_lines E [] st = ([], st)"
| "expand_lines E (line # lines) st =
     (case expand E line st of (r, st) \<Rightarrow> (case expand_lines E lines st of (rs, st) \<Rightarrow> (r # rs, st)))"

text \<open>
  The definitions among the lines that the preprocessor accepts after the ones before them.
\<close>

definition accepts_definition :: "macro_env \<Rightarrow> string \<Rightarrow> string \<Rightarrow> bool" where
  "accepts_definition E defs cmd \<longleftrightarrow> (case run_cpp E (defs @ definition_line cmd) defs of (out, err, status) \<Rightarrow> err = [] \<and> status = 0)"

primrec accepted :: "macro_env \<Rightarrow> string \<Rightarrow> string list \<Rightarrow> string list" where
  "accepted E defs [] = []"
| "accepted E defs (line # lines) =
     (let cmd = dropWhile is_space line
      in if cmd \<noteq> [] \<and> hd cmd = CHR ''#'' \<and> is_define cmd \<and> accepts_definition E defs cmd
         then definition_line cmd # accepted E (defs @ definition_line cmd) lines
         else accepted E defs lines)"

lemma preprocess_status:
  "snd (preprocess E (st\<lparr>checkfile := text\<rparr>)) = 0 \<longleftrightarrow> (case run_cpp E text (deffile st) of (out, err, status) \<Rightarrow> err = [] \<and> status = 0)"
  by (simp add: preprocess_def split: prod.split)

lemma expand_definition:
  assumes "cmd = dropWhile is_space line" "cmd \<noteq> []" "hd cmd = CHR ''#''" "is_define cmd"
  shows "deffile (snd (expand E line st)) = deffile st @ (if accepts_definition E (deffile st) cmd then definition_line cmd else [])
    \<and> (m_has_defines (snd (expand E line st)) \<longleftrightarrow> m_has_defines st \<or> accepts_definition E (deffile st) cmd)"
  using assms(2-) preprocess_status [of E "deffile st @ definition_line cmd" st]
  by (simp add: expand_def Let_def accepts_definition_def flip: assms(1))

lemma expand_other:
  assumes "cmd = dropWhile is_space line" "\<not> (cmd \<noteq> [] \<and> hd cmd = CHR ''#'' \<and> is_define cmd)"
  shows "deffile (snd (expand E line st)) = deffile st \<and> m_has_defines (snd (expand E line st)) = m_has_defines st"
proof (cases "cmd \<noteq> [] \<and> hd cmd = CHR ''#'' \<or> \<not> m_has_defines st")
  case True
  then show ?thesis using assms(2) by (auto simp: expand_def Let_def simp flip: assms(1))
next
  case False
  then show ?thesis by (auto simp: expand_def Let_def split: prod.split simp flip: assms(1))
qed


end
