(* ===== verification/Fshell_Driver.thy ===== *)
theory Fshell_Driver
  imports Normalization Multiple_Coverage Macro_Processing
begin

text \<open>
  The driver (\<open>src/fshell2/main/fshell2.cpp\<close>): a line is a control command, a macro definition
  or a query; a query is parsed, the program prepared and checked for failing assertions, the query
  normalized and answered with test suites.

  Parameters are what lies outside: the generated query parser, CBMC's bounded model checker and
  symbolic execution (which turn the program and the normalized query into clauses and goals), the
  output file, and those of the components. \<open>None\<close> as result stands for an answer that does not
  end.
\<close>

section \<open>State\<close>

record 'l equation =
  eq_cnf :: "'l list list"
  eq_goals :: "'l list list"
  eq_bv_map :: "(string \<times> 'l list) list"
  eq_coverage :: "assignment \<Rightarrow> nat list option"

record ('f, 'x, 'g, 'e, 'l) driver_lib =
  cmd_ops :: "('f, 'x, 'g) cmd_lib"
  macro_ops :: macro_env
  sat_ops :: "'l sat_lib"
  parse_query :: "string \<Rightarrow> 'e ast_heap \<Rightarrow> 'e fql_node option \<times> 'e ast_heap"
  bmc_run :: "'x symbol_table \<Rightarrow> 'g goto_functions \<Rightarrow> bool"
  outfile :: string
  can_append :: "string \<Rightarrow> bool"
  compute_goals :: "'x symbol_table \<Rightarrow> 'g goto_functions \<Rightarrow> 'e fql_node \<Rightarrow> fshell_error + 'l equation"
  sat_coverage_check :: bool
  internal_coverage_check :: bool

record ('f, 'x, 'g, 'e) driver_state =
  m_cmd :: "('f, 'x, 'g) cmd_state"
  m_macro :: macro_state
  ast :: "'e ast_heap"
  m_first_run :: bool

type_synonym query_answer = "(fshell_error + coverage_round list) option"

section \<open>Queries\<close>

text \<open>The end of the life of the query.\<close>

definition query_cleanup :: "'e::linorder fql_node \<Rightarrow> ('f, 'x, 'g, 'e) driver_state \<Rightarrow> ('f, 'x, 'g, 'e) driver_state" where
  "query_cleanup q st = st\<lparr>ast := snd (destroy q (ast st))\<rparr>"

text \<open>Normalization, computation of the test goals, and the rounds; the symbol table is restored.\<close>

definition answer_query ::
  "('f, 'x, 'g, 'e::linorder, 'l) driver_lib \<Rightarrow> 'e fql_node \<Rightarrow> ('f, 'x, 'g, 'e) driver_state
    \<Rightarrow> query_answer \<times> ('f, 'x, 'g, 'e) driver_state" where
  "answer_query D q st =
     (if outfile D \<noteq> [] \<and> outfile D \<noteq> ''-'' \<and> \<not> can_append D (outfile D) then (Some (Inl FShell2_Error), query_cleanup q st)
      else
        case normalize q \<lparr>nodes = ast st, ptr = (\<lambda>r. None)\<rparr> of
          (m, ns) \<Rightarrow>
            (let st = st\<lparr>ast := nodes ns\<rparr>
             in (case compute_goals D (symbols (m_cmd st)) (function_map (m_cmd st)) m of
                   Inl e \<Rightarrow> Some (Inl e)
                 | Inr eq \<Rightarrow>
                     map_option Inr (coverage_rounds (sat_ops D) (eq_bv_map eq) (eq_goals eq) (eq_coverage eq)
                       (sat_coverage_check D) (internal_coverage_check D) (opt_limit (m_cmd st)) (opt_multiple_coverage (m_cmd st))
                       (eq_cnf eq) []),
                 query_cleanup m st)))"

text \<open>The check for failing assertions, which is made when the program has changed and in the first run.\<close>

definition checked_answer ::
  "('f, 'x, 'g, 'e::linorder, 'l) driver_lib \<Rightarrow> 'e fql_node \<Rightarrow> ('f, 'x, 'g, 'e) driver_state
    \<Rightarrow> query_answer \<times> ('f, 'x, 'g, 'e) driver_state" where
  "checked_answer D q st =
     (case finalize (cmd_ops D) (m_cmd st) of
        (Inl e, c) \<Rightarrow> (Some (Inl e), query_cleanup q (st\<lparr>m_cmd := c\<rparr>))
      | (Inr modified, c) \<Rightarrow>
          (let st = st\<lparr>m_cmd := c\<rparr>
           in if modified \<or> m_first_run st
              then (if bmc_run D (symbols c) (function_map c) then (Some (Inl FShell2_Error), query_cleanup q st)
                    else answer_query D q (st\<lparr>m_first_run := False\<rparr>))
              else answer_query D q st))"

definition try_query ::
  "('f, 'x, 'g, 'e::linorder, 'l) driver_lib \<Rightarrow> string \<Rightarrow> ('f, 'x, 'g, 'e) driver_state
    \<Rightarrow> query_answer \<times> ('f, 'x, 'g, 'e) driver_state" where
  "try_query D line st =
     (case expand (macro_ops D) line (m_macro st) of
        (Inl e, ms) \<Rightarrow> (Some (Inl e), st\<lparr>m_macro := ms\<rparr>)
      | (Inr query, ms) \<Rightarrow>
          (let st = st\<lparr>m_macro := ms\<rparr>
           in if query = [] then (Some (Inr []), st)
              else case parse_query D query (ast st) of
                (None, h) \<Rightarrow> (Some (Inl Query_Processing_Error), st\<lparr>ast := h\<rparr>)
              | (Some q, h) \<Rightarrow> checked_answer D q (st\<lparr>ast := h\<rparr>)))"

section \<open>Lines and sessions\<close>

datatype line_result = Quit_Session | Printed_Help | Command_Done | Answered "coverage_round list"

definition process_line ::
  "('f, 'x, 'g, 'e::linorder, 'l) driver_lib \<Rightarrow> os_env \<Rightarrow> string \<Rightarrow> ('f, 'x, 'g, 'e) driver_state
    \<Rightarrow> string \<times> (fshell_error + line_result) option \<times> ('f, 'x, 'g, 'e) driver_state" where
  "process_line D env line st =
     (case process (cmd_ops D) env line (m_cmd st) of
        (out, r, c) \<Rightarrow>
          (let st = st\<lparr>m_cmd := c\<rparr>
           in case r of
                Inl e \<Rightarrow> (out, Some (Inl e), st)
              | Inr QUIT \<Rightarrow> (out, Some (Inr Quit_Session), st)
              | Inr HELP \<Rightarrow> (out, Some (Inr Printed_Help), st)
              | Inr DONE \<Rightarrow> (out, Some (Inr Command_Done), st)
              | Inr NO_CONTROL_COMMAND \<Rightarrow>
                  (case try_query D line st of
                     (a, st) \<Rightarrow> (out, map_option (map_sum id Answered) a, st))))"

text \<open>The exceptions that the interactive loop reports and survives.\<close>

definition caught :: "fshell_error \<Rightarrow> bool" where
  "caught e \<longleftrightarrow> e \<in> {Command_Processing_Error, Macro_Processing_Error, Query_Processing_Error, FShell2_Error}"

text \<open>
  The interactive loop ends with the end of the input (\<open>None\<close>), the command to quit, any other
  exception, or in an answer that does not end.
\<close>

primrec interactive ::
  "('f, 'x, 'g, 'e::linorder, 'l) driver_lib \<Rightarrow> (os_env \<times> string option) list \<Rightarrow> ('f, 'x, 'g, 'e) driver_state
    \<Rightarrow> (string \<times> (fshell_error + line_result) option) list \<times> ('f, 'x, 'g, 'e) driver_state" where
  "interactive D [] st = ([], st)"
| "interactive D (i # is) st =
     (case snd i of
        None \<Rightarrow> ([], st)
      | Some line \<Rightarrow>
          (case process_line D (fst i) line st of
             (out, r, st) \<Rightarrow>
               if r = None \<or> r = Some (Inr Quit_Session) \<or> (\<exists>e. r = Some (Inl e) \<and> \<not> caught e) then ([(out, r)], st)
               else (case interactive D is st of (rs, st) \<Rightarrow> ((out, r) # rs, st))))"

section \<open>Reachable states\<close>

text \<open>A session starts with a program that is not prepared and a consistent heap.\<close>

inductive reachable :: "('f, 'x, 'g, 'e::linorder, 'l) driver_lib \<Rightarrow> ('f, 'x, 'g, 'e) driver_state \<Rightarrow> bool" for D where
  start: "\<not> m_finalized (m_cmd st) \<Longrightarrow> heap_inv (\<lambda>n. 0) (ast st) \<Longrightarrow> reachable D st"
| line: "reachable D st \<Longrightarrow> process_line D env line st = (out, r, st') \<Longrightarrow> reachable D st'"

lemma interactive_reachable: "reachable D st \<Longrightarrow> interactive D is st = (rs, st') \<Longrightarrow> reachable D st'"
proof (induction "is" arbitrary: st rs)
  case (Cons i "is")
  show ?case
  proof (cases "snd i")
    case None
    then show ?thesis using Cons.prems by simp
  next
    case (Some line)
    obtain out r st1 where p: "process_line D (fst i) line st = (out, r, st1)" by (metis prod_cases3)
    have "reachable D st1" by (rule reachable.line [OF Cons.prems(1) p])
    then show ?thesis using Cons.IH [of st1] Cons.prems(2) Some p by (auto split: if_splits prod.splits)
  qed
qed simp

text \<open>The prepared program is what the last preparation has made of it.\<close>

definition prepared :: "('f, 'x, 'g) cmd_lib \<Rightarrow> ('f, 'x, 'g) cmd_state \<Rightarrow> bool" where
  "prepared L c \<longleftrightarrow> (\<exists>c0 c1. \<not> m_finalized c0 \<and> finalize L c0 = (Inr True, c1) \<and> program c = program c1)"

text \<open>The query parser hands over queries that are in use in a consistent heap.\<close>

definition parses_queries :: "('f, 'x, 'g, 'e::linorder, 'l) driver_lib \<Rightarrow> bool" where
  "parses_queries D \<longleftrightarrow> (\<forall>text h r h'. heap_inv (\<lambda>n. 0) h \<longrightarrow> parse_query D text h = (r, h') \<longrightarrow> heap_inv (\<lambda>n. 0) h'
     \<and> (\<forall>q. r = Some q \<longrightarrow> q \<in> live h' \<and> well_typed q \<and> plain q \<and> (\<exists>p c y. q = Query p None c y)))"

text \<open>What a step of the driver does to the program and to the heap.\<close>

definition keeps :: "('f, 'x, 'g, 'e::linorder, 'l) driver_lib \<Rightarrow> ('f, 'x, 'g, 'e) driver_state \<Rightarrow> bool" where
  "keeps D st \<longleftrightarrow> heap_inv (\<lambda>n. 0) (ast st) \<and> (m_finalized (m_cmd st) \<longrightarrow> prepared (cmd_ops D) (m_cmd st))"

lemma keeps_cleanup: "keeps D st \<Longrightarrow> q \<in> live (ast st) \<Longrightarrow> keeps D (query_cleanup q st)"
  using destroy_inv_aux [of "\<lambda>n. 0" "ast st" q] by (simp add: keeps_def query_cleanup_def)

lemma answer_query_keeps:
  assumes st: "keeps D st" and q: "q \<in> live (ast st)" "q = Query p None c y" "well_typed q" "plain q"
  shows "keeps D (snd (answer_query D q st)) \<and> m_cmd (snd (answer_query D q st)) = m_cmd st"
proof (cases "outfile D \<noteq> [] \<and> outfile D \<noteq> ''-'' \<and> \<not> can_append D (outfile D)")
  case True
  then show ?thesis using keeps_cleanup [OF st q(1)] by (simp add: answer_query_def query_cleanup_def)
next
  case False
  obtain m ns where n: "normalize q \<lparr>nodes = ast st, ptr = (\<lambda>r. None)\<rparr> = (m, ns)" by fastforce
  have inv: "heap_inv (\<lambda>n. 0) (ast st)" using st by (simp add: keeps_def)
  have ns: "heap_inv (\<lambda>n. 0) (nodes ns)" "m \<in> live (nodes ns)" using normalize_ok [OF inv q n] by blast+
  have "keeps D (st\<lparr>ast := nodes ns\<rparr>)" using st ns(1) by (simp add: keeps_def)
  then have "keeps D (query_cleanup m (st\<lparr>ast := nodes ns\<rparr>))" by (rule keeps_cleanup) (simp add: ns(2))
  then show ?thesis unfolding answer_query_def if_not_P [OF False] by (simp add: Let_def query_cleanup_def n)
qed

lemma finalize_prepared:
  assumes "finalize L c0 = (r, c)" "m_finalized c0 \<longrightarrow> prepared L c0"
  shows "m_finalized c \<longrightarrow> prepared L c"
proof (cases "r = Inr True")
  case True
  then have "\<not> m_finalized c0" using assms(1) by (auto simp: finalize_def split: if_splits)
  then show ?thesis using assms(1) True unfolding prepared_def by blast
next
  case False
  then show ?thesis using finalize_again [OF assms(1)] assms(2) by simp
qed

lemma checked_answer_keeps:
  assumes st: "keeps D st" and q: "q \<in> live (ast st)" "q = Query p None c y" "well_typed q" "plain q"
  shows "keeps D (snd (checked_answer D q st))"
proof -
  obtain r d where f: "finalize (cmd_ops D) (m_cmd st) = (r, d)" by fastforce
  have d: "keeps D (st\<lparr>m_cmd := d\<rparr>)" "keeps D (st\<lparr>m_cmd := d, m_first_run := False\<rparr>)"
    using finalize_prepared [OF f] st by (simp_all add: keeps_def)
  have a: "keeps D (snd (answer_query D q st'))" if "keeps D st'" "ast st' = ast st" for st'
    using answer_query_keeps [OF that(1) _ q(2-4)] that(2) q(1) by simp
  show ?thesis
    using d(1) keeps_cleanup [OF d(1), of q] a [OF d(1)] a [OF d(2)] q(1)
    by (cases r) (auto simp: checked_answer_def f Let_def)
qed

lemma try_query_keeps:
  assumes st: "keeps D st" and D: "parses_queries D"
  shows "keeps D (snd (try_query D line st))"
proof -
  obtain r ms where e: "expand (macro_ops D) line (m_macro st) = (r, ms)" by fastforce
  let ?st = "st\<lparr>m_macro := ms\<rparr>"
  have ms: "keeps D ?st" using st by (simp add: keeps_def)
  show ?thesis
  proof (cases "\<exists>query. r = Inr query \<and> query \<noteq> []")
    case False
    then show ?thesis using ms by (cases r) (auto simp: try_query_def e)
  next
    case True
    then obtain query where query: "r = Inr query" "query \<noteq> []" by blast
    obtain o' h where p: "parse_query D query (ast st) = (o', h)" by fastforce
    have h: "keeps D (?st\<lparr>ast := h\<rparr>)" and q: "\<And>q. o' = Some q \<Longrightarrow> q \<in> live h \<and> well_typed q \<and> plain q \<and> (\<exists>p c y. q = Query p None c y)"
      using D [unfolded parses_queries_def, rule_format, OF _ p] ms by (simp_all add: keeps_def)
    show ?thesis
    proof (cases o')
      case None
      then show ?thesis using h query by (simp add: try_query_def e p)
    next
      case (Some q')
      then obtain p' c y where q': "q' \<in> live h" "q' = Query p' None c y" "well_typed q'" "plain q'" using q by blast
      have "keeps D (snd (checked_answer D q' (?st\<lparr>ast := h\<rparr>)))" by (rule checked_answer_keeps [OF h _ q'(2-4)]) (simp add: q'(1))
      then show ?thesis using query by (simp add: try_query_def e p Some)
    qed
  qed
qed

lemma process_line_keeps:
  assumes st: "keeps D st" and D: "parses_queries D" "typecheck_atomic (cmd_ops D)"
    and step: "process_line D env line st = (out, r, st')"
  shows "keeps D st'"
proof -
  obtain s_out s c where p: "process (cmd_ops D) env line (m_cmd st) = (s_out, s, c)" by (metis prod_cases3)
  have c: "keeps D (st\<lparr>m_cmd := c\<rparr>)"
    using process_program [OF D(2) p] st by (auto simp: keeps_def prepared_def)
  then have "keeps D (snd (try_query D line (st\<lparr>m_cmd := c\<rparr>)))" by (rule try_query_keeps [OF _ D(1)])
  then show ?thesis using step c by (auto simp: process_line_def p Let_def split: sum.splits cmd_status.splits prod.splits)
qed

lemma reachable_keeps: "reachable D st \<Longrightarrow> parses_queries D \<Longrightarrow> typecheck_atomic (cmd_ops D) \<Longrightarrow> keeps D st"
proof (induction rule: reachable.induct)
  case (start st)
  then show ?case by (simp add: keeps_def)
next
  case (line st env line out r st')
  then show ?case using process_line_keeps by blast
qed

section \<open>An example\<close>

text \<open>
  A library for the examples: commands are recognized by their first letter, a file contributes one
  function with its name, a query is any text that starts with \<open>c\<close>, and every program has a
  failing assertion. The program has one variable, whose two values are the test goals.
\<close>

definition sample_parse_command :: "string \<Rightarrow> command option" where
  "sample_parse_command text =
     (if take 4 text = ''add '' then Some \<lparr>parsed_cmd = CMD_ADD_SOURCECODE, arg = drop 4 text, numeric_arg = - 1, new_defines = []\<rparr>
      else None)"

definition sample_cmd_lib :: "(unit, unit, unit) cmd_lib" where
  "sample_cmd_lib = \<lparr>parse_command = sample_parse_command,
     parse_file = (\<lambda>defs file. (file = [], [(file, ())])),
     typecheck_files = (\<lambda>files syms. (False, map (\<lambda>(file, _). (file, \<lparr>is_code = True, sym_value = Some []\<rparr>)) files @ syms)),
     entry_point = (\<lambda>main syms. (False, (''_start'', \<lparr>is_code = True, sym_value = Some []\<rparr>) # syms)),
     model_argv = (\<lambda>n syms. syms),
     convert_function = (\<lambda>name (syms, gf). (syms, gf(name \<mapsto> Some ()))),
     remove_function_pointers = id, goto_partial_inline = id, goto_check = id, add_failed_symbols = id, update_numbers = id,
     compute_loop_numbers = id, max_argc = 0\<rparr>"

definition sample_query_parser :: "string \<Rightarrow> int ast_heap \<Rightarrow> int fql_node option \<times> int ast_heap" where
  "sample_query_parser text h =
     (if take 1 text = ''c'' then
        (case create_like (Filter_Function 0 F_LINE 7 []) h of (f, h) \<Rightarrow>
         case create_like (Edgecov 0 f) h of (e, h) \<Rightarrow>
         case create_like (Query 0 None e None) h of (q, h) \<Rightarrow> (Some q, h))
      else (None, h))"

definition sample_env :: os_env where
  "sample_env = \<lparr>time_now = 0, stat_mtime = Map.empty, file_contents = Map.empty\<rparr>"

definition sample_driver :: "(unit, unit, unit, int, formula) driver_lib" where
  "sample_driver = \<lparr>cmd_ops = sample_cmd_lib, macro_ops = \<lparr>run_cpp = (\<lambda>c d. ([], [], 0)), m_deffilename = ''defs''\<rparr>,
     sat_ops = formula_lib, parse_query = sample_query_parser, bmc_run = (\<lambda>syms gf. True),
     outfile = [], can_append = (\<lambda>name. True),
     compute_goals = (\<lambda>syms gf q. Inr \<lparr>eq_cnf = [], eq_goals = [[P_Var 0], [P_Not (P_Var 0)]], eq_bv_map = [(''x'', [P_Var 0])], eq_coverage = (\<lambda>\<alpha>. None)\<rparr>),
     sat_coverage_check = True, internal_coverage_check = False\<rparr>"

definition sample_session :: "(unit, unit, unit, int) driver_state" where
  "sample_session = \<lparr>m_cmd = \<lparr>config_main = ''main'', ansi_defines = [], opt_limit = 0, opt_multiple_coverage = 1, filemap = [], symbols = [],
       function_map = Map.empty, m_parse_time = Map.empty, m_finalized = False, m_remove_zero_init = False\<rparr>,
     m_macro = init_macro, ast = empty_heap, m_first_run = False\<rparr>"

lemma sample_driver_ok: "parses_queries sample_driver" "typecheck_atomic (cmd_ops sample_driver)"
proof -
  show "typecheck_atomic (cmd_ops sample_driver)" by (simp add: typecheck_atomic_def sample_driver_def sample_cmd_lib_def)
  show "parses_queries sample_driver"
    unfolding parses_queries_def
  proof (intro allI impI)
    fix line r and h h' :: "int ast_heap"
    assume h: "heap_inv (\<lambda>n. 0) h" and run: "parse_query sample_driver line h = (r, h')"
    show "heap_inv (\<lambda>n. 0) h' \<and> (\<forall>q. r = Some q \<longrightarrow> q \<in> live h' \<and> well_typed q \<and> plain q \<and> (\<exists>p c y. q = Query p None c y))"
    proof (cases "take 1 line = ''c''")
      case False
      then show ?thesis using run h by (simp add: sample_driver_def sample_query_parser_def)
    next
      case True
      obtain f h1 where 1: "create_like (Filter_Function 0 F_LINE 7 []) h = (f, h1)" by fastforce
      obtain e h2 where 2: "create_like (Edgecov 0 f) h1 = (e, h2)" by fastforce
      obtain q h3 where 3: "create_like (Query 0 None e None) h2 = (q, h3)" by fastforce
      have res: "r = Some q" "h' = h3" using run True by (simp_all add: sample_driver_def sample_query_parser_def 1 2 3)
      have c1: "heap_inv (\<lambda>_. 0) h1" "f \<in> live h1" "key f = key (Filter_Function 0 F_LINE 7 [])"
        using create_like_created [OF h _ _ 1] by (auto simp: created_def negated_class_def)
      have c2: "heap_inv (\<lambda>_. 0) h2" "e \<in> live h2" "key e = key (Edgecov 0 f)"
        using create_like_created [OF c1(1) _ _ 2] c1(2) by (auto simp: created_def negated_class_def)
      have c3: "heap_inv (\<lambda>_. 0) h3" "q \<in> live h3" "key q = key (Query 0 None e None)"
        using create_like_created [OF c2(1) _ _ 3] c2(2) by (auto simp: created_def negated_class_def)
      have "well_typed q" using key_same(4) [OF c1(3)] key_same(4) [OF c2(3)] key_same(4) [OF c3(3)] key_kinds(1) [OF c1(3)] key_kinds(4) [OF c2(3)]
        by (simp add: is_defs)
      moreover have "plain q" using key_plain [OF c1(3)] key_plain [OF c2(3)] key_plain [OF c3(3)]
        plain_iff [of "Filter_Function 0 F_LINE 7 []"] plain_iff [of "Edgecov 0 f"] plain_iff [of "Query 0 None e None"]
        by (simp add: negated_class_def)
      moreover obtain p where "q = Query p None e None" using key_with_addr [OF c3(3)] by simp
      ultimately show ?thesis using c3(1,2) res by simp
    qed
  qed
qed

section \<open>Properties\<close>




definition sample_loaded :: "(unit, unit, unit, int) driver_state" where
  "sample_loaded = snd (snd (process_line sample_driver sample_env ''add main'' sample_session))"

lemma sample_loaded_simps:
  "m_cmd sample_loaded = \<lparr>config_main = ''main'', ansi_defines = [], opt_limit = 0, opt_multiple_coverage = 1, filemap = [(''main'', ())],
     symbols = [(''main'', \<lparr>is_code = True, sym_value = Some []\<rparr>)],
     function_map = Map.empty, m_parse_time = [''main'' \<mapsto> 0], m_finalized = False, m_remove_zero_init = False\<rparr>"
  "m_macro sample_loaded = init_macro" "\<not> m_first_run sample_loaded"
proof -
  have d: "dropWhile is_space ''add main'' = ''add main''" by code_simp
  show "m_cmd sample_loaded = \<lparr>config_main = ''main'', ansi_defines = [], opt_limit = 0, opt_multiple_coverage = 1, filemap = [(''main'', ())],
     symbols = [(''main'', \<lparr>is_code = True, sym_value = Some []\<rparr>)],
     function_map = Map.empty, m_parse_time = [''main'' \<mapsto> 0], m_finalized = False, m_remove_zero_init = False\<rparr>"
    "m_macro sample_loaded = init_macro" "\<not> m_first_run sample_loaded"
    unfolding sample_loaded_def process_line_def process_def d Let_def
    by (simp_all add: sample_env_def sample_driver_def sample_cmd_lib_def sample_session_def sample_parse_command_def execute_def add_sourcecode_def
      map_insert_range_def Let_def)
qed

lemma answer_query_result:
  assumes "outfile D = []" "\<And>syms gf q. compute_goals D syms gf q = Inr eq"
    "coverage_rounds (sat_ops D) (eq_bv_map eq) (eq_goals eq) (eq_coverage eq) (sat_coverage_check D) (internal_coverage_check D)
      (opt_limit (m_cmd st)) (opt_multiple_coverage (m_cmd st)) (eq_cnf eq) [] = Some rounds"
  shows "fst (answer_query D q st) = Some (Inr rounds)"
  by (simp add: answer_query_def assms Let_def split_beta)

lemma sample_rounds:
  "\<exists>rounds. coverage_rounds formula_lib [(''x'', [P_Var 0])] [[P_Var 0], [P_Not (P_Var 0)]] (\<lambda>\<alpha>. None) True False 0 1 [] [] = Some rounds
     \<and> map (\<lambda>(suite, unsat, msgs). map fst suite) rounds = [[[1], [0]]]"
proof -
  have "map_option (map (\<lambda>(suite, unsat, msgs). map fst suite))
      (coverage_rounds formula_lib [(''x'', [P_Var 0])] [[P_Var 0], [P_Not (P_Var 0)]] (\<lambda>\<alpha>. None) True False 0 1 [] []) = Some [[[1], [0]]]"
    by code_simp
  then show ?thesis by blast
qed


end
