(* ===== verification/Spec2Isabelle.thy ===== *)
theory Spec2Isabelle
  imports Fql_Node_Factory Path_Pattern Evaluate_Filter Test_Suite_Minimization Constraint_Strengthening Goal_Analysis Encoding_Exact Coverage_Pattern Fshell_Driver
begin

text \<open>
  FShell2: a query-driven test generator for C programs on top of CBMC (\<open>src/fshell2\<close>).
\<close>

section \<open>From a query and a program to automata over sets of edges\<close>

text \<open>
  The words of sets of control flow edges a path pattern without predicates and paths denotes;
  a node pattern contributes a graph without edges.
\<close>

fun edge_words :: "goto_functionst \<Rightarrow> 'e fql_node \<Rightarrow> cfa_edge set list set" where
  "edge_words gf (Edgecov p f) = {[filter_edges gf (compute_edges gf) f]}"
| "edge_words gf (Nodecov p f) = {[{}]}"
| "edge_words gf (PP_Alternative p a b) = edge_words gf a \<union> edge_words gf b"
| "edge_words gf (PP_Concat p a b) = conc (edge_words gf a) (edge_words gf b)"
| "edge_words gf (Repeat p q l u) =
     (if u = - 1 then \<Union>n\<in>{nat l..}. lpow (edge_words gf q) n else \<Union>n\<in>{nat l..nat u}. lpow (edge_words gf q) n)"
| "edge_words gf n = {}"

abbreviation edges_of :: "cfa \<Rightarrow> cfa_edge set" where
  "edges_of g \<equiv> set (m_edges g)"

lemma pp_lang_edges:
  "\<lbrakk>predicate_free n; \<forall>f\<in>top_filters n. edges_of (F (node_addr f)) = filter_edges gf (compute_edges gf) f\<rbrakk>
    \<Longrightarrow> map edges_of ` pp_lang F n = edge_words gf n"
proof (induction n)
  case (Repeat p q l u)
  then have "map edges_of ` pp_lang F q = edge_words gf q" by simp
  then show ?case by (simp add: image_UN map_lpow)
qed (auto simp: map_conc image_Un)

lemma cover_patterns:
  "n \<in> cp_tops cover \<Longrightarrow> predicate_free cover \<Longrightarrow> predicate_free n \<and> top_filters n \<subseteq> top_filters cover"
  by (induction cover) auto


definition composed_env :: "filter_state \<Rightarrow> lnfa pp_env" where
  "composed_env st = \<lparr>env_astl = list_astl, env_filter = (\<lambda>a. the (m_filter_map st a)),
     env_successors = (\<lambda>n. []), env_ignore = (\<lambda>t. False), env_fuel = 0\<rparr>"


end
